(* ===== verification/Ev_Prelude.thy ===== *)
theory Ev_Prelude
  imports Main "HOL-Library.Word" "HOL-Library.Multiset" "HOL-Library.Monad_Syntax"
begin

unbundle bit_operations_syntax

text \<open>
  Shared vocabulary of the development: the integer types of include/common.h, C arrays as
  lists whose accesses fail out of bounds, and the block distribution of work over threads
  that several components use.
\<close>

subsection \<open>Types and collections\<close>

type_synonym u8 = "8 word"
type_synonym u16 = "16 word"
type_synonym u32 = "32 word"
type_synonym u64 = "64 word"

text \<open>A user space virtual address; the null pointer of an optional argument is \<open>None\<close>.\<close>

type_synonym addr = "64 word"

named_theorems arr_simps \<open>accesses to C arrays that are in bounds\<close>
named_theorems perm_simps \<open>array operations that permute their array\<close>

subsection \<open>Machine words\<close>

lemma unat_2p: "k < LENGTH('a) \<Longrightarrow> unat (2 ^ k :: 'a::len word) = 2 ^ k"
  using unat_of_nat [where ?'a = 'a, of "2 ^ k"] by (simp add: take_bit_nat_eq_self)

lemma unat_ucast_up:
  assumes "LENGTH('a::len) \<le> LENGTH('b::len)"
  shows "unat (ucast (w :: 'a word) :: 'b word) = unat w"
proof -
  have "unat w < 2 ^ LENGTH('a)" using unsigned_less [where ?'a = nat, of w] .
  also have "\<dots> \<le> 2 ^ LENGTH('b)" using assms by simp
  finally show ?thesis by (simp add: unsigned_ucast_eq take_bit_nat_eq_self)
qed

lemma unat_ucast_small:
  "unat w < 2 ^ LENGTH('b) \<Longrightarrow> unat (ucast (w :: 'a::len word) :: 'b::len word) = unat w"
  by (simp add: unsigned_ucast_eq take_bit_nat_eq_self)

lemma unat_add_small:
  "unat v + unat w < 2 ^ LENGTH('a) \<Longrightarrow> unat (v + w :: 'a::len word) = unat v + unat w"
  by (simp add: unat_word_ariths(1))

lemma unat_diff_small: "w \<le> v \<Longrightarrow> unat (v - w :: 'a::len word) = unat v - unat w"
  by (rule unat_sub)

subsection \<open>C arrays\<close>

text \<open>
  An array is a list. Reading or writing outside of it is undefined behaviour in C, which
  is the result \<open>None\<close> here: a theorem that an operation returns \<open>Some\<close> is a theorem
  that all its accesses are in bounds.
\<close>

definition arr_get :: "'a list \<Rightarrow> nat \<Rightarrow> 'a option" where
  "arr_get xs i = (if i < length xs then Some (xs ! i) else None)"

definition arr_set :: "'a list \<Rightarrow> nat \<Rightarrow> 'a \<Rightarrow> 'a list option" where
  "arr_set xs i v = (if i < length xs then Some (xs[i := v]) else None)"

text \<open>\<open>_swap(xs[i], xs[j])\<close>\<close>

definition arr_swap :: "'a list \<Rightarrow> nat \<Rightarrow> nat \<Rightarrow> 'a list option" where
  "arr_swap xs i j =
     (if i < length xs \<and> j < length xs then Some (xs[i := xs ! j, j := xs ! i]) else None)"

text \<open>The elements \<open>xs[lo], \<dots>, xs[hi - 1]\<close>, as a callee reads them.\<close>

definition arr_range :: "'a list \<Rightarrow> nat \<Rightarrow> nat \<Rightarrow> 'a list option" where
  "arr_range xs lo hi =
     (if lo \<le> hi \<and> hi \<le> length xs then Some (drop lo (take hi xs)) else None)"

text \<open>\<open>memcpy(dst, src, n)\<close> on arrays of the same element type.\<close>

definition arr_copy :: "'a list \<Rightarrow> 'a list \<Rightarrow> nat \<Rightarrow> 'a list option" where
  "arr_copy dst src n =
     (if n \<le> length dst \<and> n \<le> length src then Some (take n src @ drop n dst) else None)"

lemma arr_get_Some [arr_simps]: "i < length xs \<Longrightarrow> arr_get xs i = Some (xs ! i)"
  by (simp add: arr_get_def)

lemma arr_set_Some [arr_simps]: "i < length xs \<Longrightarrow> arr_set xs i v = Some (xs[i := v])"
  by (simp add: arr_set_def)

lemma arr_swap_Some [arr_simps]:
  "i < length xs \<Longrightarrow> j < length xs \<Longrightarrow> arr_swap xs i j = Some (xs[i := xs ! j, j := xs ! i])"
  by (simp add: arr_swap_def)

lemma arr_range_Some [arr_simps]:
  "lo \<le> hi \<Longrightarrow> hi \<le> length xs \<Longrightarrow> arr_range xs lo hi = Some (drop lo (take hi xs))"
  by (simp add: arr_range_def)

lemma arr_copy_Some [arr_simps]:
  "n \<le> length dst \<Longrightarrow> n \<le> length src \<Longrightarrow> arr_copy dst src n = Some (take n src @ drop n dst)"
  by (simp add: arr_copy_def)

lemma arr_copy_take: "arr_copy dst src n = Some xs \<Longrightarrow> take n xs = take n src"
  by (auto simp: arr_copy_def split: if_splits)

lemma arr_swap_mset [perm_simps]: "arr_swap xs i j = Some ys \<Longrightarrow> mset ys = mset xs"
  by (auto simp: arr_swap_def mset_update nth_list_update split: if_splits)

lemma arr_swap_length [perm_simps]: "arr_swap xs i j = Some ys \<Longrightarrow> length ys = length xs"
  by (auto simp: arr_swap_def split: if_splits)

lemma arr_swap_set: "arr_swap xs i j = Some ys \<Longrightarrow> set ys = set xs"
  using arr_swap_mset mset_eq_setD by blast

lemma arr_swap_distinct: "arr_swap xs i j = Some ys \<Longrightarrow> distinct ys = distinct xs"
  using arr_swap_mset mset_eq_imp_distinct_iff by blast

lemma arr_swap_take:
  assumes "arr_swap xs i j = Some ys" and "i < k" and "j < k"
  shows "mset (take k ys) = mset (take k xs)"
proof -
  have b: "i < length xs" "j < length xs" and ys: "ys = xs[i := xs ! j, j := xs ! i]"
    using assms(1) by (auto simp: arr_swap_def split: if_splits)
  have "take k ys = (take k xs)[i := take k xs ! j, j := take k xs ! i]"
    using assms(2,3) by (simp add: ys take_update_swap)
  then have "arr_swap (take k xs) i j = Some (take k ys)"
    using assms(2,3) b by (simp add: arr_swap_def)
  then show ?thesis
    by (rule arr_swap_mset)
qed

lemma arr_swap_take_below:
  "arr_swap xs i j = Some ys \<Longrightarrow> k \<le> i \<Longrightarrow> k \<le> j \<Longrightarrow> take k ys = take k xs"
  by (auto simp: arr_swap_def take_update_cancel split: if_splits)

lemma arr_swap_extends:
  assumes "arr_swap xs i l = Some ys" "i \<le> l"
  shows "take (i + 1) ys = take i xs @ [xs ! l]"
proof -
  have b: "i < length xs" "l < length xs" "ys = xs[i := xs ! l, l := xs ! i]"
    using assms(1) by (auto simp: arr_swap_def split: if_splits)
  have "take i ys = take i xs" using b assms(2) by (simp add: take_update_cancel)
  moreover have "ys ! i = xs ! l" using b assms(2) by (cases "i = l") auto
  ultimately show ?thesis using b by (simp add: take_Suc_conv_app_nth)
qed

text \<open>\<open>ys\<close> is \<open>xs\<close> with its first \<open>n\<close> elements in another order.\<close>

definition perm_upto :: "nat \<Rightarrow> 'a list \<Rightarrow> 'a list \<Rightarrow> bool" where
  "perm_upto n xs ys \<longleftrightarrow>
     length ys = length xs \<and> mset (take n ys) = mset (take n xs) \<and> drop n ys = drop n xs"

lemma perm_upto_refl [simp, intro]: "perm_upto n xs xs"
  by (simp add: perm_upto_def)

lemma perm_upto_trans [trans]: "perm_upto n xs ys \<Longrightarrow> perm_upto n ys zs \<Longrightarrow> perm_upto n xs zs"
  by (simp add: perm_upto_def)

lemma perm_upto_length: "perm_upto n xs ys \<Longrightarrow> length ys = length xs"
  by (simp add: perm_upto_def)

lemma perm_upto_set: "perm_upto n xs ys \<Longrightarrow> set (take n ys) = set (take n xs)"
  unfolding perm_upto_def by (metis mset_eq_setD)

lemma perm_upto_distinct_map:
  "perm_upto n xs ys \<Longrightarrow> distinct (map f (take n ys)) = distinct (map f (take n xs))"
  unfolding perm_upto_def by (metis mset_map mset_eq_imp_distinct_iff)

lemma perm_upto_filter_length:
  "perm_upto n xs ys \<Longrightarrow> length (filter P (take n ys)) = length (filter P (take n xs))"
  unfolding perm_upto_def by (metis mset_filter size_mset)

lemma perm_upto_mono:
  assumes "perm_upto k xs ys" "k \<le> n"
  shows "perm_upto n xs ys"
proof -
  have "take n zs = take k zs @ take (n - k) (drop k zs)" for zs :: "'a list"
    using assms(2) by (metis le_add_diff_inverse take_add)
  moreover have "drop n zs = drop (n - k) (drop k zs)" for zs :: "'a list"
    using assms(2) by simp
  ultimately show ?thesis using assms(1) unfolding perm_upto_def by (metis mset_append)
qed

lemma arr_swap_perm_upto:
  assumes "arr_swap xs i j = Some ys" "i < n" "j < n"
  shows "perm_upto n xs ys"
proof -
  have "ys = xs[i := xs ! j, j := xs ! i]"
    using assms(1) by (auto simp: arr_swap_def split: if_splits)
  then have "drop n ys = drop n xs" using assms(2,3) by (simp add: drop_update_cancel)
  then show ?thesis
    using arr_swap_take [OF assms] arr_swap_length [OF assms(1)] by (simp add: perm_upto_def)
qed

subsection \<open>Distribution of work in blocks\<close>

text \<open>
  The recurring loop \<open>cnt = base + (i < remainder ? 1 : 0); start = cur; end = cur + cnt;
  cur += cnt\<close>: thread \<open>i\<close> of \<open>n\<close> gets the \<open>block_len tot n i\<close> items that follow
  those of the threads before it. The list holds each thread's \<open>(start, end)\<close>.
\<close>

definition block_len :: "nat \<Rightarrow> nat \<Rightarrow> nat \<Rightarrow> nat" where
  "block_len tot n i = tot div n + (if i < tot mod n then 1 else 0)"

fun block_ranges_from :: "(nat \<Rightarrow> nat) \<Rightarrow> nat \<Rightarrow> nat list \<Rightarrow> (nat \<times> nat) list" where
  "block_ranges_from len cur [] = []"
| "block_ranges_from len cur (i # is) = (cur, cur + len i) # block_ranges_from len (cur + len i) is"

definition block_ranges :: "nat \<Rightarrow> nat \<Rightarrow> (nat \<times> nat) list" where
  "block_ranges tot n = block_ranges_from (block_len tot n) 0 [0..<n]"

text \<open>The first item of thread \<open>i\<close>.\<close>

definition block_start :: "(nat \<Rightarrow> nat) \<Rightarrow> nat \<Rightarrow> nat" where
  "block_start len i = (\<Sum>k<i. len k)"

lemma block_start_Suc [simp]: "block_start len (Suc i) = block_start len i + len i"
  by (simp add: block_start_def)

lemma block_start_0 [simp]: "block_start len 0 = 0"
  by (simp add: block_start_def)

lemma block_start_mono: "i \<le> j \<Longrightarrow> block_start len i \<le> block_start len j"
  unfolding block_start_def by (rule sum_mono2) auto

text \<open>
  What a scheme that splits work relies on: the lengths add up to the total. It follows
  that every item belongs to exactly one thread.
\<close>

locale work_split =
  fixes len :: "nat \<Rightarrow> nat" and n :: nat and tot :: nat
  assumes len_total: "(\<Sum>i<n. len i) = tot"
begin

lemma start_n: "block_start len n = tot"
  by (simp add: block_start_def len_total)

lemma covered_upto: "w < block_start len k \<Longrightarrow> \<exists>i<k. block_start len i \<le> w \<and> w < block_start len (Suc i)"
proof (induction k)
  case 0
  then show ?case by simp
next
  case (Suc k)
  show ?case
  proof (cases "w < block_start len k")
    case True
    with Suc.IH show ?thesis using less_SucI by blast
  next
    case False
    with Suc.prems show ?thesis by (intro exI [of _ k]) auto
  qed
qed

lemma covered: "w < tot \<Longrightarrow> \<exists>i<n. block_start len i \<le> w \<and> w < block_start len (Suc i)"
  using covered_upto [of w n] by (simp add: start_n)

lemma unique_owner:
  assumes "block_start len i \<le> w" "w < block_start len (Suc i)"
    and "block_start len j \<le> w" "w < block_start len (Suc j)"
  shows "i = j"
proof (rule linorder_cases [of i j])
  assume "i < j"
  then have "block_start len (Suc i) \<le> block_start len j" by (intro block_start_mono) simp
  with assms show ?thesis by simp
next
  assume "j < i"
  then have "block_start len (Suc j) \<le> block_start len i" by (intro block_start_mono) simp
  with assms show ?thesis by simp
qed

lemma exactly_one:
  "w < tot \<Longrightarrow> \<exists>!i. i < n \<and> block_start len i \<le> w \<and> w < block_start len (Suc i)"
  using covered [of w] unique_owner [of _ w] by (metis (no_types, lifting))

end

lemma block_len_sum:
  assumes "0 < n"
  shows "(\<Sum>i<n. block_len tot n i) = tot"
proof -
  have "(\<Sum>i<n. if i < tot mod n then 1 else 0 :: nat) = card {i. i < n \<and> i < tot mod n}"
    by (simp add: sum.If_cases Int_def lessThan_def)
  also have "{i. i < n \<and> i < tot mod n} = {..<tot mod n}"
    using mod_less_divisor [OF assms, of tot] by auto
  finally have "(\<Sum>i<n. block_len tot n i) = n * (tot div n) + tot mod n"
    by (simp add: block_len_def sum.distrib)
  then show ?thesis by simp
qed

lemma block_len_work_split: "0 < n \<Longrightarrow> work_split (block_len tot n) n tot"
  by unfold_locales (rule block_len_sum)

lemma block_len_balanced: "i < n \<Longrightarrow> j < n \<Longrightarrow> block_len tot n i \<le> block_len tot n j + 1"
  by (simp add: block_len_def)

lemma block_ranges_from_nth:
  "k < length is \<Longrightarrow> block_ranges_from len cur is ! k =
     (cur + sum_list (map len (take k is)), cur + sum_list (map len (take (Suc k) is)))"
proof (induction "is" arbitrary: cur k)
  case (Cons i "is")
  then show ?case by (cases k) (auto simp: add.assoc)
qed simp

lemma length_block_ranges_from [simp]: "length (block_ranges_from len cur is) = length is"
  by (induction len cur "is" rule: block_ranges_from.induct) auto

lemma length_block_ranges [simp]: "length (block_ranges tot n) = n"
  by (simp add: block_ranges_def)

lemma sum_list_upt: "k \<le> n \<Longrightarrow> sum_list (map f (take k [0..<n])) = (\<Sum>i<k. f i :: nat)"
  by (simp add: take_upt interv_sum_list_conv_sum_set_nat atLeast0LessThan)

lemma block_ranges_nth:
  "i < n \<Longrightarrow> block_ranges tot n ! i =
     (block_start (block_len tot n) i, block_start (block_len tot n) (Suc i))"
  using sum_list_upt [of i n "block_len tot n"] sum_list_upt [of "Suc i" n "block_len tot n"]
  by (simp add: block_ranges_def block_ranges_from_nth block_start_def)

interpretation blocks: work_split "block_len tot (Suc k)" "Suc k" tot for tot k
  by (rule block_len_work_split) simp

end
