(* ===== verification/Cache_Geometry.thy ===== *)
theory Cache_Geometry
  imports Ev_Prelude
begin

text \<open>
  Bit ranges and alignment (include/bitwise.h), the cache description that the tools read
  from cpuid (include/cache_info.h, src/cache_info.c), the two integer loops of src/utils.c
  it uses, and the strides of include/mem.h. All integers keep the width of the source.
\<close>

subsection \<open>bitwise.h\<close>

definition SHIFT_MASK :: "nat \<Rightarrow> u64" where
  "SHIFT_MASK shift = push_bit shift 1 - 1"

definition ALIGNED :: "u64 \<Rightarrow> nat \<Rightarrow> bool" where
  "ALIGNED data shift = (data AND SHIFT_MASK shift = 0)"

text \<open>The macro \<open>__ALIGN_UP\<close>, which always moves to the next boundary, and \<open>_ALIGN_UP\<close>.\<close>

definition ALIGN_NEXT :: "u64 \<Rightarrow> nat \<Rightarrow> u64" where
  "ALIGN_NEXT data shift = push_bit shift (drop_bit shift data + 1)"

definition ALIGN_UP :: "u64 \<Rightarrow> nat \<Rightarrow> u64" where
  "ALIGN_UP data shift = (if ALIGNED data shift then data else ALIGN_NEXT data shift)"

definition ALIGN_DOWN :: "u64 \<Rightarrow> nat \<Rightarrow> u64" where
  "ALIGN_DOWN data shift = data AND NOT (SHIFT_MASK shift)"

text \<open>
  The two range functions take the ends of the range as 16 bit values; \<open>end - start\<close> wraps
  at 16 bits. A shift count of 64 or more is undefined in C; the theorems below keep the
  width under 64.
\<close>

definition write_bit_range :: "u64 \<Rightarrow> u16 \<Rightarrow> u16 \<Rightarrow> u64 \<Rightarrow> u64" where
  "write_bit_range data hi lo new_val =
     (let width = unat (hi - lo); mask = push_bit width 1 - 1
      in if hi \<le> lo then data
         else (data AND NOT (push_bit (unat lo) mask)) OR push_bit (unat lo) (new_val AND mask))"

definition read_bit_range :: "u64 \<Rightarrow> u16 \<Rightarrow> u16 \<Rightarrow> u64" where
  "read_bit_range data hi lo =
     (let width = unat (hi - lo); mask = push_bit width 1 - 1
      in if hi \<le> lo then 0 else drop_bit (unat lo) data AND mask)"

lemma exp_minus_1_mask: "(2 ^ n - 1 :: 'a::len word) = mask n"
  by (simp add: mask_eq_decr_exp)

lemma SHIFT_MASK_mask: "SHIFT_MASK n = mask n"
  by (simp add: SHIFT_MASK_def exp_minus_1_mask)

lemma bit_read_bit_range:
  assumes "lo < hi"
  shows "bit (read_bit_range d hi lo) k \<longleftrightarrow> k < unat (hi - lo) \<and> bit d (unat lo + k)"
proof -
  have "bit (drop_bit (unat lo) d AND mask (unat (hi - lo))) k
      \<longleftrightarrow> k < unat (hi - lo) \<and> bit d (unat lo + k)"
    by (auto simp: bit_simps not_less dest: bit_imp_le_length)
  moreover have "\<not> hi \<le> lo" using assms by simp
  ultimately show ?thesis
    by (simp add: read_bit_range_def exp_minus_1_mask)
qed

lemma bit_write_bit_range:
  assumes "lo < hi" and "k < 64"
  shows "bit (write_bit_range d hi lo v) k \<longleftrightarrow>
           (if unat lo \<le> k \<and> k < unat lo + unat (hi - lo) then bit v (k - unat lo) else bit d k)"
proof -
  have "\<not> hi \<le> lo" using assms by simp
  with assms(2) show ?thesis
    by (auto simp: write_bit_range_def Let_def exp_minus_1_mask bit_simps)
qed

text \<open>Reading a range as arithmetic on the unsigned value.\<close>

lemma unat_read_bit_range:
  assumes "lo < hi"
  shows "unat (read_bit_range d hi lo) = unat d div 2 ^ unat lo mod 2 ^ unat (hi - lo)"
proof -
  have "\<not> hi \<le> lo" using assms by simp
  then have "read_bit_range d hi lo = take_bit (unat (hi - lo)) (drop_bit (unat lo) d)"
    by (simp add: read_bit_range_def exp_minus_1_mask take_bit_eq_mask)
  then have "unat (read_bit_range d hi lo) = take_bit (unat (hi - lo)) (drop_bit (unat lo) (unat d))"
    by (simp add: unsigned_take_bit_eq unat_drop_bit_eq)
  then show ?thesis
    by (simp add: drop_bit_eq_div take_bit_eq_mod)
qed

lemma ALIGN_DOWN_unat: "unat (ALIGN_DOWN a n) = unat a div 2 ^ n * 2 ^ n"
proof -
  have "ALIGN_DOWN a n = push_bit n (drop_bit n a)"
    by (rule bit_eqI) (auto simp: ALIGN_DOWN_def SHIFT_MASK_mask bit_simps)
  then have "unat (ALIGN_DOWN a n) = take_bit 64 (push_bit n (drop_bit n (unat a)))"
    by (simp add: unsigned_push_bit_eq unat_drop_bit_eq)
  then have "unat (ALIGN_DOWN a n) = take_bit 64 (unat a div 2 ^ n * 2 ^ n)"
    by (simp add: push_bit_eq_mult drop_bit_eq_div)
  moreover have "unat a div 2 ^ n * 2 ^ n < 2 ^ 64"
    using unsigned_less [where ?'a = nat, of a] div_times_less_eq_dividend [of "unat a" "2 ^ n"]
    by (simp del: div_times_less_eq_dividend)
  ultimately show ?thesis
    by (simp add: take_bit_nat_eq_self)
qed

subsection \<open>log2_ceil and n_digits (utils.c)\<close>

text \<open>
  \<open>while ((1ull << cnt) < v) cnt += 1;\<close>. At \<open>cnt = 64\<close> the shift is undefined, which is
  \<open>None\<close>.
\<close>

function log2_ceil_loop :: "nat \<Rightarrow> u64 \<Rightarrow> nat option" where
  "log2_ceil_loop cnt v =
     (if cnt < 64 then (if push_bit cnt 1 < v then log2_ceil_loop (cnt + 1) v else Some cnt)
      else None)"
  by pat_completeness auto
termination
  by (relation "measure (\<lambda>(cnt, v). 64 - cnt)") auto

declare log2_ceil_loop.simps [simp del]

definition log2_ceil :: "u64 \<Rightarrow> u32 option" where
  "log2_ceil v = map_option of_nat (log2_ceil_loop 0 v)"

text \<open>\<open>do { count++; n /= 10; } while (n != 0);\<close>\<close>

fun n_digits_loop :: "nat \<Rightarrow> u32 \<Rightarrow> u32" where
  "n_digits_loop n cnt =
     (let cnt = cnt + 1; n' = n div 10 in if n' \<noteq> 0 then n_digits_loop n' cnt else cnt)"

declare n_digits_loop.simps [simp del]

definition n_digits :: "u32 \<Rightarrow> u32" where
  "n_digits n = n_digits_loop (unat n) 0"

subsection \<open>CacheInfo (cache_info.h)\<close>

datatype CacheLevel = L1 | L2 | L3

record CacheInfo =
  level :: CacheLevel
  cl_size :: u32
  n_cl_bits :: u32
  n_sets :: u32
  n_sets_one_slice :: u32
  n_set_idx_bits :: u32
  n_ways :: u32
  n_slices :: u32
  c_size :: u32
  unknown_sib :: int

record CacheLats =
  l1d_lat :: u64
  l2_lat :: u64
  l3_lat :: u64
  dram_lat :: u64
  l1d_thresh :: u64
  l2_thresh :: u64
  l3_thresh :: u64
  interrupt_thresh :: u64

definition PAGE_SHIFT :: nat where "PAGE_SHIFT = 12"
definition PAGE_OFFSET_BITS :: u32 where "PAGE_OFFSET_BITS = 12"
definition PAGE_SIZE :: u64 where "PAGE_SIZE = 4096"
definition CL_SIZE :: u64 where "CL_SIZE = 64"
definition NUM_OFFSETS :: nat where "NUM_OFFSETS = 64"
definition ONE_SLICE_SETS :: u32 where "ONE_SLICE_SETS = 2048"
definition N_L3_SLICE :: u32 where "N_L3_SLICE = 0"

text \<open>The zero initialised globals \<open>l1_info\<close>, \<open>l2_info\<close>, \<open>l3_info\<close>.\<close>

definition cache_info_zero :: CacheInfo where
  "cache_info_zero = \<lparr>level = L1, cl_size = 0, n_cl_bits = 0, n_sets = 0, n_sets_one_slice = 0,
     n_set_idx_bits = 0, n_ways = 0, n_slices = 0, c_size = 0, unknown_sib = 0\<rparr>"

text \<open>The unsigned sum wraps, and the result is read as a signed 32 bit value.\<close>

definition calc_unknown_sib :: "CacheInfo \<Rightarrow> int" where
  "calc_unknown_sib c = sint (n_cl_bits c + n_set_idx_bits c - PAGE_OFFSET_BITS)"

text \<open>All operands are promoted to 64 bits.\<close>

definition cache_uncertainty :: "CacheInfo \<Rightarrow> u64" where
  "cache_uncertainty c =
     (let set_bits_under_ctrl = of_nat PAGE_SHIFT - ucast (n_cl_bits c)
      in if set_bits_under_ctrl \<ge> (ucast (n_set_idx_bits c) :: u64) then ucast (n_slices c)
         else push_bit (unat (ucast (n_set_idx_bits c) - set_bits_under_ctrl :: u64)) 1
                * ucast (n_slices c))"

text \<open>The range ends are computed as 32 bit values and truncated to the 16 bits of the
  range functions; the result is truncated to 32 bits.\<close>

definition cache_get_sib :: "u64 \<Rightarrow> CacheInfo \<Rightarrow> u32" where
  "cache_get_sib a c =
     ucast (read_bit_range a (ucast (n_cl_bits c + n_set_idx_bits c)) (ucast (n_cl_bits c)))"

definition cache_get_color :: "u64 \<Rightarrow> CacheInfo \<Rightarrow> u32" where
  "cache_get_color a c =
     (if unknown_sib c \<le> 0 then 0
      else ucast (read_bit_range a (ucast (n_cl_bits c + n_set_idx_bits c))
             (ucast (n_cl_bits c + n_set_idx_bits c - of_int (unknown_sib c)))))"

subsection \<open>Reading cpuid leaf 4 (cache_info.c)\<close>

text \<open>
  \<open>cpuid4 i\<close> is the pair (ebx, ecx) of sub-leaf \<open>i\<close>. \<open>None\<close> is the call of \<open>exit\<close>, or a shift
  by 64 or more.
\<close>

type_synonym cpuid = "nat \<Rightarrow> u32 \<times> u32"

definition init_l1_info :: "cpuid \<Rightarrow> CacheInfo \<Rightarrow> CacheInfo option" where
  "init_l1_info cpuid4 l1 =
     (let (ebx, ecx) = cpuid4 0;
          line_size_minus_1 = ebx AND 0xFFF;
          ways_minus_1 = drop_bit 22 ebx AND 0x3FF;
          sets_minus_1 = ecx
      in do {
        cl_bits \<leftarrow> log2_ceil (ucast (line_size_minus_1 + 1));
        idx_bits \<leftarrow> log2_ceil (ucast (sets_minus_1 + 1));
        let l1 = l1\<lparr>level := L1, cl_size := line_size_minus_1 + 1, n_cl_bits := cl_bits,
                     n_ways := ways_minus_1 + 1, n_sets := sets_minus_1 + 1,
                     n_set_idx_bits := idx_bits\<rparr>;
        let l1 = l1\<lparr>unknown_sib := calc_unknown_sib l1, n_slices := 1\<rparr>;
        if unknown_sib l1 = -1 then None
        else Some (l1\<lparr>c_size := cl_size l1 * n_ways l1 * n_sets l1\<rparr>)
      })"

definition init_l2_info :: "cpuid \<Rightarrow> CacheInfo \<Rightarrow> CacheInfo option" where
  "init_l2_info cpuid4 l2 =
     (let (ebx, ecx) = cpuid4 2;
          line_size_minus_1 = ebx AND 0xFFF;
          ways_minus_1 = drop_bit 22 ebx AND 0x3FF;
          sets_minus_1 = ecx
      in do {
        cl_bits \<leftarrow> log2_ceil (ucast (line_size_minus_1 + 1));
        let l2 = l2\<lparr>level := L2, cl_size := line_size_minus_1 + 1, n_cl_bits := cl_bits,
                     n_ways := ways_minus_1 + 1, n_sets := sets_minus_1 + 1\<rparr>;
        let l2 = l2\<lparr>c_size := cl_size l2 * n_ways l2 * n_sets l2\<rparr>;
        idx_bits \<leftarrow> log2_ceil (ucast (n_sets l2));
        let l2 = l2\<lparr>n_set_idx_bits := idx_bits\<rparr>;
        Some (l2\<lparr>unknown_sib := calc_unknown_sib l2, n_slices := 1\<rparr>)
      })"

text \<open>The compile time constant \<open>N_L3_SLICE\<close> selects the second part.\<close>

definition init_l3_info :: "cpuid \<Rightarrow> CacheInfo \<Rightarrow> CacheInfo option" where
  "init_l3_info cpuid4 l3 =
     (let (ebx, ecx) = cpuid4 3;
          line_size_minus_1 = ebx AND 0xFFF;
          ways_minus_1 = drop_bit 22 ebx AND 0x3FF;
          sets_minus_1 = ecx;
          l3_n_sets = sets_minus_1 + 1
      in do {
        cl_bits \<leftarrow> log2_ceil (ucast (line_size_minus_1 + 1));
        idx_bits \<leftarrow> log2_ceil (ucast ONE_SLICE_SETS);
        let l3 = l3\<lparr>level := L3, cl_size := line_size_minus_1 + 1, n_cl_bits := cl_bits,
                     n_ways := ways_minus_1 + 1, n_sets_one_slice := ONE_SLICE_SETS,
                     n_sets := l3_n_sets, n_slices := l3_n_sets div ONE_SLICE_SETS,
                     n_set_idx_bits := idx_bits\<rparr>;
        let l3 = l3\<lparr>unknown_sib := calc_unknown_sib l3\<rparr>;
        l3 \<leftarrow> (if N_L3_SLICE \<noteq> 0 then do {
            idx_bits' \<leftarrow> log2_ceil (ucast (l3_n_sets div N_L3_SLICE));
            let l3 = l3\<lparr>n_slices := N_L3_SLICE, n_sets_one_slice := l3_n_sets div N_L3_SLICE,
                         n_set_idx_bits := idx_bits'\<rparr>;
            let l3 = l3\<lparr>unknown_sib := calc_unknown_sib l3\<rparr>;
            if unknown_sib l3 = -1 then None else Some l3
          } else Some l3);
        Some (l3\<lparr>c_size := cl_size l3 * n_ways l3 * l3_n_sets\<rparr>)
      })"

record cache_globals =
  l1_info :: CacheInfo
  l2_info :: CacheInfo
  l3_info :: CacheInfo
  g_n_uncertain_l2_sets :: u32
  g_l3_cnt :: u64

definition init_cache_info :: "cpuid \<Rightarrow> cache_globals option" where
  "init_cache_info cpuid4 = do {
     l1 \<leftarrow> init_l1_info cpuid4 cache_info_zero;
     l2 \<leftarrow> init_l2_info cpuid4 cache_info_zero;
     l3 \<leftarrow> init_l3_info cpuid4 cache_info_zero;
     let shift = unat (n_set_idx_bits l3 - n_set_idx_bits l2);
     if shift < 64
     then Some \<lparr>l1_info = l1, l2_info = l2, l3_info = l3,
                g_n_uncertain_l2_sets = ucast (cache_uncertainty l2),
                g_l3_cnt = push_bit shift 1 * ucast (n_slices l3)\<rparr>
     else None
   }"

subsection \<open>Strides (mem.h)\<close>

definition same_set_stride :: "CacheInfo \<Rightarrow> int" where
  "same_set_stride c = sint (push_bit (unat (n_cl_bits c + n_set_idx_bits c)) 1 :: 32 word)"

definition next_set_stride :: "CacheInfo \<Rightarrow> int" where
  "next_set_stride c = sint (push_bit (unat (n_cl_bits c)) 1 :: 32 word)"

subsection \<open>What the integer loops compute\<close>

lemma log2_ceil_loop_Some:
  "log2_ceil_loop cnt v = Some r \<Longrightarrow>
     cnt \<le> r \<and> r < 64 \<and> unat v \<le> 2 ^ r \<and> (\<forall>k. cnt \<le> k \<and> k < r \<longrightarrow> 2 ^ k < unat v)"
proof (induction cnt v rule: log2_ceil_loop.induct)
  case (1 cnt v)
  have pw: "unat (2 ^ cnt :: u64) = 2 ^ cnt" if "cnt < 64"
    using that by (simp add: unat_2p)
  show ?case
  proof (cases "cnt < 64 \<and> push_bit cnt 1 < v")
    case True
    then have "log2_ceil_loop (cnt + 1) v = Some r"
      using "1.prems" by (simp add: log2_ceil_loop.simps [of cnt])
    with "1.IH" True pw show ?thesis
      by (auto simp: word_less_nat_alt) (metis Suc_leI le_neq_implies_less)
  next
    case False
    then have "cnt < 64" "r = cnt" "\<not> push_bit cnt 1 < v"
      using "1.prems" by (auto simp: log2_ceil_loop.simps [of cnt] split: if_splits)
    with pw show ?thesis by (auto simp: word_less_nat_alt)
  qed
qed

lemma log2_ceil_loop_returns:
  "unat v \<le> 2 ^ 63 \<Longrightarrow> cnt < 64 \<Longrightarrow> \<exists>r. log2_ceil_loop cnt v = Some r"
proof (induction cnt v rule: log2_ceil_loop.induct)
  case (1 cnt v)
  show ?case
  proof (cases "push_bit cnt 1 < v")
    case True
    have "cnt \<noteq> 63"
    proof
      assume "cnt = 63"
      with True have "unat (2 ^ 63 :: u64) < unat v" by (simp add: word_less_nat_alt)
      with "1.prems" show False by simp
    qed
    with 1 True show ?thesis by (simp add: log2_ceil_loop.simps [of cnt])
  next
    case False
    with 1 show ?thesis by (simp add: log2_ceil_loop.simps [of cnt])
  qed
qed

lemma log2_ceil_loop_least:
  assumes "log2_ceil_loop 0 v = Some r"
  shows "r = (LEAST k. unat v \<le> 2 ^ k)"
  using log2_ceil_loop_Some [OF assms]
  by (intro Least_equality [symmetric]) (auto simp: not_less [symmetric])

lemma log2_ceil_Some:
  assumes "log2_ceil v = Some b"
  shows "unat b < 64" and "unat v \<le> 2 ^ unat b" and "\<And>k. k < unat b \<Longrightarrow> 2 ^ k < unat v"
proof -
  from assms obtain r where r: "log2_ceil_loop 0 v = Some r" "b = of_nat r"
    by (auto simp: log2_ceil_def)
  from log2_ceil_loop_Some [OF r(1)] have "r < 64" by simp
  then have "unat b = r" by (simp add: r(2) unat_of_nat)
  with log2_ceil_loop_Some [OF r(1)]
  show "unat b < 64" "unat v \<le> 2 ^ unat b" "\<And>k. k < unat b \<Longrightarrow> 2 ^ k < unat v" by auto
qed

lemma log2_ceil_u32:
  "\<exists>b. log2_ceil (ucast (v :: u32)) = Some b \<and> unat b \<le> 32"
proof -
  have v: "unat (ucast v :: u64) = unat v"
    by (simp add: unat_ucast_up)
  have lt: "unat v < 2 ^ 32"
    using unsigned_less [where ?'a = nat, of v] by simp
  then have "unat (ucast v :: u64) \<le> 2 ^ 63" unfolding v by simp
  then obtain b where b: "log2_ceil (ucast v) = Some b"
    using log2_ceil_loop_returns [of "ucast v" 0] by (auto simp: log2_ceil_def)
  have "unat b \<le> 32"
  proof (rule ccontr)
    assume "\<not> unat b \<le> 32"
    then have "2 ^ 32 < unat (ucast v :: u64)" by (intro log2_ceil_Some(3) [OF b]) simp
    with lt show False unfolding v by simp
  qed
  with b show ?thesis by blast
qed

subsection \<open>Set index and colour as arithmetic on the address\<close>

text \<open>
  The geometries the tools support: lines no larger than a page, an index that reaches at
  least the page boundary, and the field \<open>unknown_sib\<close> as \<open>calc_unknown_sib\<close> sets it.
\<close>

abbreviation cl_bits :: "CacheInfo \<Rightarrow> nat" where "cl_bits c \<equiv> unat (n_cl_bits c)"
abbreviation idx_bits :: "CacheInfo \<Rightarrow> nat" where "idx_bits c \<equiv> unat (n_set_idx_bits c)"

definition geometry_ok :: "CacheInfo \<Rightarrow> bool" where
  "geometry_ok c \<longleftrightarrow> cl_bits c \<le> 12 \<and> 12 \<le> cl_bits c + idx_bits c
     \<and> cl_bits c + idx_bits c < 48 \<and> 0 < idx_bits c \<and> unknown_sib c = calc_unknown_sib c"

lemma geometry_bits:
  assumes "geometry_ok c"
  shows "unat (n_cl_bits c + n_set_idx_bits c) = cl_bits c + idx_bits c"
  using assms by (simp add: geometry_ok_def unat_add_small)

lemma calc_unknown_sib_int:
  assumes "geometry_ok c"
  shows "calc_unknown_sib c = int (cl_bits c + idx_bits c - 12)"
proof -
  let ?w = "n_cl_bits c + n_set_idx_bits c - PAGE_OFFSET_BITS"
  have le: "12 \<le> cl_bits c + idx_bits c" "cl_bits c + idx_bits c < 48"
    using assms by (auto simp: geometry_ok_def)
  have "PAGE_OFFSET_BITS \<le> n_cl_bits c + n_set_idx_bits c"
    using le geometry_bits [OF assms] by (simp add: PAGE_OFFSET_BITS_def word_le_nat_alt)
  then have "unat ?w = cl_bits c + idx_bits c - 12"
    using geometry_bits [OF assms] by (simp add: unat_diff_small) (simp add: PAGE_OFFSET_BITS_def)
  then have w: "uint ?w = int (cl_bits c + idx_bits c - 12)"
    by (metis uint_nat)
  have small: "sint x = uint x" if "uint x = int n" "n < 36" for x :: u32 and n
    unfolding sint_uint that(1) using that(2) by (intro signed_take_bit_int_eq_self) auto
  have "sint ?w = uint ?w" by (rule small [OF w]) (use le in linarith)
  with w show ?thesis by (simp add: calc_unknown_sib_def)
qed

lemma u16_of_u32: "unat (w :: u32) < 2 ^ 16 \<Longrightarrow> unat (ucast w :: u16) = unat w"
  by (simp add: unat_ucast_small)

lemma unat_mod_ucast32: "n < 2 ^ 32 \<Longrightarrow> unat (w :: u64) = n \<Longrightarrow> unat (ucast w :: u32) = n"
  by (simp add: unat_ucast_small)

lemma read_range_nat:
  assumes "unat hi = h" "unat lo = l" "l < h"
  shows "unat (read_bit_range d hi lo) = unat d div 2 ^ l mod 2 ^ (h - l)"
proof -
  have "lo < hi" using assms by (simp add: word_less_nat_alt)
  moreover from this have "unat (hi - lo) = h - l" using assms by (simp add: unat_diff_small)
  ultimately show ?thesis using assms by (simp add: unat_read_bit_range)
qed

lemma cache_get_sib_arith:
  assumes "geometry_ok c" "idx_bits c \<le> 32"
  shows "unat (cache_get_sib a c) = unat a div 2 ^ cl_bits c mod 2 ^ idx_bits c"
proof -
  have g: "cl_bits c + idx_bits c < 48" "0 < idx_bits c"
    using assms by (auto simp: geometry_ok_def)
  let ?r = "read_bit_range a (ucast (n_cl_bits c + n_set_idx_bits c)) (ucast (n_cl_bits c))"
  have "unat ?r = unat a div 2 ^ cl_bits c mod 2 ^ (cl_bits c + idx_bits c - cl_bits c)"
    by (rule read_range_nat) (use g geometry_bits [OF assms(1)] in \<open>auto simp: u16_of_u32\<close>)
  moreover have "unat a div 2 ^ cl_bits c mod 2 ^ idx_bits c < 2 ^ 32"
    by (intro order_less_le_trans [OF mod_less_divisor] power_increasing assms(2)) auto
  ultimately show ?thesis
    unfolding cache_get_sib_def by (intro unat_mod_ucast32) simp_all
qed

lemma cache_get_color_arith:
  assumes "geometry_ok c" "idx_bits c \<le> 32"
  shows "unat (cache_get_color a c) = unat a div 4096 mod 2 ^ (cl_bits c + idx_bits c - 12)"
proof -
  have g: "cl_bits c + idx_bits c < 48" "12 \<le> cl_bits c + idx_bits c" "cl_bits c \<le> 12"
    using assms by (auto simp: geometry_ok_def)
  have u: "unknown_sib c = int (cl_bits c + idx_bits c - 12)"
    using assms(1) calc_unknown_sib_int by (simp add: geometry_ok_def)
  show ?thesis
  proof (cases "cl_bits c + idx_bits c = 12")
    case True
    with u show ?thesis by (simp add: cache_get_color_def)
  next
    case False
    let ?hi = "n_cl_bits c + n_set_idx_bits c"
    have small: "unat (of_int (int n) :: u32) = n" if "n < 36" for n
      using that by (simp add: unat_of_nat take_bit_nat_eq_self)
    have k: "unat (of_int (unknown_sib c) :: u32) = cl_bits c + idx_bits c - 12"
      unfolding u by (rule small) (use g in linarith)
    then have "unat (?hi - of_int (unknown_sib c)) = 12"
      using g geometry_bits [OF assms(1)] by (subst unat_diff_small) (auto simp: word_le_nat_alt)
    then have "unat (read_bit_range a (ucast ?hi) (ucast (?hi - of_int (unknown_sib c))))
        = unat a div 2 ^ 12 mod 2 ^ (cl_bits c + idx_bits c - 12)"
      using g False geometry_bits [OF assms(1)] by (intro read_range_nat) (auto simp: u16_of_u32)
    moreover have "unat a div 4096 mod 2 ^ (cl_bits c + idx_bits c - 12) < 2 ^ 32"
      by (intro order_less_le_trans [OF mod_less_divisor] power_increasing)
        (use assms(2) g in auto)
    moreover have "\<not> unknown_sib c \<le> 0" unfolding u using g False by linarith
    ultimately show ?thesis
      unfolding cache_get_color_def by (simp add: unat_mod_ucast32)
  qed
qed

text \<open>The set index of an address is its page colour followed by the index bits inside the page.\<close>

lemma div_mod_split:
  fixes x :: nat
  assumes "b \<le> p" "p \<le> t"
  shows "x div 2 ^ b mod 2 ^ (t - b) = (x div 2 ^ p mod 2 ^ (t - p)) * 2 ^ (p - b) + x mod 2 ^ p div 2 ^ b"
proof -
  have e: "(2::nat) ^ t = 2 ^ b * 2 ^ (t - b)" "(2::nat) ^ t = 2 ^ p * 2 ^ (t - p)"
      "(2::nat) ^ p = 2 ^ b * 2 ^ (p - b)"
    using assms by (simp_all flip: power_add)
  have "x div 2 ^ b mod 2 ^ (t - b) = x mod 2 ^ t div 2 ^ b"
    by (simp add: e(1) mod_mult2_eq)
  also have "x mod 2 ^ t = (x div 2 ^ p mod 2 ^ (t - p)) * 2 ^ p + x mod 2 ^ p"
    by (simp add: e(2) mod_mult2_eq)
  also have "\<dots> = x mod 2 ^ p + ((x div 2 ^ p mod 2 ^ (t - p)) * 2 ^ (p - b)) * 2 ^ b"
    by (simp add: e(3))
  finally show ?thesis by (simp add: div_mult_self3)
qed

lemma cache_uncertainty_arith:
  assumes "geometry_ok c"
  shows "cache_uncertainty c = 2 ^ (cl_bits c + idx_bits c - 12) * ucast (n_slices c)"
proof -
  have g: "cl_bits c \<le> 12" "12 \<le> cl_bits c + idx_bits c"
    using assms by (auto simp: geometry_ok_def)
  let ?ctrl = "of_nat PAGE_SHIFT - ucast (n_cl_bits c) :: u64"
  have u: "unat (ucast w :: u64) = unat w" for w :: u32 by (simp add: unat_ucast_up)
  have ctrl: "unat ?ctrl = 12 - cl_bits c"
    using g(1) by (subst unat_diff_small) (simp_all add: PAGE_SHIFT_def word_le_nat_alt u)
  show ?thesis
  proof (cases "?ctrl \<ge> ucast (n_set_idx_bits c)")
    case True
    then have "cl_bits c + idx_bits c - 12 = 0"
      using g ctrl by (simp add: word_le_nat_alt u)
    with True show ?thesis by (simp add: cache_uncertainty_def)
  next
    case False
    then have "unat (ucast (n_set_idx_bits c) - ?ctrl) = idx_bits c - (12 - cl_bits c)"
      by (subst unat_diff_small) (simp_all add: u ctrl)
    moreover have "idx_bits c - (12 - cl_bits c) = cl_bits c + idx_bits c - 12"
      using g by simp
    ultimately show ?thesis using False by (simp add: cache_uncertainty_def Let_def)
  qed
qed

subsection \<open>A concrete machine\<close>

text \<open>The L2 and L3 of a Skylake server core: 64 byte lines, 1024 sets of 16 ways; 2048 sets of
  11 ways in each of 28 slices.\<close>

definition skx_l2 :: CacheInfo where
  "skx_l2 = \<lparr>level = L2, cl_size = 64, n_cl_bits = 6, n_sets = 1024, n_sets_one_slice = 0,
     n_set_idx_bits = 10, n_ways = 16, n_slices = 1, c_size = 0x100000, unknown_sib = 4\<rparr>"

definition skx_l3 :: CacheInfo where
  "skx_l3 = \<lparr>level = L3, cl_size = 64, n_cl_bits = 6, n_sets = 57344, n_sets_one_slice = 2048,
     n_set_idx_bits = 11, n_ways = 11, n_slices = 28, c_size = 0x2680000, unknown_sib = 5\<rparr>"

lemma skx_geometry: "geometry_ok skx_l2" "geometry_ok skx_l3"
  by (simp_all add: geometry_ok_def skx_l2_def skx_l3_def calc_unknown_sib_def PAGE_OFFSET_BITS_def)

subsection \<open>Properties\<close>

text \<open>
  C1: \<open>log2_ceil v\<close> returns the least \<open>k\<close> with \<open>v \<le> 2 ^ k\<close> for every \<open>v\<close> up to \<open>2 ^ 63\<close>, and
  runs into the undefined shift by 64 exactly for the larger values.
\<close>

theorem log2_ceil_least:
  "log2_ceil v = (if unat v \<le> 2 ^ 63 then Some (of_nat (LEAST k. unat v \<le> 2 ^ k)) else None)"
proof (cases "unat v \<le> 2 ^ 63")
  case True
  then obtain r where "log2_ceil_loop 0 v = Some r"
    using log2_ceil_loop_returns [of v 0] by auto
  with log2_ceil_loop_least [OF this] True show ?thesis by (simp add: log2_ceil_def)
next
  case False
  have "log2_ceil_loop 0 v = None"
  proof (rule ccontr)
    assume "log2_ceil_loop 0 v \<noteq> None"
    then obtain r where "r < 64" "unat v \<le> 2 ^ r"
      using log2_ceil_loop_Some [of 0 v] by auto
    moreover from this have "(2::nat) ^ r \<le> 2 ^ 63" by (intro power_increasing) auto
    ultimately show False using False by simp
  qed
  with False show ?thesis by (simp add: log2_ceil_def)
qed

text \<open>
  Writing a value into a bit range and reading the range back gives the value cut to
  the width of the range, and every range that does not meet the written one reads as before.
\<close>

theorem write_read_bit_range:
  assumes "lo < hi" and "unat hi \<le> 64" and "lo' < hi'" and "unat hi' \<le> 64"
    and "hi' \<le> lo \<or> hi \<le> lo'"
  shows "read_bit_range (write_bit_range d hi lo v) hi lo = take_bit (unat (hi - lo)) v
       \<and> read_bit_range (write_bit_range d hi lo v) hi' lo' = read_bit_range d hi' lo'"
proof
  have w: "unat (h - l) = unat h - unat l" if "l < h" for h l :: u16
    using that by (simp add: unat_diff_small)
  have lt: "unat lo < unat hi" using assms(1) by (simp add: word_less_nat_alt)
  show "read_bit_range (write_bit_range d hi lo v) hi lo = take_bit (unat (hi - lo)) v"
    by (rule bit_eqI)
      (use assms(1,2) lt in \<open>auto simp: bit_read_bit_range bit_write_bit_range bit_take_bit_iff w
        split: if_splits\<close>)
  have "unat hi' \<le> unat lo \<or> unat hi \<le> unat lo'" using assms(5) by (simp add: word_le_nat_alt)
  then show "read_bit_range (write_bit_range d hi lo v) hi' lo' = read_bit_range d hi' lo'"
    by (intro bit_eqI)
      (use assms lt in \<open>auto simp: bit_read_bit_range bit_write_bit_range w split: if_splits\<close>)
qed

theorem write_read_bit_range_witness:
  "read_bit_range (write_bit_range 0xFFFF 12 6 9) 12 6 = 9
   \<and> read_bit_range (write_bit_range 0xFFFF 12 6 9) 16 12 = 0xF"
  using write_read_bit_range [of 6 12 12 16 "0xFFFF" 9]
  by (simp add: take_bit_eq_mod read_bit_range_def)

text \<open>
  In every supported geometry the set index of an address is its page colour (the index
  bits above the page offset, which user space does not control) followed by the index bits
  inside the page, and the colour is the same for all addresses of a page.
\<close>

theorem sib_is_color_and_offset:
  assumes "geometry_ok c" and "idx_bits c \<le> 32"
  shows "unat (cache_get_sib a c) =
           unat (cache_get_color a c) * 2 ^ (12 - cl_bits c) + unat a mod 4096 div 2 ^ cl_bits c
       \<and> (unat b div 4096 = unat a div 4096 \<longrightarrow> cache_get_color b c = cache_get_color a c)"
proof -
  have "cl_bits c \<le> 12" "12 \<le> cl_bits c + idx_bits c"
    using assms by (auto simp: geometry_ok_def)
  from div_mod_split [OF this, of "unat a"] show ?thesis
    by (simp add: cache_get_sib_arith [OF assms] cache_get_color_arith [OF assms]
      word_unat_eq_iff)
qed

theorem sib_is_color_and_offset_witness:
  "unat (cache_get_sib 0x7F12345 skx_l2) = unat (cache_get_color 0x7F12345 skx_l2) * 64 + 13
   \<and> cache_get_color 0x7F12FC0 skx_l2 = cache_get_color 0x7F12345 skx_l2"
  using sib_is_color_and_offset [of skx_l2 "0x7F12345" "0x7F12FC0", OF skx_geometry(1)]
  by (simp add: skx_l2_def)

text \<open>
  The uncertainty of a cache is its number of page colours times its number of slices,
  and every colour that \<open>cache_get_color\<close> returns lies under the number of colours.
\<close>

theorem uncertainty_counts_colors:
  assumes "geometry_ok c" and "idx_bits c \<le> 32"
  shows "cache_uncertainty c = 2 ^ nat (unknown_sib c) * ucast (n_slices c)
       \<and> unat (cache_get_color a c) < 2 ^ nat (unknown_sib c)
       \<and> (\<forall>k < 2 ^ nat (unknown_sib c). \<exists>b. unat (cache_get_color b c) = k)"
proof -
  have g: "cl_bits c + idx_bits c < 48" "12 \<le> cl_bits c + idx_bits c"
    using assms by (auto simp: geometry_ok_def)
  have "unknown_sib c = calc_unknown_sib c" using assms(1) by (simp add: geometry_ok_def)
  then have u: "nat (unknown_sib c) = cl_bits c + idx_bits c - 12"
    by (simp only: calc_unknown_sib_int [OF assms(1)] nat_int)
  have "\<exists>b. unat (cache_get_color b c) = k" if k: "k < 2 ^ (cl_bits c + idx_bits c - 12)" for k
  proof -
    have "(2::nat) ^ (cl_bits c + idx_bits c - 12) \<le> 2 ^ 36"
      using g by (intro power_increasing) auto
    with k have "k * 4096 < 2 ^ 64" by simp
    then have "unat (of_nat (k * 4096) :: u64) = k * 4096"
      by (simp add: unat_of_nat take_bit_nat_eq_self del: of_nat_mult)
    with k show ?thesis
      by (intro exI [of _ "of_nat (k * 4096)"])
        (simp add: cache_get_color_arith [OF assms] del: of_nat_mult)
  qed
  then show ?thesis
    by (simp add: u cache_uncertainty_arith [OF assms(1)] cache_get_color_arith [OF assms])
qed

theorem uncertainty_counts_colors_witness:
  "cache_uncertainty skx_l3 = 32 * 28 \<and> unat (cache_get_color 0x7F12345 skx_l3) < 32"
  using uncertainty_counts_colors [of skx_l3 "0x7F12345", OF skx_geometry(2)]
  by (simp add: skx_l3_def)

text \<open>
  The L2 that \<open>init_l2_info\<close> reads from cpuid always exists (no value of the leaf makes it
  fail), its line size and associativity are the fields of the leaf plus one, its index
  bits reach exactly the number of sets, and its \<open>unknown_sib\<close> agrees with its bits.
\<close>

theorem init_l2_info_fields:
  "\<exists>l2. init_l2_info cpuid4 c = Some l2
      \<and> cl_size l2 = take_bit 12 (fst (cpuid4 2)) + 1
      \<and> n_ways l2 = take_bit 10 (drop_bit 22 (fst (cpuid4 2))) + 1
      \<and> n_sets l2 = snd (cpuid4 2) + 1 \<and> n_slices l2 = 1
      \<and> unat (n_sets l2) \<le> 2 ^ idx_bits l2
      \<and> (\<forall>k < idx_bits l2. 2 ^ k < unat (n_sets l2))
      \<and> c_size l2 = cl_size l2 * n_ways l2 * n_sets l2
      \<and> unknown_sib l2 = calc_unknown_sib l2"
proof -
  obtain ebx ecx where leaf: "cpuid4 2 = (ebx, ecx)" by fastforce
  have m: "(0xFFF :: u32) = mask 12" "(0x3FF :: u32) = mask 10" by (simp_all add: mask_eq_exp_minus_1)
  obtain b where b: "log2_ceil (ucast ((ebx AND 0xFFF) + 1)) = Some b"
    using log2_ceil_u32 by blast
  obtain i where i: "log2_ceil (ucast (ecx + 1)) = Some i"
    using log2_ceil_u32 by blast
  have u: "unat (ucast (ecx + 1) :: u64) = unat (ecx + 1)" by (simp add: unat_ucast_up)
  show ?thesis
    using log2_ceil_Some(2,3) [OF i] b i
    by (simp add: init_l2_info_def leaf Let_def calc_unknown_sib_def u)
      (simp add: m take_bit_eq_mask)
qed

theorem init_l2_info_fields_witness:
  "\<exists>l2. init_l2_info (\<lambda>_. (0x3C0003F, 0x3FF)) cache_info_zero = Some l2 \<and> cl_size l2 = 64 \<and> n_ways l2 = 16
      \<and> n_sets l2 = 1024 \<and> 2 ^ 9 < unat (n_sets l2) \<and> unat (n_sets l2) \<le> 2 ^ idx_bits l2"
  using init_l2_info_fields [of "\<lambda>_. (0x3C0003F, 0x3FF)" cache_info_zero]
  by (auto simp: take_bit_eq_mod drop_bit_eq_div)

end
