(* ===== verification/Hardware.thy ===== *)
theory Hardware
  imports Cache_Geometry
begin

text \<open>
  The machine under the program, as the operations the C code performs on it
  (include/asm.h, \<open>_time_maccess\<close> of include/utils.h), and the access sequences of
  include/cache_ops.h, include/mem.h and src/cache_ops.c.

  The processor and the operating system are parameters: a record of operations on an
  abstract machine state \<open>'m\<close>. The model performs them in program order, which is what the
  fences of the source ask for, so fences have no counterpart of their own.
\<close>

subsection \<open>Operations of the processor and the operating system\<close>

record 'm hw =
  hw_flush :: "addr \<Rightarrow> 'm \<Rightarrow> 'm"
  hw_read :: "addr \<Rightarrow> 'm \<Rightarrow> 'm"
  hw_write :: "addr \<Rightarrow> u8 \<Rightarrow> 'm \<Rightarrow> 'm"
  hw_tsc :: "'m \<Rightarrow> u64 \<times> 'm"
  hw_tscp :: "'m \<Rightarrow> (u64 \<times> u32) \<times> 'm"
  hw_helper_read :: "addr \<Rightarrow> 'm \<Rightarrow> 'm"
  hw_both :: "addr list \<Rightarrow> addr list \<Rightarrow> 'm \<Rightarrow> 'm"
  os_time_us :: "'m \<Rightarrow> u64 \<times> 'm"
  os_calloc :: "nat \<Rightarrow> 'm \<Rightarrow> addr option \<times> 'm"
  os_mmap :: "nat \<Rightarrow> 'm \<Rightarrow> addr option \<times> 'm"
  os_thread :: "'m \<Rightarrow> bool \<times> 'm"

text \<open>
  \<open>hw_helper_read\<close> is a read by the helper thread on its own core while the main thread
  waits, \<open>hw_both xs ys\<close> is the main thread reading \<open>xs\<close> while the helper reads \<open>ys\<close>.
  \<open>os_calloc\<close> and \<open>os_mmap\<close> return the address or \<open>None\<close> for \<open>NULL\<close>, \<open>os_thread\<close> whether
  \<open>pthread_create\<close> succeeded.
\<close>

definition clflush :: "'m hw \<Rightarrow> addr \<Rightarrow> 'm \<Rightarrow> 'm" where
  "clflush h = hw_flush h"

definition clflushopt :: "'m hw \<Rightarrow> addr \<Rightarrow> 'm \<Rightarrow> 'm" where
  "clflushopt h = hw_flush h"

definition maccess :: "'m hw \<Rightarrow> addr \<Rightarrow> 'm \<Rightarrow> 'm" where
  "maccess h = hw_read h"

definition mwrite :: "'m hw \<Rightarrow> addr \<Rightarrow> u8 \<Rightarrow> 'm \<Rightarrow> 'm" where
  "mwrite h = hw_write h"

definition rdtscp_aux :: "'m hw \<Rightarrow> 'm \<Rightarrow> u32 \<times> 'm" where
  "rdtscp_aux h m = (let ((t, aux), m) = hw_tscp h m in (aux, m))"

definition timer_start :: "'m hw \<Rightarrow> 'm \<Rightarrow> u64 \<times> 'm" where
  "timer_start h = hw_tsc h"

definition timer_stop :: "'m hw \<Rightarrow> 'm \<Rightarrow> u64 \<times> 'm" where
  "timer_stop h m = (let ((t, aux), m) = hw_tscp h m in (t, m))"

definition timer_warmup :: "'m hw \<Rightarrow> 'm \<Rightarrow> u64 \<times> 'm" where
  "timer_warmup h = hw_tsc h"

definition time_maccess :: "'m hw \<Rightarrow> addr \<Rightarrow> 'm \<Rightarrow> u64 \<times> 'm" where
  "time_maccess h line m =
     (let (w, m) = timer_warmup h m;
          (start, m) = timer_start h m;
          m = maccess h line m;
          (stop, m) = timer_stop h m
      in (stop - start, m))"

subsection \<open>Access sequences (cache_ops.h)\<close>

text \<open>
  The traversals only read memory, so each of them is the list of addresses it reads;
  \<open>access_seq\<close> performs such a list. An array that is shorter than the count the C function
  is given is \<open>None\<close>.
\<close>

definition access_seq :: "'m hw \<Rightarrow> addr list \<Rightarrow> 'm \<Rightarrow> 'm" where
  "access_seq h xs m = fold (maccess h) xs m"

definition flush_array :: "'m hw \<Rightarrow> addr list \<Rightarrow> nat \<Rightarrow> 'm \<Rightarrow> 'm option" where
  "flush_array h addrs sz m = do {
     xs \<leftarrow> arr_range addrs 0 sz;
     Some (fold (clflushopt h) xs m)
   }"

definition access_array :: "addr list \<Rightarrow> nat \<Rightarrow> addr list option" where
  "access_array addrs sz = arr_range addrs 0 sz"

definition access_array_bwd :: "addr list \<Rightarrow> nat \<Rightarrow> addr list option" where
  "access_array_bwd addrs sz = map_option rev (arr_range addrs 0 sz)"

definition access_stride :: "addr \<Rightarrow> u32 \<Rightarrow> u32 \<Rightarrow> addr list" where
  "access_stride start stride cnt = map (\<lambda>i. start + ucast (of_nat i * stride)) [0..<unat cnt]"

text \<open>\<open>&addrs[s]\<close> as an array of its own.\<close>

definition arr_from :: "'a list \<Rightarrow> nat \<Rightarrow> 'a list option" where
  "arr_from xs s = (if s \<le> length xs then Some (drop s xs) else None)"

definition daniel_window :: "addr list \<Rightarrow> nat \<Rightarrow> nat \<Rightarrow> nat \<Rightarrow> addr list option" where
  "daniel_window cands cnt block s =
     (if cnt \<ge> block + s then do {
        w \<leftarrow> arr_from cands s;
        access_array_bwd w block
      } else do {
        let rem = cnt - s;
        w \<leftarrow> arr_from cands s;
        xs \<leftarrow> access_array_bwd w rem;
        ys \<leftarrow> access_array_bwd cands (block - rem);
        Some (xs @ ys)
      })"

text \<open>The outer loop; with a stride of 0 it does not end.\<close>

function daniel_loop :: "addr list \<Rightarrow> nat \<Rightarrow> nat \<Rightarrow> nat \<Rightarrow> nat \<Rightarrow> nat \<Rightarrow> addr list option" where
  "daniel_loop cands cnt rep stride block s =
     (if s < cnt then
        (if stride = 0 then None else do {
           w \<leftarrow> daniel_window cands cnt block s;
           rest \<leftarrow> daniel_loop cands cnt rep stride block (s + stride);
           Some (concat (replicate rep w) @ rest)
         })
      else Some [])"
  by pat_completeness auto
termination
  by (relation "measure (\<lambda>(cands, cnt, rep, stride, block, s). cnt - s)") auto

declare daniel_loop.simps [simp del]

definition prime_cands_daniel :: "addr list \<Rightarrow> nat \<Rightarrow> nat \<Rightarrow> nat \<Rightarrow> nat \<Rightarrow> addr list option" where
  "prime_cands_daniel cands cnt rep stride block =
     (let block = min block cnt in daniel_loop cands cnt rep stride block 0)"

subsection \<open>What the traversals touch\<close>

lemma access_array_bwd_Some [arr_simps]:
  "n \<le> length xs \<Longrightarrow> access_array_bwd xs n = Some (rev (take n xs))"
  by (simp add: access_array_bwd_def arr_range_def)

lemma access_array_Some [arr_simps]: "n \<le> length xs \<Longrightarrow> access_array xs n = Some (take n xs)"
  by (simp add: access_array_def arr_range_def)

lemma arr_from_Some [arr_simps]: "s \<le> length xs \<Longrightarrow> arr_from xs s = Some (drop s xs)"
  by (simp add: arr_from_def)

lemma daniel_window_Some:
  assumes "cnt \<le> length cands" "s < cnt" "block \<le> cnt"
  shows "\<exists>w. daniel_window cands cnt block s = Some w \<and> set w \<subseteq> set (take cnt cands)
           \<and> (0 < block \<longrightarrow> set (take (min block (cnt - s)) (drop s cands)) \<subseteq> set w)"
proof (cases "cnt \<ge> block + s")
  case True
  have "set (take block (drop s cands)) \<subseteq> set (take cnt cands)"
    using True by (metis add.commute drop_take set_drop_subset set_take_subset_set_take take_drop
      dual_order.trans)
  with True assms show ?thesis
    by (simp add: daniel_window_def arr_simps min_absorb1)
next
  case False
  have "set (take (cnt - s) (drop s cands)) \<subseteq> set (take cnt cands)"
    by (metis drop_take set_drop_subset)
  moreover have "set (take (block - (cnt - s)) cands) \<subseteq> set (take cnt cands)"
    using assms by (intro set_take_subset_set_take) simp
  ultimately show ?thesis
    using False assms by (simp add: daniel_window_def arr_simps min_absorb2)
qed

lemma daniel_loop_Some:
  assumes "cnt \<le> length cands" "block \<le> cnt" "0 < stride"
  shows "\<exists>xs. daniel_loop cands cnt rep stride block s = Some xs \<and> set xs \<subseteq> set (take cnt cands)"
  using assms
proof (induction cands cnt rep stride block s rule: daniel_loop.induct)
  case (1 cands cnt rep stride block s)
  show ?case
  proof (cases "s < cnt")
    case True
    obtain w where w: "daniel_window cands cnt block s = Some w" "set w \<subseteq> set (take cnt cands)"
      using daniel_window_Some [OF "1.prems"(1) True "1.prems"(2)] by blast
    obtain xs where xs: "daniel_loop cands cnt rep stride block (s + stride) = Some xs"
        "set xs \<subseteq> set (take cnt cands)"
      using "1.IH" [OF True _ w(1)] "1.prems" by auto
    have "set (concat (replicate rep w)) \<subseteq> set w"
      by (cases rep) auto
    with w xs True "1.prems" show ?thesis
      by (subst daniel_loop.simps) auto
  next
    case False
    then show ?thesis by (subst daniel_loop.simps) simp
  qed
qed

text \<open>When the window is at least as long as the stride, no address is left out.\<close>

lemma daniel_loop_covers:
  assumes "cnt \<le> length cands" "block \<le> cnt" "0 < stride" "stride \<le> block \<or> block = cnt" "0 < rep"
    and "daniel_loop cands cnt rep stride block s = Some xs"
  shows "set (drop s (take cnt cands)) \<subseteq> set xs"
  using assms
proof (induction cands cnt rep stride block s arbitrary: xs rule: daniel_loop.induct)
  case (1 cands cnt rep stride block s)
  show ?case
  proof (cases "s < cnt")
    case True
    obtain w where w: "daniel_window cands cnt block s = Some w"
        "set (take (min block (cnt - s)) (drop s cands)) \<subseteq> set w"
      using daniel_window_Some [OF "1.prems"(1) True "1.prems"(2)] "1.prems" True by auto
    from "1.prems"(6) w(1) True "1.prems"(3) obtain rest where
      rest: "daniel_loop cands cnt rep stride block (s + stride) = Some rest"
        "xs = concat (replicate rep w) @ rest"
      by (subst (asm) daniel_loop.simps) (auto split: bind_splits)
    have ih: "set (drop (s + stride) (take cnt cands)) \<subseteq> set rest"
      using "1.IH" [OF True _ w(1)] "1.prems" rest(1) by simp
    have xs: "set xs = set w \<union> set rest"
      using rest(2) "1.prems"(5) by (cases rep) auto
    have "set (drop s (take cnt cands)) \<subseteq>
        set (take (min block (cnt - s)) (drop s cands)) \<union> set (drop (s + stride) (take cnt cands))"
    proof -
      have "set (drop s (take cnt cands)) =
          set (take stride (drop s (take cnt cands))) \<union> set (drop stride (drop s (take cnt cands)))"
        by (metis append_take_drop_id set_append)
      moreover have "take stride (drop s (take cnt cands)) = take (min stride (cnt - s)) (drop s cands)"
        by (simp add: drop_take min.commute)
      moreover have "min stride (cnt - s) \<le> min block (cnt - s)"
        using "1.prems"(4) by auto
      ultimately show ?thesis
        using set_take_subset_set_take [of "min stride (cnt - s)" "min block (cnt - s)" "drop s cands"]
        by (auto simp: add.commute)
    qed
    with w(2) ih show ?thesis unfolding xs by blast
  next
    case False
    then show ?thesis by simp
  qed
qed

text \<open>
  The priming traversal, called with a positive stride no larger than its window and a
  positive repeat count, ends without leaving the candidate array and reads exactly the
  candidates it is given, every one of them.
\<close>

theorem prime_cands_daniel_covers:
  assumes "cnt \<le> length cands" and "0 < stride" and "stride \<le> block" and "0 < rep"
  shows "\<exists>xs. prime_cands_daniel cands cnt rep stride block = Some xs
           \<and> set xs = set (take cnt cands)"
proof -
  have b: "min block cnt \<le> cnt" "stride \<le> min block cnt \<or> min block cnt = cnt"
    using assms by auto
  obtain xs where xs: "daniel_loop cands cnt rep stride (min block cnt) 0 = Some xs"
      "set xs \<subseteq> set (take cnt cands)"
    using daniel_loop_Some [OF assms(1) b(1) assms(2)] by blast
  have "set (drop 0 (take cnt cands)) \<subseteq> set xs"
    by (rule daniel_loop_covers [OF assms(1) b(1) assms(2) b(2) assms(4) xs(1)])
  with xs show ?thesis by (auto simp: prime_cands_daniel_def)
qed

theorem prime_cands_daniel_covers_witness:
  "\<exists>xs. prime_cands_daniel [10, 20, 30, 40, 50] 4 1 2 3 = Some xs \<and> set xs = {10, 20, 30, 40}"
  using prime_cands_daniel_covers [of 4 "[10, 20, 30, 40, 50]" 2 3 1] by simp

end
