(* ===== verification/Evset_Data.thy ===== *)
theory Evset_Data
  imports Hardware
begin

text \<open>
  The data of the eviction set builder: the structures of include/evset.h, the globals they
  depend on, the default configurations, and the operations of src/evset.c and include/mem.h
  that allocate, shift and free candidate pools and eviction sets.

  A \<open>u8 **\<close> array is a list of addresses, a struct a record, and a nullable pointer an
  option. Counts are natural numbers; where the source computes a size that could wrap, the
  word operation is written out.
\<close>

subsection \<open>Structures (evset.h, config.h)\<close>

datatype EvRes = OK | FAIL
datatype EvTestRes = EV_NEG | EV_NEG_UNSURE | EV_POS_UNSURE | EV_POS
datatype EvAlgoType = STRAW_ZHAO

fun ev_test_res_val :: "EvTestRes \<Rightarrow> int" where
  "ev_test_res_val EV_NEG = -2"
| "ev_test_res_val EV_NEG_UNSURE = -1"
| "ev_test_res_val EV_POS_UNSURE = 1"
| "ev_test_res_val EV_POS = 2"

text \<open>The two functions that the pointer \<open>cand_traverse\<close> is ever set to.\<close>

datatype traverse_fn = Addrs_traverse | Traverse_cands_mt

record EvBuffer =
  buf :: addr
  n_pages :: u64
  evb_ref_cnt :: u64

record EvCands =
  cands_scale :: nat
  evb :: EvBuffer
  cands_addrs :: "addr list"
  cands_count :: nat
  cands_ref_cnt :: u64
  cands_cache :: "CacheInfo option"

text \<open>
  \<open>EvBuildConf\<close> without its two pointers to eviction sets of the level below. The pointer
  \<open>hctrl\<close> is reduced to whether it points to a running helper thread, and \<open>test\<close> is
  \<open>test_eviction\<close> in every configuration.
\<close>

record EvTestConf =
  cand_scale :: nat
  lat_thresh :: u64
  trials :: nat
  low_bnd :: nat
  upp_bnd :: nat
  unsure_retry :: nat
  test_scale :: nat
  ev_repeat :: nat
  access_cnt :: nat
  n_retries :: nat
  max_whole_ret :: nat
  block :: nat
  stride :: nat
  hctrl :: bool
  need_helper :: bool
  flush_cands :: bool
  foreign_evictor :: bool
  cand_traverse :: traverse_fn
  algo :: EvAlgoType
  cap_scaling :: nat
  verify_retry :: nat
  retry_timeout :: nat
  max_backtrack :: nat
  slack :: nat
  extra_cong :: nat
  ret_partial :: bool
  prelim_test :: bool

record 'c EvSet =
  ev_addrs :: "addr list"
  ev_size :: nat
  ev_cap :: nat
  target_addr :: addr
  ev_cands :: EvCands
  build_conf :: 'c
  target_cache :: CacheInfo

record EvBuildConf = EvTestConf +
  filter_ev :: "EvTestConf EvSet option"
  lower_ev :: "EvTestConf EvSet option"

text \<open>An eviction set as the level above sees it through \<open>filter_ev\<close> and \<open>lower_ev\<close>.\<close>

definition as_lower :: "EvBuildConf EvSet \<Rightarrow> EvTestConf EvSet" where
  "as_lower e = \<lparr>ev_addrs = ev_addrs e, ev_size = ev_size e, ev_cap = ev_cap e,
     target_addr = target_addr e, ev_cands = ev_cands e,
     build_conf = EvTestConf.truncate (build_conf e), target_cache = target_cache e\<rparr>"

text \<open>The globals: caches, latencies, and the arguments of \<open>g_config\<close> that the builder reads.\<close>

record globals = cache_globals +
  g_lats :: CacheLats
  cand_scaling :: nat
  num_threads :: nat
  n_procs :: int
  verbose :: int

definition n_system_cores :: "globals \<Rightarrow> int" where
  "n_system_cores g = (if n_procs g \<le> 0 then 2 else n_procs g)"

subsection \<open>Default configurations (evset.c)\<close>

definition init_def_l2_conf :: "globals \<Rightarrow> EvBuildConf \<Rightarrow> EvBuildConf \<times> globals" where
  "init_def_l2_conf g conf =
     (let scale = (if cand_scaling g = 0 then 3 else cand_scaling g)
      in (conf\<lparr>cand_scale := scale, filter_ev := None,
               lat_thresh := l2_thresh (g_lats g), trials := 10, low_bnd := 3, upp_bnd := 7,
               unsure_retry := 5, test_scale := 1, ev_repeat := 4, access_cnt := 3,
               lower_ev := None, need_helper := False, flush_cands := False,
               foreign_evictor := False, cand_traverse := Addrs_traverse,
               n_retries := 10, max_whole_ret := 10,
               algo := STRAW_ZHAO, cap_scaling := 2, verify_retry := 5, retry_timeout := 20,
               max_backtrack := 20, slack := 0, extra_cong := 0, ret_partial := False,
               prelim_test := False\<rparr>,
          g\<lparr>cand_scaling := scale\<rparr>))"

definition init_def_l3_conf ::
    "globals \<Rightarrow> EvTestConf EvSet option \<Rightarrow> bool \<Rightarrow> EvBuildConf \<Rightarrow> EvBuildConf" where
  "init_def_l3_conf g l2ev helper conf =
     conf\<lparr>cand_scale := (if cand_scaling g = 0 then 3 else cand_scaling g), filter_ev := l2ev,
          lat_thresh := l3_thresh (g_lats g), trials := 4, low_bnd := 2, upp_bnd := 2,
          unsure_retry := 3, test_scale := 1, ev_repeat := 1, access_cnt := 1,
          block := 24, stride := 12, lower_ev := l2ev, need_helper := True,
          flush_cands := False, foreign_evictor := False, cand_traverse := Traverse_cands_mt,
          max_whole_ret := 5,
          algo := STRAW_ZHAO, cap_scaling := 2, verify_retry := 10, retry_timeout := 1000,
          max_backtrack := 20, slack := 2, extra_cong := 0, ret_partial := False,
          prelim_test := False, hctrl := helper\<rparr>"

text \<open>The zero initialised globals \<open>def_l2_build_conf\<close> and \<open>def_l3_build_conf\<close>.\<close>

definition conf_zero :: EvBuildConf where
  "conf_zero = \<lparr>cand_scale = 0, lat_thresh = 0, trials = 0, low_bnd = 0, upp_bnd = 0,
     unsure_retry = 0, test_scale = 0, ev_repeat = 0, access_cnt = 0, n_retries = 0,
     max_whole_ret = 0, block = 0, stride = 0, hctrl = False, need_helper = False,
     flush_cands = False, foreign_evictor = False, cand_traverse = Addrs_traverse,
     algo = STRAW_ZHAO, cap_scaling = 0, verify_retry = 0, retry_timeout = 0,
     max_backtrack = 0, slack = 0, extra_cong = 0, ret_partial = False, prelim_test = False,
     filter_ev = None, lower_ev = None\<rparr>"

subsection \<open>Shared memory, initialised in parallel (mem.h)\<close>

definition memset :: "'m hw \<Rightarrow> addr \<Rightarrow> u8 \<Rightarrow> nat \<Rightarrow> 'm \<Rightarrow> 'm" where
  "memset h p v n m = fold (\<lambda>k. mwrite h (p + of_nat k) v) [0..<n] m"

definition mmap_shared :: "'m hw \<Rightarrow> nat \<Rightarrow> 'm \<Rightarrow> addr option \<times> 'm" where
  "mmap_shared h n m = os_mmap h n m"

text \<open>
  The loop that starts the workers. Each worker is run at its start; the chunks are disjoint,
  so the order of the writes of different workers does not matter. When a thread cannot be
  started the caller writes all that is left.
\<close>

fun memset_threads :: "'m hw \<Rightarrow> addr \<Rightarrow> u8 \<Rightarrow> nat \<Rightarrow> (nat \<times> nat) list \<Rightarrow> 'm \<Rightarrow> 'm" where
  "memset_threads h p v sz [] m = m"
| "memset_threads h p v sz ((lo, hi) # chunks) m =
     (let (started, m) = os_thread h m
      in if started
         then memset_threads h p v sz chunks (memset h (p + of_nat lo) v (hi - lo) m)
         else memset h (p + of_nat lo) v (sz - lo) m)"

definition mmap_shared_init_para :: "'m hw \<Rightarrow> globals \<Rightarrow> nat \<Rightarrow> u8 \<Rightarrow> 'm \<Rightarrow> addr option \<times> 'm" where
  "mmap_shared_init_para h g sz v m =
     (let (p, m) = mmap_shared h sz m
      in case p of None \<Rightarrow> (None, m)
         | Some p \<Rightarrow>
             (let n_threads = (if num_threads g \<noteq> 0 then num_threads g
                               else nat (n_system_cores g))
              in if n_threads < 2 then (Some p, memset h p v sz m)
                 else (Some p, memset_threads h p v sz (block_ranges sz n_threads) m)))"

subsection \<open>Candidate pools and shifted sets (evset.c)\<close>

text \<open>
  The value of these functions is \<open>None\<close> when the program is aborted or has undefined
  behaviour, \<open>Some (None, m)\<close> when the C function returns \<open>NULL\<close>.
\<close>

definition evbuffer_new ::
    "'m hw \<Rightarrow> globals \<Rightarrow> CacheInfo \<Rightarrow> EvBuildConf \<Rightarrow> 'm \<Rightarrow> (EvBuffer option \<times> 'm) option" where
  "evbuffer_new h g cache cand_conf m =
     (let uncertainty = cache_uncertainty cache;
          n_pages = uncertainty * ucast (n_ways cache) * of_nat (cand_scale cand_conf);
          buf_size = n_pages * PAGE_SIZE;
          (evb, m) = os_calloc h 24 m
      in case evb of None \<Rightarrow> Some (None, m)
         | Some _ \<Rightarrow>
             (let (pages, m) = mmap_shared_init_para h g (unat buf_size) 0 m
              in case pages of None \<Rightarrow> Some (None, m)
                 | Some p \<Rightarrow>
                     if ALIGNED p PAGE_SHIFT
                     then Some (Some \<lparr>buf = p, n_pages = n_pages, evb_ref_cnt = 0\<rparr>, m)
                     else None))"

definition evcands_new ::
    "'m hw \<Rightarrow> globals \<Rightarrow> CacheInfo \<Rightarrow> EvBuildConf \<Rightarrow> EvBuffer option \<Rightarrow> 'm
       \<Rightarrow> (EvCands option \<times> 'm) option" where
  "evcands_new h g cache cands_config evb0 m =
     (let (c, m) = os_calloc h 48 m
      in case c of None \<Rightarrow> Some (None, m)
         | Some _ \<Rightarrow> do {
             (e, m) \<leftarrow> (case evb0 of Some e \<Rightarrow> Some (Some e, m)
                       | None \<Rightarrow> evbuffer_new h g cache cands_config m);
             Some (map_option (\<lambda>e.
               \<lparr>cands_scale = 0, evb = e\<lparr>evb_ref_cnt := evb_ref_cnt e + 1\<rparr>, cands_addrs = [],
                cands_count = 0, cands_ref_cnt = 0, cands_cache = Some cache\<rparr>) e, m)
           })"

text \<open>The page of an address, at another offset.\<close>

definition page_shift :: "u32 \<Rightarrow> addr \<Rightarrow> addr" where
  "page_shift offset a = ALIGN_DOWN a PAGE_SHIFT + ucast offset"

text \<open>
  The buffer is shared by all pools made from it, so its current value is an argument and the
  updated one part of the result.
\<close>

definition evcands_shift ::
    "'m hw \<Rightarrow> EvBuffer \<Rightarrow> EvCands \<Rightarrow> u32 \<Rightarrow> 'm \<Rightarrow> ((EvCands option \<times> EvBuffer) \<times> 'm) option" where
  "evcands_shift h e c offset m =
     (let (p, m) = os_calloc h 48 m
      in case p of None \<Rightarrow> Some ((None, e), m)
         | Some _ \<Rightarrow>
             (let (arr, m) = os_calloc h (cands_count c * 8) m;
                  e = e\<lparr>evb_ref_cnt := evb_ref_cnt e + 1\<rparr>
              in case arr of None \<Rightarrow> Some ((None, e), m)
                 | Some _ \<Rightarrow> do {
                     xs \<leftarrow> arr_range (cands_addrs c) 0 (cands_count c);
                     Some ((Some \<lparr>cands_scale = 0, evb = e,
                        cands_addrs = map (page_shift offset) xs, cands_count = cands_count c,
                        cands_ref_cnt = 0, cands_cache = None\<rparr>, e), m)
                   }))"

definition evset_shift :: "'m hw \<Rightarrow> 'c EvSet option \<Rightarrow> u32 \<Rightarrow> 'm \<Rightarrow> ('c EvSet option \<times> 'm) option" where
  "evset_shift h src offset m =
     (case src of None \<Rightarrow> Some (None, m)
      | Some e \<Rightarrow>
          (let (p, m) = os_calloc h 56 m
           in case p of None \<Rightarrow> Some (None, m)
              | Some _ \<Rightarrow>
                  (let (arr, m) = os_calloc h (ev_cap e * 8) m
                   in case arr of None \<Rightarrow> Some (None, m)
                      | Some _ \<Rightarrow> do {
                          xs \<leftarrow> arr_range (ev_addrs e) 0 (ev_size e);
                          new \<leftarrow> arr_copy (replicate (ev_cap e) 0) (map (page_shift offset) xs) (ev_size e);
                          Some (Some (e\<lparr>target_addr := page_shift offset (target_addr e),
                                        ev_addrs := new\<rparr>), m)
                        })))"

subsection \<open>Shifting inside pages\<close>

lemma page_shift_unat:
  assumes "unat offset < 4096"
  shows "unat (page_shift offset a) = unat a div 4096 * 4096 + unat offset"
proof -
  have "unat (ALIGN_DOWN a PAGE_SHIFT) = unat a div 4096 * 4096"
    by (simp add: ALIGN_DOWN_unat PAGE_SHIFT_def)
  moreover have "unat (ucast offset :: u64) = unat offset"
    by (simp add: unat_ucast_up)
  moreover have "unat a div 4096 * 4096 + 4096 \<le> 2 ^ 64"
    using unsigned_less [where ?'a = nat, of a] by simp
  ultimately show ?thesis
    using assms unfolding page_shift_def by (subst unat_add_small) auto
qed

lemma page_shift_page:
  assumes "unat offset < 4096"
  shows "unat (page_shift offset a) div 4096 = unat a div 4096"
    and "unat (page_shift offset a) mod 4096 = unat offset"
  using assms by (simp_all add: page_shift_unat)

text \<open>
  Address translation maps pages to frames and keeps the offset. It is a parameter: \<open>tr\<close>
  gives the host physical address of a virtual one.
\<close>

definition pagewise :: "(addr \<Rightarrow> addr) \<Rightarrow> bool" where
  "pagewise tr \<longleftrightarrow> (\<forall>a. unat (tr a) mod 4096 = unat a mod 4096)
     \<and> (\<forall>a b. unat a div 4096 = unat b div 4096 \<longrightarrow> unat (tr a) div 4096 = unat (tr b) div 4096)"

text \<open>Two addresses are congruent when translation sends them to the same set.\<close>

definition same_set :: "CacheInfo \<Rightarrow> (addr \<Rightarrow> addr) \<Rightarrow> addr \<Rightarrow> addr \<Rightarrow> bool" where
  "same_set c tr a b \<longleftrightarrow> cache_get_sib (tr a) c = cache_get_sib (tr b) c"

lemma same_set_arith:
  assumes "geometry_ok c" "idx_bits c \<le> 32"
  shows "same_set c tr a b \<longleftrightarrow>
     unat (tr a) div 2 ^ cl_bits c mod 2 ^ idx_bits c = unat (tr b) div 2 ^ cl_bits c mod 2 ^ idx_bits c"
  by (simp add: same_set_def word_unat_eq_iff cache_get_sib_arith [OF assms])

lemma sib_split:
  assumes "geometry_ok c"
  shows "(x :: nat) div 2 ^ cl_bits c mod 2 ^ idx_bits c =
    x div 4096 mod 2 ^ (cl_bits c + idx_bits c - 12) * 2 ^ (12 - cl_bits c) + x mod 4096 div 2 ^ cl_bits c"
proof -
  have "cl_bits c \<le> 12" "12 \<le> cl_bits c + idx_bits c"
    using assms by (auto simp: geometry_ok_def)
  from div_mod_split [OF this, of x] show ?thesis by simp
qed

lemma in_page_index_less:
  assumes "cl_bits c \<le> 12"
  shows "(x :: nat) mod 4096 div 2 ^ cl_bits c < 2 ^ (12 - cl_bits c)"
proof -
  have "(4096 :: nat) = 2 ^ (12 - cl_bits c) * 2 ^ cl_bits c"
    using assms by (simp flip: power_add)
  then show ?thesis
    by (metis less_mult_imp_div_less mod_less_divisor zero_less_numeral)
qed

lemma mult_add_inj:
  fixes q :: nat
  assumes "q * n + r = q' * n + r'" "r < n" "r' < n"
  shows "q = q'"
  using arg_cong [OF assms(1), of "\<lambda>x. x div n"] assms(2,3) by simp

text \<open>
  Lines of one set have pages of one colour, and any offset in the page then gives lines of
  one set again.
\<close>

lemma same_set_page_shift:
  assumes "geometry_ok c" "idx_bits c \<le> 32" "pagewise tr" "same_set c tr a b" "unat offset < 4096"
  shows "same_set c tr (page_shift offset a) (page_shift offset b)"
proof -
  have le: "cl_bits c \<le> 12" using assms(1) by (simp add: geometry_ok_def)
  let ?u = "cl_bits c + idx_bits c - 12"
  have "unat (tr a) div 4096 mod 2 ^ ?u = unat (tr b) div 4096 mod 2 ^ ?u"
    using assms(4) unfolding same_set_arith [OF assms(1,2)] sib_split [OF assms(1)]
    by (rule mult_add_inj) (rule in_page_index_less [OF le])+
  moreover have "unat (tr (page_shift offset x)) div 4096 = unat (tr x) div 4096"
      "unat (tr (page_shift offset x)) mod 4096 = unat offset" for x
    using assms(3) page_shift_page [OF assms(5), of x] unfolding pagewise_def by metis+
  ultimately show ?thesis
    unfolding same_set_arith [OF assms(1,2)] sib_split [OF assms(1)] by simp
qed

lemma evset_shift_SomeD:
  assumes "evset_shift h (Some e) offset m = Some (Some e', m')"
  shows "ev_size e' = ev_size e" "ev_cap e' = ev_cap e" "build_conf e' = build_conf e"
    "target_cache e' = target_cache e" "target_addr e' = page_shift offset (target_addr e)"
    "take (ev_size e) (ev_addrs e') = map (page_shift offset) (take (ev_size e) (ev_addrs e))"
    "length (ev_addrs e') = ev_cap e" "ev_size e \<le> ev_cap e" "ev_size e \<le> length (ev_addrs e)"
proof -
  from assms obtain xs new where
    xs: "arr_range (ev_addrs e) 0 (ev_size e) = Some xs" and
    new: "arr_copy (replicate (ev_cap e) 0) (map (page_shift offset) xs) (ev_size e) = Some new" and
    e': "e' = e\<lparr>target_addr := page_shift offset (target_addr e), ev_addrs := new\<rparr>"
    by (auto simp: evset_shift_def split: prod.splits option.splits bind_splits)
  have "xs = take (ev_size e) (ev_addrs e)" "ev_size e \<le> length (ev_addrs e)"
    using xs by (auto simp: arr_range_def split: if_splits)
  moreover have "ev_size e \<le> ev_cap e"
      "new = take (ev_size e) (map (page_shift offset) xs) @ drop (ev_size e) (replicate (ev_cap e) 0)"
    using new by (auto simp: arr_copy_def split: if_splits)
  ultimately show "ev_size e' = ev_size e" "ev_cap e' = ev_cap e" "build_conf e' = build_conf e"
    "target_cache e' = target_cache e" "target_addr e' = page_shift offset (target_addr e)"
    "take (ev_size e) (ev_addrs e') = map (page_shift offset) (take (ev_size e) (ev_addrs e))"
    "length (ev_addrs e') = ev_cap e" "ev_size e \<le> ev_cap e" "ev_size e \<le> length (ev_addrs e)"
    by (simp_all add: e')
qed

subsection \<open>Parallel initialisation writes what memset writes\<close>

lemma memset_append: "memset h p v (n + k) m = memset h (p + of_nat n) v k (memset h p v n m)"
proof -
  have "[n..<n + k] = map ((+) n) [0..<k]"
    by (rule nth_equalityI) auto
  with upt_add_eq_append [of 0 n k, OF le0] have "[0..<n + k] = [0..<n] @ map ((+) n) [0..<k]"
    by (rule trans [OF _ arg_cong])
  then show ?thesis
    unfolding memset_def by (simp only: fold_append fold_map comp_def of_nat_add add.assoc)
qed

text \<open>
  The rest of the chunk list, from the position that the chunks before it have reached.
\<close>

lemma memset_threads_rest:
  assumes "\<And>m. snd (os_thread h m) = m" and "cur + sum_list (map len js) = sz"
  shows "memset_threads h p v sz (block_ranges_from len cur js) m = memset h (p + of_nat cur) v (sz - cur) m"
  using assms(2)
proof (induction js arbitrary: cur m)
  case Nil
  then show ?case by (simp add: memset_def)
next
  case (Cons i js)
  have ot: "os_thread h m = (fst (os_thread h m), m)"
    using assms(1) [of m] by (metis prod.collapse)
  have e: "sz - cur = len i + (sz - (cur + len i))"
    using Cons.prems by simp
  show ?case
  proof (cases "fst (os_thread h m)")
    case True
    then have "memset_threads h p v sz (block_ranges_from len cur (i # js)) m =
        memset h (p + of_nat (cur + len i)) v (sz - (cur + len i)) (memset h (p + of_nat cur) v (len i) m)"
      using ot Cons.IH [of "cur + len i"] Cons.prems by (auto split: prod.splits)
    also have "\<dots> = memset h (p + of_nat cur) v (sz - cur) m"
      by (subst e) (simp add: memset_append add.assoc)
    finally show ?thesis .
  next
    case False
    with ot show ?thesis by (auto split: prod.splits)
  qed
qed

text \<open>
  A machine without caches whose state is the memory: used to run the definitions on concrete
  inputs. Thread creation succeeds when the second component of the state is even.
\<close>

definition flat_hw :: "((addr \<Rightarrow> u8) \<times> nat) hw" where
  "flat_hw = \<lparr>hw_flush = (\<lambda>a m. m), hw_read = (\<lambda>a m. m),
     hw_write = (\<lambda>a v (mem, n). (mem(a := v), n)), hw_tsc = (\<lambda>m. (0, m)),
     hw_tscp = (\<lambda>m. ((0, 0), m)), hw_helper_read = (\<lambda>a m. m), hw_both = (\<lambda>xs ys m. m),
     os_time_us = (\<lambda>m. (0, m)), os_calloc = (\<lambda>n m. (Some 0x100, m)),
     os_mmap = (\<lambda>n m. (Some 0x1000, m)), os_thread = (\<lambda>(mem, n). (even n, (mem, n)))\<rparr>"

definition flat_globals :: globals where
  "flat_globals = \<lparr>l1_info = cache_info_zero, l2_info = skx_l2, l3_info = skx_l3,
     g_n_uncertain_l2_sets = 16, g_l3_cnt = 56,
     g_lats = \<lparr>l1d_lat = 4, l2_lat = 14, l3_lat = 70, dram_lat = 200, l1d_thresh = 8,
       l2_thresh = 40, l3_thresh = 130, interrupt_thresh = 1000\<rparr>,
     cand_scaling = 0, num_threads = 2, n_procs = 4, verbose = 0\<rparr>"

text \<open>
  Initialising a buffer with several threads writes the buffer exactly as one \<open>memset\<close> of
  its whole size does, for every number of threads and wherever the creation of a thread
  fails, if creating a thread does not itself change the machine.
\<close>

theorem mmap_shared_init_para_memset:
  assumes "\<And>m. snd (os_thread h m) = m"
  shows "mmap_shared_init_para h g sz v m =
           (case os_mmap h sz m of (None, m') \<Rightarrow> (None, m')
            | (Some p, m') \<Rightarrow> (Some p, memset h p v sz m'))"
proof -
  have "memset_threads h p v sz (block_ranges sz n) m' = memset h p v sz m'" if "\<not> n < 2" for p n m'
    using that block_len_sum [of n sz]
      memset_threads_rest [of h 0 "block_len sz n" "[0..<n]" sz p v m', OF assms]
    by (simp add: block_ranges_def sum_list_upt [of n n, simplified])
  then show ?thesis
    by (auto simp: mmap_shared_init_para_def mmap_shared_def Let_def split: prod.splits option.splits)
qed

theorem mmap_shared_init_para_memset_witness:
  "(case mmap_shared_init_para flat_hw flat_globals 5 7 (\<lambda>a. 0, 0) of (p, (mem, n)) \<Rightarrow>
      p = Some 0x1000 \<and> map mem [0xFFF, 0x1000, 0x1004, 0x1005] = [0, 7, 7, 0])"
proof -
  have "snd (os_thread flat_hw m) = m" for m
    by (simp add: flat_hw_def split: prod.splits)
  from mmap_shared_init_para_memset [of flat_hw flat_globals 5 7 "(\<lambda>a. 0, 0)", OF this]
  show ?thesis by (simp add: flat_hw_def memset_def mwrite_def upt_rec)
qed

text \<open>
  C34: shifting an eviction set to another offset of the page keeps its size, moves every
  address and the target to that offset of their own pages, and keeps the lines congruent
  with the target, for every translation that maps pages to frames.
\<close>

theorem evset_shift_congruent:
  assumes "evset_shift h (Some e) offset m = Some (Some e', m')" and "unat offset < 4096"
    and "geometry_ok c" and "idx_bits c \<le> 32" and "pagewise tr"
    and "\<forall>a \<in> set (take (ev_size e) (ev_addrs e)). same_set c tr a (target_addr e)"
  shows "ev_size e' = ev_size e
       \<and> (\<forall>i < ev_size e. unat (ev_addrs e' ! i) = unat (ev_addrs e ! i) div 4096 * 4096 + unat offset)
       \<and> (\<forall>a \<in> set (take (ev_size e') (ev_addrs e')). same_set c tr a (target_addr e'))"
proof (intro conjI)
  note sh = evset_shift_SomeD [OF assms(1)]
  show "ev_size e' = ev_size e" by (rule sh(1))
  show "\<forall>a \<in> set (take (ev_size e') (ev_addrs e')). same_set c tr a (target_addr e')"
    using assms(6) same_set_page_shift [OF assms(3,4,5) _ assms(2)] by (auto simp: sh(1,5,6))
  show "\<forall>i < ev_size e. unat (ev_addrs e' ! i) = unat (ev_addrs e ! i) div 4096 * 4096 + unat offset"
  proof (intro allI impI)
    fix i assume i: "i < ev_size e"
    have "ev_addrs e' ! i = map (page_shift offset) (take (ev_size e) (ev_addrs e)) ! i"
      using i sh(6) by (metis nth_take)
    then have "ev_addrs e' ! i = page_shift offset (ev_addrs e ! i)"
      using i sh(9) by simp
    then show "unat (ev_addrs e' ! i) = unat (ev_addrs e ! i) div 4096 * 4096 + unat offset"
      by (simp add: page_shift_unat [OF assms(2)])
  qed
qed

theorem evset_shift_congruent_witness:
  "\<exists>e'. evset_shift flat_hw (Some \<lparr>ev_addrs = [0x10000, 0x20000, 0], ev_size = 2, ev_cap = 3,
            target_addr = 0x30000, ev_cands = undefined, build_conf = (), target_cache = skx_l2\<rparr>)
          0x40 (\<lambda>a. 0, 0) = Some (Some e', (\<lambda>a. 0, 0))
      \<and> (\<forall>a \<in> set (take (ev_size e') (ev_addrs e')). same_set skx_l2 id a (target_addr e'))"
proof -
  let ?e = "\<lparr>ev_addrs = [0x10000, 0x20000, 0], ev_size = 2, ev_cap = 3, target_addr = 0x30000,
    ev_cands = undefined, build_conf = (), target_cache = skx_l2\<rparr> :: unit EvSet"
  obtain e' where e': "evset_shift flat_hw (Some ?e) 0x40 (\<lambda>a. 0, 0) = Some (Some e', (\<lambda>a. 0, 0))"
    by (simp add: evset_shift_def flat_hw_def arr_range_def arr_copy_def)
  have sib: "cache_get_sib a skx_l2 = ucast (drop_bit 6 a AND 0x3FF)" for a
    by (simp add: cache_get_sib_def read_bit_range_def skx_l2_def)
  have "\<forall>a \<in> set (take (ev_size ?e) (ev_addrs ?e)). same_set skx_l2 id a (target_addr ?e)"
    by (simp add: same_set_def sib)
  moreover have "pagewise id" by (simp add: pagewise_def)
  ultimately have "\<forall>a \<in> set (take (ev_size e') (ev_addrs e')). same_set skx_l2 id a (target_addr e')"
    using evset_shift_congruent [OF e' _ skx_geometry(1), of id] by (simp add: skx_l2_def)
  with e' show ?thesis by blast
qed

end
