(* ===== verification/Evset_Test.thy ===== *)
theory Evset_Test
  imports Evset_Data
begin

text \<open>
  The eviction test of src/evset.c and what is built directly on it: candidate traversal by
  one or two threads (src/cache_ops.c), filtering of candidates in batches, pruning, and the
  population of a candidate pool.

  A result \<open>None\<close> is undefined behaviour, a failed assertion or a call that never returns.
\<close>

definition wrap32 :: "nat \<Rightarrow> nat" where
  "wrap32 n = n mod 2 ^ 32"

subsection \<open>Traversals\<close>

definition addrs_traverse :: "addr list \<Rightarrow> nat \<Rightarrow> 'c EvTestConf_scheme \<Rightarrow> addr list option" where
  "addrs_traverse addrs cnt tconf =
     map_option (\<lambda>xs. concat (replicate (ev_repeat tconf) xs)) (access_array_bwd addrs cnt)"

text \<open>
  \<open>traverse_cands_mt\<close>: the helper primes the candidates while the main thread does the same;
  for a short list the main thread then pushes the lines out of its own L2 once more. The
  helper must be running, and the assertion needs the message to be allocated.
\<close>

definition traverse_cands_mt ::
    "'m hw \<Rightarrow> globals \<Rightarrow> addr list \<Rightarrow> nat \<Rightarrow> EvBuildConf \<Rightarrow> 'm \<Rightarrow> 'm option" where
  "traverse_cands_mt h g cands cnt tconf m =
     (let (arr, m) = os_calloc h 48 m
      in if arr = None \<or> \<not> hctrl tconf then None else do {
        xs \<leftarrow> prime_cands_daniel cands cnt (ev_repeat tconf) (stride tconf) (block tconf);
        ys \<leftarrow> (if cnt < unat (n_ways (l2_info g)) then
                (case lower_ev tconf of None \<Rightarrow> Some []
                 | Some l \<Rightarrow> do {
                     us \<leftarrow> addrs_traverse (ev_addrs l) (ev_size l) (build_conf l);
                     vs \<leftarrow> access_array_bwd cands cnt;
                     Some (us @ vs)
                   })
              else Some []);
        Some (hw_both h (xs @ ys) xs m)
      })"

definition cand_traverse_call ::
    "'m hw \<Rightarrow> globals \<Rightarrow> addr list \<Rightarrow> nat \<Rightarrow> EvBuildConf \<Rightarrow> 'm \<Rightarrow> 'm option" where
  "cand_traverse_call h g cands cnt tconf m =
     (case cand_traverse tconf of
        Addrs_traverse \<Rightarrow> map_option (\<lambda>xs. access_seq h xs m) (addrs_traverse cands cnt tconf)
      | Traverse_cands_mt \<Rightarrow> traverse_cands_mt h g cands cnt tconf m)"

text \<open>
  The helper performs the traversal while the main thread waits. \<open>traverse_cands_mt\<close> run by
  the helper would wait for the helper itself, which never returns.
\<close>

definition helper_thread_traverse_cands ::
    "'m hw \<Rightarrow> addr list \<Rightarrow> nat \<Rightarrow> EvBuildConf \<Rightarrow> 'm \<Rightarrow> 'm option" where
  "helper_thread_traverse_cands h cands cnt tconf m =
     (let (tcands, m) = os_calloc h 32 m
      in if tcands = None \<or> \<not> hctrl tconf then None
         else case cand_traverse tconf of
             Addrs_traverse \<Rightarrow> map_option (\<lambda>xs. fold (hw_helper_read h) xs m) (addrs_traverse cands cnt tconf)
           | Traverse_cands_mt \<Rightarrow> None)"

definition helper_thread_read_single :: "'m hw \<Rightarrow> addr \<Rightarrow> EvBuildConf \<Rightarrow> 'm \<Rightarrow> 'm option" where
  "helper_thread_read_single h target tconf m =
     (if hctrl tconf then Some (hw_helper_read h target m) else None)"

subsection \<open>test_eviction_detailed\<close>

text \<open>The loop that loads the target line, \<open>access_cnt\<close> times.\<close>

fun load_target :: "'m hw \<Rightarrow> EvBuildConf \<Rightarrow> addr \<Rightarrow> nat \<Rightarrow> 'm \<Rightarrow> 'm option" where
  "load_target h tconf target 0 m = Some m"
| "load_target h tconf target (Suc j) m = do {
     m \<leftarrow> (case lower_ev tconf of None \<Rightarrow> Some m
          | Some l \<Rightarrow> map_option (\<lambda>xs. access_seq h xs m) (addrs_traverse (ev_addrs l) (ev_size l) tconf));
     let m = maccess h target m;
     m \<leftarrow> (if need_helper tconf then
             map_option (maccess h target) (helper_thread_read_single h target tconf m)
           else Some m);
     load_target h tconf target j m
   }"

text \<open>One pass of the measuring loop: the two core ids and the latency of the target.\<close>

definition test_trial ::
    "'m hw \<Rightarrow> globals \<Rightarrow> addr \<Rightarrow> addr list \<Rightarrow> nat \<Rightarrow> EvBuildConf \<Rightarrow> 'm
       \<Rightarrow> ((u32 \<times> u32 \<times> u64) \<times> 'm) option" where
  "test_trial h g target cands cnt tconf m =
     (let (aux_before, m) = rdtscp_aux h m;
          m = clflushopt h target m
      in do {
        m \<leftarrow> (if flush_cands tconf then flush_array h cands cnt m else Some m);
        m \<leftarrow> load_target h tconf target (access_cnt tconf) m;
        m \<leftarrow> (if foreign_evictor tconf then helper_thread_traverse_cands h cands cnt tconf m
             else cand_traverse_call h g cands cnt tconf m);
        let (lat, m) = time_maccess h target m;
        let (aux_after, m) = rdtscp_aux h m;
        Some ((aux_before, aux_after, lat), m)
      })"

text \<open>
  \<open>while (valid_trials < trials && attempts < max_attempts)\<close>. The result is an early
  \<open>return EV_POS\<close> (\<open>Inl\<close>) or the counters at the end of the loop (\<open>Inr\<close>).
\<close>

function test_while ::
    "'m hw \<Rightarrow> globals \<Rightarrow> addr \<Rightarrow> addr list \<Rightarrow> nat \<Rightarrow> EvBuildConf \<Rightarrow> nat \<Rightarrow> nat \<Rightarrow> nat
       \<Rightarrow> nat \<Rightarrow> nat \<Rightarrow> nat \<Rightarrow> 'm \<Rightarrow> ((EvTestRes + nat \<times> nat) \<times> 'm) option" where
  "test_while h g target cands cnt tconf ntrials upp max_attempts valid_trials attempts otc m =
     (if valid_trials < ntrials \<and> attempts < max_attempts then do {
        ((aux_before, aux_after, lat), m) \<leftarrow> test_trial h g target cands cnt tconf m;
        if aux_before \<noteq> aux_after \<or> lat > interrupt_thresh (g_lats g)
        then test_while h g target cands cnt tconf ntrials upp max_attempts
               valid_trials (attempts + 1) otc m
        else (let otc = (if lat \<ge> lat_thresh tconf then otc + 1 else otc)
              in if otc \<ge> upp then Some (Inl EV_POS, m)
                 else test_while h g target cands cnt tconf ntrials upp max_attempts
                        (valid_trials + 1) (attempts + 1) otc m)
      } else Some (Inr (valid_trials, otc), m))"
  by pat_completeness auto
termination
  by (relation "measure (\<lambda>(h, g, target, cands, cnt, tconf, ntrials, upp, max_attempts,
    valid_trials, attempts, otc, m). max_attempts - attempts)") auto

declare test_while.simps [simp del]

text \<open>\<open>for (r = 0; r < unsure_retry; r++)\<close>, and the decision after the last round.\<close>

fun test_rounds ::
    "'m hw \<Rightarrow> globals \<Rightarrow> addr \<Rightarrow> addr list \<Rightarrow> nat \<Rightarrow> EvBuildConf \<Rightarrow> nat \<Rightarrow> nat \<Rightarrow> nat
       \<Rightarrow> nat \<Rightarrow> nat \<Rightarrow> 'm \<Rightarrow> (EvTestRes \<times> 'm) option" where
  "test_rounds h g target cands cnt tconf ntrials low upp 0 otc m =
     Some (if otc \<ge> wrap32 (low + upp) div 2 then EV_POS_UNSURE else EV_NEG_UNSURE, m)"
| "test_rounds h g target cands cnt tconf ntrials low upp (Suc r) otc m = do {
     (res, m) \<leftarrow> test_while h g target cands cnt tconf ntrials upp (wrap32 (ntrials * 4)) 0 0 0 m;
     case res of
       Inl v \<Rightarrow> Some (v, m)
     | Inr (valid_trials, otc) \<Rightarrow>
         if valid_trials < ntrials div 2
         then test_rounds h g target cands cnt tconf ntrials low upp r otc m
         else if otc \<ge> upp then Some (EV_POS, m)
         else if otc < low then Some (EV_NEG, m)
         else test_rounds h g target cands cnt tconf ntrials low upp r otc m
   }"

definition test_eviction_detailed ::
    "'m hw \<Rightarrow> globals \<Rightarrow> addr \<Rightarrow> addr list \<Rightarrow> nat \<Rightarrow> EvBuildConf \<Rightarrow> 'm \<Rightarrow> (EvTestRes \<times> 'm) option" where
  "test_eviction_detailed h g target cands cnt tconf m =
     (let rounds = (if unsure_retry tconf \<noteq> 0 then unsure_retry tconf else 1);
          scale = (\<lambda>n. if test_scale tconf > 1 then wrap32 (n * test_scale tconf) else n)
      in test_rounds h g target cands cnt tconf (scale (trials tconf)) (scale (low_bnd tconf))
           (scale (upp_bnd tconf)) rounds 0 m)"

definition test_eviction ::
    "'m hw \<Rightarrow> globals \<Rightarrow> addr \<Rightarrow> addr list \<Rightarrow> nat \<Rightarrow> EvBuildConf \<Rightarrow> 'm \<Rightarrow> (EvRes \<times> 'm) option" where
  "test_eviction h g target cands cnt tconf m =
     map_option (\<lambda>(r, m). (if ev_test_res_val r > 0 then OK else FAIL, m))
       (test_eviction_detailed h g target cands cnt tconf m)"

text \<open>The set and its configuration are never \<open>NULL\<close> in this model; the target may be.\<close>

definition verify_evset ::
    "'m hw \<Rightarrow> globals \<Rightarrow> EvBuildConf EvSet \<Rightarrow> addr \<Rightarrow> 'm \<Rightarrow> (EvRes \<times> 'm) option" where
  "verify_evset h g evset target m =
     (if target = 0 then Some (FAIL, m)
      else test_eviction h g target (ev_addrs evset) (ev_size evset) (build_conf evset) m)"

subsection \<open>evcands_filter_batch\<close>

text \<open>Timing every line of a batch and counting the slow ones.\<close>

fun time_lines :: "'m hw \<Rightarrow> u64 \<Rightarrow> addr list \<Rightarrow> nat list \<Rightarrow> 'm \<Rightarrow> nat list \<times> 'm" where
  "time_lines h thresh (x # xs) (otc # otcs) m =
     (let (lat, m) = time_maccess h x m;
          (rest, m) = time_lines h thresh xs otcs m
      in ((if lat > thresh then otc + 1 else otc) # rest, m))"
| "time_lines h thresh xs otcs m = ([], m)"

fun batch_trials ::
    "'m hw \<Rightarrow> EvTestConf EvSet \<Rightarrow> EvBuildConf \<Rightarrow> addr list \<Rightarrow> nat \<Rightarrow> nat \<Rightarrow> nat list \<Rightarrow> 'm
       \<Rightarrow> (nat list \<times> 'm) option" where
  "batch_trials h fev conf lines cur 0 otcs m = Some (otcs, m)"
| "batch_trials h fev conf lines cur (Suc t) otcs m = do {
     xs \<leftarrow> access_array lines cur;
     let m = access_seq h xs m;
     ys \<leftarrow> addrs_traverse (ev_addrs fev) (ev_size fev) (build_conf fev);
     let m = access_seq h ys m;
     let (otcs, m) = time_lines h (lat_thresh conf) xs otcs m;
     batch_trials h fev conf lines cur t otcs m
   }"

text \<open>Moving the lines that were slow often enough to the front of the array.\<close>

fun batch_select :: "nat \<Rightarrow> nat \<Rightarrow> nat list \<Rightarrow> addr list \<Rightarrow> nat \<Rightarrow> (addr list \<times> nat) option" where
  "batch_select upp pos [] addrs n_pos = Some (addrs, n_pos)"
| "batch_select upp pos (otc # otcs) addrs n_pos =
     (if otc > upp then do {
        addrs \<leftarrow> arr_swap addrs n_pos pos;
        batch_select upp (pos + 1) otcs addrs (n_pos + 1)
      } else batch_select upp (pos + 1) otcs addrs n_pos)"

text \<open>The loop over the batches; a batch size of 0 would never end.\<close>

function batch_loop ::
    "'m hw \<Rightarrow> EvTestConf EvSet \<Rightarrow> EvBuildConf \<Rightarrow> nat \<Rightarrow> nat \<Rightarrow> nat \<Rightarrow> addr list \<Rightarrow> nat \<Rightarrow> 'm
       \<Rightarrow> ((addr list \<times> nat) \<times> 'm) option" where
  "batch_loop h fev conf batch_sz total_cands s addrs n_pos m =
     (if s < total_cands then
        (if batch_sz = 0 then None else do {
           let cur = min batch_sz (total_cands - s);
           lines \<leftarrow> arr_from addrs s;
           (otcs, m) \<leftarrow> batch_trials h fev conf lines cur (trials conf) (replicate cur 0) m;
           (addrs, n_pos) \<leftarrow> batch_select (upp_bnd conf) s otcs addrs n_pos;
           batch_loop h fev conf batch_sz total_cands (s + batch_sz) addrs n_pos m
         })
      else Some ((addrs, n_pos), m))"
  by pat_completeness auto
termination
  by (relation "measure (\<lambda>(h, fev, conf, batch_sz, total_cands, s, addrs, n_pos, m). total_cands - s)") auto

declare batch_loop.simps [simp del]

definition filter_batch_sz :: "CacheInfo \<Rightarrow> nat" where
  "filter_batch_sz c = (let n = unat (n_ways c) in if n > 2 then n - 1 else n)"

definition evcands_filter_batch ::
    "'m hw \<Rightarrow> addr list \<Rightarrow> nat \<Rightarrow> nat \<Rightarrow> EvTestConf EvSet option \<Rightarrow> EvBuildConf \<Rightarrow> 'm
       \<Rightarrow> ((addr list \<times> nat) \<times> 'm) option" where
  "evcands_filter_batch h addrs total_cands filtered_count fev conf m =
     (case fev of None \<Rightarrow> Some ((addrs, filtered_count), m)
      | Some fev \<Rightarrow>
          (let batch_sz = filter_batch_sz (target_cache fev);
               (otcs, m) = os_calloc h (batch_sz * 4) m
           in case otcs of None \<Rightarrow> Some ((addrs, 0), m)
              | Some _ \<Rightarrow> batch_loop h fev conf batch_sz total_cands 0 addrs 0 m))"

subsection \<open>prune_evcands\<close>

text \<open>
  The pruning and the search below call the eviction test through the pointer \<open>test\<close> of the
  configuration, so the test is an argument: \<open>test target cands cnt\<close> on the machine.
\<close>

type_synonym 'm tester = "addr \<Rightarrow> addr list \<Rightarrow> nat \<Rightarrow> 'm \<Rightarrow> (EvRes \<times> 'm) option"

function prune_loop ::
    "'m tester \<Rightarrow> addr \<Rightarrow> addr list \<Rightarrow> nat \<Rightarrow> nat \<Rightarrow> 'm \<Rightarrow> ((addr list \<times> nat) \<times> 'm) option" where
  "prune_loop test target cands cnt i m =
     (if i < cnt then do {
        c \<leftarrow> arr_get cands i;
        swapped \<leftarrow> arr_set cands i target;
        (tres, m) \<leftarrow> test c swapped cnt m;
        if tres = FAIL then do {
          cands \<leftarrow> arr_swap cands i (cnt - 1);
          prune_loop test target cands (cnt - 1) i m
        } else prune_loop test target cands cnt (i + 1) m
      } else Some ((cands, cnt), m))"
  by pat_completeness auto
termination
  by (relation "measure (\<lambda>(test, target, cands, cnt, i, m). cnt - i)") auto

declare prune_loop.simps [simp del]

definition prune_evcands ::
    "'m hw \<Rightarrow> 'm tester \<Rightarrow> addr \<Rightarrow> addr list \<Rightarrow> nat \<Rightarrow> 'm \<Rightarrow> ((addr list \<times> nat) \<times> 'm) option" where
  "prune_evcands h test target cands cnt m =
     (let (start, m) = os_time_us h m
      in map_option (\<lambda>(r, m). (r, snd (os_time_us h m))) (prune_loop test target cands cnt 0 m))"

subsection \<open>evcands_populate\<close>

text \<open>
  Every page of the buffer gives one candidate at the offset; each is written, so that it is
  backed by memory. The result \<open>True\<close> is the error of the source. \<open>l2conf\<close> is the global
  \<open>def_l2_build_conf\<close>.
\<close>

definition cand_addrs :: "EvBuffer \<Rightarrow> u32 \<Rightarrow> addr list" where
  "cand_addrs e offset = map (\<lambda>n. buf e + of_nat n * PAGE_SIZE + ucast offset) [0..<unat (n_pages e)]"

definition touch_cands :: "'m hw \<Rightarrow> addr list \<Rightarrow> 'm \<Rightarrow> 'm" where
  "touch_cands h addrs m = fold (\<lambda>(n, a). mwrite h a (of_nat n)) (enumerate 0 addrs) m"

definition evcands_populate ::
    "'m hw \<Rightarrow> u32 \<Rightarrow> EvCands \<Rightarrow> EvBuildConf \<Rightarrow> EvBuildConf \<Rightarrow> 'm
       \<Rightarrow> ((bool \<times> EvCands) \<times> 'm) option" where
  "evcands_populate h offset cands config l2conf m =
     (let n_cands_init = unat (n_pages (evb cands));
          (arr, m) = os_calloc h (n_cands_init * 8) m
      in case arr of None \<Rightarrow> Some ((True, cands), m)
         | Some _ \<Rightarrow>
             (let addrs = cand_addrs (evb cands) offset;
                  m = touch_cands h addrs m
              in case filter_ev config of
                   None \<Rightarrow> Some ((False, cands\<lparr>cands_addrs := addrs, cands_count := n_cands_init\<rparr>), m)
                 | Some fev \<Rightarrow>
                     if cache_uncertainty (target_cache fev) = 1
                     then Some ((False, cands\<lparr>cands_addrs := addrs, cands_count := n_cands_init\<rparr>), m)
                     else (let (start, m) = os_time_us h m in do {
                       ((addrs, n_filtered), m) \<leftarrow>
                         evcands_filter_batch h addrs n_cands_init 0 (filter_ev config) l2conf m;
                       if n_filtered = 0 then Some ((True, cands), m)
                       else do {
                         let (stop, m) = os_time_us h m;
                         let (tmp, m) = os_calloc h (n_filtered * 8) m;
                         if tmp = None then None
                         else do {
                           kept \<leftarrow> arr_range addrs 0 n_filtered;
                           Some ((False, cands\<lparr>cands_addrs := kept, cands_count := n_filtered\<rparr>), m)
                         }
                       }
                     })))"

end
