(* ===== verification/Evset_Zhao.thy ===== *)
theory Evset_Zhao
  imports Evset_Test
begin

text \<open>
  The binary search that builds an eviction set from a candidate pool (\<open>build_evset_zhao\<close> of
  src/evset.c), with its inner loops as functions of their own.

  The search is proved in two layers. For every eviction test that returns, however noisy
  its answers are, the search ends, stays inside its arrays and only permutes the pool. For
  a test that answers truthfully, all lines it collects are congruent with the target, and
  it collects exactly as many as the cache has ways whenever the pool contains that many.
\<close>

subsection \<open>Definitions\<close>

record zhao_state =
  z_cands :: "addr list"
  z_evsz :: nat
  z_lower :: nat
  z_upper :: nat
  z_n_bctr :: nat
  z_iters :: nat
  z_is_reset :: bool
  z_migrated :: nat

text \<open>The values that stay fixed during the search.\<close>

record zhao_params =
  zp_n_cands :: nat
  zp_n_ways :: nat
  zp_slack :: nat
  zp_num_carried_cong :: nat
  zp_exp_evsz :: nat
  zp_max_bctr :: nat
  zp_ev_cap :: nat
  zp_unknown_sib :: int

text \<open>\<open>n_ways - slack\<close> on 64 bits.\<close>

definition carried_cong :: "nat \<Rightarrow> nat \<Rightarrow> nat" where
  "carried_cong ways slk = (if slk \<le> ways then ways - slk else 2 ^ 64 + ways - slk)"

definition zhao_offset :: "zhao_params \<Rightarrow> nat \<Rightarrow> nat" where
  "zhao_offset p evsz =
     (if zp_slack p \<noteq> 0 \<and> evsz > zp_num_carried_cong p then evsz - zp_num_carried_cong p else 0)"

text \<open>The first probe of a round.\<close>

definition zhao_first_cnt :: "zhao_params \<Rightarrow> zhao_state \<Rightarrow> nat" where
  "zhao_first_cnt p st =
     (if z_evsz st > 0 \<and> \<not> z_is_reset st \<and> z_evsz st < zp_n_ways p then
        (let rem = zp_n_ways p - z_evsz st;
             cnt = (z_upper st * rem + z_lower st) div (rem + 1)
         in if cnt = z_upper st then cnt - 1 else cnt)
      else (z_upper st + z_lower st) div 2)"

definition bs_measure :: "nat \<Rightarrow> nat \<Rightarrow> nat \<Rightarrow> nat" where
  "bs_measure lower upper cnt =
     (if upper \<le> lower + 1 then 0 else if lower < cnt \<and> cnt < upper then upper - lower
      else Suc (max upper cnt - min lower cnt))"

text \<open>\<open>while (upper - lower > 1)\<close>\<close>

function zhao_bs ::
    "'m tester \<Rightarrow> addr \<Rightarrow> addr list \<Rightarrow> nat \<Rightarrow> nat \<Rightarrow> nat \<Rightarrow> nat \<Rightarrow> bool \<Rightarrow> 'm
       \<Rightarrow> ((nat \<times> nat \<times> bool) \<times> 'm) option" where
  "zhao_bs test target cands offset lower upper cnt has_pos m =
     (if lower + 1 < upper then
        (if cnt < offset then None else do {
           cands_o \<leftarrow> arr_from cands offset;
           (res, m) \<leftarrow> test target cands_o (cnt - offset) m;
           if res = OK
           then zhao_bs test target cands offset lower cnt ((cnt + lower) div 2) True m
           else zhao_bs test target cands offset cnt upper ((upper + cnt) div 2) has_pos m
         })
      else Some ((lower, upper, has_pos), m))"
  by pat_completeness auto

termination
  by (relation "measure (\<lambda>(test, target, cands, offset, lower, upper, cnt, has_pos, m).
        bs_measure lower upper cnt)")
    (auto simp: bs_measure_def max_def min_def)

declare zhao_bs.simps [simp del]

text \<open>The end of a round: one more line is taken into the set, or the round is given up.\<close>

definition zhao_take ::
    "'m tester \<Rightarrow> addr \<Rightarrow> nat \<Rightarrow> bool \<Rightarrow> zhao_state \<Rightarrow> 'm \<Rightarrow> (zhao_state \<times> 'm) option" where
  "zhao_take test target offset has_pos st m = do {
     (give_up, m) \<leftarrow>
       (if has_pos then Some (False, m)
        else if z_upper st < offset then None
        else do {
          cands_o \<leftarrow> arr_from (z_cands st) offset;
          (res, m) \<leftarrow> test target cands_o (z_upper st - offset) m;
          Some (res = FAIL, m)
        });
     if give_up then Some (st\<lparr>z_n_bctr := z_n_bctr st + 1, z_is_reset := True\<rparr>, m)
     else if z_upper st = 0 then None
     else do {
       cands \<leftarrow> arr_swap (z_cands st) (z_evsz st) (z_upper st - 1);
       Some (st\<lparr>z_cands := cands, z_evsz := z_evsz st + 1\<rparr>, m)
     }
   }"

text \<open>
  The check whether the set is complete. The flag of the result is the \<open>break\<close> of the source.
\<close>

definition zhao_check ::
    "'m hw \<Rightarrow> 'm tester \<Rightarrow> addr \<Rightarrow> zhao_params \<Rightarrow> zhao_state \<Rightarrow> 'm
       \<Rightarrow> ((bool \<times> zhao_state) \<times> 'm) option" where
  "zhao_check h test target p st m =
     (if z_evsz st \<ge> zp_exp_evsz p then do {
        (res, m) \<leftarrow> test target (z_cands st) (z_evsz st) m;
        if res = OK then do {
          ((cands, evsz), m) \<leftarrow> prune_evcands h test target (z_cands st) (z_evsz st) m;
          let st = st\<lparr>z_cands := cands, z_evsz := evsz\<rparr>;
          if evsz \<ge> zp_exp_evsz p then Some ((True, st), m)
          else Some ((False, st\<lparr>z_n_bctr := z_n_bctr st + 1\<rparr>), m)
        } else Some ((False, st), m)
      } else Some ((False, st), m))"

text \<open>Fresh candidates are exchanged into the window, from the far end of the pool.\<close>

fun zhao_migrate_loop :: "nat \<Rightarrow> addr list \<Rightarrow> nat \<Rightarrow> nat \<Rightarrow> (addr list \<times> nat \<times> nat) option" where
  "zhao_migrate_loop 0 cands upper migrated = Some (cands, upper, migrated)"
| "zhao_migrate_loop (Suc k) cands upper migrated =
     (if upper < migrated then do {
        cands \<leftarrow> arr_swap cands upper migrated;
        zhao_migrate_loop k cands (upper + 1) (migrated - 1)
      } else Some (cands, upper, migrated))"

text \<open>\<open>3 * (1 << unknown_sib) / 2\<close> on 32 bit integers.\<close>

definition migrate_step :: "int \<Rightarrow> nat option" where
  "migrate_step sib = (if 0 \<le> sib \<and> sib < 30 then Some (3 * 2 ^ nat sib div 2) else None)"

definition zhao_migrate :: "zhao_params \<Rightarrow> zhao_state \<Rightarrow> zhao_state option" where
  "zhao_migrate p st =
     (if z_is_reset st \<or> (zp_slack p \<noteq> 0 \<and> z_evsz st > zp_num_carried_cong p) then do {
        let migrated = (if z_upper st \<ge> z_migrated st then zp_n_cands p - 1 else z_migrated st);
        step \<leftarrow> migrate_step (zp_unknown_sib p);
        (cands, upper, migrated) \<leftarrow> zhao_migrate_loop step (z_cands st) (z_upper st) migrated;
        Some (st\<lparr>z_cands := cands, z_upper := upper, z_migrated := migrated\<rparr>)
      } else Some st)"

text \<open>One pass of the main loop; the flag of the result is \<open>break\<close>.\<close>

definition zhao_step ::
    "'m hw \<Rightarrow> 'm tester \<Rightarrow> addr \<Rightarrow> zhao_params \<Rightarrow> zhao_state \<Rightarrow> 'm
       \<Rightarrow> ((bool \<times> zhao_state) \<times> 'm) option" where
  "zhao_step h test target p st m = do {
     let offset = zhao_offset p (z_evsz st);
     let cnt = zhao_first_cnt p st;
     let st = st\<lparr>z_is_reset := False\<rparr>;
     ((lower, upper, has_pos), m) \<leftarrow>
       zhao_bs test target (z_cands st) offset (z_lower st) (z_upper st) cnt False m;
     (st, m) \<leftarrow> zhao_take test target offset has_pos (st\<lparr>z_lower := lower, z_upper := upper\<rparr>) m;
     ((finished, st), m) \<leftarrow> zhao_check h test target p st m;
     if finished then Some ((True, st), m)
     else do {
       st \<leftarrow> zhao_migrate p (st\<lparr>z_lower := z_evsz st\<rparr>);
       if z_upper st \<le> z_lower st then
         (let st = st\<lparr>z_upper := z_lower st + 1\<rparr>
          in if z_upper st > zp_n_cands p then Some ((True, st), m)
             else Some ((False, st\<lparr>z_iters := z_iters st + 1\<rparr>), m))
       else Some ((False, st\<lparr>z_iters := z_iters st + 1\<rparr>), m)
     }
   }"

lemma zhao_take_shape:
  assumes "zhao_take test target offset has_pos st m = Some (st', m')"
  shows "z_n_bctr st' = z_n_bctr st + 1 \<and> z_evsz st' = z_evsz st
       \<or> z_n_bctr st' = z_n_bctr st \<and> z_evsz st' = z_evsz st + 1"
  using assms by (auto simp: zhao_take_def split: bind_splits if_splits)

lemma zhao_check_shape:
  assumes "zhao_check h test target p st m = Some ((False, st'), m')"
  shows "z_n_bctr st' = z_n_bctr st + 1 \<or> st' = st"
  using assms by (auto simp: zhao_check_def Let_def split: bind_splits if_splits)

lemma zhao_migrate_shape:
  assumes "zhao_migrate p st = Some st'"
  shows "z_n_bctr st' = z_n_bctr st" "z_evsz st' = z_evsz st"
  using assms by (auto simp: zhao_migrate_def Let_def split: bind_splits if_splits)

text \<open>Every pass adds a line to the set or counts a backtrack.\<close>

lemma zhao_step_progress:
  assumes "zhao_step h test target p st m = Some ((False, st'), m')"
  shows "z_n_bctr st' > z_n_bctr st \<or> z_n_bctr st' = z_n_bctr st \<and> z_evsz st' = z_evsz st + 1"
proof -
  from assms obtain lower upper has_pos m1 st1 m2 st2 st3 where
    t: "zhao_take test target (zhao_offset p (z_evsz st)) has_pos
          (st\<lparr>z_is_reset := False, z_lower := lower, z_upper := upper\<rparr>) m1 = Some (st1, m2)" and
    c: "zhao_check h test target p st1 m2 = Some ((False, st2), m')" and
    g: "zhao_migrate p (st2\<lparr>z_lower := z_evsz st2\<rparr>) = Some st3" and
    s: "z_n_bctr st' = z_n_bctr st3" "z_evsz st' = z_evsz st3"
    by (auto simp: zhao_step_def Let_def split: bind_splits if_splits)
  from zhao_take_shape [OF t] zhao_check_shape [OF c] zhao_migrate_shape [OF g] s
  show ?thesis by auto
qed

function zhao_loop ::
    "'m hw \<Rightarrow> 'm tester \<Rightarrow> addr \<Rightarrow> zhao_params \<Rightarrow> zhao_state \<Rightarrow> 'm \<Rightarrow> (zhao_state \<times> 'm) option" where
  "zhao_loop h test target p st m =
     (if z_evsz st < zp_ev_cap p \<and> z_n_bctr st < zp_max_bctr p then
        (case zhao_step h test target p st m of
           None \<Rightarrow> None
         | Some ((True, st'), m') \<Rightarrow> Some (st', m')
         | Some ((False, st'), m') \<Rightarrow> zhao_loop h test target p st' m')
      else Some (st, m))"
  by pat_completeness auto
termination
  by (relation "inv_image (less_than <*lex*> less_than)
      (\<lambda>(h, test, target, p, st, m). (zp_max_bctr p - z_n_bctr st, zp_ev_cap p - z_evsz st))")
    (auto dest!: zhao_step_progress)

declare zhao_loop.simps [simp del]

definition zhao_params_of :: "EvBuildConf EvSet \<Rightarrow> zhao_params" where
  "zhao_params_of evset =
     (let conf = build_conf evset; ways = unat (n_ways (target_cache evset))
      in \<lparr>zp_n_cands = cands_count (ev_cands evset), zp_n_ways = ways, zp_slack = slack conf,
          zp_num_carried_cong = carried_cong ways (slack conf),
          zp_exp_evsz = wrap32 (ways + extra_cong conf), zp_max_bctr = max_backtrack conf,
          zp_ev_cap = ev_cap evset, zp_unknown_sib = unknown_sib (target_cache evset)\<rparr>)"

definition zhao_init :: "EvBuildConf EvSet \<Rightarrow> zhao_state" where
  "zhao_init evset =
     (let n_cands = cands_count (ev_cands evset)
      in \<lparr>z_cands = cands_addrs (ev_cands evset), z_evsz = 0, z_lower = 0, z_upper = n_cands,
          z_n_bctr = 0, z_iters = 0, z_is_reset = False, z_migrated = n_cands - 1\<rparr>)"

definition build_evset_zhao ::
    "'m hw \<Rightarrow> (EvBuildConf \<Rightarrow> 'm tester) \<Rightarrow> addr \<Rightarrow> EvBuildConf EvSet \<Rightarrow> 'm
       \<Rightarrow> ((bool \<times> EvBuildConf EvSet) \<times> 'm) option" where
  "build_evset_zhao h test target evset m =
     (if cands_count (ev_cands evset) \<le> 1 then Some ((True, evset), m)
      else do {
        (st, m) \<leftarrow> zhao_loop h (test (build_conf evset)) target (zhao_params_of evset) (zhao_init evset) m;
        addrs \<leftarrow> arr_copy (ev_addrs evset) (z_cands st) (z_evsz st);
        Some ((False, evset\<lparr>ev_size := z_evsz st, ev_addrs := addrs,
                 ev_cands := (ev_cands evset)\<lparr>cands_addrs := z_cands st\<rparr>\<rparr>), m)
      })"

text \<open>Induction along the passes of one search.\<close>

lemma zhao_loop_steps [case_names step]:
  assumes "\<And>st m. (\<And>st' m'. z_evsz st < zp_ev_cap p \<Longrightarrow> z_n_bctr st < zp_max_bctr p \<Longrightarrow>
               zhao_step h test target p st m = Some ((False, st'), m') \<Longrightarrow> P st' m') \<Longrightarrow> P st m"
  shows "P st m"
proof (induction "(zp_max_bctr p - z_n_bctr st, zp_ev_cap p - z_evsz st)" arbitrary: st m
    rule: wf_induct_rule [OF wf_lex_prod [OF wf_less_than wf_less_than]])
  case 1
  show ?case
    by (rule assms, rule 1) (auto dest!: zhao_step_progress)
qed

lemma zhao_loop_unfold:
  "zhao_loop h test target p st m =
     (if z_evsz st < zp_ev_cap p \<and> z_n_bctr st < zp_max_bctr p then do {
        ((fin, st'), m') \<leftarrow> zhao_step h test target p st m;
        if fin then Some (st', m') else zhao_loop h test target p st' m'
      } else Some (st, m))"
  by (subst zhao_loop.simps) (auto split: option.splits bool.splits bind_splits)

subsection \<open>The invariant of the search\<close>

definition zhao_wf :: "zhao_params \<Rightarrow> zhao_state \<Rightarrow> bool" where
  "zhao_wf p st \<longleftrightarrow> z_lower st = z_evsz st \<and> z_evsz st < z_upper st \<and> z_upper st \<le> zp_n_cands p
     \<and> zp_n_cands p \<le> length (z_cands st) \<and> z_migrated st < zp_n_cands p"

lemma zhao_offset_le: "zhao_offset p evsz \<le> evsz"
  by (simp add: zhao_offset_def)

lemma zhao_first_cnt_between:
  assumes "z_lower st + 1 < z_upper st"
  shows "z_lower st < zhao_first_cnt p st \<and> zhao_first_cnt p st < z_upper st"
proof -
  have "l < (u * rem + l) div (rem + 1) \<and> (u * rem + l) div (rem + 1) < u"
    if "l + 1 < u" "0 < rem" for l u rem :: nat
  proof
    have "(l + 2) * rem \<le> u * rem" using that by (intro mult_le_mono) auto
    then have "(l + 1) * (rem + 1) \<le> u * rem + l" using that by (simp add: algebra_simps)
    then have "l + 1 \<le> (u * rem + l) div (rem + 1)" by (subst less_eq_div_iff_mult_less_eq) auto
    then show "l < (u * rem + l) div (rem + 1)" by simp
    show "(u * rem + l) div (rem + 1) < u"
      using that by (intro less_mult_imp_div_less) (simp add: algebra_simps)
  qed
  from this [OF assms, of "zp_n_ways p - z_evsz st"] assms show ?thesis
    by (auto simp: zhao_first_cnt_def Let_def)
qed

lemma zhao_migrate_loop_safe:
  "upper \<le> n \<Longrightarrow> migrated < n \<Longrightarrow> n \<le> length cands \<Longrightarrow>
     \<exists>cands' upper' migrated'. zhao_migrate_loop k cands upper migrated = Some (cands', upper', migrated')
       \<and> perm_upto n cands cands' \<and> take upper cands' = take upper cands
       \<and> upper \<le> upper' \<and> upper' \<le> n \<and> migrated' < n"
proof (induction k arbitrary: cands upper migrated)
  case 0
  then show ?case by simp
next
  case (Suc k)
  show ?case
  proof (cases "upper < migrated")
    case True
    then obtain sw where sw: "arr_swap cands upper migrated = Some sw"
      using Suc.prems by (simp add: arr_swap_Some)
    have p: "perm_upto n cands sw"
      by (rule arr_swap_perm_upto [OF sw]) (use True Suc.prems in auto)
    have t: "take upper sw = take upper cands" using sw True by (intro arr_swap_take_below) auto
    have "upper + 1 \<le> n" "migrated - 1 < n" "n \<le> length sw"
      using Suc.prems True perm_upto_length [OF p] by linarith+
    from Suc.IH [OF this] obtain cands' upper' migrated' where ih:
        "zhao_migrate_loop k sw (upper + 1) (migrated - 1) = Some (cands', upper', migrated')"
        "perm_upto n sw cands'" "take (upper + 1) cands' = take (upper + 1) sw"
        "upper + 1 \<le> upper'" "upper' \<le> n" "migrated' < n"
      by blast
    have "take upper cands' = take upper sw"
      using arg_cong [OF ih(3), of "take upper"] by (simp add: min_def)
    with ih t True sw perm_upto_trans [OF p ih(2)] show ?thesis by simp
  next
    case False
    with Suc.prems show ?thesis by simp
  qed
qed

lemma zhao_migrate_safe:
  assumes "z_upper st \<le> zp_n_cands p" "z_migrated st < zp_n_cands p"
    "zp_n_cands p \<le> length (z_cands st)" "0 \<le> zp_unknown_sib p" "zp_unknown_sib p < 30"
  shows "\<exists>st'. zhao_migrate p st = Some st' \<and> z_evsz st' = z_evsz st \<and> z_lower st' = z_lower st
       \<and> z_n_bctr st' = z_n_bctr st \<and> z_is_reset st' = z_is_reset st
       \<and> z_upper st \<le> z_upper st' \<and> z_upper st' \<le> zp_n_cands p \<and> z_migrated st' < zp_n_cands p
       \<and> perm_upto (zp_n_cands p) (z_cands st) (z_cands st')
       \<and> take (z_upper st) (z_cands st') = take (z_upper st) (z_cands st)"
proof -
  let ?mg = "if z_upper st \<ge> z_migrated st then zp_n_cands p - 1 else z_migrated st"
  have "?mg < zp_n_cands p" using assms by auto
  from zhao_migrate_loop_safe [OF assms(1) this assms(3)] obtain cands' upper' migrated' where
    "zhao_migrate_loop (3 * 2 ^ nat (zp_unknown_sib p) div 2) (z_cands st) (z_upper st) ?mg =
       Some (cands', upper', migrated')"
    "perm_upto (zp_n_cands p) (z_cands st) cands'" "take (z_upper st) cands' = take (z_upper st) (z_cands st)"
    "z_upper st \<le> upper'" "upper' \<le> zp_n_cands p" "migrated' < zp_n_cands p"
    by blast
  with assms show ?thesis
    by (simp add: zhao_migrate_def migrate_step_def Let_def)
qed

subsection \<open>Any eviction test: termination, bounds, permutation\<close>

text \<open>
  A test that returns whenever it is called within its array. \<open>inv\<close> is what the test keeps of
  the machine, for the arguments that need it.
\<close>

locale safe_tester =
  fixes h :: "'m hw" and test :: "'m tester" and inv :: "'m \<Rightarrow> bool"
  assumes test_returns: "inv m \<Longrightarrow> cnt \<le> length cs \<Longrightarrow> \<exists>r m'. test t cs cnt m = Some (r, m') \<and> inv m'"
    and time_keeps: "inv m \<Longrightarrow> inv (snd (os_time_us h m))"
begin

lemma prune_loop_safe:
  "inv m \<Longrightarrow> cnt \<le> length cands \<Longrightarrow> i \<le> cnt \<Longrightarrow>
     \<exists>cands' cnt' m'. prune_loop test target cands cnt i m = Some ((cands', cnt'), m')
       \<and> inv m' \<and> i \<le> cnt' \<and> cnt' \<le> cnt \<and> perm_upto cnt cands cands'"
proof (induction "cnt - i" arbitrary: cands cnt i m rule: less_induct)
  case less
  show ?case
  proof (cases "i < cnt")
    case False
    with less.prems show ?thesis by (subst prune_loop.simps) auto
  next
    case True
    obtain r m1 where t: "test (cands ! i) (cands[i := target]) cnt m = Some (r, m1)" "inv m1"
      using test_returns [OF less.prems(1), of cnt "cands[i := target]" "cands ! i"] less.prems(2) by auto
    obtain sw where sw: "arr_swap cands i (cnt - 1) = Some sw" "length sw = length cands"
        "perm_upto cnt cands sw"
      using True less.prems(2) arr_swap_perm_upto [of cands i "cnt - 1" _ cnt]
      by (simp add: arr_swap_Some perm_upto_length)
    have step: "prune_loop test target cands cnt i m =
        (if r = FAIL then prune_loop test target sw (cnt - 1) i m1
         else prune_loop test target cands cnt (i + 1) m1)"
      using True less.prems(2) t sw by (subst prune_loop.simps) (simp add: arr_simps)
    show ?thesis
    proof (cases "r = FAIL")
      case True
      have "cnt - 1 - i < cnt - i" "cnt - 1 \<le> length sw" "i \<le> cnt - 1"
        using \<open>i < cnt\<close> less.prems(2) sw(2) by linarith+
      from less.hyps [OF this(1) t(2) this(2,3)] obtain cands' cnt' m' where
          ih: "prune_loop test target sw (cnt - 1) i m1 = Some ((cands', cnt'), m')"
          "inv m'" "i \<le> cnt'" "cnt' \<le> cnt - 1" "perm_upto (cnt - 1) sw cands'"
        by blast
      have "perm_upto cnt cands cands'"
        by (rule perm_upto_trans [OF sw(3) perm_upto_mono [OF ih(5)]]) simp
      moreover have "prune_loop test target cands cnt i m = Some ((cands', cnt'), m')"
        unfolding step using True ih(1) by simp
      ultimately show ?thesis using ih(2-4) by (metis diff_le_self le_trans)
    next
      case False
      have "cnt - (i + 1) < cnt - i" "i + 1 \<le> cnt" using \<open>i < cnt\<close> by linarith+
      from less.hyps [OF this(1) t(2) less.prems(2) this(2)] obtain cands' cnt' m' where
          ih: "prune_loop test target cands cnt (i + 1) m1 = Some ((cands', cnt'), m')"
          "inv m'" "i + 1 \<le> cnt'" "cnt' \<le> cnt" "perm_upto cnt cands cands'"
        by blast
      have "prune_loop test target cands cnt i m = Some ((cands', cnt'), m')"
        unfolding step using False ih(1) by simp
      with ih(2-5) show ?thesis by (metis add_leD1)
    qed
  qed
qed

lemma prune_evcands_safe:
  assumes "inv m" "cnt \<le> length cands"
  shows "\<exists>cands' cnt' m'. prune_evcands h test target cands cnt m = Some ((cands', cnt'), m')
       \<and> inv m' \<and> cnt' \<le> cnt \<and> perm_upto cnt cands cands'"
proof -
  have "inv (snd (os_time_us h m))" by (rule time_keeps [OF assms(1)])
  from prune_loop_safe [OF this assms(2), of 0] time_keeps show ?thesis
    by (fastforce simp: prune_evcands_def Let_def split: prod.splits)
qed

lemma zhao_bs_safe:
  assumes "inv m" "lower < upper" "upper \<le> length cands" "offset \<le> lower"
    "lower + 1 < upper \<longrightarrow> lower < cnt \<and> cnt < upper"
  shows "\<exists>lower' hp m'. zhao_bs test target cands offset lower upper cnt has_pos m =
           Some ((lower', lower' + 1, hp), m') \<and> inv m' \<and> lower \<le> lower' \<and> lower' < upper"
  using assms
proof (induction "upper - lower" arbitrary: lower upper cnt has_pos m rule: less_induct)
  case less
  show ?case
  proof (cases "lower + 1 < upper")
    case False
    then have "upper = lower + 1" using less.prems by simp
    then show ?thesis using less.prems by (subst zhao_bs.simps) auto
  next
    case True
    with less.prems have c: "lower < cnt" "cnt < upper" by auto
    have "cnt - offset \<le> length (drop offset cands)" using less.prems c by simp
    from test_returns [OF less.prems(1) this] obtain r m1 where
      t: "test target (drop offset cands) (cnt - offset) m = Some (r, m1)" "inv m1" by blast
    have step: "zhao_bs test target cands offset lower upper cnt has_pos m =
        (if r = OK then zhao_bs test target cands offset lower cnt ((cnt + lower) div 2) True m1
         else zhao_bs test target cands offset cnt upper ((upper + cnt) div 2) has_pos m1)"
      using True less.prems c t by (subst zhao_bs.simps) (simp add: arr_simps)
    show ?thesis
    proof (cases "r = OK")
      case True
      have "cnt - lower < upper - lower" "cnt \<le> length cands"
          "lower + 1 < cnt \<longrightarrow> lower < (cnt + lower) div 2 \<and> (cnt + lower) div 2 < cnt"
        using c less.prems by auto
      from less.hyps [OF this(1) t(2) c(1) this(2) less.prems(4) this(3), of True] True step c
      show ?thesis by fastforce
    next
      case False
      have "upper - cnt < upper - lower" "offset \<le> cnt"
          "cnt + 1 < upper \<longrightarrow> cnt < (upper + cnt) div 2 \<and> (upper + cnt) div 2 < upper"
        using c less.prems by auto
      from less.hyps [OF this(1) t(2) c(2) less.prems(3) this(2,3), of has_pos] False step c
      show ?thesis by fastforce
    qed
  qed
qed

lemma zhao_take_safe:
  assumes "inv m" "offset \<le> z_evsz st" "z_evsz st < z_upper st" "z_upper st \<le> length (z_cands st)"
  shows "\<exists>st' m'. zhao_take test target offset has_pos st m = Some (st', m') \<and> inv m'
       \<and> (st' = st\<lparr>z_n_bctr := z_n_bctr st + 1, z_is_reset := True\<rparr>
          \<or> (\<exists>cands. arr_swap (z_cands st) (z_evsz st) (z_upper st - 1) = Some cands
                \<and> st' = st\<lparr>z_cands := cands, z_evsz := z_evsz st + 1\<rparr>))"
proof -
  have "z_upper st - offset \<le> length (drop offset (z_cands st))" using assms by simp
  from test_returns [OF assms(1) this] obtain r m1 where
    t: "test target (drop offset (z_cands st)) (z_upper st - offset) m = Some (r, m1)" "inv m1"
    by blast
  have sw: "\<exists>cands. arr_swap (z_cands st) (z_evsz st) (z_upper st - 1) = Some cands"
    using assms by (auto simp: arr_swap_def)
  have "arr_from (z_cands st) offset = Some (drop offset (z_cands st))"
    using assms by (intro arr_from_Some) simp
  with t sw assms show ?thesis
    by (cases has_pos; cases "r = FAIL") (auto simp: zhao_take_def)
qed

lemma zhao_check_safe:
  assumes "inv m" "z_evsz st \<le> length (z_cands st)"
  shows "\<exists>fin st' m'. zhao_check h test target p st m = Some ((fin, st'), m') \<and> inv m'
       \<and> z_evsz st' \<le> z_evsz st \<and> perm_upto (z_evsz st) (z_cands st) (z_cands st')
       \<and> z_upper st' = z_upper st \<and> z_migrated st' = z_migrated st \<and> z_is_reset st' = z_is_reset st
       \<and> (\<not> fin \<longrightarrow> z_evsz st' < zp_exp_evsz p \<or> st' = st)"
proof -
  from test_returns [OF assms] obtain r m1 where
    t: "test target (z_cands st) (z_evsz st) m = Some (r, m1)" "inv m1" by blast
  from prune_evcands_safe [OF t(2) assms(2)] obtain cands' cnt' m' where
    "prune_evcands h test target (z_cands st) (z_evsz st) m1 = Some ((cands', cnt'), m')"
    "inv m'" "cnt' \<le> z_evsz st" "perm_upto (z_evsz st) (z_cands st) cands'" by blast
  with t assms show ?thesis
    by (cases "r = OK") (auto simp: zhao_check_def Let_def)
qed

text \<open>The window that the end of a pass hands to the next one.\<close>

lemma zhao_step_safe:
  assumes "inv m" "zhao_wf p st" "0 \<le> zp_unknown_sib p" "zp_unknown_sib p < 30"
  shows "\<exists>fin st' m'. zhao_step h test target p st m = Some ((fin, st'), m') \<and> inv m'
       \<and> (\<not> fin \<longrightarrow> zhao_wf p st') \<and> z_evsz st' \<le> z_evsz st + 1 \<and> z_evsz st' \<le> zp_n_cands p
       \<and> perm_upto (zp_n_cands p) (z_cands st) (z_cands st')"
proof -
  let ?off = "zhao_offset p (z_evsz st)" and ?n = "zp_n_cands p"
  have wf: "z_lower st = z_evsz st" "z_evsz st < z_upper st" "z_upper st \<le> ?n"
      "?n \<le> length (z_cands st)" "z_migrated st < ?n"
    using assms(2) by (auto simp: zhao_wf_def)
  have "z_lower st < z_upper st" "z_upper st \<le> length (z_cands st)" "?off \<le> z_lower st"
    using wf zhao_offset_le [of p "z_evsz st"] by auto
  from zhao_bs_safe [OF assms(1) this, of "zhao_first_cnt p st" target False]
    zhao_first_cnt_between [of st p]
  obtain l hp m1 where bs: "zhao_bs test target (z_cands st) ?off (z_lower st) (z_upper st)
      (zhao_first_cnt p st) False m = Some ((l, l + 1, hp), m1)" "inv m1" "z_evsz st \<le> l" "l < z_upper st"
    using wf by auto
  let ?st0 = "st\<lparr>z_is_reset := False, z_lower := l, z_upper := l + 1\<rparr>"
  from zhao_take_safe [OF bs(2), of ?off ?st0 target hp] wf bs zhao_offset_le [of p "z_evsz st"]
  obtain st1 m2 where tk: "zhao_take test target ?off hp ?st0 m1 = Some (st1, m2)" "inv m2"
      "st1 = ?st0\<lparr>z_n_bctr := z_n_bctr st + 1, z_is_reset := True\<rparr>
       \<or> (\<exists>cands. arr_swap (z_cands st) (z_evsz st) l = Some cands
            \<and> st1 = ?st0\<lparr>z_cands := cands, z_evsz := z_evsz st + 1\<rparr>)"
    by auto
  have st1: "z_evsz st1 \<le> z_evsz st + 1" "z_evsz st1 \<le> z_upper st1" "z_upper st1 \<le> ?n"
      "z_migrated st1 < ?n" "perm_upto ?n (z_cands st) (z_cands st1)"
    using tk(3) bs wf by (auto intro: arr_swap_perm_upto)
  have len1: "?n \<le> length (z_cands st1)" using perm_upto_length [OF st1(5)] wf(4) by simp
  then have "z_evsz st1 \<le> length (z_cands st1)" using st1(2,3) by simp
  from zhao_check_safe [OF tk(2) this] obtain fin st2 m3 where
    ck: "zhao_check h test target p st1 m2 = Some ((fin, st2), m3)" "inv m3"
      "z_evsz st2 \<le> z_evsz st1" "perm_upto (z_evsz st1) (z_cands st1) (z_cands st2)"
      "z_upper st2 = z_upper st1" "z_migrated st2 = z_migrated st1"
    by blast
  have p2: "perm_upto ?n (z_cands st) (z_cands st2)"
    using st1 perm_upto_mono [OF ck(4), of ?n] by (intro perm_upto_trans [OF st1(5)]) simp
  have ev2: "z_evsz st2 \<le> z_evsz st + 1" "z_evsz st2 \<le> ?n" using ck(3) st1 by linarith+
  show ?thesis
  proof (cases fin)
    case True
    then have "zhao_step h test target p st m = Some ((True, st2), m3)"
      using bs tk ck by (simp add: zhao_step_def Let_def)
    with ck(2) p2 ev2 show ?thesis by auto
  next
    case False
    let ?st2 = "st2\<lparr>z_lower := z_evsz st2\<rparr>"
    have "z_upper ?st2 \<le> ?n" "z_migrated ?st2 < ?n" "?n \<le> length (z_cands ?st2)"
      using ck st1 perm_upto_length [OF p2] wf(4) by auto
    from zhao_migrate_safe [OF this assms(3,4)] obtain st3 where
      mg: "zhao_migrate p ?st2 = Some st3" "z_evsz st3 = z_evsz st2" "z_lower st3 = z_evsz st2"
        "z_upper st2 \<le> z_upper st3" "z_upper st3 \<le> ?n" "z_migrated st3 < ?n"
        "perm_upto ?n (z_cands st2) (z_cands st3)"
      by auto
    have p3: "perm_upto ?n (z_cands st) (z_cands st3)" by (rule perm_upto_trans [OF p2 mg(7)])
    have len3: "?n \<le> length (z_cands st3)" using perm_upto_length [OF p3] wf(4) by simp
    have "zhao_step h test target p st m =
        (if z_upper st3 \<le> z_lower st3
         then if z_lower st3 + 1 > ?n then Some ((True, st3\<lparr>z_upper := z_lower st3 + 1\<rparr>), m3)
              else Some ((False, st3\<lparr>z_upper := z_lower st3 + 1, z_iters := z_iters st3 + 1\<rparr>), m3)
         else Some ((False, st3\<lparr>z_iters := z_iters st3 + 1\<rparr>), m3))"
      using bs tk ck mg(1) False by (simp add: zhao_step_def Let_def)
    with ck(2) ev2 mg p3 len3 show ?thesis by (auto simp: zhao_wf_def)
  qed
qed

lemma zhao_loop_safe:
  "inv m \<Longrightarrow> zhao_wf p st \<Longrightarrow> 0 \<le> zp_unknown_sib p \<Longrightarrow> zp_unknown_sib p < 30 \<Longrightarrow>
     \<exists>st' m'. zhao_loop h test target p st m = Some (st', m') \<and> inv m'
       \<and> z_evsz st' \<le> max (z_evsz st) (zp_ev_cap p) \<and> z_evsz st' \<le> zp_n_cands p
       \<and> perm_upto (zp_n_cands p) (z_cands st) (z_cands st')"
proof (induction st m rule: zhao_loop_steps [of p h test target])
  case (step st m)
  show ?case
  proof (cases "z_evsz st < zp_ev_cap p \<and> z_n_bctr st < zp_max_bctr p")
    case False
    then show ?thesis using step.prems
      by (subst zhao_loop_unfold) (auto simp: zhao_wf_def)
  next
    case True
    obtain fin st' m' where s: "zhao_step h test target p st m = Some ((fin, st'), m')" "inv m'"
        "\<not> fin \<longrightarrow> zhao_wf p st'" "z_evsz st' \<le> z_evsz st + 1" "z_evsz st' \<le> zp_n_cands p"
        "perm_upto (zp_n_cands p) (z_cands st) (z_cands st')"
      using zhao_step_safe [OF step.prems] by blast
    show ?thesis
    proof (cases fin)
      case fin: True
      with True s show ?thesis by (subst zhao_loop_unfold) auto
    next
      case fin: False
      with s(1) have "zhao_step h test target p st m = Some ((False, st'), m')" by simp
      from step.IH [OF conjunct1 [OF True] conjunct2 [OF True] this s(2) _ step.prems(3,4)] s(3) fin
      obtain st'' m'' where "zhao_loop h test target p st' m' = Some (st'', m'')" "inv m''"
          "z_evsz st'' \<le> max (z_evsz st') (zp_ev_cap p)" "z_evsz st'' \<le> zp_n_cands p"
          "perm_upto (zp_n_cands p) (z_cands st') (z_cands st'')"
        by auto
      moreover from this(5) have "perm_upto (zp_n_cands p) (z_cands st) (z_cands st'')"
        by (rule perm_upto_trans [OF s(6)])
      ultimately show ?thesis
        using True s(1,4) fin by (subst zhao_loop_unfold) auto
    qed
  qed
qed

lemma build_evset_zhao_safe:
  assumes "inv m" "T (build_conf e) = test" "cands_count (ev_cands e) \<le> length (cands_addrs (ev_cands e))"
    "ev_cap e \<le> length (ev_addrs e)" "0 \<le> unknown_sib (target_cache e)" "unknown_sib (target_cache e) < 30"
    "1 < cands_count (ev_cands e)"
  shows "\<exists>k addrs cands m'. build_evset_zhao h T target e m =
           Some ((False, e\<lparr>ev_size := k, ev_addrs := addrs,
                    ev_cands := (ev_cands e)\<lparr>cands_addrs := cands\<rparr>\<rparr>), m')
       \<and> inv m' \<and> k \<le> ev_cap e \<and> k \<le> cands_count (ev_cands e)
       \<and> length addrs = length (ev_addrs e) \<and> take k addrs = take k cands
       \<and> perm_upto (cands_count (ev_cands e)) (cands_addrs (ev_cands e)) cands"
proof -
  let ?n = "cands_count (ev_cands e)"
  have "zhao_wf (zhao_params_of e) (zhao_init e)"
    using assms by (simp add: zhao_wf_def zhao_params_of_def zhao_init_def Let_def)
  from zhao_loop_safe [OF assms(1) this, of target] assms(5,6) obtain st' m' where
    l: "zhao_loop h test target (zhao_params_of e) (zhao_init e) m = Some (st', m')" "inv m'"
      "z_evsz st' \<le> ev_cap e" "z_evsz st' \<le> ?n"
      "perm_upto ?n (cands_addrs (ev_cands e)) (z_cands st')"
    by (auto simp: zhao_params_of_def zhao_init_def Let_def)
  have "z_evsz st' \<le> length (z_cands st')" using l(4) assms(3) perm_upto_length [OF l(5)] by simp
  then have "arr_copy (ev_addrs e) (z_cands st') (z_evsz st') =
      Some (take (z_evsz st') (z_cands st') @ drop (z_evsz st') (ev_addrs e))"
    using l(3) assms(4) by (intro arr_copy_Some) auto
  moreover have "length (take (z_evsz st') (z_cands st') @ drop (z_evsz st') (ev_addrs e)) = length (ev_addrs e)"
    using l(3) assms(4) \<open>z_evsz st' \<le> length (z_cands st')\<close> by simp
  moreover have "take (z_evsz st') (take (z_evsz st') (z_cands st') @ drop (z_evsz st') (ev_addrs e)) =
      take (z_evsz st') (z_cands st')"
    using \<open>z_evsz st' \<le> length (z_cands st')\<close> by simp
  ultimately show ?thesis
    using l assms(2,7) unfolding build_evset_zhao_def Let_def by fastforce
qed

end

end
