(* ===== verification/Evset_Exact.thy ===== *)
theory Evset_Exact
  imports Evset_Zhao
begin

text \<open>
  The search of theory \<open>Evset_Zhao\<close> with an eviction test that answers truthfully: it reports
  an eviction exactly when at least as many of the lines are congruent with the target as the
  cache has ways. Every line the search collects is then congruent with the target, for every
  configuration that asks for no extra lines, and without slack it finds a full set
  whenever the pool has one.
\<close>

lemma filter_snoc_jump:
  assumes "length (filter P xs) < w" "w \<le> length (filter P (xs @ [x]))"
  shows "P x"
  using assms by (auto split: if_splits)

lemma swap_in_distinct:
  assumes "i < length xs" "distinct (map f (t # xs))"
  shows "distinct (map f (xs ! i # xs[i := t]))"
proof -
  have "xs ! i \<in># mset xs" using assms(1) by simp
  then have "mset (xs ! i # xs[i := t]) = mset (t # xs)"
    using assms(1) by (simp add: mset_update)
  then have "mset (map f (xs ! i # xs[i := t])) = mset (map f (t # xs))"
    by (metis mset_map)
  with assms(2) show ?thesis using mset_eq_imp_distinct_iff by blast
qed

lemma window_distinct:
  assumes "distinct (map f (t # xs))"
  shows "distinct (map f (t # drop a (take b xs)))"
proof -
  have "distinct (drop a (take b (map f xs)))" using assms by simp
  moreover have "f t \<notin> set (drop a (take b (map f xs)))"
    using assms by (auto simp del: set_map dest!: in_set_dropD in_set_takeD)
  ultimately show ?thesis by (simp add: drop_map take_map)
qed

text \<open>The number of congruent lines in the window \<open>cands[offset], \<dots>, cands[k - 1]\<close>.\<close>

definition cong_cnt :: "(addr \<Rightarrow> addr \<Rightarrow> bool) \<Rightarrow> addr \<Rightarrow> addr list \<Rightarrow> nat \<Rightarrow> nat \<Rightarrow> nat" where
  "cong_cnt cong target cands offset k = length (filter (cong target) (drop offset (take k cands)))"

text \<open>The pieces of one pass.\<close>

lemma zhao_step_SomeE:
  assumes "zhao_step h test target p st m = Some ((fin, st'), m')"
  obtains lower upper hp m1 st1 m2 fin2 st2 where
    "zhao_bs test target (z_cands st) (zhao_offset p (z_evsz st)) (z_lower st) (z_upper st)
       (zhao_first_cnt p st) False m = Some ((lower, upper, hp), m1)"
    "zhao_take test target (zhao_offset p (z_evsz st)) hp
       (st\<lparr>z_is_reset := False, z_lower := lower, z_upper := upper\<rparr>) m1 = Some (st1, m2)"
    "zhao_check h test target p st1 m2 = Some ((fin2, st2), m')"
    "fin2 \<and> fin \<and> st' = st2 \<or>
     \<not> fin2 \<and> (\<exists>st3. zhao_migrate p (st2\<lparr>z_lower := z_evsz st2\<rparr>) = Some st3
       \<and> z_cands st' = z_cands st3 \<and> z_evsz st' = z_evsz st3 \<and> z_n_bctr st' = z_n_bctr st3
       \<and> z_upper st' = max (z_upper st3) (z_lower st3 + 1)
       \<and> (fin \<longrightarrow> z_upper st3 \<le> z_lower st3 \<and> zp_n_cands p < z_lower st3 + 1))"
  using assms
  by (auto simp: zhao_step_def Let_def max_def split: bind_splits if_splits)

locale truthful_tester = safe_tester h test inv
  for h :: "'m hw" and test :: "'m tester" and inv :: "'m \<Rightarrow> bool" +
  fixes line :: "addr \<Rightarrow> 'l" and cong :: "addr \<Rightarrow> addr \<Rightarrow> bool" and W :: nat
  assumes truthful: "inv m \<Longrightarrow> cnt \<le> length cs \<Longrightarrow> distinct (map line (t # take cnt cs)) \<Longrightarrow>
        test t cs cnt m = Some (r, m') \<Longrightarrow> r = OK \<longleftrightarrow> W \<le> length (filter (cong t) (take cnt cs))"
    and cong_sym: "cong a b \<Longrightarrow> cong b a"
    and cong_trans: "cong a b \<Longrightarrow> cong b c \<Longrightarrow> cong a c"
    and W_pos: "0 < W"
begin

subsection \<open>Pruning keeps a minimal set\<close>

lemma prune_loop_minimal:
  assumes "inv m" "W \<le> length cands" "distinct (map line (target # take W cands))"
    "\<forall>a \<in> set (take W cands). cong target a" "i \<le> W"
  shows "\<exists>m'. prune_loop test target cands W i m = Some ((cands, W), m') \<and> inv m'"
  using assms
proof (induction "W - i" arbitrary: i m rule: less_induct)
  case less
  show ?case
  proof (cases "i < W")
    case False
    with less.prems show ?thesis by (subst prune_loop.simps) auto
  next
    case True
    let ?c = "cands ! i" and ?sw = "cands[i := target]"
    have i: "i < length (take W cands)" using True less.prems(2) by simp
    have tk: "take W ?sw = (take W cands)[i := target]" by (simp add: take_update_swap)
    have ci: "?c = take W cands ! i" using True by simp
    have d: "distinct (map line (?c # take W ?sw))"
      unfolding tk ci using swap_in_distinct [OF i less.prems(3)] by simp
    have "\<forall>a \<in> set (take W ?sw). cong ?c a"
    proof
      fix a assume "a \<in> set (take W ?sw)"
      then have a: "a = target \<or> a \<in> set (take W cands)"
        unfolding tk using set_update_subset_insert [of "take W cands" i target] by auto
      have "cong target ?c" using less.prems(4) i ci nth_mem by metis
      with a less.prems(4) show "cong ?c a" by (metis cong_sym cong_trans)
    qed
    then have full: "filter (cong ?c) (take W ?sw) = take W ?sw" by (simp add: filter_id_conv)
    obtain r m1 where t: "test ?c ?sw W m = Some (r, m1)" "inv m1"
      using test_returns [OF less.prems(1), of W ?sw ?c] less.prems(2) by auto
    have "r = OK" using truthful [OF less.prems(1) _ d t(1)] full less.prems(2) by simp
    with True less.prems(2) t have step: "prune_loop test target cands W i m = prune_loop test target cands W (i + 1) m1"
      by (subst prune_loop.simps) (simp add: arr_simps)
    show ?thesis
      unfolding step using True t(2) less.prems by (intro less.hyps) auto
  qed
qed

lemma prune_evcands_minimal:
  assumes "inv m" "W \<le> length cands" "distinct (map line (target # take W cands))"
    "\<forall>a \<in> set (take W cands). cong target a"
  shows "\<exists>m'. prune_evcands h test target cands W m = Some ((cands, W), m') \<and> inv m'"
  using prune_loop_minimal [OF time_keeps [OF assms(1)] assms(2-4), of 0] time_keeps
  by (fastforce simp: prune_evcands_def Let_def split: prod.splits)

subsection \<open>The binary search finds the last line that completes a set\<close>

lemma test_window:
  assumes "inv m" "distinct (map line (target # take n cands))" "n \<le> length cands" "k \<le> n" "offset \<le> k"
    "test target (drop offset cands) (k - offset) m = Some (r, m')"
  shows "r = OK \<longleftrightarrow> W \<le> cong_cnt cong target cands offset k"
proof -
  have w: "take (k - offset) (drop offset cands) = drop offset (take k cands)"
    by (simp add: drop_take)
  have "distinct (map line (target # drop offset (take k cands)))"
    using window_distinct [OF assms(2), of offset k] assms(4) by (simp add: min_absorb1)
  moreover have "k - offset \<le> length (drop offset cands)" using assms by simp
  ultimately show ?thesis
    using truthful [OF assms(1) _ _ assms(6)] by (simp add: w cong_cnt_def)
qed

lemma zhao_bs_exact:
  assumes "inv m" "distinct (map line (target # take n cands))" "n \<le> length cands"
    "lower < upper" "upper \<le> n" "offset \<le> lower"
    "lower + 1 < upper \<longrightarrow> lower < cnt \<and> cnt < upper"
    "cong_cnt cong target cands offset lower < W"
    "has_pos \<longrightarrow> W \<le> cong_cnt cong target cands offset upper"
    "zhao_bs test target cands offset lower upper cnt has_pos m = Some ((lower', upper', hp), m')"
  shows "cong_cnt cong target cands offset lower' < W
       \<and> (hp \<longrightarrow> W \<le> cong_cnt cong target cands offset upper')
       \<and> (W \<le> cong_cnt cong target cands offset upper \<longrightarrow> W \<le> cong_cnt cong target cands offset upper')"
  using assms
proof (induction "upper - lower" arbitrary: lower upper cnt has_pos m rule: less_induct)
  case less
  show ?case
  proof (cases "lower + 1 < upper")
    case False
    with less.prems(10) have "lower' = lower" "upper' = upper" "hp = has_pos"
      by (auto simp: zhao_bs.simps [of test target cands offset lower])
    with less.prems show ?thesis by simp
  next
    case True
    with less.prems have c: "lower < cnt" "cnt < upper" by auto
    have "cnt - offset \<le> length (drop offset cands)" using less.prems c by simp
    from test_returns [OF less.prems(1) this] obtain r m1 where
      t: "test target (drop offset cands) (cnt - offset) m = Some (r, m1)" "inv m1" by blast
    have r: "r = OK \<longleftrightarrow> W \<le> cong_cnt cong target cands offset cnt"
      by (rule test_window [OF less.prems(1-3) _ _ t(1)]) (use c less.prems in auto)
    have step: "zhao_bs test target cands offset lower upper cnt has_pos m =
        (if r = OK then zhao_bs test target cands offset lower cnt ((cnt + lower) div 2) True m1
         else zhao_bs test target cands offset cnt upper ((upper + cnt) div 2) has_pos m1)"
      using True less.prems c t by (subst zhao_bs.simps) (simp add: arr_simps)
    show ?thesis
    proof (cases "r = OK")
      case True
      have "cnt - lower < upper - lower" "cnt \<le> n"
          "lower + 1 < cnt \<longrightarrow> lower < (cnt + lower) div 2 \<and> (cnt + lower) div 2 < cnt"
        using c less.prems by auto
      from less.hyps [OF this(1) t(2) less.prems(2,3) c(1) this(2) less.prems(6) this(3) less.prems(8), of True]
        True r less.prems(10) step
      show ?thesis by simp
    next
      case False
      have "upper - cnt < upper - lower" "offset \<le> cnt"
          "cnt + 1 < upper \<longrightarrow> cnt < (upper + cnt) div 2 \<and> (upper + cnt) div 2 < upper"
        using c less.prems by auto
      from less.hyps [OF this(1) t(2) less.prems(2,3) c(2) less.prems(5) this(2,3) _ less.prems(9)]
        False r less.prems(10) step
      show ?thesis by simp
    qed
  qed
qed

lemma cong_cnt_jump:
  assumes "cong_cnt cong target cands offset l < W" "W \<le> cong_cnt cong target cands offset (l + 1)"
    "l < length cands" "offset \<le> l"
  shows "cong target (cands ! l)"
proof (rule filter_snoc_jump [where P = "cong target"])
  show "length (filter (cong target) (drop offset (take l cands))) < W"
    using assms(1) by (simp add: cong_cnt_def)
  have "drop offset (take (l + 1) cands) = drop offset (take l cands) @ [cands ! l]"
    using assms(3,4) by (simp add: take_Suc_conv_app_nth)
  then show "W \<le> length (filter (cong target) (drop offset (take l cands) @ [cands ! l]))"
    using assms(2) by (simp add: cong_cnt_def)
qed

lemma zhao_take_exact:
  assumes "inv m" "distinct (map line (target # take n (z_cands st)))" "n \<le> length (z_cands st)"
    "offset \<le> l" "l < n" "z_upper st = l + 1"
    "cong_cnt cong target (z_cands st) offset l < W"
    "has_pos \<longrightarrow> W \<le> cong_cnt cong target (z_cands st) offset (l + 1)"
    "zhao_take test target offset has_pos st m = Some (st', m')"
  shows "st' = st\<lparr>z_n_bctr := z_n_bctr st + 1, z_is_reset := True\<rparr>
           \<and> \<not> W \<le> cong_cnt cong target (z_cands st) offset (l + 1)
       \<or> cong target (z_cands st ! l) \<and> W \<le> cong_cnt cong target (z_cands st) offset (l + 1)
         \<and> (\<exists>cands. arr_swap (z_cands st) (z_evsz st) l = Some cands
           \<and> st' = st\<lparr>z_cands := cands, z_evsz := z_evsz st + 1\<rparr>)"
proof -
  have "l + 1 - offset \<le> length (drop offset (z_cands st))" using assms by simp
  from test_returns [OF assms(1) this] obtain r m1 where
    t: "test target (drop offset (z_cands st)) (l + 1 - offset) m = Some (r, m1)" by blast
  have r: "r = OK \<longleftrightarrow> W \<le> cong_cnt cong target (z_cands st) offset (l + 1)"
    by (rule test_window [OF assms(1-3) _ _ t]) (use assms(4,5) in auto)
  have "W \<le> cong_cnt cong target (z_cands st) offset (l + 1) \<Longrightarrow> cong target (z_cands st ! l)"
    using assms(3,5) by (intro cong_cnt_jump [OF assms(7) _ _ assms(4)]) auto
  moreover have "arr_from (z_cands st) offset = Some (drop offset (z_cands st))"
    using assms by (intro arr_from_Some) simp
  ultimately show ?thesis
    using assms(6,8,9) t r by (cases r) (auto simp: zhao_take_def split: bind_splits if_splits)
qed

lemma zhao_check_exact:
  assumes "inv m" "zp_exp_evsz p = W" "z_evsz st \<le> W" "z_evsz st \<le> length (z_cands st)"
    "distinct (map line (target # take (z_evsz st) (z_cands st)))"
    "\<forall>a \<in> set (take (z_evsz st) (z_cands st)). cong target a"
    "zhao_check h test target p st m = Some ((fin, st'), m')"
  shows "st' = st \<and> fin = (z_evsz st = W)"
proof (cases "z_evsz st = W")
  case False
  with assms(2,3,7) show ?thesis by (auto simp: zhao_check_def)
next
  case True
  have full: "filter (cong target) (take W (z_cands st)) = take W (z_cands st)"
    using assms(6) True by (simp add: filter_id_conv)
  obtain r m1 where t: "test target (z_cands st) W m = Some (r, m1)" "inv m1"
    using test_returns [OF assms(1), of W "z_cands st" target] assms(4) True by auto
  have "r = OK"
    using truthful [OF assms(1) _ _ t(1)] assms(4,5) True full by simp
  obtain m2 where "prune_evcands h test target (z_cands st) W m1 = Some ((z_cands st, W), m2)"
    using prune_evcands_minimal [OF t(2), of "z_cands st" target] assms(4-6) True by auto
  with True t(1) \<open>r = OK\<close> assms(2,7) show ?thesis
    by (auto simp: zhao_check_def Let_def)
qed

subsection \<open>The whole search\<close>

definition zhao_good :: "addr \<Rightarrow> zhao_params \<Rightarrow> zhao_state \<Rightarrow> bool" where
  "zhao_good target p st \<longleftrightarrow> zhao_wf p st \<and> z_evsz st < W
     \<and> (\<forall>a \<in> set (take (z_evsz st) (z_cands st)). cong target a)
     \<and> distinct (map line (target # take (zp_n_cands p) (z_cands st)))"

text \<open>The search and the taking of a line, together.\<close>

lemma zhao_round_exact:
  assumes "inv m" "zhao_good target p st"
    and bs: "zhao_bs test target (z_cands st) (zhao_offset p (z_evsz st)) (z_lower st) (z_upper st)
           (zhao_first_cnt p st) False m = Some ((l, u, hp), m1)"
    and tk: "zhao_take test target (zhao_offset p (z_evsz st)) hp
           (st\<lparr>z_is_reset := False, z_lower := l, z_upper := u\<rparr>) m1 = Some (st1, m2)"
  shows "u = l + 1 \<and> z_evsz st \<le> l \<and> l < z_upper st \<and> inv m2
    \<and> (st1 = st\<lparr>z_is_reset := True, z_lower := l, z_upper := l + 1, z_n_bctr := z_n_bctr st + 1\<rparr>
         \<and> \<not> W \<le> cong_cnt cong target (z_cands st) (zhao_offset p (z_evsz st)) (z_upper st)
       \<or> cong target (z_cands st ! l) \<and> W \<le> cong_cnt cong target (z_cands st) (zhao_offset p (z_evsz st)) (l + 1)
         \<and> (\<exists>cands. arr_swap (z_cands st) (z_evsz st) l = Some cands
              \<and> st1 = st\<lparr>z_is_reset := False, z_lower := l, z_upper := l + 1, z_cands := cands,
                         z_evsz := z_evsz st + 1\<rparr>))"
proof -
  let ?n = "zp_n_cands p" and ?off = "zhao_offset p (z_evsz st)"
  let ?N = "cong_cnt cong target (z_cands st) ?off"
  let ?st0 = "st\<lparr>z_is_reset := False, z_lower := l, z_upper := u\<rparr>"
  have wf: "z_lower st = z_evsz st" "z_evsz st < z_upper st" "z_upper st \<le> ?n" "?n \<le> length (z_cands st)"
      "z_evsz st < W"
    using assms(2) by (auto simp: zhao_good_def zhao_wf_def)
  have dist: "distinct (map line (target # take ?n (z_cands st)))"
    using assms(2) by (simp add: zhao_good_def)
  have pre: "z_lower st < z_upper st" "z_upper st \<le> length (z_cands st)" "?off \<le> z_lower st"
      "z_lower st + 1 < z_upper st \<longrightarrow> z_lower st < zhao_first_cnt p st \<and> zhao_first_cnt p st < z_upper st"
    using wf zhao_offset_le [of p "z_evsz st"] zhao_first_cnt_between [of st p] by auto
  have lu: "u = l + 1" "z_evsz st \<le> l" "l < z_upper st" "inv m1"
    using zhao_bs_safe [OF assms(1) pre, of target False] bs wf(1) by auto
  have "?N (z_lower st) \<le> z_evsz st - ?off"
    unfolding cong_cnt_def using wf by (intro order_trans [OF length_filter_le]) simp
  then have lo: "?N (z_lower st) < W" using wf(5) by simp
  have ex: "?N l < W" "hp \<longrightarrow> W \<le> ?N (l + 1)" "W \<le> ?N (z_upper st) \<longrightarrow> W \<le> ?N (l + 1)"
    using zhao_bs_exact [OF assms(1) dist wf(4) pre(1) wf(3) pre(3,4) lo _ bs] lu(1) by auto
  have "?off \<le> l" "l < ?n" using pre(3) wf lu by auto
  then have "st1 = ?st0\<lparr>z_n_bctr := z_n_bctr ?st0 + 1, z_is_reset := True\<rparr> \<and> \<not> W \<le> ?N (l + 1)
      \<or> cong target (z_cands st ! l) \<and> W \<le> ?N (l + 1)
        \<and> (\<exists>cands. arr_swap (z_cands st) (z_evsz st) l = Some cands
              \<and> st1 = ?st0\<lparr>z_cands := cands, z_evsz := z_evsz ?st0 + 1\<rparr>)"
    using zhao_take_exact [OF lu(4), of target ?n ?st0 ?off l hp st1 m2] dist wf(4) lu(1) ex tk by simp
  moreover have "inv m2"
    using zhao_take_safe [OF lu(4), of ?off ?st0 target hp] tk lu wf zhao_offset_le [of p "z_evsz st"]
    by auto
  ultimately show ?thesis using lu ex by auto
qed

text \<open>
  A pass that finds a full window adds a congruent line and leaves the window full; one that
  does not leaves the set as it is.
\<close>

lemma zhao_step_exact:
  assumes "inv m" "zhao_good target p st" "0 \<le> zp_unknown_sib p" "zp_unknown_sib p < 30"
    "zp_exp_evsz p = W" "zhao_step h test target p st m = Some ((fin, st'), m')"
  shows "(\<forall>a \<in> set (take (z_evsz st') (z_cands st')). cong target a) \<and> z_evsz st' \<le> W
       \<and> (\<not> fin \<longrightarrow> z_evsz st' < W)
       \<and> (zp_slack p = 0 \<and> W \<le> cong_cnt cong target (z_cands st) 0 (z_upper st) \<longrightarrow>
            z_evsz st' = z_evsz st + 1 \<and> z_n_bctr st' = z_n_bctr st \<and> (fin \<longrightarrow> z_evsz st' = W)
            \<and> (\<not> fin \<longrightarrow> W \<le> cong_cnt cong target (z_cands st') 0 (z_upper st')))"
proof -
  let ?n = "zp_n_cands p" and ?off = "zhao_offset p (z_evsz st)"
  have wf: "z_lower st = z_evsz st" "z_evsz st < z_upper st" "z_upper st \<le> ?n" "?n \<le> length (z_cands st)"
      "z_migrated st < ?n" "z_evsz st < W" "\<forall>a \<in> set (take (z_evsz st) (z_cands st)). cong target a"
      "distinct (map line (target # take ?n (z_cands st)))"
    using assms(2) by (auto simp: zhao_good_def zhao_wf_def)
  obtain l u hp m1 st1 m2 fin2 st2 where
    bs: "zhao_bs test target (z_cands st) ?off (z_lower st) (z_upper st) (zhao_first_cnt p st) False m
           = Some ((l, u, hp), m1)" and
    tk: "zhao_take test target ?off hp (st\<lparr>z_is_reset := False, z_lower := l, z_upper := u\<rparr>) m1
           = Some (st1, m2)" and
    ck: "zhao_check h test target p st1 m2 = Some ((fin2, st2), m')" and
    fin: "fin2 \<and> fin \<and> st' = st2 \<or> \<not> fin2 \<and> (\<exists>st3. zhao_migrate p (st2\<lparr>z_lower := z_evsz st2\<rparr>) = Some st3
       \<and> z_cands st' = z_cands st3 \<and> z_evsz st' = z_evsz st3 \<and> z_n_bctr st' = z_n_bctr st3
       \<and> z_upper st' = max (z_upper st3) (z_lower st3 + 1)
       \<and> (fin \<longrightarrow> z_upper st3 \<le> z_lower st3 \<and> ?n < z_lower st3 + 1))"
    by (rule zhao_step_SomeE [OF assms(6)])
  from zhao_round_exact [OF assms(1,2) bs tk] have rnd: "u = l + 1" "z_evsz st \<le> l" "l < z_upper st" "inv m2"
    by auto
  let ?add = "cong target (z_cands st ! l) \<and> W \<le> cong_cnt cong target (z_cands st) ?off (l + 1)
         \<and> arr_swap (z_cands st) (z_evsz st) l = Some (z_cands st1) \<and> z_evsz st1 = z_evsz st + 1
         \<and> z_n_bctr st1 = z_n_bctr st \<and> \<not> z_is_reset st1"
  let ?give_up = "z_cands st1 = z_cands st \<and> z_evsz st1 = z_evsz st
         \<and> \<not> W \<le> cong_cnt cong target (z_cands st) ?off (z_upper st)"
  have st1: "?add \<or> ?give_up" "z_upper st1 = l + 1" "z_migrated st1 = z_migrated st"
    using zhao_round_exact [OF assms(1,2) bs tk] by auto
  have p1: "perm_upto (l + 1) (z_cands st) (z_cands st1)"
    using st1(1) rnd(2) arr_swap_perm_upto [of "z_cands st" "z_evsz st" l "z_cands st1" "l + 1"] by auto
  have p1n: "perm_upto ?n (z_cands st) (z_cands st1)"
    using rnd(3) wf(3) by (intro perm_upto_mono [OF p1]) simp
  have cong1: "\<forall>a \<in> set (take (z_evsz st1) (z_cands st1)). cong target a"
    using st1(1) wf(7) arr_swap_extends [of "z_cands st" "z_evsz st" l "z_cands st1"] rnd(2) by auto
  have ev1: "z_evsz st1 \<le> W" "z_evsz st1 \<le> l + 1" "z_evsz st1 \<le> length (z_cands st1)"
    using st1(1) wf rnd perm_upto_length [OF p1] by auto
  have "distinct (map line (target # take ?n (z_cands st1)))"
    using perm_upto_distinct_map [OF p1n, of line] perm_upto_set [OF p1n] wf(8) by simp
  from window_distinct [OF this, of 0 "z_evsz st1"]
  have "distinct (map line (target # take (z_evsz st1) (z_cands st1)))"
    using ev1(2) rnd(3) wf(3) by (simp add: min_absorb1)
  from zhao_check_exact [OF rnd(4) assms(5) ev1(1,3) this cong1 ck]
  have st2: "st2 = st1" "fin2 = (z_evsz st1 = W)" by auto
  have full: "?add \<and> W \<le> cong_cnt cong target (z_cands st1) 0 (l + 1)"
    if "zp_slack p = 0" "W \<le> cong_cnt cong target (z_cands st) 0 (z_upper st)"
  proof -
    have "?off = 0" using that(1) by (simp add: zhao_offset_def)
    then have "?add" using that(2) st1(1) by auto
    moreover have "cong_cnt cong target (z_cands st1) 0 (l + 1) = cong_cnt cong target (z_cands st) 0 (l + 1)"
      using perm_upto_filter_length [OF p1, of "cong target"] by (simp add: cong_cnt_def)
    ultimately show ?thesis using \<open>?off = 0\<close> by simp
  qed
  show ?thesis
  proof (cases fin2)
    case True
    with fin st2 have "st' = st1" "fin" "z_evsz st1 = W" by auto
    with cong1 full show ?thesis by auto
  next
    case False
    with fin st2(1) obtain st3 where
      mg: "zhao_migrate p (st1\<lparr>z_lower := z_evsz st1\<rparr>) = Some st3" and
      st': "z_cands st' = z_cands st3" "z_evsz st' = z_evsz st3" "z_n_bctr st' = z_n_bctr st3"
        "z_upper st' = max (z_upper st3) (z_lower st3 + 1)"
        "fin \<longrightarrow> z_upper st3 \<le> z_lower st3 \<and> ?n < z_lower st3 + 1"
      by auto
    have "?n \<le> length (z_cands st1)" using perm_upto_length [OF p1] wf(4) by simp
    then have st3: "z_evsz st3 = z_evsz st1" "z_lower st3 = z_evsz st1" "z_n_bctr st3 = z_n_bctr st1"
        "take (l + 1) (z_cands st3) = take (l + 1) (z_cands st1)" "l + 1 \<le> z_upper st3"
      using zhao_migrate_safe [of "st1\<lparr>z_lower := z_evsz st1\<rparr>" p] mg st1(2,3) rnd(3) wf(3,5) assms(3,4)
      by auto
    have "take (z_evsz st1) (z_cands st3) = take (z_evsz st1) (z_cands st1)"
      using arg_cong [OF st3(4), of "take (z_evsz st1)"] ev1(2) by (simp add: min_absorb1)
    with cong1 st' st3 have c: "\<forall>a \<in> set (take (z_evsz st') (z_cands st')). cong target a" by simp
    have lt: "z_evsz st' < W" using False st2(2) ev1(1) st' st3 by simp
    have "z_evsz st' = z_evsz st + 1 \<and> z_n_bctr st' = z_n_bctr st \<and> \<not> fin
        \<and> W \<le> cong_cnt cong target (z_cands st') 0 (z_upper st')"
      if "zp_slack p = 0" "W \<le> cong_cnt cong target (z_cands st) 0 (z_upper st)"
    proof -
      note f = full [OF that]
      have "cong_cnt cong target (z_cands st1) 0 (l + 1) \<le> l + 1"
        unfolding cong_cnt_def by (rule order_trans [OF length_filter_le]) simp
      with f have "W \<le> l + 1" by linarith
      have "st3 = st1\<lparr>z_lower := z_evsz st1\<rparr>" using mg f that(1) by (simp add: zhao_migrate_def)
      then have "z_upper st3 = l + 1" "z_lower st3 + 1 \<le> l + 1"
        using st1(2) st3(1,2) st'(2) lt \<open>W \<le> l + 1\<close> by auto
      with st'(4,5) have "z_upper st' = l + 1" "\<not> fin" by auto
      with f st' st3 \<open>st3 = st1\<lparr>z_lower := z_evsz st1\<rparr>\<close> show ?thesis by simp
    qed
    with c lt show ?thesis by auto
  qed
qed

lemma zhao_loop_exact:
  "inv m \<Longrightarrow> zhao_good target p st \<Longrightarrow> 0 \<le> zp_unknown_sib p \<Longrightarrow> zp_unknown_sib p < 30 \<Longrightarrow>
   zp_exp_evsz p = W \<Longrightarrow> zhao_loop h test target p st m = Some (st', m') \<Longrightarrow>
     (\<forall>a \<in> set (take (z_evsz st') (z_cands st')). cong target a) \<and> z_evsz st' \<le> W
     \<and> (zp_slack p = 0 \<and> W \<le> cong_cnt cong target (z_cands st) 0 (z_upper st)
          \<and> z_n_bctr st < zp_max_bctr p \<and> W \<le> zp_ev_cap p \<longrightarrow> z_evsz st' = W)"
proof (induction st m rule: zhao_loop_steps [of p h test target])
  case (step st m)
  have lt: "z_evsz st < W" using step.prems(2) by (simp add: zhao_good_def)
  show ?case
  proof (cases "z_evsz st < zp_ev_cap p \<and> z_n_bctr st < zp_max_bctr p")
    case False
    then have "st' = st" using step.prems(6) by (subst (asm) zhao_loop_unfold) auto
    with step.prems(2) False lt show ?thesis by (auto simp: zhao_good_def)
  next
    case True
    have wf: "zhao_wf p st" using step.prems(2) by (simp add: zhao_good_def)
    obtain fin st1 m1 where s: "zhao_step h test target p st m = Some ((fin, st1), m1)" "inv m1"
        "\<not> fin \<longrightarrow> zhao_wf p st1" "perm_upto (zp_n_cands p) (z_cands st) (z_cands st1)"
      using zhao_step_safe [OF step.prems(1) wf step.prems(3,4)] by blast
    note ex = zhao_step_exact [OF step.prems(1-5) s(1)]
    show ?thesis
    proof (cases fin)
      case fin: True
      with True s(1) step.prems(6) have "st' = st1" by (subst (asm) zhao_loop_unfold) auto
      with ex fin show ?thesis by auto
    next
      case fin: False
      have "distinct (map line (target # take (zp_n_cands p) (z_cands st1)))"
        using perm_upto_distinct_map [OF s(4), of line] perm_upto_set [OF s(4)] step.prems(2)
        by (simp add: zhao_good_def)
      with ex fin s(3) have g: "zhao_good target p st1" by (simp add: zhao_good_def)
      have "zhao_loop h test target p st1 m1 = Some (st', m')"
        using True s(1) fin step.prems(6) by (subst (asm) zhao_loop_unfold) simp
      with step.IH [OF conjunct1 [OF True] conjunct2 [OF True] _ s(2) g step.prems(3-5)] s(1) fin ex
      show ?thesis by auto
    qed
  qed
qed

lemma build_evset_zhao_exact:
  assumes "inv m" "T (build_conf e) = test" "cands_count (ev_cands e) \<le> length (cands_addrs (ev_cands e))"
    "ev_cap e \<le> length (ev_addrs e)" "0 \<le> unknown_sib (target_cache e)" "unknown_sib (target_cache e) < 30"
    "1 < cands_count (ev_cands e)" "unat (n_ways (target_cache e)) = W" "extra_cong (build_conf e) = 0"
    "distinct (map line (target # take (cands_count (ev_cands e)) (cands_addrs (ev_cands e))))"
    and b: "build_evset_zhao h T target e m = Some ((err, e'), m')"
  shows "(\<forall>a \<in> set (take (ev_size e') (ev_addrs e')). cong target a) \<and> ev_size e' \<le> W
       \<and> (slack (build_conf e) = 0 \<and> 0 < max_backtrack (build_conf e) \<and> W \<le> ev_cap e
          \<and> W \<le> length (filter (cong target) (take (cands_count (ev_cands e)) (cands_addrs (ev_cands e))))
          \<longrightarrow> ev_size e' = W)"
proof -
  let ?n = "cands_count (ev_cands e)" and ?p = "zhao_params_of e" and ?st = "zhao_init e"
  have "W < 2 ^ 32" using unsigned_less [where ?'a = nat, of "n_ways (target_cache e)"] assms(8) by simp
  then have p: "zp_n_cands ?p = ?n" "zp_exp_evsz ?p = W" "zp_ev_cap ?p = ev_cap e"
      "zp_slack ?p = slack (build_conf e)" "zp_max_bctr ?p = max_backtrack (build_conf e)"
      "0 \<le> zp_unknown_sib ?p" "zp_unknown_sib ?p < 30"
    using assms(5,6,8,9) by (simp_all add: zhao_params_of_def Let_def wrap32_def)
  have st: "z_cands ?st = cands_addrs (ev_cands e)" "z_upper ?st = ?n" "z_n_bctr ?st = 0"
    by (simp_all add: zhao_init_def Let_def)
  have good: "zhao_good target ?p ?st"
    using assms W_pos by (simp add: zhao_good_def zhao_wf_def zhao_params_of_def zhao_init_def Let_def)
  from b assms(2,7) obtain st' where
    l: "zhao_loop h test target ?p ?st m = Some (st', m')" "ev_size e' = z_evsz st'"
      "arr_copy (ev_addrs e) (z_cands st') (z_evsz st') = Some (ev_addrs e')"
    by (auto simp: build_evset_zhao_def split: bind_splits)
  have "take (ev_size e') (ev_addrs e') = take (z_evsz st') (z_cands st')"
    using arr_copy_take [OF l(3)] l(2) by simp
  moreover have "cong_cnt cong target (cands_addrs (ev_cands e)) 0 ?n =
      length (filter (cong target) (take ?n (cands_addrs (ev_cands e))))"
    by (simp add: cong_cnt_def)
  ultimately show ?thesis
    using zhao_loop_exact [OF assms(1) good p(6,7,2) l(1)] unfolding p(3-5) st l(2) by metis
qed

end

end
