(* ===== verification/Evset_Returns.thy ===== *)
theory Evset_Returns
  imports Evset_Exact
begin

text \<open>
  The eviction test of the source as a test in the sense of theory \<open>Evset_Zhao\<close>: on every
  machine, and for every configuration whose helper thread runs and whose lower level set is
  well formed, it returns. The default L2 configuration needs nothing at all.
\<close>

definition conf_test :: "'m hw \<Rightarrow> globals \<Rightarrow> EvBuildConf \<Rightarrow> 'm tester" where
  "conf_test h g conf target cands cnt m = test_eviction h g target cands cnt conf m"

definition conf_runs :: "'m hw \<Rightarrow> EvBuildConf \<Rightarrow> bool" where
  "conf_runs h conf \<longleftrightarrow> (need_helper conf \<longrightarrow> hctrl conf) \<and> \<not> foreign_evictor conf
     \<and> (\<forall>l. lower_ev conf = Some l \<longrightarrow> ev_size l \<le> length (ev_addrs l))
     \<and> (cand_traverse conf = Traverse_cands_mt \<longrightarrow>
          hctrl conf \<and> 0 < stride conf \<and> (\<forall>n m. fst (os_calloc h n m) \<noteq> None))"

subsection \<open>Every part of the test returns\<close>

lemma addrs_traverse_Some [arr_simps]:
  "n \<le> length xs \<Longrightarrow> addrs_traverse xs n conf = Some (concat (replicate (ev_repeat conf) (rev (take n xs))))"
  by (simp add: addrs_traverse_def arr_simps)

lemma prime_cands_daniel_returns:
  assumes "cnt \<le> length cands" "0 < strd"
  shows "\<exists>xs. prime_cands_daniel cands cnt rep strd blk = Some xs \<and> set xs \<subseteq> set (take cnt cands)"
  using daniel_loop_Some [OF assms(1) _ assms(2), of "min blk cnt" rep 0]
  by (simp add: prime_cands_daniel_def)

lemma traverse_cands_mt_returns:
  assumes "conf_runs h conf" "cand_traverse conf = Traverse_cands_mt" "cnt \<le> length cands"
  shows "\<exists>m'. traverse_cands_mt h g cands cnt conf m = Some m'"
proof -
  have "0 < stride conf" using assms(1,2) by (simp add: conf_runs_def)
  then obtain xs where xs: "prime_cands_daniel cands cnt (ev_repeat conf) (stride conf) (block conf) = Some xs"
    using prime_cands_daniel_returns [OF assms(3)] by blast
  have "fst (os_calloc h 48 m) \<noteq> None" using assms(1,2) by (simp add: conf_runs_def)
  then obtain p m1 where c: "os_calloc h 48 m = (Some p, m1)"
    by (cases "os_calloc h 48 m") auto
  have "\<exists>ys. (if cnt < unat (n_ways (l2_info g)) then
                (case lower_ev conf of None \<Rightarrow> Some []
                 | Some l \<Rightarrow> do {
                     us \<leftarrow> addrs_traverse (ev_addrs l) (ev_size l) (build_conf l);
                     vs \<leftarrow> access_array_bwd cands cnt;
                     Some (us @ vs)
                   })
              else Some []) = Some ys"
    using assms(1,3) by (auto simp: conf_runs_def arr_simps split: option.splits)
  moreover have "hctrl conf" using assms(1,2) by (simp add: conf_runs_def)
  ultimately show ?thesis
    using xs c by (auto simp: traverse_cands_mt_def)
qed

lemma load_target_returns: "conf_runs h conf \<Longrightarrow> \<exists>m'. load_target h conf target j m = Some m'"
proof (induction j arbitrary: m)
  case (Suc j)
  have "\<exists>m'. (case lower_ev conf of None \<Rightarrow> Some m
      | Some l \<Rightarrow> map_option (\<lambda>xs. access_seq h xs m) (addrs_traverse (ev_addrs l) (ev_size l) conf)) = Some m'"
    using Suc.prems by (auto simp: conf_runs_def arr_simps split: option.splits)
  then obtain m1 where m1: "(case lower_ev conf of None \<Rightarrow> Some m
      | Some l \<Rightarrow> map_option (\<lambda>xs. access_seq h xs m) (addrs_traverse (ev_addrs l) (ev_size l) conf)) = Some m1"
    by blast
  have "need_helper conf \<longrightarrow> hctrl conf" using Suc.prems by (simp add: conf_runs_def)
  with m1 Suc.IH [OF Suc.prems] show ?case
    by (simp add: helper_thread_read_single_def Let_def)
qed simp

lemma test_trial_returns:
  assumes "conf_runs h conf" "cnt \<le> length cands"
  shows "\<exists>r m'. test_trial h g target cands cnt conf m = Some (r, m')"
proof -
  have fl: "\<exists>m'. (if flush_cands conf then flush_array h cands cnt m else Some m) = Some m'" for m
    using assms(2) by (simp add: flush_array_def arr_simps)
  have tr: "\<exists>m'. cand_traverse_call h g cands cnt conf m = Some m'" for m
    using assms traverse_cands_mt_returns [OF assms(1) _ assms(2)]
    by (auto simp: cand_traverse_call_def arr_simps split: traverse_fn.splits)
  have nf: "\<not> foreign_evictor conf" using assms(1) by (simp add: conf_runs_def)
  obtain aux m1 where m1: "rdtscp_aux h m = (aux, m1)" by fastforce
  obtain m2 where m2: "(if flush_cands conf then flush_array h cands cnt (clflushopt h target m1)
      else Some (clflushopt h target m1)) = Some m2" using fl by blast
  obtain m3 where m3: "load_target h conf target (access_cnt conf) m2 = Some m3"
    using load_target_returns [OF assms(1)] by blast
  obtain m4 where m4: "cand_traverse_call h g cands cnt conf m3 = Some m4" using tr by blast
  from m1 m2 m3 m4 nf show ?thesis
    by (simp add: test_trial_def Let_def split: prod.splits)
qed

text \<open>What one trial keeps of the machine, the whole test keeps.\<close>

definition trial_keeps ::
    "'m hw \<Rightarrow> globals \<Rightarrow> ('m \<Rightarrow> bool) \<Rightarrow> addr \<Rightarrow> addr list \<Rightarrow> nat \<Rightarrow> EvBuildConf \<Rightarrow> bool" where
  "trial_keeps h g keeps t cands cnt conf \<longleftrightarrow>
     (\<forall>m. keeps m \<longrightarrow> (\<exists>r m'. test_trial h g t cands cnt conf m = Some (r, m') \<and> keeps m'))"

lemma test_while_returns:
  assumes "trial_keeps h g keeps target cands cnt conf"
  shows "keeps m \<Longrightarrow> \<exists>r m'. test_while h g target cands cnt conf ntrials upp mx valid att otc m = Some (r, m') \<and> keeps m'"
proof (induction "mx - att" arbitrary: valid att otc m rule: less_induct)
  case less
  show ?case
  proof (cases "valid < ntrials \<and> att < mx")
    case False
    with less.prems show ?thesis by (subst test_while.simps) auto
  next
    case True
    obtain r m1 where "test_trial h g target cands cnt conf m = Some (r, m1)" "keeps m1"
      using assms less.prems by (auto simp: trial_keeps_def)
    then obtain ab aa lat where
      t: "test_trial h g target cands cnt conf m = Some ((ab, aa, lat), m1)" "keeps m1"
      by (metis prod_cases3)
    have ih: "\<exists>r m'. test_while h g target cands cnt conf ntrials upp mx v (att + 1) k m1 = Some (r, m') \<and> keeps m'" for v k
      by (rule less.hyps) (use True t(2) in auto)
    have "test_while h g target cands cnt conf ntrials upp mx valid att otc m =
      (if ab \<noteq> aa \<or> lat > interrupt_thresh (g_lats g)
       then test_while h g target cands cnt conf ntrials upp mx valid (att + 1) otc m1
       else let otc = (if lat \<ge> lat_thresh conf then otc + 1 else otc)
            in if otc \<ge> upp then Some (Inl EV_POS, m1)
               else test_while h g target cands cnt conf ntrials upp mx (valid + 1) (att + 1) otc m1)"
      using True t by (subst test_while.simps) simp
    then show ?thesis using ih t(2) unfolding Let_def by metis
  qed
qed

lemma test_rounds_returns:
  assumes "trial_keeps h g keeps target cands cnt conf"
  shows "keeps m \<Longrightarrow> \<exists>r m'. test_rounds h g target cands cnt conf ntrials low upp k otc m = Some (r, m') \<and> keeps m'"
proof (induction k arbitrary: otc m)
  case (Suc k)
  obtain r m1 where "test_while h g target cands cnt conf ntrials upp (wrap32 (ntrials * 4)) 0 0 0 m = Some (r, m1)"
      "keeps m1"
    using test_while_returns [OF assms Suc.prems] by blast
  with Suc.IH show ?case by (cases r) auto
qed simp

lemma trial_keeps_test:
  assumes "trial_keeps h g keeps t cands cnt conf" "keeps m"
  shows "\<exists>r m'. conf_test h g conf t cands cnt m = Some (r, m') \<and> keeps m'"
proof -
  from test_rounds_returns [OF assms] obtain r m' where
    "test_eviction_detailed h g t cands cnt conf m = Some (r, m')" "keeps m'"
    unfolding test_eviction_detailed_def Let_def by blast
  then show ?thesis by (auto simp: conf_test_def test_eviction_def)
qed

lemma conf_runs_safe:
  assumes "conf_runs h conf"
  shows "safe_tester h (conf_test h g conf) (\<lambda>m. True)"
proof
  fix m :: 'a and cnt :: nat and cs :: "addr list" and t
  assume "cnt \<le> length cs"
  then have "trial_keeps h g (\<lambda>m. True) t cs cnt conf"
    using test_trial_returns [OF assms] by (simp add: trial_keeps_def)
  from trial_keeps_test [OF this] show "\<exists>r m'. conf_test h g conf t cs cnt m = Some (r, m') \<and> True"
    by simp
qed simp

lemma l2_conf_fields [simp]:
  "trials (fst (init_def_l2_conf g c)) = 10" "low_bnd (fst (init_def_l2_conf g c)) = 3"
  "upp_bnd (fst (init_def_l2_conf g c)) = 7" "test_scale (fst (init_def_l2_conf g c)) = 1"
  "unsure_retry (fst (init_def_l2_conf g c)) = 5" "ev_repeat (fst (init_def_l2_conf g c)) = 4"
  "access_cnt (fst (init_def_l2_conf g c)) = 3" "lower_ev (fst (init_def_l2_conf g c)) = None"
  "need_helper (fst (init_def_l2_conf g c)) = False" "flush_cands (fst (init_def_l2_conf g c)) = False"
  "foreign_evictor (fst (init_def_l2_conf g c)) = False"
  "cand_traverse (fst (init_def_l2_conf g c)) = Addrs_traverse"
  "lat_thresh (fst (init_def_l2_conf g c)) = l2_thresh (g_lats g)"
  "slack (fst (init_def_l2_conf g c)) = 0" "extra_cong (fst (init_def_l2_conf g c)) = 0"
  "max_backtrack (fst (init_def_l2_conf g c)) = 20" "cap_scaling (fst (init_def_l2_conf g c)) = 2"
  "n_retries (fst (init_def_l2_conf g c)) = 10" "max_whole_ret (fst (init_def_l2_conf g c)) = 10"
  "filter_ev (fst (init_def_l2_conf g c)) = None"
  by (simp_all add: init_def_l2_conf_def Let_def)

lemma l2_conf_runs: "conf_runs h (fst (init_def_l2_conf g c))"
  by (simp add: conf_runs_def init_def_l2_conf_def Let_def)

interpretation l2_test: safe_tester h "conf_test h g (fst (init_def_l2_conf g c))" "\<lambda>m. True" for h g c
  by (rule conf_runs_safe [OF l2_conf_runs])

subsection \<open>Properties\<close>

text \<open>
  C25: on every machine, however it answers the timing, the binary search for an eviction set
  ends, stays inside the candidate array and the array of the set, only permutes the
  candidates, and leaves in the set a prefix of them that is no longer than the capacity. No
  candidate outside the pool's count is moved.
\<close>

theorem build_evset_zhao_in_bounds:
  assumes "conf_runs h (build_conf e)"
    and "cands_count (ev_cands e) \<le> length (cands_addrs (ev_cands e))"
    and "ev_cap e \<le> length (ev_addrs e)"
    and "0 \<le> unknown_sib (target_cache e)" and "unknown_sib (target_cache e) < 30"
    and "1 < cands_count (ev_cands e)"
  shows "\<exists>k addrs cands m'. build_evset_zhao h (conf_test h g) target e m =
           Some ((False, e\<lparr>ev_size := k, ev_addrs := addrs,
                    ev_cands := (ev_cands e)\<lparr>cands_addrs := cands\<rparr>\<rparr>), m')
       \<and> k \<le> ev_cap e \<and> k \<le> cands_count (ev_cands e)
       \<and> length addrs = length (ev_addrs e) \<and> take k addrs = take k cands
       \<and> perm_upto (cands_count (ev_cands e)) (cands_addrs (ev_cands e)) cands"
  using safe_tester.build_evset_zhao_safe [OF conf_runs_safe [OF assms(1)] _ _ assms(2-6)] by blast

text \<open>A small set to build, for the concrete runs.\<close>

definition demo_cands :: "addr list \<Rightarrow> EvCands" where
  "demo_cands xs = \<lparr>cands_scale = 0, evb = \<lparr>buf = 0x1000, n_pages = 4, evb_ref_cnt = 1\<rparr>,
     cands_addrs = xs, cands_count = length xs, cands_ref_cnt = 0, cands_cache = None\<rparr>"

definition demo_evset :: "addr list \<Rightarrow> CacheInfo \<Rightarrow> EvBuildConf EvSet" where
  "demo_evset xs c = \<lparr>ev_addrs = replicate (2 * unat (n_ways c)) 0, ev_size = 0,
     ev_cap = 2 * unat (n_ways c), target_addr = 0x9000, ev_cands = demo_cands xs,
     build_conf = fst (init_def_l2_conf flat_globals conf_zero), target_cache = c\<rparr>"

theorem build_evset_zhao_in_bounds_witness:
  "\<exists>k addrs cands m'. build_evset_zhao flat_hw (conf_test flat_hw flat_globals) 0x9000
       (demo_evset [0x1000, 0x2000, 0x3000] skx_l2) (\<lambda>a. 0, 0) =
         Some ((False, (demo_evset [0x1000, 0x2000, 0x3000] skx_l2)\<lparr>ev_size := k, ev_addrs := addrs,
            ev_cands := (demo_cands [0x1000, 0x2000, 0x3000])\<lparr>cands_addrs := cands\<rparr>\<rparr>), m')
     \<and> k \<le> 3 \<and> mset cands = {#0x1000, 0x2000, 0x3000#}"
proof -
  let ?e = "demo_evset [0x1000, 0x2000, 0x3000] skx_l2"
  have c: "conf_runs flat_hw (build_conf ?e)"
    unfolding demo_evset_def by (simp add: l2_conf_runs)
  have f: "cands_count (ev_cands ?e) \<le> length (cands_addrs (ev_cands ?e))" "ev_cap ?e \<le> length (ev_addrs ?e)"
      "0 \<le> unknown_sib (target_cache ?e)" "unknown_sib (target_cache ?e) < 30"
      "1 < cands_count (ev_cands ?e)"
    by (simp_all add: demo_evset_def demo_cands_def skx_l2_def)
  have "ev_cands ?e = demo_cands [0x1000, 0x2000, 0x3000]"
      "cands_addrs (ev_cands ?e) = [0x1000, 0x2000, 0x3000]" "cands_count (ev_cands ?e) = 3"
    by (simp_all add: demo_evset_def demo_cands_def)
  with build_evset_zhao_in_bounds [OF c f, of flat_globals "0x9000" "(\<lambda>a. 0, 0)"] show ?thesis
    by (fastforce simp: perm_upto_def)
qed

text \<open>
  The eviction test returns on every machine for every configuration with a running
  helper and a well formed lower level set, whatever time stamps and core ids it reads.
\<close>

theorem test_eviction_returns:
  assumes "conf_runs h conf" and "cnt \<le> length cands"
  shows "\<exists>r m'. test_eviction h g target cands cnt conf m = Some (r, m')"
  using safe_tester.test_returns [OF conf_runs_safe [OF assms(1)] _ assms(2)]
  by (auto simp: conf_test_def)

theorem test_eviction_returns_witness:
  "\<exists>r m'. test_eviction flat_hw flat_globals 0x9000 [0x1000, 0x2000] 2
       (fst (init_def_l2_conf flat_globals conf_zero)) (\<lambda>a. 0, 0) = Some (r, m')"
  by (rule test_eviction_returns [OF l2_conf_runs]) simp

end
