(* ===== verification/Lru_Machine.thy ===== *)
theory Lru_Machine
  imports Evset_Returns
begin

text \<open>
  A processor to run the program on: a core with a set associative L2 under least recently
  used replacement, whose clock advances by a hit or a miss latency per read. On this
  machine the eviction test of the source, with its default L2 configuration, answers
  truthfully, so the results of theory \<open>Evset_Exact\<close> apply to the code as it stands.
\<close>

subsection \<open>The machine\<close>

record lru_cfg =
  lru_cache :: CacheInfo
  lru_tr :: "addr \<Rightarrow> addr"
  lru_hit :: u64
  lru_miss :: u64
  lru_core :: u32

record lru_state =
  lru_sets :: "nat \<Rightarrow> nat list"
  lru_clock :: u64
  lru_top :: u64

definition lru_line :: "lru_cfg \<Rightarrow> addr \<Rightarrow> nat" where
  "lru_line cfg a = unat (lru_tr cfg a) div 2 ^ cl_bits (lru_cache cfg)"

definition lru_set :: "lru_cfg \<Rightarrow> addr \<Rightarrow> nat" where
  "lru_set cfg a = lru_line cfg a mod 2 ^ idx_bits (lru_cache cfg)"

abbreviation lru_ways :: "lru_cfg \<Rightarrow> nat" where
  "lru_ways cfg \<equiv> unat (n_ways (lru_cache cfg))"

text \<open>The lines of a set, the most recently used first.\<close>

definition lru_touch :: "nat \<Rightarrow> nat \<Rightarrow> nat list \<Rightarrow> nat list" where
  "lru_touch w l xs = take w (l # removeAll l xs)"

definition lru_read :: "lru_cfg \<Rightarrow> addr \<Rightarrow> lru_state \<Rightarrow> lru_state" where
  "lru_read cfg a m =
     (let l = lru_line cfg a; s = lru_set cfg a
      in m\<lparr>lru_sets := (lru_sets m)(s := lru_touch (lru_ways cfg) l (lru_sets m s)),
           lru_clock := lru_clock m + (if l \<in> set (lru_sets m s) then lru_hit cfg else lru_miss cfg)\<rparr>)"

definition lru_flush :: "lru_cfg \<Rightarrow> addr \<Rightarrow> lru_state \<Rightarrow> lru_state" where
  "lru_flush cfg a m =
     m\<lparr>lru_sets := (lru_sets m)(lru_set cfg a := removeAll (lru_line cfg a) (lru_sets m (lru_set cfg a)))\<rparr>"

text \<open>Fresh memory is handed out page by page, above \<open>lru_top\<close>.\<close>

definition lru_mmap :: "nat \<Rightarrow> lru_state \<Rightarrow> addr option \<times> lru_state" where
  "lru_mmap n m =
     (let p = ALIGN_UP (lru_top m) PAGE_SHIFT in (Some p, m\<lparr>lru_top := p + of_nat n\<rparr>))"

definition lru_hw :: "lru_cfg \<Rightarrow> lru_state hw" where
  "lru_hw cfg = \<lparr>hw_flush = lru_flush cfg, hw_read = lru_read cfg, hw_write = (\<lambda>a v. lru_read cfg a),
     hw_tsc = (\<lambda>m. (lru_clock m, m)), hw_tscp = (\<lambda>m. ((lru_clock m, lru_core cfg), m)),
     hw_helper_read = (\<lambda>a m. m), hw_both = (\<lambda>xs ys. fold (lru_read cfg) xs),
     os_time_us = (\<lambda>m. (lru_clock m, m)), os_calloc = (\<lambda>n m. (Some 0x10, m)),
     os_mmap = lru_mmap, os_thread = (\<lambda>m. (True, m))\<rparr>"

definition lru_inv :: "lru_cfg \<Rightarrow> lru_state \<Rightarrow> bool" where
  "lru_inv cfg m \<longleftrightarrow> (\<forall>s. distinct (lru_sets m s) \<and> length (lru_sets m s) \<le> lru_ways cfg)"

text \<open>Thresholds that separate a hit from a miss, as the latency measurement sets them.\<close>

definition lru_ok :: "lru_cfg \<Rightarrow> globals \<Rightarrow> bool" where
  "lru_ok cfg g \<longleftrightarrow> geometry_ok (lru_cache cfg) \<and> idx_bits (lru_cache cfg) \<le> 32 \<and> 0 < lru_ways cfg
     \<and> lru_hit cfg < l2_thresh (g_lats g) \<and> l2_thresh (g_lats g) < lru_miss cfg
     \<and> lru_miss cfg \<le> interrupt_thresh (g_lats g)"

subsection \<open>One set as a stack\<close>

text \<open>Reading on an unbounded stack; the cache holds its top.\<close>

definition push :: "nat \<Rightarrow> nat list \<Rightarrow> nat list" where
  "push l xs = l # removeAll l xs"

lemma push_distinct [simp]: "distinct xs \<Longrightarrow> distinct (push l xs)"
  by (simp add: push_def distinct_removeAll)

lemma fold_push_distinct [simp]: "distinct xs \<Longrightarrow> distinct (fold push ls xs)"
  by (induction ls arbitrary: xs) auto

lemma take_removeAll:
  assumes "distinct xs"
  shows "take w (removeAll l (take (Suc w) xs)) = take w (removeAll l xs)"
  using assms
proof (induction xs arbitrary: w)
  case (Cons x xs)
  show ?case
  proof (cases "x = l")
    case True
    with Cons.prems have "l \<notin> set xs" by simp
    moreover from this have "l \<notin> set (take w xs)" by (meson in_set_takeD)
    ultimately show ?thesis using True by (simp add: removeAll_id)
  next
    case False
    with Cons show ?thesis by (cases w) auto
  qed
qed simp

lemma touch_take:
  assumes "distinct xs" "0 < w"
  shows "lru_touch w l (take w xs) = take w (push l xs)"
  using take_removeAll [OF assms(1), of "w - 1" l] assms(2)
  by (cases w) (simp_all add: lru_touch_def push_def)

lemma fold_touch_take:
  "distinct xs \<Longrightarrow> 0 < w \<Longrightarrow> fold (lru_touch w) ls (take w xs) = take w (fold push ls xs)"
  by (induction ls arbitrary: xs) (simp_all add: touch_take)

text \<open>After reading \<open>ls\<close>, the lines above an older line are exactly the lines of \<open>ls\<close>.\<close>

lemma fold_push_above:
  "t \<notin> set ls \<Longrightarrow> distinct (as @ t # bs) \<Longrightarrow>
     \<exists>as' bs'. fold push ls (as @ t # bs) = as' @ t # bs' \<and> set as' = set as \<union> set ls
       \<and> distinct (as' @ t # bs')"
proof (induction ls arbitrary: as bs)
  case (Cons l ls)
  let ?as = "l # removeAll l as" and ?bs = "removeAll l bs"
  have p: "push l (as @ t # bs) = ?as @ t # ?bs"
    using Cons.prems by (simp add: push_def)
  moreover have "distinct (?as @ t # ?bs)"
    using Cons.prems by (auto simp: distinct_removeAll)
  ultimately show ?case
    using Cons.IH [of ?as ?bs] Cons.prems(1) by fastforce
qed auto

lemma lru_evicted:
  assumes "t \<notin> set ls" "0 < w" "distinct (t # xs)"
  shows "t \<in> set (fold (lru_touch w) ls (take w (t # xs))) \<longleftrightarrow> card (set ls) < w"
proof -
  obtain as bs where f: "fold push ls (t # xs) = as @ t # bs" "set as = set ls" "distinct (as @ t # bs)"
    using fold_push_above [of t ls "[]" xs] assms by auto
  have "length as = card (set ls)" using f(2,3) distinct_card [of as] by simp
  moreover have "t \<in> set (take w (as @ t # bs)) \<longleftrightarrow> length as < w"
    using f(3) by (auto simp: take_Cons' dest: in_set_takeD)
  ultimately show ?thesis
    using fold_touch_take [OF assms(3,2), of ls] f(1) by simp
qed

subsection \<open>A test whose trials all measure the same latency\<close>

text \<open>Machines on which a trial always measures \<open>lat\<close>, on one core, that preserve \<open>keeps\<close>.\<close>

definition steady_trial ::
    "'m hw \<Rightarrow> globals \<Rightarrow> ('m \<Rightarrow> bool) \<Rightarrow> addr \<Rightarrow> addr list \<Rightarrow> nat \<Rightarrow> EvBuildConf \<Rightarrow> u64 \<Rightarrow> bool" where
  "steady_trial h g keeps t cands cnt conf lat \<longleftrightarrow> lat \<le> interrupt_thresh (g_lats g)
     \<and> (\<forall>m. keeps m \<longrightarrow> (\<exists>core m'. test_trial h g t cands cnt conf m = Some ((core, core, lat), m') \<and> keeps m'))"

lemma test_while_step:
  assumes "steady_trial h g keeps t cands cnt conf lat" "keeps m" "k < n" "k < mx"
  shows "\<exists>m'. keeps m' \<and> test_while h g t cands cnt conf n upp mx k k otc m =
      (let otc = (if lat \<ge> lat_thresh conf then otc + 1 else otc)
       in if otc \<ge> upp then Some (Inl EV_POS, m')
          else test_while h g t cands cnt conf n upp mx (k + 1) (k + 1) otc m')"
proof -
  obtain core m' where t: "test_trial h g t cands cnt conf m = Some ((core, core, lat), m')" "keeps m'"
    using assms(1,2) by (auto simp: steady_trial_def)
  have "\<not> lat > interrupt_thresh (g_lats g)" using assms(1) by (simp add: steady_trial_def not_less)
  with t assms(3,4) show ?thesis
    by (intro exI [of _ m']) (subst test_while.simps, simp)
qed

lemma test_while_hot:
  assumes "steady_trial h g keeps t cands cnt conf lat" "lat_thresh conf \<le> lat" "n \<le> mx"
  shows "keeps m \<Longrightarrow> k \<le> n \<Longrightarrow> otc < upp \<Longrightarrow> upp \<le> otc + (n - k) \<Longrightarrow>
    \<exists>m'. keeps m' \<and> test_while h g t cands cnt conf n upp mx k k otc m = Some (Inl EV_POS, m')"
proof (induction "n - k" arbitrary: k otc m)
  case 0
  then show ?case by simp
next
  case (Suc d)
  have "k < n" "k < mx" using Suc.hyps(2) assms(3) by auto
  from test_while_step [OF assms(1) Suc.prems(1) this, of upp otc] obtain m' where
    m': "keeps m'" "test_while h g t cands cnt conf n upp mx k k otc m =
      (if otc + 1 \<ge> upp then Some (Inl EV_POS, m')
       else test_while h g t cands cnt conf n upp mx (k + 1) (k + 1) (otc + 1) m')"
    using assms(2) by (auto simp: Let_def)
  show ?case
  proof (cases "otc + 1 \<ge> upp")
    case True
    with m' show ?thesis by auto
  next
    case False
    have "\<exists>m''. keeps m'' \<and> test_while h g t cands cnt conf n upp mx (k + 1) (k + 1) (otc + 1) m' =
        Some (Inl EV_POS, m'')"
      using False Suc.hyps(2) Suc.prems \<open>k < n\<close> m'(1) by (intro Suc.hyps(1)) linarith+
    with m'(2) False show ?thesis by simp
  qed
qed

lemma test_while_cold:
  assumes "steady_trial h g keeps t cands cnt conf lat" "lat < lat_thresh conf" "n \<le> mx"
  shows "keeps m \<Longrightarrow> k \<le> n \<Longrightarrow> otc < upp \<Longrightarrow>
    \<exists>m'. keeps m' \<and> test_while h g t cands cnt conf n upp mx k k otc m = Some (Inr (n, otc), m')"
proof (induction "n - k" arbitrary: k m)
  case 0
  then show ?case by (subst test_while.simps) auto
next
  case (Suc d)
  have cold: "\<not> lat_thresh conf \<le> lat" using assms(2) by (simp add: not_le)
  have "k < n" "k < mx" using Suc.hyps(2) assms(3) by auto
  from test_while_step [OF assms(1) Suc.prems(1) this, of upp otc] obtain m' where
    m': "keeps m'" "test_while h g t cands cnt conf n upp mx k k otc m =
       test_while h g t cands cnt conf n upp mx (k + 1) (k + 1) otc m'"
    using Suc.prems(3) cold by (auto simp: Let_def)
  have "\<exists>m''. keeps m'' \<and> test_while h g t cands cnt conf n upp mx (k + 1) (k + 1) otc m' = Some (Inr (n, otc), m'')"
    using Suc.hyps(2) Suc.prems(3) \<open>k < n\<close> m'(1) by (intro Suc.hyps(1)) linarith+
  with m'(2) show ?case by simp
qed

text \<open>The two verdicts of the whole test, for bounds in the order of the default configuration.\<close>

lemma test_detailed_steady:
  assumes "steady_trial h g keeps t cands cnt conf lat" "keeps m" "test_scale conf \<le> 1"
    "0 < low_bnd conf" "0 < upp_bnd conf" "upp_bnd conf \<le> trials conf" "trials conf * 4 < 2 ^ 32"
  shows "\<exists>m'. keeps m' \<and> test_eviction_detailed h g t cands cnt conf m =
           Some (if lat_thresh conf \<le> lat then EV_POS else EV_NEG, m')"
proof -
  obtain k where k: "(if unsure_retry conf \<noteq> 0 then unsure_retry conf else 1) = Suc k"
    by (metis not0_implies_Suc zero_neq_one)
  have w: "wrap32 (trials conf * 4) = trials conf * 4" using assms(7) by (simp add: wrap32_def)
  show ?thesis
  proof (cases "lat_thresh conf \<le> lat")
    case True
    obtain m' where "keeps m'" "test_while h g t cands cnt conf (trials conf) (upp_bnd conf)
        (trials conf * 4) 0 0 0 m = Some (Inl EV_POS, m')"
      using test_while_hot [OF assms(1) True, of "trials conf" "trials conf * 4" m 0 0 "upp_bnd conf"]
        assms by auto
    with True k w assms(3) show ?thesis by (auto simp: test_eviction_detailed_def)
  next
    case False
    then have "lat < lat_thresh conf" by (simp add: not_le)
    then obtain m' where "keeps m'" "test_while h g t cands cnt conf (trials conf) (upp_bnd conf)
        (trials conf * 4) 0 0 0 m = Some (Inr (trials conf, 0), m')"
      using test_while_cold [OF assms(1), of "trials conf" "trials conf * 4" m 0 0 "upp_bnd conf"]
        False assms by auto
    with False k w assms(3,4,5) show ?thesis by (auto simp: test_eviction_detailed_def)
  qed
qed

subsection \<open>Reads on the machine\<close>

lemma lru_hw_ops [simp]:
  "maccess (lru_hw cfg) = lru_read cfg" "clflushopt (lru_hw cfg) = lru_flush cfg"
  "rdtscp_aux (lru_hw cfg) m = (lru_core cfg, m)"
  "os_time_us (lru_hw cfg) m = (lru_clock m, m)"
  by (simp_all add: lru_hw_def maccess_def clflushopt_def rdtscp_aux_def fun_eq_iff)

lemma access_seq_lru: "access_seq (lru_hw cfg) xs m = fold (lru_read cfg) xs m"
  by (simp add: access_seq_def)

lemma time_maccess_lru:
  "time_maccess (lru_hw cfg) a m =
     (if lru_line cfg a \<in> set (lru_sets m (lru_set cfg a)) then lru_hit cfg else lru_miss cfg,
      lru_read cfg a m)"
  by (simp add: time_maccess_def timer_warmup_def timer_start_def timer_stop_def)
    (simp add: lru_hw_def lru_read_def Let_def)

lemma lru_read_sets:
  "lru_sets (fold (lru_read cfg) xs m) s =
     fold (lru_touch (lru_ways cfg)) (map (lru_line cfg) (filter (\<lambda>a. lru_set cfg a = s) xs)) (lru_sets m s)"
  by (induction xs arbitrary: m) (simp_all add: lru_read_def Let_def)

lemma lru_touch_inv:
  "distinct xs \<and> length xs \<le> w \<Longrightarrow> distinct (lru_touch w l xs) \<and> length (lru_touch w l xs) \<le> w"
  by (cases w) (auto simp: lru_touch_def distinct_removeAll dest: in_set_takeD)

lemma lru_read_inv: "lru_inv cfg m \<Longrightarrow> lru_inv cfg (lru_read cfg a m)"
  using lru_touch_inv [of "lru_sets m (lru_set cfg a)" "lru_ways cfg"]
  by (simp add: lru_inv_def lru_read_def Let_def)

lemma lru_reads_inv: "lru_inv cfg m \<Longrightarrow> lru_inv cfg (fold (lru_read cfg) xs m)"
  by (induction xs arbitrary: m) (simp_all add: lru_read_inv)

lemma lru_flush_inv: "lru_inv cfg m \<Longrightarrow> lru_inv cfg (lru_flush cfg a m)"
  by (auto simp: lru_inv_def lru_flush_def distinct_removeAll intro: order_trans [OF length_removeAll_less_eq])

text \<open>
  A line that was just read leaves the cache exactly when reads of at least as many other
  lines of its set as there are ways follow.
\<close>

lemma lru_read_evicted:
  assumes "lru_inv cfg m" "0 < lru_ways cfg" "lru_line cfg t \<notin> lru_line cfg ` set xs"
  shows "lru_line cfg t \<in> set (lru_sets (fold (lru_read cfg) xs (lru_read cfg t m)) (lru_set cfg t)) \<longleftrightarrow>
     card (lru_line cfg ` {a \<in> set xs. lru_set cfg a = lru_set cfg t}) < lru_ways cfg"
proof -
  let ?l = "lru_line cfg t" and ?s = "lru_set cfg t" and ?w = "lru_ways cfg"
  let ?ls = "map (lru_line cfg) (filter (\<lambda>a. lru_set cfg a = ?s) xs)"
  have d: "distinct (?l # removeAll ?l (lru_sets m ?s))"
    using assms(1) by (simp add: lru_inv_def distinct_removeAll)
  have "lru_sets (lru_read cfg t m) ?s = take ?w (?l # removeAll ?l (lru_sets m ?s))"
    by (simp add: lru_read_def Let_def lru_touch_def)
  then have "lru_sets (fold (lru_read cfg) xs (lru_read cfg t m)) ?s =
      fold (lru_touch ?w) ?ls (take ?w (?l # removeAll ?l (lru_sets m ?s)))"
    by (simp add: lru_read_sets)
  moreover have "?l \<notin> set ?ls" using assms(3) by auto
  moreover have "set ?ls = lru_line cfg ` {a \<in> set xs. lru_set cfg a = ?s}" by auto
  ultimately show ?thesis using lru_evicted [OF _ assms(2) d, of ?ls] by simp
qed

subsection \<open>The default L2 test is truthful\<close>

lemma lru_load_target:
  "lower_ev conf = None \<Longrightarrow> \<not> need_helper conf \<Longrightarrow>
     load_target (lru_hw cfg) conf t j m = Some ((lru_read cfg t ^^ j) m)"
  by (induction j arbitrary: m) (simp_all add: funpow_swap1)

lemma lru_set_same_set:
  assumes "geometry_ok (lru_cache cfg)" "idx_bits (lru_cache cfg) \<le> 32"
  shows "same_set (lru_cache cfg) (lru_tr cfg) a b \<longleftrightarrow> lru_set cfg a = lru_set cfg b"
  by (simp add: same_set_arith [OF assms] lru_set_def lru_line_def)

lemma cong_lines_card:
  assumes "distinct (map f xs)"
  shows "card (f ` {a \<in> set xs. P a}) = length (filter P xs)"
proof -
  have "f ` {a \<in> set xs. P a} = set (map f (filter P xs))" by auto
  moreover have "distinct (map f (filter P xs))" using assms by (simp add: distinct_map_filter)
  ultimately show ?thesis by (simp only: distinct_card length_map)
qed

lemma lru_steady:
  assumes "lru_ok cfg g" "cnt \<le> length cands" "distinct (map (lru_line cfg) (t # take cnt cands))"
  defines "n \<equiv> length (filter (same_set (lru_cache cfg) (lru_tr cfg) t) (take cnt cands))"
  shows "steady_trial (lru_hw cfg) g (lru_inv cfg) t cands cnt (fst (init_def_l2_conf g c))
           (if lru_ways cfg \<le> n then lru_miss cfg else lru_hit cfg)"
proof -
  let ?xs = "concat (replicate 4 (rev (take cnt cands)))"
  have ok: "geometry_ok (lru_cache cfg)" "idx_bits (lru_cache cfg) \<le> 32" "0 < lru_ways cfg"
      "lru_hit cfg \<le> interrupt_thresh (g_lats g)" "lru_miss cfg \<le> interrupt_thresh (g_lats g)"
    using assms(1) by (auto simp: lru_ok_def)
  have xs: "set ?xs = set (take cnt cands)" by auto
  have n: "card (lru_line cfg ` {a \<in> set ?xs. lru_set cfg a = lru_set cfg t}) = n"
    unfolding xs n_def lru_set_same_set [OF ok(1,2)] using assms(3)
    by (subst cong_lines_card) (auto simp: eq_commute)
  have trial: "\<exists>m'. test_trial (lru_hw cfg) g t cands cnt (fst (init_def_l2_conf g c)) m =
      Some ((lru_core cfg, lru_core cfg, if lru_ways cfg \<le> n then lru_miss cfg else lru_hit cfg), m')
      \<and> lru_inv cfg m'" if inv: "lru_inv cfg m" for m
  proof -
    let ?m1 = "lru_read cfg t (lru_read cfg t (lru_flush cfg t m))"
    let ?m2 = "fold (lru_read cfg) ?xs (lru_read cfg t ?m1)"
    have i: "lru_inv cfg ?m1" by (intro lru_read_inv lru_flush_inv inv)
    then have i2: "lru_inv cfg (lru_read cfg t ?m2)" by (intro lru_read_inv lru_reads_inv lru_flush_inv inv)
    have "lru_line cfg t \<notin> lru_line cfg ` set ?xs" using assms(3) unfolding xs by simp
    from lru_read_evicted [OF i ok(3) this] n
    have "lru_line cfg t \<in> set (lru_sets ?m2 (lru_set cfg t)) \<longleftrightarrow> n < lru_ways cfg" by simp
    moreover have "test_trial (lru_hw cfg) g t cands cnt (fst (init_def_l2_conf g c)) m =
        (let (lat, m) = time_maccess (lru_hw cfg) t ?m2 in Some ((lru_core cfg, lru_core cfg, lat), m))"
      using assms(2)
      by (simp add: test_trial_def lru_load_target cand_traverse_call_def arr_simps access_seq_lru
        numeral_3_eq_3)
    ultimately show ?thesis using i2 by (simp add: time_maccess_lru not_less)
  qed
  show ?thesis
    unfolding steady_trial_def
  proof (intro conjI allI impI)
    show "(if lru_ways cfg \<le> n then lru_miss cfg else lru_hit cfg) \<le> interrupt_thresh (g_lats g)"
      using ok(4,5) by simp
  qed (use trial in blast)
qed

lemma lru_detailed_truthful:
  assumes "lru_ok cfg g" "lru_inv cfg m" "cnt \<le> length cands"
    "distinct (map (lru_line cfg) (t # take cnt cands))"
  shows "\<exists>m'. lru_inv cfg m' \<and> test_eviction_detailed (lru_hw cfg) g t cands cnt (fst (init_def_l2_conf g c)) m =
     Some (if lru_ways cfg \<le> length (filter (same_set (lru_cache cfg) (lru_tr cfg) t) (take cnt cands))
           then EV_POS else EV_NEG, m')"
proof -
  have "lru_hit cfg < l2_thresh (g_lats g)" "l2_thresh (g_lats g) < lru_miss cfg"
    using assms(1) by (auto simp: lru_ok_def)
  then have "l2_thresh (g_lats g) \<le> (if P then lru_miss cfg else lru_hit cfg) \<longleftrightarrow> P" for P
    by (simp add: less_imp_le not_le)
  with test_detailed_steady [OF lru_steady [OF assms(1,3,4), of c] assms(2)] show ?thesis by simp
qed

lemma lru_test_truthful:
  assumes "lru_ok cfg g" "lru_inv cfg m" "cnt \<le> length cands"
    "distinct (map (lru_line cfg) (t # take cnt cands))"
  shows "\<exists>m'. lru_inv cfg m' \<and> conf_test (lru_hw cfg) g (fst (init_def_l2_conf g c)) t cands cnt m =
     Some (if lru_ways cfg \<le> length (filter (same_set (lru_cache cfg) (lru_tr cfg) t) (take cnt cands))
           then OK else FAIL, m')"
proof -
  from lru_detailed_truthful [OF assms, of c] obtain m' where "lru_inv cfg m'"
    "test_eviction_detailed (lru_hw cfg) g t cands cnt (fst (init_def_l2_conf g c)) m =
     Some (if lru_ways cfg \<le> length (filter (same_set (lru_cache cfg) (lru_tr cfg) t) (take cnt cands))
           then EV_POS else EV_NEG, m')" by blast
  then show ?thesis by (intro exI [of _ m']) (simp add: conf_test_def test_eviction_def)
qed

lemma lru_trial_keeps:
  assumes "cnt \<le> length cands"
  shows "trial_keeps (lru_hw cfg) g (lru_inv cfg) t cands cnt (fst (init_def_l2_conf g c))"
  using assms
  by (simp add: trial_keeps_def test_trial_def lru_load_target cand_traverse_call_def arr_simps
    access_seq_lru numeral_3_eq_3 time_maccess_lru lru_read_inv lru_reads_inv lru_flush_inv Let_def)

locale lru_machine =
  fixes cfg :: lru_cfg and g :: globals and c :: EvBuildConf
  assumes cfg_ok: "lru_ok cfg g"

sublocale lru_machine \<subseteq> truthful_tester "lru_hw cfg" "conf_test (lru_hw cfg) g (fst (init_def_l2_conf g c))"
  "lru_inv cfg" "lru_line cfg" "same_set (lru_cache cfg) (lru_tr cfg)" "lru_ways cfg"
proof
  fix m cnt cs t assume "lru_inv cfg m" "cnt \<le> length (cs :: addr list)"
  then show "\<exists>r m'. conf_test (lru_hw cfg) g (fst (init_def_l2_conf g c)) t cs cnt m = Some (r, m') \<and> lru_inv cfg m'"
    by (intro trial_keeps_test [OF lru_trial_keeps])
next
  fix m cnt cs t r m'
  assume "lru_inv cfg m" "cnt \<le> length cs" "distinct (map (lru_line cfg) (t # take cnt cs))"
    "conf_test (lru_hw cfg) g (fst (init_def_l2_conf g c)) t cs cnt m = Some (r, m')"
  with lru_test_truthful [OF cfg_ok, of m cnt cs t c]
  show "(r = OK) = (lru_ways cfg \<le> length (filter (same_set (lru_cache cfg) (lru_tr cfg) t) (take cnt cs)))"
    by auto
qed (use cfg_ok in \<open>auto simp: same_set_def lru_ok_def\<close>)

context lru_machine
begin

lemma search_full:
  assumes "lru_inv cfg m" "build_conf e = fst (init_def_l2_conf g c)" "target_cache e = lru_cache cfg"
    "cands_count (ev_cands e) \<le> length (cands_addrs (ev_cands e))"
    "ev_cap e \<le> length (ev_addrs e)" "lru_ways cfg \<le> ev_cap e" "1 < cands_count (ev_cands e)"
    "0 \<le> unknown_sib (lru_cache cfg)" "unknown_sib (lru_cache cfg) < 30"
    "distinct (map (lru_line cfg) (target # take (cands_count (ev_cands e)) (cands_addrs (ev_cands e))))"
    "lru_ways cfg \<le> length (filter (same_set (lru_cache cfg) (lru_tr cfg) target)
       (take (cands_count (ev_cands e)) (cands_addrs (ev_cands e))))"
  shows "\<exists>e' m'. build_evset_zhao (lru_hw cfg) (conf_test (lru_hw cfg) g) target e m = Some ((False, e'), m')
       \<and> lru_inv cfg m' \<and> ev_size e' = lru_ways cfg
       \<and> (\<forall>a \<in> set (take (ev_size e') (ev_addrs e')).
            same_set (lru_cache cfg) (lru_tr cfg) target a
            \<and> a \<in> set (take (cands_count (ev_cands e)) (cands_addrs (ev_cands e))))"
proof -
  let ?n = "cands_count (ev_cands e)" and ?T = "conf_test (lru_hw cfg) g"
  have T: "?T (build_conf e) = ?T (fst (init_def_l2_conf g c))" using assms(2) by simp
  have sib: "0 \<le> unknown_sib (target_cache e)" "unknown_sib (target_cache e) < 30"
    using assms(3,8,9) by simp_all
  obtain k addrs cands m' where b: "build_evset_zhao (lru_hw cfg) ?T target e m =
      Some ((False, e\<lparr>ev_size := k, ev_addrs := addrs, ev_cands := (ev_cands e)\<lparr>cands_addrs := cands\<rparr>\<rparr>), m')"
      "lru_inv cfg m'" "k \<le> ?n" "take k addrs = take k cands"
      "perm_upto ?n (cands_addrs (ev_cands e)) cands"
    using build_evset_zhao_safe [where T = ?T and e = e, OF assms(1) T assms(4,5) sib assms(7), of target]
    by blast
  let ?e' = "e\<lparr>ev_size := k, ev_addrs := addrs, ev_cands := (ev_cands e)\<lparr>cands_addrs := cands\<rparr>\<rparr>"
  have ex: "(\<forall>a \<in> set (take (ev_size ?e') (ev_addrs ?e')). same_set (lru_cache cfg) (lru_tr cfg) target a)
      \<and> ev_size ?e' \<le> lru_ways cfg
      \<and> (slack (build_conf e) = 0 \<and> 0 < max_backtrack (build_conf e) \<and> lru_ways cfg \<le> ev_cap e
          \<and> lru_ways cfg \<le> length (filter (same_set (lru_cache cfg) (lru_tr cfg) target) (take ?n (cands_addrs (ev_cands e))))
          \<longrightarrow> ev_size ?e' = lru_ways cfg)"
    by (rule build_evset_zhao_exact [where T = ?T and e = e, OF assms(1) T assms(4,5) sib assms(7) _ _ assms(10) b(1)])
      (simp_all add: assms(2,3))
  have "set (take k cands) \<subseteq> set (take ?n cands)" using b(3) by (rule set_take_subset_set_take)
  then have "set (take k addrs) \<subseteq> set (take ?n (cands_addrs (ev_cands e)))"
    using b(4) perm_upto_set [OF b(5)] by simp
  with ex assms(2,6,11) have "ev_size ?e' = lru_ways cfg \<and> (\<forall>a \<in> set (take (ev_size ?e') (ev_addrs ?e')).
      same_set (lru_cache cfg) (lru_tr cfg) target a \<and> a \<in> set (take ?n (cands_addrs (ev_cands e))))"
    by auto
  with b(1,2) show ?thesis by blast
qed

end

text \<open>The L2 of \<open>skx_l2\<close>, with translation that exchanges neighbouring frames.\<close>

definition skx_cfg :: lru_cfg where
  "skx_cfg = \<lparr>lru_cache = skx_l2, lru_tr = (\<lambda>a. a XOR 0x1000), lru_hit = 14, lru_miss = 70, lru_core = 3\<rparr>"

lemma skx_cfg_ok: "lru_ok skx_cfg flat_globals"
  using skx_geometry(1) by (simp add: lru_ok_def skx_cfg_def flat_globals_def) (simp add: skx_l2_def)

interpretation skx: lru_machine skx_cfg flat_globals conf_zero
  by unfold_locales (rule skx_cfg_ok)

subsection \<open>Properties\<close>

text \<open>
  C16: on a core with least recently used replacement, and with thresholds that separate hits
  from misses, the eviction test under the default L2 configuration reports an eviction
  exactly when at least as many of the candidates are congruent with the target as the L2
  has ways.
\<close>

theorem test_eviction_lru_exact:
  assumes "lru_ok cfg g" and "lru_inv cfg m" and "cnt \<le> length cands"
    and "distinct (map (lru_line cfg) (t # take cnt cands))"
  shows "\<exists>m'. lru_inv cfg m' \<and> test_eviction (lru_hw cfg) g t cands cnt (fst (init_def_l2_conf g c)) m =
     Some (if unat (n_ways (lru_cache cfg))
              \<le> length (filter (same_set (lru_cache cfg) (lru_tr cfg) t) (take cnt cands))
           then OK else FAIL, m')"
  using lru_test_truthful [OF assms] by (simp add: conf_test_def)

text \<open>A two way cache and an empty start state, for the concrete runs.\<close>

definition tiny_cfg :: lru_cfg where
  "tiny_cfg = skx_cfg\<lparr>lru_cache := skx_l2\<lparr>n_ways := 2\<rparr>\<rparr>"

definition lru_empty :: lru_state where
  "lru_empty = \<lparr>lru_sets = (\<lambda>s. []), lru_clock = 0, lru_top = 0x100000\<rparr>"

lemma tiny_cfg_ok: "lru_ok tiny_cfg flat_globals"
  using skx_cfg_ok by (simp add: lru_ok_def tiny_cfg_def skx_cfg_def geometry_ok_def calc_unknown_sib_def)

lemma lru_empty_inv: "lru_inv cfg lru_empty"
  by (simp add: lru_inv_def lru_empty_def)

lemma tiny_line: "lru_line tiny_cfg a = unat (a XOR 0x1000) div 64"
  by (simp add: lru_line_def tiny_cfg_def skx_cfg_def skx_l2_def)

lemma tiny_same_set:
  "same_set (lru_cache tiny_cfg) (lru_tr tiny_cfg) a b \<longleftrightarrow>
     unat (a XOR 0x1000) div 64 mod 1024 = unat (b XOR 0x1000) div 64 mod 1024"
  using tiny_cfg_ok by (subst same_set_arith) (simp_all add: lru_ok_def, simp add: tiny_cfg_def skx_cfg_def skx_l2_def)

theorem test_eviction_lru_exact_witness:
  "(\<exists>m'. test_eviction (lru_hw tiny_cfg) flat_globals 0x40000 [0x10000, 0x11000, 0x20000] 3
        (fst (init_def_l2_conf flat_globals conf_zero)) lru_empty = Some (OK, m'))
   \<and> (\<exists>m'. test_eviction (lru_hw tiny_cfg) flat_globals 0x40000 [0x10000, 0x11000, 0x20000] 2
        (fst (init_def_l2_conf flat_globals conf_zero)) lru_empty = Some (FAIL, m'))"
proof -
  have w: "unat (n_ways (lru_cache tiny_cfg)) = 2" by (simp add: tiny_cfg_def)
  note ex = test_eviction_lru_exact [OF tiny_cfg_ok lru_empty_inv, of _ "[0x10000, 0x11000, 0x20000]" "0x40000" conf_zero]
  show ?thesis
    using ex [of 3] ex [of 2] by (auto simp: tiny_line tiny_same_set w)
qed

text \<open>
  C2: on such a core the binary search with the default L2 configuration returns a set of
  exactly as many lines as the L2 has ways, all of them candidates and all congruent with the
  target, whenever the pool holds that many congruent lines.
\<close>

theorem build_evset_zhao_l2_exact:
  assumes "lru_ok cfg g" and "lru_inv cfg m"
    and "build_conf e = fst (init_def_l2_conf g c)" and "target_cache e = lru_cache cfg"
    and "cands_count (ev_cands e) \<le> length (cands_addrs (ev_cands e))"
    and "ev_cap e \<le> length (ev_addrs e)" and "unat (n_ways (lru_cache cfg)) \<le> ev_cap e"
    and "1 < cands_count (ev_cands e)"
    and "0 \<le> unknown_sib (lru_cache cfg)" and "unknown_sib (lru_cache cfg) < 30"
    and "distinct (map (lru_line cfg) (target # take (cands_count (ev_cands e)) (cands_addrs (ev_cands e))))"
    and "unat (n_ways (lru_cache cfg)) \<le> length (filter (same_set (lru_cache cfg) (lru_tr cfg) target)
           (take (cands_count (ev_cands e)) (cands_addrs (ev_cands e))))"
  shows "\<exists>e' m'. build_evset_zhao (lru_hw cfg) (conf_test (lru_hw cfg) g) target e m = Some ((False, e'), m')
       \<and> lru_inv cfg m' \<and> ev_size e' = unat (n_ways (lru_cache cfg))
       \<and> (\<forall>a \<in> set (take (ev_size e') (ev_addrs e')).
            same_set (lru_cache cfg) (lru_tr cfg) target a
            \<and> a \<in> set (take (cands_count (ev_cands e)) (cands_addrs (ev_cands e))))"
  by (rule lru_machine.search_full [OF lru_machine.intro [OF assms(1)] assms(2-)])

theorem build_evset_zhao_l2_exact_witness:
  "\<exists>e' m'. build_evset_zhao (lru_hw tiny_cfg) (conf_test (lru_hw tiny_cfg) flat_globals) 0x40000
        (demo_evset [0x10000, 0x11000, 0x20000, 0x30000] (lru_cache tiny_cfg)) lru_empty = Some ((False, e'), m')
     \<and> ev_size e' = 2 \<and> set (take 2 (ev_addrs e')) \<subseteq> {0x10000, 0x20000, 0x30000}"
proof -
  let ?e = "demo_evset [0x10000, 0x11000, 0x20000, 0x30000] (lru_cache tiny_cfg)"
  have e: "build_conf ?e = fst (init_def_l2_conf flat_globals conf_zero)" "target_cache ?e = lru_cache tiny_cfg"
      "cands_count (ev_cands ?e) = 4" "cands_addrs (ev_cands ?e) = [0x10000, 0x11000, 0x20000, 0x30000]"
      "ev_cap ?e = 4" "length (ev_addrs ?e) = 4" "unat (n_ways (lru_cache tiny_cfg)) = 2"
    by (simp_all add: demo_evset_def demo_cands_def tiny_cfg_def)
  have u: "unknown_sib (lru_cache tiny_cfg) = 4" by (simp add: tiny_cfg_def skx_l2_def)
  have "\<exists>e' m'. build_evset_zhao (lru_hw tiny_cfg) (conf_test (lru_hw tiny_cfg) flat_globals) 0x40000 ?e
        lru_empty = Some ((False, e'), m')
       \<and> lru_inv tiny_cfg m' \<and> ev_size e' = unat (n_ways (lru_cache tiny_cfg))
       \<and> (\<forall>a \<in> set (take (ev_size e') (ev_addrs e')).
            same_set (lru_cache tiny_cfg) (lru_tr tiny_cfg) 0x40000 a
            \<and> a \<in> set (take (cands_count (ev_cands ?e)) (cands_addrs (ev_cands ?e))))"
    by (rule build_evset_zhao_l2_exact [OF tiny_cfg_ok lru_empty_inv e(1,2)])
      (simp_all add: e u tiny_line tiny_same_set)
  then show ?thesis
    by (fastforce simp: e tiny_same_set)
qed

end
