(* ===== verification/Filter_Exact.thy ===== *)
theory Filter_Exact
  imports Lru_Machine
begin

text \<open>
  Candidate filtering in batches (\<open>evcands_filter_batch\<close> of src/evset.c). On every machine it
  only permutes the candidates and stays in bounds; on the machine of theory
  \<open>Lru_Machine\<close>, with a full eviction set as the filter, it keeps exactly the candidates that
  are congruent with the filter, in their order.
\<close>

subsection \<open>Selection\<close>

text \<open>The slow lines of a batch come to stand behind those already selected.\<close>

lemma batch_select_spec:
  "n_pos \<le> pos \<Longrightarrow> pos + length otcs \<le> length addrs \<Longrightarrow>
   \<exists>addrs' k. batch_select upp pos otcs addrs n_pos = Some (addrs', n_pos + k)
     \<and> k \<le> length otcs \<and> perm_upto (pos + length otcs) addrs addrs'
     \<and> take (n_pos + k) addrs' = take n_pos addrs
         @ map fst (filter (\<lambda>(a, otc). otc > upp) (zip (drop pos addrs) otcs))"
proof (induction otcs arbitrary: pos addrs n_pos)
  case Nil
  then show ?case by simp
next
  case (Cons otc otcs)
  have pos: "pos < length addrs" using Cons.prems by simp
  then have z: "zip (drop pos addrs) (otc # otcs) = (addrs ! pos, otc) # zip (drop (pos + 1) addrs) otcs"
    by (subst Cons_nth_drop_Suc [symmetric]) auto
  show ?case
  proof (cases "otc > upp")
    case False
    have "n_pos \<le> pos + 1" "pos + 1 + length otcs \<le> length addrs" using Cons.prems by auto
    from Cons.IH [OF this] obtain addrs' k where
      "batch_select upp (pos + 1) otcs addrs n_pos = Some (addrs', n_pos + k)" "k \<le> length otcs"
      "perm_upto (pos + 1 + length otcs) addrs addrs'"
      "take (n_pos + k) addrs' = take n_pos addrs
         @ map fst (filter (\<lambda>(a, otc). otc > upp) (zip (drop (pos + 1) addrs) otcs))"
      by blast
    with False z show ?thesis by simp
  next
    case True
    obtain sw where sw: "arr_swap addrs n_pos pos = Some sw"
      using Cons.prems pos by (simp add: arr_swap_def)
    have swd: "sw = addrs[n_pos := addrs ! pos, pos := addrs ! n_pos]"
      using sw by (auto simp: arr_swap_def split: if_splits)
    have p: "perm_upto (pos + 1) addrs sw"
      by (rule arr_swap_perm_upto [OF sw]) (use Cons.prems in auto)
    have tk: "take (n_pos + 1) sw = take n_pos addrs @ [addrs ! pos]"
      using arr_swap_extends [OF sw] Cons.prems by simp
    have dr: "drop (pos + 1) sw = drop (pos + 1) addrs"
      using Cons.prems by (simp add: swd drop_update_cancel)
    have "n_pos + 1 \<le> pos + 1" "pos + 1 + length otcs \<le> length sw"
      using Cons.prems perm_upto_length [OF p] by auto
    from Cons.IH [OF this] obtain addrs' k where
      ih: "batch_select upp (pos + 1) otcs sw (n_pos + 1) = Some (addrs', n_pos + 1 + k)" "k \<le> length otcs"
      "perm_upto (pos + 1 + length otcs) sw addrs'"
      "take (n_pos + 1 + k) addrs' = take (n_pos + 1) sw
         @ map fst (filter (\<lambda>(a, otc). otc > upp) (zip (drop (pos + 1) sw) otcs))"
      by blast
    have "perm_upto (pos + 1 + length otcs) addrs addrs'"
      by (rule perm_upto_trans [OF perm_upto_mono [OF p] ih(3)]) simp
    with ih True z sw tk dr show ?thesis
      by (intro exI [of _ addrs'] exI [of _ "k + 1"]) simp
  qed
qed

lemma batch_loop_unfold:
  "s < total_cands \<Longrightarrow> 0 < batch_sz \<Longrightarrow> s \<le> length addrs \<Longrightarrow>
   batch_loop h fev conf batch_sz total_cands s addrs n_pos m = do {
     (otcs, m) \<leftarrow> batch_trials h fev conf (drop s addrs) (min batch_sz (total_cands - s)) (trials conf)
                   (replicate (min batch_sz (total_cands - s)) 0) m;
     (addrs, n_pos) \<leftarrow> batch_select (upp_bnd conf) s otcs addrs n_pos;
     batch_loop h fev conf batch_sz total_cands (s + batch_sz) addrs n_pos m
   }"
  by (subst batch_loop.simps) (simp add: arr_simps Let_def)

subsection \<open>Any machine\<close>

lemma time_lines_length: "length otcs = length xs \<Longrightarrow> length (fst (time_lines h th xs otcs m)) = length xs"
  by (induction h th xs otcs m rule: time_lines.induct) (auto split: prod.splits)

lemma batch_trials_safe:
  assumes "ev_size fev \<le> length (ev_addrs fev)" "cur \<le> length lines"
  shows "length otcs = cur \<Longrightarrow> \<exists>otcs' m'. batch_trials h fev conf lines cur t otcs m = Some (otcs', m') \<and> length otcs' = cur"
proof (induction t arbitrary: otcs m)
  case (Suc t)
  let ?xs = "take cur lines"
  let ?m = "access_seq h (concat (replicate (ev_repeat (build_conf fev)) (rev (take (ev_size fev) (ev_addrs fev)))))
    (access_seq h ?xs m)"
  obtain otcs1 m1 where t: "time_lines h (lat_thresh conf) ?xs otcs ?m = (otcs1, m1)" by fastforce
  then have "length otcs1 = cur"
    using time_lines_length [of otcs ?xs h "lat_thresh conf" ?m] Suc.prems assms(2) by simp
  from Suc.IH [OF this, of m1] t assms show ?case by (simp add: arr_simps)
qed simp

lemma batch_loop_safe:
  assumes "ev_size fev \<le> length (ev_addrs fev)" "0 < batch_sz" "total_cands \<le> length addrs0"
  shows "n_pos \<le> s \<Longrightarrow> n_pos \<le> total_cands \<Longrightarrow> perm_upto total_cands addrs0 addrs \<Longrightarrow>
    \<exists>addrs' k m'. batch_loop h fev conf batch_sz total_cands s addrs n_pos m = Some ((addrs', k), m')
      \<and> k \<le> total_cands \<and> perm_upto total_cands addrs0 addrs'"
proof (induction "total_cands - s" arbitrary: s addrs n_pos m rule: less_induct)
  case less
  have len: "length addrs = length addrs0" using less.prems(3) by (rule perm_upto_length)
  show ?case
  proof (cases "s < total_cands")
    case False
    with less.prems show ?thesis by (subst batch_loop.simps) auto
  next
    case True
    let ?cur = "min batch_sz (total_cands - s)"
    have "?cur \<le> length (drop s addrs)" using len assms(3) by simp
    from batch_trials_safe [where h = h and conf = conf and m = m and t = "trials conf"
        and otcs = "replicate ?cur 0", OF assms(1) this] obtain otcs m1 where
      t: "batch_trials h fev conf (drop s addrs) ?cur (trials conf) (replicate ?cur 0) m = Some (otcs, m1)"
        "length otcs = ?cur"
      by auto
    have "s + length otcs \<le> length addrs" using t(2) len assms(3) True by simp
    from batch_select_spec [OF less.prems(1) this] obtain addrs1 k where
      sel: "batch_select (upp_bnd conf) s otcs addrs n_pos = Some (addrs1, n_pos + k)" "k \<le> ?cur"
        "perm_upto (s + ?cur) addrs addrs1"
      unfolding t(2) by blast
    have "perm_upto total_cands addrs0 addrs1"
      by (rule perm_upto_trans [OF less.prems(3) perm_upto_mono [OF sel(3)]]) (use True in simp)
    moreover have "total_cands - (s + batch_sz) < total_cands - s" "n_pos + k \<le> s + batch_sz"
        "n_pos + k \<le> total_cands"
      using True assms(2) sel(2) less.prems(1) by auto
    ultimately have "\<exists>addrs' k' m'. batch_loop h fev conf batch_sz total_cands (s + batch_sz) addrs1 (n_pos + k) m1 =
        Some ((addrs', k'), m') \<and> k' \<le> total_cands \<and> perm_upto total_cands addrs0 addrs'"
      by (intro less.hyps)
    with t(1) sel(1) True assms(2,3) len show ?thesis by (subst batch_loop_unfold) auto
  qed
qed

subsection \<open>The machine with least recently used replacement\<close>

text \<open>
  Timing the rest \<open>ys\<close> of a batch whose first lines \<open>us\<close> have been timed. A line has been
  pushed out exactly when the other lines of its set that were read since are at least as
  many as the ways.
\<close>

definition others :: "lru_cfg \<Rightarrow> addr \<Rightarrow> addr list \<Rightarrow> nat" where
  "others cfg x zs = card (lru_line cfg ` {a \<in> set zs. lru_set cfg a = lru_set cfg x})"

lemma timed_line:
  assumes "lru_inv cfg m" "0 < lru_ways cfg" "distinct (map (lru_line cfg) (us @ x # vs))"
    "lru_line cfg x \<notin> lru_line cfg ` set fs"
  shows "fst (time_maccess (lru_hw cfg) x
           (fold (lru_read cfg) us (fold (lru_read cfg) fs (fold (lru_read cfg) (us @ x # vs) m)))) =
     (if others cfg x (vs @ fs @ us) < lru_ways cfg then lru_hit cfg else lru_miss cfg)"
proof -
  have "lru_line cfg x \<notin> lru_line cfg ` set (vs @ fs @ us)"
    using assms(3,4) by auto
  from lru_read_evicted [OF lru_reads_inv [OF assms(1), of us] assms(2) this]
  show ?thesis by (simp add: time_maccess_lru others_def)
qed

lemma time_lines_lru:
  assumes "lru_inv cfg m" "0 < lru_ways cfg" "distinct (map (lru_line cfg) xs)"
    "lru_line cfg ` set xs \<inter> lru_line cfg ` set fs = {}"
    and slow: "\<And>us x vs. xs = us @ x # vs \<Longrightarrow> P x \<longleftrightarrow> \<not> others cfg x (vs @ fs @ us) < lru_ways cfg"
    and th: "lru_hit cfg < th" "th < lru_miss cfg"
  shows "xs = us @ ys \<Longrightarrow> length otcs = length ys \<Longrightarrow>
    time_lines (lru_hw cfg) th ys otcs (fold (lru_read cfg) us (fold (lru_read cfg) fs (fold (lru_read cfg) xs m)))
     = (map (\<lambda>(y, otc). if P y then otc + 1 else otc) (zip ys otcs),
        fold (lru_read cfg) xs (fold (lru_read cfg) fs (fold (lru_read cfg) xs m)))"
proof (induction ys arbitrary: us otcs)
  case Nil
  then show ?case by simp
next
  case (Cons y ys)
  obtain otc otcs' where o: "otcs = otc # otcs'" using Cons.prems(2) by (cases otcs) auto
  let ?m = "fold (lru_read cfg) us (fold (lru_read cfg) fs (fold (lru_read cfg) xs m))"
  have "lru_line cfg y \<notin> lru_line cfg ` set fs" using assms(4) Cons.prems(1) by auto
  then have "fst (time_maccess (lru_hw cfg) y ?m) = (if P y then lru_miss cfg else lru_hit cfg)"
    using timed_line [OF assms(1,2), of us y ys fs] assms(3) Cons.prems(1) slow [OF Cons.prems(1)] by simp
  then have t: "time_maccess (lru_hw cfg) y ?m =
      (if P y then lru_miss cfg else lru_hit cfg, fold (lru_read cfg) (us @ [y]) (fold (lru_read cfg) fs (fold (lru_read cfg) xs m)))"
    by (simp add: time_maccess_lru)
  have "(th < (if P y then lru_miss cfg else lru_hit cfg)) = P y" using th by auto
  with t o Cons.IH [of "us @ [y]" otcs'] Cons.prems show ?case by simp
qed

text \<open>A filter that fills one set: at least as many lines as the ways, all of the set \<open>s0\<close>.\<close>

definition fills_set :: "lru_cfg \<Rightarrow> nat \<Rightarrow> EvTestConf EvSet \<Rightarrow> bool" where
  "fills_set cfg s0 fev \<longleftrightarrow> ev_size fev \<le> length (ev_addrs fev) \<and> 0 < ev_repeat (build_conf fev)
     \<and> lru_ways cfg \<le> card (lru_line cfg ` set (take (ev_size fev) (ev_addrs fev)))
     \<and> (\<forall>a \<in> set (take (ev_size fev) (ev_addrs fev)). lru_set cfg a = s0)"

lemma filter_slow_iff:
  assumes "lru_ways cfg \<le> card (lru_line cfg ` set fs)" "\<forall>a \<in> set fs. lru_set cfg a = s0"
    "length (us @ x # vs) \<le> lru_ways cfg"
  shows "lru_set cfg x = s0 \<longleftrightarrow> \<not> others cfg x (vs @ fs @ us) < lru_ways cfg"
proof (cases "lru_set cfg x = s0")
  case True
  have "lru_line cfg ` set fs \<subseteq> lru_line cfg ` {a \<in> set (vs @ fs @ us). lru_set cfg a = lru_set cfg x}"
    using True assms(2) by auto
  then have "card (lru_line cfg ` set fs) \<le> others cfg x (vs @ fs @ us)"
    unfolding others_def by (intro card_mono) auto
  with True assms(1) show ?thesis by simp
next
  case False
  have "{a \<in> set (vs @ fs @ us). lru_set cfg a = lru_set cfg x} \<subseteq> set (vs @ us)"
    using False assms(2) by auto
  then have "others cfg x (vs @ fs @ us) \<le> card (lru_line cfg ` set (vs @ us))"
    unfolding others_def by (intro card_mono) auto
  also have "\<dots> \<le> length (vs @ us)"
    by (metis List.finite_set card_image_le card_length le_trans)
  finally show ?thesis using False assms(3) by simp
qed

lemma batch_trials_lru:
  assumes "lru_ok cfg g" "fills_set cfg s0 fev" "cur \<le> length lines" "cur \<le> lru_ways cfg"
    "distinct (map (lru_line cfg) (take cur lines))"
    "lru_line cfg ` set (take cur lines) \<inter> lru_line cfg ` set (take (ev_size fev) (ev_addrs fev)) = {}"
    "lat_thresh conf = l2_thresh (g_lats g)"
  shows "lru_inv cfg m \<Longrightarrow> length otcs = cur \<Longrightarrow>
    \<exists>m'. batch_trials (lru_hw cfg) fev conf lines cur t otcs m =
       Some (map (\<lambda>(y, otc). if lru_set cfg y = s0 then otc + t else otc) (zip (take cur lines) otcs), m')
     \<and> lru_inv cfg m'"
proof (induction t arbitrary: otcs m)
  case 0
  have "map (\<lambda>(y, otc). if lru_set cfg y = s0 then otc + 0 else otc) (zip (take cur lines) otcs) = otcs"
    using "0.prems"(2) assms(3) by (intro nth_equalityI) auto
  with 0 show ?case by (simp only: batch_trials.simps) blast
next
  case (Suc t)
  let ?xs = "take cur lines" and ?F = "take (ev_size fev) (ev_addrs fev)"
  let ?fs = "concat (replicate (ev_repeat (build_conf fev)) (rev ?F))"
  let ?m = "fold (lru_read cfg) ?fs (fold (lru_read cfg) ?xs m)"
  let ?otcs = "map (\<lambda>(y, otc). if lru_set cfg y = s0 then otc + 1 else otc) (zip ?xs otcs)"
  have ok: "0 < lru_ways cfg" "lru_hit cfg < l2_thresh (g_lats g)" "l2_thresh (g_lats g) < lru_miss cfg"
    using assms(1) by (auto simp: lru_ok_def)
  have F: "ev_size fev \<le> length (ev_addrs fev)" "lru_ways cfg \<le> card (lru_line cfg ` set ?F)"
      "\<forall>a \<in> set ?F. lru_set cfg a = s0" "set ?fs = set ?F"
    using assms(2) by (auto simp: fills_set_def)
  have "time_lines (lru_hw cfg) (l2_thresh (g_lats g)) ?xs otcs
      (fold (lru_read cfg) [] (fold (lru_read cfg) ?fs (fold (lru_read cfg) ?xs m))) =
      (?otcs, fold (lru_read cfg) ?xs ?m)"
  proof (rule time_lines_lru [OF Suc.prems(1) ok(1) assms(5) _ _ ok(2,3)])
    show "lru_line cfg ` set ?xs \<inter> lru_line cfg ` set ?fs = {}" using assms(6) F(4) by simp
    show "lru_set cfg x = s0 \<longleftrightarrow> \<not> others cfg x (vs @ ?fs @ us) < lru_ways cfg" if "?xs = us @ x # vs" for us x vs
    proof (rule filter_slow_iff)
      have "length ?xs = cur" using assms(3) by simp
      with that have "length (us @ x # vs) = cur" by metis
      with assms(4) show "length (us @ x # vs) \<le> lru_ways cfg" by simp
    qed (use F in simp_all)
  qed (use Suc.prems(2) assms(3) in simp_all)
  moreover have "lru_inv cfg (fold (lru_read cfg) ?xs ?m)" by (intro lru_reads_inv Suc.prems(1))
  moreover have "length ?otcs = cur" using Suc.prems(2) assms(3) by simp
  moreover have "map (\<lambda>(y, otc). if lru_set cfg y = s0 then otc + t else otc) (zip ?xs ?otcs) =
      map (\<lambda>(y, otc). if lru_set cfg y = s0 then otc + Suc t else otc) (zip ?xs otcs)"
    using Suc.prems(2) assms(3) by (intro nth_equalityI) auto
  ultimately show ?case
    using Suc.IH [of "fold (lru_read cfg) ?xs ?m" ?otcs] F(1) assms(3,7)
    by (simp add: arr_simps access_seq_lru)
qed

lemma batch_selected:
  assumes "upp < t"
  shows "map fst (filter (\<lambda>(a, otc). otc > upp) (zip (xs @ zs)
     (map (\<lambda>(y, otc). if P y then otc + t else otc) (zip xs (replicate (length xs) (0 :: nat)))))) = filter P xs"
  using assms by (induction xs) auto

text \<open>
  The loop, once the first \<open>s\<close> candidates of \<open>orig\<close> have been treated: the congruent ones among
  them stand in front, the rest of the array is untouched.
\<close>

lemma batch_loop_lru:
  assumes "lru_ok cfg g" "fills_set cfg s0 fev" "0 < batch_sz" "batch_sz \<le> lru_ways cfg"
    "n \<le> length orig" "distinct (map (lru_line cfg) (take n orig))"
    "lru_line cfg ` set (take n orig) \<inter> lru_line cfg ` set (take (ev_size fev) (ev_addrs fev)) = {}"
    "lat_thresh conf = l2_thresh (g_lats g)" "upp_bnd conf < trials conf"
  shows "lru_inv cfg m \<Longrightarrow> n_pos \<le> s \<Longrightarrow> length addrs = length orig \<Longrightarrow> n_pos \<le> n \<Longrightarrow>
    drop s addrs = drop s orig \<Longrightarrow> take n_pos addrs = filter (\<lambda>a. lru_set cfg a = s0) (take s (take n orig)) \<Longrightarrow>
    \<exists>addrs' k m'. batch_loop (lru_hw cfg) fev conf batch_sz n s addrs n_pos m = Some ((addrs', k), m')
      \<and> lru_inv cfg m' \<and> k \<le> n \<and> length addrs' = length orig
      \<and> take k addrs' = filter (\<lambda>a. lru_set cfg a = s0) (take n orig)"
proof (induction "n - s" arbitrary: s addrs n_pos m rule: less_induct)
  case less
  let ?P = "\<lambda>a. lru_set cfg a = s0"
  show ?case
  proof (cases "s < n")
    case False
    with less.prems show ?thesis by (subst batch_loop.simps) auto
  next
    case True
    let ?cur = "min batch_sz (n - s)" and ?rest = "drop s orig"
    let ?xs = "take ?cur ?rest"
    have sub: "?xs = take ?cur (drop s (take n orig))" by (simp add: drop_take min.commute)
    have "distinct (map (lru_line cfg) ?xs)"
      unfolding sub using assms(6) by (simp flip: drop_map take_map)
    moreover have "set ?xs \<subseteq> set (take n orig)"
      unfolding sub by (meson order_trans set_drop_subset set_take_subset)
    then have "lru_line cfg ` set ?xs \<inter> lru_line cfg ` set (take (ev_size fev) (ev_addrs fev)) = {}"
      using assms(7) by blast
    moreover have cur: "?cur \<le> length ?rest" "?cur \<le> lru_ways cfg" "length ?xs = ?cur"
      using assms(4,5) True by auto
    ultimately obtain m1 where
      t: "batch_trials (lru_hw cfg) fev conf ?rest ?cur (trials conf) (replicate ?cur 0) m =
        Some (map (\<lambda>(y, otc). if ?P y then otc + trials conf else otc) (zip ?xs (replicate ?cur 0)), m1)"
        "lru_inv cfg m1"
      using batch_trials_lru [OF assms(1,2) cur(1,2) _ _ assms(8) less.prems(1), of "replicate ?cur 0" "trials conf"]
      by auto
    let ?otcs = "map (\<lambda>(y, otc). if ?P y then otc + trials conf else otc) (zip ?xs (replicate ?cur (0 :: nat)))"
    have lo: "length ?otcs = ?cur" using cur(3) by simp
    have "s + length ?otcs \<le> length addrs" unfolding lo using less.prems(3) assms(5) True by simp
    from batch_select_spec [OF less.prems(2) this, of "upp_bnd conf"] obtain addrs1 k where
      sel: "batch_select (upp_bnd conf) s ?otcs addrs n_pos = Some (addrs1, n_pos + k)" "k \<le> ?cur"
        "perm_upto (s + ?cur) addrs addrs1"
        "take (n_pos + k) addrs1 = take n_pos addrs
          @ map fst (filter (\<lambda>(a, otc). otc > upp_bnd conf) (zip (drop s addrs) ?otcs))"
      unfolding lo by blast
    have d: "drop s addrs = ?xs @ drop ?cur ?rest" unfolding less.prems(5) by (rule append_take_drop_id [symmetric])
    have "map fst (filter (\<lambda>(a, otc). otc > upp_bnd conf) (zip (drop s addrs) ?otcs)) = filter ?P ?xs"
      unfolding d using batch_selected [OF assms(9), of ?xs "drop ?cur ?rest" ?P] unfolding cur(3) .
    then have "take (n_pos + k) addrs1 = take n_pos addrs @ filter ?P ?xs"
      using sel(4) by (simp only:)
    also have "\<dots> = filter ?P (take (s + batch_sz) (take n orig))"
      unfolding less.prems(6) take_add filter_append sub
      by (simp only: drop_take take_take) (simp add: min.left_commute)
    finally have tk: "take (n_pos + k) addrs1 = filter ?P (take (s + batch_sz) (take n orig))" .
    have dr: "drop (s + batch_sz) addrs1 = drop (s + batch_sz) orig"
    proof -
      have "drop (s + ?cur) addrs1 = drop (s + ?cur) addrs" using sel(3) by (simp add: perm_upto_def)
      also have "\<dots> = drop (s + ?cur) orig"
        using arg_cong [OF less.prems(5), of "drop ?cur"] by (simp add: add.commute)
      finally have "drop (batch_sz - ?cur) (drop (s + ?cur) addrs1) = drop (batch_sz - ?cur) (drop (s + ?cur) orig)"
        by simp
      then show ?thesis by (simp add: add.commute)
    qed
    have "n - (s + batch_sz) < n - s" "n_pos + k \<le> s + batch_sz" "n_pos + k \<le> n"
        "length addrs1 = length orig"
      using True assms(3) sel(2) less.prems(2,3) perm_upto_length [OF sel(3)] by auto
    from less.hyps [OF this(1) t(2) this(2,4,3) dr tk] t(1) sel(1) True assms(3,5) less.prems(3,5)
    show ?thesis by (subst batch_loop_unfold) simp_all
  qed
qed

subsection \<open>Properties\<close>

lemma filter_batch_sz_bounds: "0 < unat (n_ways c) \<Longrightarrow> 0 < filter_batch_sz c \<and> filter_batch_sz c \<le> unat (n_ways c)"
  by (simp add: filter_batch_sz_def Let_def)

text \<open>
  On every machine, filtering a pool against a well formed set returns, touches nothing
  outside the first \<open>total_cands\<close> addresses, and leaves them permuted; the count it reports
  is never larger than the pool.
\<close>

theorem evcands_filter_batch_permutes:
  assumes "ev_size fev \<le> length (ev_addrs fev)" and "0 < unat (n_ways (target_cache fev))"
    and "total_cands \<le> length addrs"
  shows "\<exists>addrs' k m'. evcands_filter_batch h addrs total_cands n0 (Some fev) conf m = Some ((addrs', k), m')
       \<and> k \<le> total_cands \<and> perm_upto total_cands addrs addrs'"
proof -
  obtain p m1 where c: "os_calloc h (filter_batch_sz (target_cache fev) * 4) m = (p, m1)" by fastforce
  have "\<exists>addrs' k m'. batch_loop h fev conf (filter_batch_sz (target_cache fev)) total_cands 0 addrs 0 m1 =
      Some ((addrs', k), m') \<and> k \<le> total_cands \<and> perm_upto total_cands addrs addrs'"
    by (rule batch_loop_safe [OF assms(1) _ assms(3)]) (use filter_batch_sz_bounds [OF assms(2)] in auto)
  with c show ?thesis by (cases p) (auto simp: evcands_filter_batch_def Let_def)
qed

definition tiny_filter :: "EvTestConf EvSet" where
  "tiny_filter = \<lparr>ev_addrs = [0x10000, 0x20000], ev_size = 2, ev_cap = 2, target_addr = 0x50000,
     ev_cands = demo_cands [], build_conf = EvTestConf.truncate (fst (init_def_l2_conf flat_globals conf_zero)),
     target_cache = lru_cache tiny_cfg\<rparr>"

theorem evcands_filter_batch_permutes_witness:
  "\<exists>addrs' k m'. evcands_filter_batch flat_hw [0x1000, 0x2000, 0x3000] 2 0 (Some tiny_filter) conf_zero (\<lambda>a. 0, 0)
       = Some ((addrs', k), m') \<and> k \<le> 2 \<and> mset (take 2 addrs') = {#0x1000, 0x2000#}"
  using evcands_filter_batch_permutes [of tiny_filter 2 "[0x1000, 0x2000, 0x3000]" flat_hw 0 conf_zero "(\<lambda>a. 0, 0)"]
  by (fastforce simp: tiny_filter_def tiny_cfg_def perm_upto_def)

text \<open>
  C5: on a core with least recently used replacement, a filter of at least as many lines as
  the L2 has ways, all of one set, selects exactly the candidates of that set, in the order
  they had, and counts them; no line of another set is ever taken.
\<close>

theorem evcands_filter_batch_exact:
  assumes "lru_ok cfg g" and "lru_inv cfg m" and "fills_set cfg s0 fev"
    and "target_cache fev = lru_cache cfg" and "conf = fst (init_def_l2_conf g c)"
    and "total_cands \<le> length addrs" and "distinct (map (lru_line cfg) (take total_cands addrs))"
    and "lru_line cfg ` set (take total_cands addrs) \<inter> lru_line cfg ` set (take (ev_size fev) (ev_addrs fev)) = {}"
  shows "\<exists>addrs' k m'. evcands_filter_batch (lru_hw cfg) addrs total_cands n0 (Some fev) conf m = Some ((addrs', k), m')
       \<and> lru_inv cfg m' \<and> k = length (filter (\<lambda>a. lru_set cfg a = s0) (take total_cands addrs))
       \<and> take k addrs' = filter (\<lambda>a. lru_set cfg a = s0) (take total_cands addrs)"
proof -
  have b: "0 < filter_batch_sz (lru_cache cfg)" "filter_batch_sz (lru_cache cfg) \<le> lru_ways cfg"
    using filter_batch_sz_bounds assms(1) by (auto simp: lru_ok_def)
  have t: "lat_thresh conf = l2_thresh (g_lats g)" "upp_bnd conf < trials conf"
    by (simp_all add: assms(5))
  obtain addrs' k m' where
    l: "batch_loop (lru_hw cfg) fev conf (filter_batch_sz (lru_cache cfg)) total_cands 0 addrs 0 m = Some ((addrs', k), m')"
      "lru_inv cfg m'" "k \<le> total_cands" "length addrs' = length addrs"
      "take k addrs' = filter (\<lambda>a. lru_set cfg a = s0) (take total_cands addrs)"
    using batch_loop_lru [OF assms(1,3) b assms(6-8) t assms(2), of 0 0 addrs] by auto
  have "k = length (take k addrs')" using l(3,4) assms(6) by simp
  then have "k = length (filter (\<lambda>a. lru_set cfg a = s0) (take total_cands addrs))" using l(5) by simp
  moreover have "evcands_filter_batch (lru_hw cfg) addrs total_cands n0 (Some fev) conf m = Some ((addrs', k), m')"
    using l(1) by (simp add: evcands_filter_batch_def assms(4) lru_hw_def)
  ultimately show ?thesis using l(2,5) by blast
qed

theorem evcands_filter_batch_exact_witness:
  "\<exists>addrs' m'. evcands_filter_batch (lru_hw tiny_cfg) [0x31000, 0x30000, 0x41000, 0x40000] 4 0 (Some tiny_filter)
        (fst (init_def_l2_conf flat_globals conf_zero)) lru_empty = Some ((addrs', 2), m')
     \<and> take 2 addrs' = [0x30000, 0x40000]"
proof -
  have s: "lru_set tiny_cfg a = unat (a XOR 0x1000) div 64 mod 1024" for a
    by (simp add: lru_set_def tiny_line) (simp add: tiny_cfg_def skx_l2_def)
  have f: "fills_set tiny_cfg (lru_set tiny_cfg 0x10000) tiny_filter"
    by (simp add: fills_set_def tiny_filter_def s tiny_line EvTestConf.truncate_def) (simp add: tiny_cfg_def)
  have "\<exists>addrs' k m'. evcands_filter_batch (lru_hw tiny_cfg) [0x31000, 0x30000, 0x41000, 0x40000] 4 0 (Some tiny_filter)
        (fst (init_def_l2_conf flat_globals conf_zero)) lru_empty = Some ((addrs', k), m')
     \<and> lru_inv tiny_cfg m' \<and> k = length (filter (\<lambda>a. lru_set tiny_cfg a = lru_set tiny_cfg 0x10000)
          (take 4 [0x31000, 0x30000, 0x41000, 0x40000]))
     \<and> take k addrs' = filter (\<lambda>a. lru_set tiny_cfg a = lru_set tiny_cfg 0x10000)
          (take 4 [0x31000, 0x30000, 0x41000, 0x40000])"
    by (rule evcands_filter_batch_exact [OF tiny_cfg_ok lru_empty_inv f])
      (simp_all add: tiny_filter_def tiny_line)
  moreover have "filter (\<lambda>a. lru_set tiny_cfg a = lru_set tiny_cfg 0x10000)
      (take 4 [0x31000, 0x30000, 0x41000, 0x40000]) = [0x30000, 0x40000]"
    by (simp add: s)
  moreover have "length [0x30000 :: addr, 0x40000] = 2" by simp
  ultimately show ?thesis by metis
qed

end
