(* ===== verification/Evset_L2.thy ===== *)
theory Evset_L2
  imports Evset_Returns
begin

text \<open>
  The construction of the L2 eviction sets in src/evset.c: choice of a target, one set with
  retries (\<open>build_single_l2_evset\<close>), and the complex of all uncertain sets at all page offsets
  (\<open>build_l2_evset\<close>).

  The pool of candidates is one object that the builder and the sets share. Its current value
  is passed along; the pool inside a set is the one at the time the set was finished. The
  global \<open>def_l2_build_conf\<close> is passed along too, since every entry point writes it again. A
  null pointer to a byte is the address 0, as in \<open>verify_evset\<close>. Memory that is given back
  leaves no trace in the model.
\<close>

subsection \<open>Choosing a target\<close>

function addr_in_list :: "addr \<Rightarrow> addr list \<Rightarrow> nat \<Rightarrow> nat \<Rightarrow> bool option" where
  "addr_in_list a addrs cnt i =
     (if i < cnt then do {
        x \<leftarrow> arr_get addrs i;
        if x = a then Some True else addr_in_list a addrs cnt (i + 1)
      } else Some False)"
  by pat_completeness auto
termination
  by (relation "measure (\<lambda>(a, addrs, cnt, i). cnt - i)") auto

declare addr_in_list.simps [simp del]

text \<open>
  The first candidate that is neither the current target nor one of the earlier addresses and
  that the earlier addresses clearly do not evict. It is taken out of the pool. The result is
  \<open>None\<close> inside when there is none; the caller's target then stays what it was.
\<close>

function pick_l2_loop ::
    "'m hw \<Rightarrow> globals \<Rightarrow> EvCands \<Rightarrow> addr \<Rightarrow> addr list \<Rightarrow> nat \<Rightarrow> EvBuildConf \<Rightarrow> nat \<Rightarrow> 'm
       \<Rightarrow> ((addr option \<times> EvCands) \<times> 'm) option" where
  "pick_l2_loop h g cands current prev n_prev conf j m =
     (if j < cands_count cands then do {
        candidate \<leftarrow> arr_get (cands_addrs cands) j;
        known \<leftarrow> (if candidate = current then Some True else addr_in_list candidate prev n_prev 0);
        if known then pick_l2_loop h g cands current prev n_prev conf (j + 1) m
        else do {
          (clear, m) \<leftarrow>
            (if n_prev > 0
             then map_option (\<lambda>(r, m). (r = EV_NEG, m)) (test_eviction_detailed h g candidate prev n_prev conf m)
             else Some (True, m));
          if \<not> clear then pick_l2_loop h g cands current prev n_prev conf (j + 1) m
          else do {
            addrs \<leftarrow> arr_swap (cands_addrs cands) j (cands_count cands - 1);
            Some ((Some candidate, cands\<lparr>cands_addrs := addrs, cands_count := cands_count cands - 1\<rparr>), m)
          }
        }
      } else Some ((None, cands), m))"
  by pat_completeness auto
termination
  by (relation "measure (\<lambda>(h, g, cands, current, prev, n_prev, conf, j, m). cands_count cands - j)") auto

declare pick_l2_loop.simps [simp del]

definition pick_l2_target ::
    "'m hw \<Rightarrow> globals \<Rightarrow> EvCands \<Rightarrow> addr \<Rightarrow> addr list \<Rightarrow> nat \<Rightarrow> EvBuildConf \<Rightarrow> 'm
       \<Rightarrow> ((addr option \<times> EvCands) \<times> 'm) option" where
  "pick_l2_target h g cands current prev n_prev conf m =
     pick_l2_loop h g cands current prev n_prev conf 0 m"

subsection \<open>Validation of a group\<close>

fun validate_self ::
    "'m hw \<Rightarrow> globals \<Rightarrow> EvBuildConf EvSet option list \<Rightarrow> 'm \<Rightarrow> (bool \<times> 'm) option" where
  "validate_self h g [] m = Some (True, m)"
| "validate_self h g (None # es) m = Some (False, m)"
| "validate_self h g (Some e # es) m =
     (if target_addr e = 0 then Some (False, m)
      else do {
        (r, m) \<leftarrow> verify_evset h g e (target_addr e) m;
        if r = FAIL then Some (False, m) else validate_self h g es m
      })"

text \<open>The inner loop tests the targets of the later sets; a null entry is dereferenced.\<close>

fun validate_later ::
    "'m hw \<Rightarrow> globals \<Rightarrow> EvBuildConf \<Rightarrow> EvBuildConf EvSet \<Rightarrow> EvBuildConf EvSet option list \<Rightarrow> 'm
       \<Rightarrow> (bool \<times> 'm) option" where
  "validate_later h g conf e [] m = Some (True, m)"
| "validate_later h g conf e (None # es) m = None"
| "validate_later h g conf e (Some e' # es) m = do {
     (r, m) \<leftarrow> test_eviction_detailed h g (target_addr e') (ev_addrs e) (ev_size e) conf m;
     if r \<noteq> EV_NEG then Some (False, m) else validate_later h g conf e es m
   }"

fun validate_pairs ::
    "'m hw \<Rightarrow> globals \<Rightarrow> EvBuildConf \<Rightarrow> EvBuildConf EvSet option list \<Rightarrow> 'm \<Rightarrow> (bool \<times> 'm) option" where
  "validate_pairs h g conf [] m = Some (True, m)"
| "validate_pairs h g conf (None # es) m = (if es = [] then Some (True, m) else None)"
| "validate_pairs h g conf (Some e # es) m = do {
     (ok, m) \<leftarrow> validate_later h g conf e es m;
     if ok then validate_pairs h g conf es m else Some (False, m)
   }"

definition validate_l2_evsets ::
    "'m hw \<Rightarrow> globals \<Rightarrow> EvBuildConf EvSet option list \<Rightarrow> EvBuildConf \<Rightarrow> 'm \<Rightarrow> (bool \<times> 'm) option" where
  "validate_l2_evsets h g evsets conf m =
     (if evsets = [] then Some (False, m)
      else do {
        (ok, m) \<leftarrow> validate_self h g evsets m;
        if ok then validate_pairs h g conf evsets m else Some (False, m)
      })"

subsection \<open>One L2 set\<close>

text \<open>
  \<open>while (n_ret > 0 && !success)\<close>: every failed attempt costs one retry and needs a new
  target, without which the loop is left.
\<close>

fun l2_attempts ::
    "'m hw \<Rightarrow> globals \<Rightarrow> EvBuildConf \<Rightarrow> addr list \<Rightarrow> nat \<Rightarrow> nat \<Rightarrow> addr \<Rightarrow> EvBuildConf EvSet \<Rightarrow> 'm
       \<Rightarrow> ((bool \<times> EvBuildConf EvSet) \<times> 'm) option" where
  "l2_attempts h g conf all_addrs n_all 0 curr_target evset m = Some ((False, evset), m)"
| "l2_attempts h g conf all_addrs n_all (Suc n_ret) curr_target evset m = do {
     ((err, evset), m) \<leftarrow>
       build_evset_zhao h (conf_test h g) curr_target (evset\<lparr>ev_size := 0, target_addr := curr_target\<rparr>) m;
     (success, m) \<leftarrow>
       (if err \<or> ev_size evset \<noteq> unat (n_ways (l2_info g)) then Some (False, m)
        else map_option (\<lambda>(r, m). (r \<noteq> FAIL, m)) (verify_evset h g evset curr_target m));
     if success then Some ((True, evset), m)
     else do {
       ((next, cands), m) \<leftarrow> pick_l2_target h g (ev_cands evset) curr_target all_addrs n_all conf m;
       case next of
         None \<Rightarrow> Some ((False, evset\<lparr>ev_cands := cands\<rparr>), m)
       | Some t \<Rightarrow> l2_attempts h g conf all_addrs n_all n_ret t (evset\<lparr>ev_cands := cands\<rparr>) m
     }
   }"

text \<open>The pool that the caller passes, or one of its own.\<close>

definition l2_own_cands ::
    "'m hw \<Rightarrow> globals \<Rightarrow> EvBuildConf \<Rightarrow> EvCands option \<Rightarrow> 'm \<Rightarrow> (EvCands option \<times> 'm) option" where
  "l2_own_cands h g conf cands0 m =
     (case cands0 of Some c \<Rightarrow> Some (Some c, m)
      | None \<Rightarrow> do {
          (c, m) \<leftarrow> evcands_new h g (l2_info g) conf None m;
          case c of None \<Rightarrow> Some (None, m)
          | Some c \<Rightarrow> do {
              ((err, c), m) \<leftarrow> evcands_populate h 0 c conf conf m;
              Some (if err then None else Some c, m)
            }
        })"

text \<open>The set that the attempts start from.\<close>

definition l2_evset_init :: "globals \<Rightarrow> EvBuildConf \<Rightarrow> EvCands \<Rightarrow> addr \<Rightarrow> EvBuildConf EvSet" where
  "l2_evset_init g conf cands target =
     (let cap = wrap32 (cap_scaling conf * unat (n_ways (l2_info g)))
      in \<lparr>ev_addrs = replicate cap 0, ev_size = 0, ev_cap = cap, target_addr = target,
          ev_cands = cands, build_conf = conf, target_cache = l2_info g\<rparr>)"

text \<open>
  The result: the set or \<open>NULL\<close>, and the pool afterwards. The configuration is the global one,
  written at the start; the globals change only by its \<open>cand_scaling\<close>.
\<close>

definition build_single_l2_evset ::
    "'m hw \<Rightarrow> globals \<Rightarrow> EvBuildConf \<Rightarrow> EvCands option \<Rightarrow> addr \<Rightarrow> addr list \<Rightarrow> nat \<Rightarrow> 'm
       \<Rightarrow> ((EvBuildConf EvSet option \<times> EvCands option \<times> EvBuildConf \<times> globals) \<times> 'm) option" where
  "build_single_l2_evset h g0 conf0 cands0 target0 all_addrs n_all m =
     (let (conf, g) = init_def_l2_conf g0 conf0
      in do {
        (c, m) \<leftarrow> l2_own_cands h g conf cands0 m;
        case c of None \<Rightarrow> Some ((None, None, conf, g), m)
        | Some cands \<Rightarrow> do {
            ((t, cands), m) \<leftarrow>
              (if target0 \<noteq> 0 then Some ((Some target0, cands), m)
               else pick_l2_target h g cands 0 all_addrs n_all conf m);
            case t of None \<Rightarrow> Some ((None, Some cands, conf, g), m)
            | Some target \<Rightarrow>
                (let (p, m) = os_calloc h 56 m
                 in case p of None \<Rightarrow> Some ((None, Some cands, conf, g), m)
                    | Some _ \<Rightarrow>
                        (let (arr, m) = os_calloc h (wrap32 (cap_scaling conf * unat (n_ways (l2_info g))) * 8) m
                         in case arr of None \<Rightarrow> Some ((None, Some cands, conf, g), m)
                            | Some _ \<Rightarrow> do {
                                ((success, evset), m) \<leftarrow>
                                  l2_attempts h g conf all_addrs n_all (n_retries conf) target
                                    (l2_evset_init g conf cands target) m;
                                Some ((if success then Some evset else None, Some (ev_cands evset), conf, g), m)
                              }))
          }
      })"

subsection \<open>The complex of L2 sets\<close>

text \<open>The numbers at the top of \<open>build_l2_evset\<close>: page offsets, and uncertain sets to build.\<close>

definition l2_counts :: "globals \<Rightarrow> nat \<Rightarrow> (nat \<times> nat) option" where
  "l2_counts g num_sets =
     (let sib = unknown_sib (l2_info g); cl = unat (cl_size (l2_info g))
      in if sib < 0 \<or> 31 \<le> sib \<or> cl = 0 then None
         else (let n_uncertain = 2 ^ nat sib; n_offsets = 4096 div cl
               in if n_offsets = 0 then None
                  else Some (n_offsets, min n_uncertain (wrap32 (num_sets + n_offsets - 1) div n_offsets))))"

text \<open>What one pass over the uncertain sets changes.\<close>

record l2_pass =
  lp_cands :: EvCands
  lp_target :: addr
  lp_all :: "addr list"
  lp_built :: "addr list"
  lp_row :: "EvBuildConf EvSet option list"
  lp_conf :: EvBuildConf
  lp_g :: globals

text \<open>At most three attempts to verify a new set.\<close>

fun l2_verify3 :: "'m hw \<Rightarrow> globals \<Rightarrow> nat \<Rightarrow> EvBuildConf EvSet \<Rightarrow> 'm \<Rightarrow> (bool \<times> 'm) option" where
  "l2_verify3 h g 0 e m = Some (False, m)"
| "l2_verify3 h g (Suc k) e m = do {
     (r, m) \<leftarrow> verify_evset h g e (target_addr e) m;
     if r = OK then Some (True, m) else l2_verify3 h g k e m
   }"

text \<open>Removing one address from the pool: the first candidate equal to it.\<close>

function remove_cand :: "addr \<Rightarrow> EvCands \<Rightarrow> nat \<Rightarrow> EvCands option" where
  "remove_cand a cands c =
     (if c < cands_count cands then do {
        x \<leftarrow> arr_get (cands_addrs cands) c;
        if x = a then do {
          addrs \<leftarrow> arr_swap (cands_addrs cands) c (cands_count cands - 1);
          Some (cands\<lparr>cands_addrs := addrs, cands_count := cands_count cands - 1\<rparr>)
        } else remove_cand a cands (c + 1)
      } else Some cands)"
  by pat_completeness auto
termination
  by (relation "measure (\<lambda>(a, cands, c). cands_count cands - c)") auto

declare remove_cand.simps [simp del]

fun remove_cands :: "addr list \<Rightarrow> EvCands \<Rightarrow> EvCands option" where
  "remove_cands [] cands = Some cands"
| "remove_cands (a # as) cands = do { cands \<leftarrow> remove_cand a cands 0; remove_cands as cands }"

text \<open>The lines of a verified set leave the pool and join the two arrays of used addresses.\<close>

definition l2_track :: "'m hw \<Rightarrow> EvBuildConf EvSet \<Rightarrow> l2_pass \<Rightarrow> 'm \<Rightarrow> (l2_pass \<times> 'm) option" where
  "l2_track h e st m =
     (let (p, m) = os_calloc h ((length (lp_all st) + ev_size e) * 8) m
      in case p of None \<Rightarrow> Some (st, m)
         | Some _ \<Rightarrow> do {
             xs \<leftarrow> arr_range (ev_addrs e) 0 (ev_size e);
             cands \<leftarrow> remove_cands xs (lp_cands st);
             let st = st\<lparr>lp_cands := cands, lp_all := lp_all st @ xs\<rparr>;
             let (q, m) = os_calloc h ((length (lp_built st) + ev_size e) * 8) m;
             Some (if q = None then st else st\<lparr>lp_built := lp_built st @ xs\<rparr>, m)
           })"

text \<open>The body of the loop over the uncertain sets; the row grows by one entry.\<close>

definition l2_pass_step :: "'m hw \<Rightarrow> nat \<Rightarrow> l2_pass \<Rightarrow> 'm \<Rightarrow> (l2_pass \<times> 'm) option" where
  "l2_pass_step h i st m = do {
     (found, st, m) \<leftarrow>
       (if i = 0 then Some (True, st, m)
        else do {
          ((t, cands), m) \<leftarrow> pick_l2_target h (lp_g st) (lp_cands st) (lp_target st) (lp_built st)
                               (length (lp_built st)) (lp_conf st) m;
          Some (case t of None \<Rightarrow> (False, st\<lparr>lp_cands := cands\<rparr>, m)
                | Some t \<Rightarrow> (True, st\<lparr>lp_cands := cands, lp_target := t\<rparr>, m))
        });
     if \<not> found then Some (st\<lparr>lp_row := lp_row st @ [None]\<rparr>, m)
     else do {
       ((e, cands, conf, g), m) \<leftarrow>
         build_single_l2_evset h (lp_g st) (lp_conf st) (Some (lp_cands st)) (lp_target st)
           (lp_all st) (length (lp_all st)) m;
       let st = st\<lparr>lp_cands := (case cands of None \<Rightarrow> lp_cands st | Some c \<Rightarrow> c),
                    lp_conf := conf, lp_g := g\<rparr>;
       case e of None \<Rightarrow> Some (st\<lparr>lp_row := lp_row st @ [None]\<rparr>, m)
       | Some e \<Rightarrow> do {
           (ok, m) \<leftarrow> l2_verify3 h (lp_g st) 3 e m;
           if \<not> ok then Some (st\<lparr>lp_row := lp_row st @ [None]\<rparr>, m)
           else do {
             (st, m) \<leftarrow> l2_track h e st m;
             Some (st\<lparr>lp_row := lp_row st @ [Some e]\<rparr>, m)
           }
         }
     }
   }"

fun l2_pass_loop :: "'m hw \<Rightarrow> nat \<Rightarrow> nat \<Rightarrow> l2_pass \<Rightarrow> 'm \<Rightarrow> (l2_pass \<times> 'm) option" where
  "l2_pass_loop h i 0 st m = Some (st, m)"
| "l2_pass_loop h i (Suc k) st m = do {
     (st, m) \<leftarrow> l2_pass_step h i st m;
     l2_pass_loop h (i + 1) k st m
   }"

text \<open>The sets of one offset are the sets of offset 0, shifted.\<close>

fun shift_row ::
    "'m hw \<Rightarrow> u32 \<Rightarrow> EvBuildConf EvSet option list \<Rightarrow> 'm \<Rightarrow> (EvBuildConf EvSet option list \<times> 'm) option" where
  "shift_row h offset [] m = Some ([], m)"
| "shift_row h offset (e # es) m = do {
     (e', m) \<leftarrow> evset_shift h e offset m;
     (es', m) \<leftarrow> shift_row h offset es m;
     Some (e' # es', m)
   }"

fun shift_rows ::
    "'m hw \<Rightarrow> u32 \<Rightarrow> EvBuildConf EvSet option list \<Rightarrow> nat list \<Rightarrow> 'm
       \<Rightarrow> (EvBuildConf EvSet option list option list \<times> 'm) option" where
  "shift_rows h cl row [] m = Some ([], m)"
| "shift_rows h cl row (n # ns) m =
     (let (p, m) = os_calloc h (length row * 8) m
      in do {
        (r, m) \<leftarrow> (case p of None \<Rightarrow> Some (None, m)
                  | Some _ \<Rightarrow> map_option (\<lambda>(es, m). (Some es, m)) (shift_row h (of_nat n * cl) row m));
        (rs, m) \<leftarrow> shift_rows h cl row ns m;
        Some (r # rs, m)
      })"

text \<open>
  One pass of \<open>while (whole_ret <= max_whole_ret)\<close>: \<open>Inl\<close> is a return of \<open>NULL\<close>; \<open>Inr\<close> gives
  the complex, whether the group is valid, the configuration and the globals.
\<close>

type_synonym l2_complex = "EvBuildConf EvSet option list option list"

definition l2_whole ::
    "'m hw \<Rightarrow> globals \<Rightarrow> EvBuildConf \<Rightarrow> nat \<Rightarrow> nat \<Rightarrow> 'm
       \<Rightarrow> ((unit + bool \<times> l2_complex \<times> EvBuildConf \<times> globals) \<times> 'm) option" where
  "l2_whole h g conf n_offsets n_unc m =
     (let (p, m) = os_calloc h (n_offsets * 8) m
      in if p = None then Some (Inl (), m) else do {
        (c, m) \<leftarrow> l2_own_cands h g conf None m;
        case c of None \<Rightarrow> Some (Inl (), m)
        | Some cands \<Rightarrow>
            (let (q, m) = os_calloc h (n_unc * 8) m
             in if q = None then Some (Inl (), m) else do {
               ((t, cands), m) \<leftarrow> pick_l2_target h g cands 0 [] 0 conf m;
               case t of None \<Rightarrow> Some (Inl (), m)
               | Some target \<Rightarrow> do {
                   (st, m) \<leftarrow> l2_pass_loop h 0 n_unc \<lparr>lp_cands = cands, lp_target = target, lp_all = [],
                     lp_built = [], lp_row = [], lp_conf = conf, lp_g = g\<rparr> m;
                   (rows, m) \<leftarrow> shift_rows h (cl_size (l2_info g)) (lp_row st) [1..<n_offsets] m;
                   (valid, m) \<leftarrow>
                     (if length (filter (\<lambda>e. e \<noteq> None) (lp_row st)) = n_unc
                      then validate_l2_evsets h (lp_g st) (lp_row st) (lp_conf st) m
                      else Some (False, m));
                   Some (Inr (valid, Some (lp_row st) # rows, lp_conf st, lp_g st), m)
                 }
             })
      })"

text \<open>
  The retries of the whole procedure. With \<open>verbose > 1\<close> the source returns \<open>NULL\<close> after the
  first failure, where it announces another try.
\<close>

fun l2_retries ::
    "'m hw \<Rightarrow> globals \<Rightarrow> EvBuildConf \<Rightarrow> nat \<Rightarrow> nat \<Rightarrow> nat \<Rightarrow> 'm
       \<Rightarrow> ((l2_complex option \<times> EvBuildConf \<times> globals) \<times> 'm) option" where
  "l2_retries h g conf n_offsets n_unc 0 m = Some ((None, conf, g), m)"
| "l2_retries h g conf n_offsets n_unc (Suc k) m = do {
     (r, m) \<leftarrow> l2_whole h g conf n_offsets n_unc m;
     case r of Inl _ \<Rightarrow> Some ((None, conf, g), m)
     | Inr (valid, complex, conf, g) \<Rightarrow>
         if valid then Some ((Some complex, conf, g), m)
         else if k > 0 \<and> verbose g > 1 then Some ((None, conf, g), m)
         else l2_retries h g conf n_offsets n_unc k m
   }"

definition build_l2_evset ::
    "'m hw \<Rightarrow> globals \<Rightarrow> EvBuildConf \<Rightarrow> nat \<Rightarrow> 'm
       \<Rightarrow> ((l2_complex option \<times> EvBuildConf \<times> globals) \<times> 'm) option" where
  "build_l2_evset h g0 conf0 num_sets m =
     (let (t0, m) = os_time_us h m
      in do {
        (n_offsets, n_unc) \<leftarrow> l2_counts g0 num_sets;
        let (conf, g) = init_def_l2_conf g0 conf0;
        ((complex, conf, g), m) \<leftarrow> l2_retries h g conf n_offsets n_unc (max_whole_ret conf + 1) m;
        let m = (if complex = None then m else snd (os_time_us h m));
        Some ((complex, conf, g), m)
      })"

text \<open>
  The report printed with \<open>debug > 0\<close>: whether the colours of the uncertain sets are free of
  repetitions. \<open>va_to_hpa\<close> asks the kernel module and is a parameter.
\<close>

fun l2_colors_repeat ::
    "(addr \<Rightarrow> u64) \<Rightarrow> CacheInfo \<Rightarrow> bool \<Rightarrow> u32 list \<Rightarrow> EvBuildConf EvSet option list \<Rightarrow> bool option" where
  "l2_colors_repeat va_to_hpa c have_colors seen [] = Some False"
| "l2_colors_repeat va_to_hpa c have_colors seen (None # es) =
     map_option (\<lambda>_. True) (l2_colors_repeat va_to_hpa c have_colors seen es)"
| "l2_colors_repeat va_to_hpa c have_colors seen (Some e # es) = do {
     a \<leftarrow> arr_get (ev_addrs e) 0;
     let color = cache_get_color (va_to_hpa a) c;
     rest \<leftarrow> l2_colors_repeat va_to_hpa c have_colors (color # seen) es;
     Some ((have_colors \<and> color \<in> set seen \<and> color \<noteq> 0xFFFFFFFF) \<or> rest)
   }"

definition l2_colors_report ::
    "'m hw \<Rightarrow> (addr \<Rightarrow> u64) \<Rightarrow> CacheInfo \<Rightarrow> EvBuildConf EvSet option list \<Rightarrow> 'm \<Rightarrow> (bool \<times> 'm) option" where
  "l2_colors_report h va_to_hpa c row m =
     (let (colors, m) = os_calloc h (length row * 4) m
      in map_option (\<lambda>r. (r, m)) (l2_colors_repeat va_to_hpa c (colors \<noteq> None) [] row))"

end
