(* ===== verification/L2_Safe.thy ===== *)
theory L2_Safe
  imports Evset_L2
begin

text \<open>
  The L2 builder on an arbitrary machine: it returns, stays inside its arrays, and what it
  hands out has passed the checks of the source. A pool is seen through the multiset of its
  candidates; every operation of the builder is an operation on that multiset.
\<close>

definition pool :: "EvCands \<Rightarrow> addr multiset" where
  "pool c = mset (take (cands_count c) (cands_addrs c))"

definition pool_ok :: "EvCands \<Rightarrow> bool" where
  "pool_ok c \<longleftrightarrow> cands_count c \<le> length (cands_addrs c)"

lemma set_pool: "set_mset (pool c) = set (take (cands_count c) (cands_addrs c))"
  by (simp add: pool_def)

lemma size_pool: "pool_ok c \<Longrightarrow> size (pool c) = cands_count c"
  by (simp add: pool_def pool_ok_def)

lemma ex_bool_triv [simp]: "\<exists>b. b" "\<exists>b. \<not> b"
  by blast+

subsection \<open>Taking an address out of a pool\<close>

lemma swap_out:
  assumes "pool_ok c" "j < cands_count c"
  shows "\<exists>addrs. arr_swap (cands_addrs c) j (cands_count c - 1) = Some addrs
     \<and> pool_ok (c\<lparr>cands_addrs := addrs, cands_count := cands_count c - 1\<rparr>)
     \<and> pool c = add_mset (cands_addrs c ! j) (pool (c\<lparr>cands_addrs := addrs, cands_count := cands_count c - 1\<rparr>))"
proof -
  let ?n = "cands_count c"
  have n: "?n - 1 < ?n" "?n \<le> length (cands_addrs c)" "Suc (?n - 1) = ?n"
    using assms by (auto simp: pool_ok_def)
  then obtain addrs where a: "arr_swap (cands_addrs c) j (?n - 1) = Some addrs"
    using assms(2) by (simp add: arr_simps)
  have last: "addrs ! (?n - 1) = cands_addrs c ! j" "length addrs = length (cands_addrs c)"
    using a n assms(2) by (auto simp: arr_swap_def split: if_splits)
  have "mset (take ?n addrs) = pool c"
    using arr_swap_take [OF a assms(2) n(1)] by (simp add: pool_def)
  moreover have "take ?n addrs = take (?n - 1) addrs @ [cands_addrs c ! j]"
    using take_Suc_conv_app_nth [of "?n - 1" addrs] n last by simp
  ultimately show ?thesis using a n last by (auto simp: pool_def pool_ok_def)
qed

lemma addr_in_list_Some:
  "cnt \<le> length xs \<Longrightarrow> addr_in_list a xs cnt i = Some (a \<in> set (drop i (take cnt xs)))"
proof (induction "cnt - i" arbitrary: i rule: less_induct)
  case less
  show ?case
  proof (cases "i < cnt")
    case False
    then show ?thesis by (subst addr_in_list.simps) simp
  next
    case True
    then have "drop i (take cnt xs) = xs ! i # drop (i + 1) (take cnt xs)"
      using less.prems by (metis Cons_nth_drop_Suc Suc_eq_plus1 length_take min.absorb2 nth_take)
    moreover have "addr_in_list a xs cnt (i + 1) = Some (a \<in> set (drop (i + 1) (take cnt xs)))"
      using True less.prems by (intro less.hyps) auto
    ultimately show ?thesis
      using True less.prems by (subst addr_in_list.simps) (auto simp: arr_simps)
  qed
qed

lemma remove_cand_Some:
  "pool_ok c \<Longrightarrow> a \<notin> set (take i (cands_addrs c)) \<Longrightarrow>
     \<exists>c'. remove_cand a c i = Some c' \<and> pool_ok c' \<and> pool c' = pool c - {#a#}"
proof (induction "cands_count c - i" arbitrary: i rule: less_induct)
  case less
  show ?case
  proof (cases "i < cands_count c")
    case False
    then have "a \<notin># pool c"
      using less.prems set_take_subset_set_take [of "cands_count c" i "cands_addrs c"]
      by (auto simp: set_pool)
    with False less.prems show ?thesis
      by (subst remove_cand.simps) (simp add: diff_single_trivial)
  next
    case True
    then have l: "i < length (cands_addrs c)" using less.prems(1) by (simp add: pool_ok_def)
    show ?thesis
    proof (cases "cands_addrs c ! i = a")
      case True': True
      from swap_out [OF less.prems(1) True] obtain addrs where
        "arr_swap (cands_addrs c) i (cands_count c - 1) = Some addrs"
        "pool_ok (c\<lparr>cands_addrs := addrs, cands_count := cands_count c - 1\<rparr>)"
        "pool c = add_mset a (pool (c\<lparr>cands_addrs := addrs, cands_count := cands_count c - 1\<rparr>))"
        using True' by blast
      with True True' l show ?thesis by (subst remove_cand.simps) (simp add: arr_simps)
    next
      case False
      have "a \<notin> set (take (i + 1) (cands_addrs c))"
        using False less.prems(2) l by (auto simp: take_Suc_conv_app_nth)
      with less.hyps [of "i + 1"] True less.prems(1)
      have "\<exists>c'. remove_cand a c (i + 1) = Some c' \<and> pool_ok c' \<and> pool c' = pool c - {#a#}" by simp
      with True False l show ?thesis by (subst remove_cand.simps) (simp add: arr_simps)
    qed
  qed
qed

lemma remove_cands_Some:
  "pool_ok c \<Longrightarrow> \<exists>c'. remove_cands xs c = Some c' \<and> pool_ok c' \<and> pool c' = pool c - mset xs"
proof (induction xs arbitrary: c)
  case (Cons a xs)
  obtain c1 where "remove_cand a c 0 = Some c1" "pool_ok c1" "pool c1 = pool c - {#a#}"
    using remove_cand_Some [OF Cons.prems, of a 0] by auto
  with Cons.IH [of c1] show ?case by auto
qed simp

subsection \<open>What the builder needs of the machine\<close>

text \<open>
  The default L2 configuration, already written; an invariant of the machine that every
  operation keeps; and what mmap documents, that memory is handed out in whole pages.
\<close>

locale l2_machine =
  fixes h :: "'m hw" and g :: globals and conf :: EvBuildConf and inv :: "'m \<Rightarrow> bool"
  assumes conf_fix: "init_def_l2_conf g conf = (conf, g)"
    and detailed_returns: "inv m \<Longrightarrow> cnt \<le> length cs \<Longrightarrow>
          \<exists>r m'. test_eviction_detailed h g t cs cnt conf m = Some (r, m') \<and> inv m'"
    and keeps_time: "inv m \<Longrightarrow> inv (snd (os_time_us h m))"
    and keeps_calloc: "inv m \<Longrightarrow> inv (snd (os_calloc h n m))"
    and keeps_write: "inv m \<Longrightarrow> inv (hw_write h a v m)"
    and keeps_mmap: "inv m \<Longrightarrow> inv (snd (os_mmap h n m))"
    and keeps_thread: "inv m \<Longrightarrow> inv (snd (os_thread h m))"
    and mmap_aligned: "os_mmap h n m = (Some p, m') \<Longrightarrow> ALIGNED p PAGE_SHIFT"
    and sib_bounds: "0 \<le> unknown_sib (l2_info g)" "unknown_sib (l2_info g) < 30"

sublocale l2_machine \<subseteq> safe_tester h "conf_test h g conf" inv
proof
  fix m cnt cs t assume "inv m" "cnt \<le> length (cs :: addr list)"
  from detailed_returns [OF this, of t] obtain r m' where
    "test_eviction_detailed h g t cs cnt conf m = Some (r, m')" "inv m'" by blast
  then show "\<exists>r m'. conf_test h g conf t cs cnt m = Some (r, m') \<and> inv m'"
    by (simp add: conf_test_def test_eviction_def)
qed (rule keeps_time)

context l2_machine
begin

lemma conf_facts:
  "filter_ev conf = None" "cap_scaling conf = 2" "n_retries conf = 10" "max_whole_ret conf = 10"
  "slack conf = 0" "max_backtrack conf = 20" "extra_cong conf = 0"
proof -
  have "conf = fst (init_def_l2_conf g conf)" by (simp add: conf_fix)
  then show "filter_ev conf = None" "cap_scaling conf = 2" "n_retries conf = 10" "max_whole_ret conf = 10"
    "slack conf = 0" "max_backtrack conf = 20" "extra_cong conf = 0"
    by (metis l2_conf_fields)+
qed

lemma verify_returns:
  assumes "inv m" "ev_size e \<le> length (ev_addrs e)" "build_conf e = conf"
  shows "\<exists>r m'. verify_evset h g e t m = Some (r, m') \<and> inv m' \<and> (t = 0 \<longrightarrow> r = FAIL)"
  using test_returns [OF assms(1,2), of t] assms by (auto simp: verify_evset_def conf_test_def)

subsection \<open>Targets and attempts\<close>

lemma pick_safe:
  "inv m \<Longrightarrow> pool_ok c \<Longrightarrow> n_prev \<le> length prev \<Longrightarrow>
     \<exists>t c' m'. pick_l2_loop h g c cur prev n_prev conf j m = Some ((t, c'), m') \<and> inv m' \<and> pool_ok c'
       \<and> (case t of None \<Rightarrow> c' = c
          | Some t \<Rightarrow> pool c = add_mset t (pool c') \<and> t \<noteq> cur \<and> t \<notin> set (take n_prev prev))"
proof (induction "cands_count c - j" arbitrary: j m rule: less_induct)
  case less
  show ?case
  proof (cases "j < cands_count c")
    case False
    with less.prems show ?thesis by (subst pick_l2_loop.simps) simp
  next
    case True
    let ?a = "cands_addrs c ! j"
    let ?Q = "\<lambda>r. \<exists>t c' m'. r = Some ((t, c'), m') \<and> inv m' \<and> pool_ok c'
       \<and> (case t of None \<Rightarrow> c' = c
          | Some t \<Rightarrow> pool c = add_mset t (pool c') \<and> t \<noteq> cur \<and> t \<notin> set (take n_prev prev))"
    have a: "arr_get (cands_addrs c) j = Some ?a" using True less.prems(2) by (simp add: arr_simps pool_ok_def)
    have more: "?Q (pick_l2_loop h g c cur prev n_prev conf (j + 1) m1)" if "inv m1" for m1
      using True less.prems that by (intro less.hyps) linarith+
    obtain clear m1 where cl: "(if n_prev > 0
         then map_option (\<lambda>(r, m). (r = EV_NEG, m)) (test_eviction_detailed h g ?a prev n_prev conf m)
         else Some (True, m)) = Some (clear, m1)" "inv m1"
    proof (cases "n_prev > 0")
      case True
      obtain r m2 where "test_eviction_detailed h g ?a prev n_prev conf m = Some (r, m2)" "inv m2"
        using detailed_returns [OF less.prems(1,3), of ?a] by blast
      with True that [of "r = EV_NEG" m2] show thesis by simp
    qed (use that [of True m] less.prems(1) in simp)
    obtain addrs where sw: "arr_swap (cands_addrs c) j (cands_count c - 1) = Some addrs"
        "pool_ok (c\<lparr>cands_addrs := addrs, cands_count := cands_count c - 1\<rparr>)"
        "pool c = add_mset ?a (pool (c\<lparr>cands_addrs := addrs, cands_count := cands_count c - 1\<rparr>))"
      using swap_out [OF less.prems(2) True] by blast
    have step: "pick_l2_loop h g c cur prev n_prev conf j m =
      (if ?a = cur \<or> ?a \<in> set (take n_prev prev) then pick_l2_loop h g c cur prev n_prev conf (j + 1) m
       else if \<not> clear then pick_l2_loop h g c cur prev n_prev conf (j + 1) m1
       else Some ((Some ?a, c\<lparr>cands_addrs := addrs, cands_count := cands_count c - 1\<rparr>), m1))"
      using True a cl(1) sw(1) addr_in_list_Some [OF less.prems(3), of ?a 0]
      by (subst pick_l2_loop.simps) (auto simp del: if_split split: if_split)
    show ?thesis
      unfolding step using more [OF less.prems(1)] more [OF cl(2)] sw(2,3) cl(2) by auto
  qed
qed

text \<open>A set in construction, and a set that has passed.\<close>

definition ev_ok :: "EvBuildConf EvSet \<Rightarrow> bool" where
  "ev_ok e \<longleftrightarrow> build_conf e = conf \<and> target_cache e = l2_info g \<and> ev_cap e \<le> length (ev_addrs e)
     \<and> ev_size e \<le> ev_cap e \<and> pool_ok (ev_cands e)"

definition ev_passed :: "EvBuildConf EvSet \<Rightarrow> 'm \<Rightarrow> bool" where
  "ev_passed e m \<longleftrightarrow> ev_size e = unat (n_ways (l2_info g)) \<and> target_addr e \<noteq> 0
     \<and> mset (take (ev_size e) (ev_addrs e)) \<subseteq># pool (ev_cands e)
     \<and> (\<exists>m0. inv m0 \<and> verify_evset h g e (target_addr e) m0 = Some (OK, m))"

lemma zhao_pool:
  assumes "inv m" "ev_ok e"
  shows "\<exists>err e' m'. build_evset_zhao h (conf_test h g) t e m = Some ((err, e'), m') \<and> inv m' \<and> ev_ok e'
     \<and> target_addr e' = target_addr e \<and> pool (ev_cands e') = pool (ev_cands e) \<and> ev_cap e' = ev_cap e
     \<and> (\<not> err \<longrightarrow> mset (take (ev_size e') (ev_addrs e')) \<subseteq># pool (ev_cands e'))"
proof (cases "cands_count (ev_cands e) \<le> 1")
  case True
  with assms show ?thesis by (intro exI [of _ True]) (simp add: build_evset_zhao_def)
next
  case False
  have ok: "cands_count (ev_cands e) \<le> length (cands_addrs (ev_cands e))" "ev_cap e \<le> length (ev_addrs e)"
      "0 \<le> unknown_sib (target_cache e)" "unknown_sib (target_cache e) < 30" "1 < cands_count (ev_cands e)"
      "conf_test h g (build_conf e) = conf_test h g conf"
    using assms(2) sib_bounds False by (auto simp: ev_ok_def pool_ok_def)
  obtain k addrs cands m' where
    b: "build_evset_zhao h (conf_test h g) t e m =
        Some ((False, e\<lparr>ev_size := k, ev_addrs := addrs, ev_cands := (ev_cands e)\<lparr>cands_addrs := cands\<rparr>\<rparr>), m')"
      "inv m'" "k \<le> ev_cap e" "k \<le> cands_count (ev_cands e)" "length addrs = length (ev_addrs e)"
      "take k addrs = take k cands" "perm_upto (cands_count (ev_cands e)) (cands_addrs (ev_cands e)) cands"
    using build_evset_zhao_safe [where T = "conf_test h g" and e = e, OF assms(1) ok(6) ok(1-5), of t] by blast
  have p: "pool ((ev_cands e)\<lparr>cands_addrs := cands\<rparr>) = pool (ev_cands e)" "length cands = length (cands_addrs (ev_cands e))"
    using b(7) by (simp_all add: pool_def perm_upto_def)
  have "mset (take k addrs) \<subseteq># mset (take (cands_count (ev_cands e)) cands)"
    using b(4,6) by (metis append_take_drop_id mset_append mset_subset_eq_add_left min_def take_take)
  then have "mset (take k addrs) \<subseteq># pool ((ev_cands e)\<lparr>cands_addrs := cands\<rparr>)" by (simp add: pool_def)
  with b p assms(2) show ?thesis by (simp add: ev_ok_def pool_ok_def ex_bool_eq)
qed

lemma attempts_safe:
  "inv m \<Longrightarrow> ev_ok e \<Longrightarrow> n_all \<le> length all_addrs \<Longrightarrow>
     \<exists>b e' m'. l2_attempts h g conf all_addrs n_all k t e m = Some ((b, e'), m') \<and> inv m' \<and> ev_ok e'
       \<and> (b \<longrightarrow> ev_passed e' m')"
proof (induction k arbitrary: t e m)
  case (Suc k)
  have "ev_ok (e\<lparr>ev_size := 0, target_addr := t\<rparr>)" using Suc.prems(2) by (simp add: ev_ok_def)
  from zhao_pool [OF Suc.prems(1) this, of t] obtain err e1 m1 where
    z: "build_evset_zhao h (conf_test h g) t (e\<lparr>ev_size := 0, target_addr := t\<rparr>) m = Some ((err, e1), m1)"
      "inv m1" "ev_ok e1" "target_addr e1 = t"
      "\<not> err \<longrightarrow> mset (take (ev_size e1) (ev_addrs e1)) \<subseteq># pool (ev_cands e1)"
    by auto
  have "ev_size e1 \<le> length (ev_addrs e1)" "build_conf e1 = conf" using z(3) by (auto simp: ev_ok_def)
  from verify_returns [OF z(2) this, of t] obtain r m2 where
    v: "verify_evset h g e1 t m1 = Some (r, m2)" "inv m2" "t = 0 \<longrightarrow> r = FAIL" by blast
  let ?s = "\<not> (err \<or> ev_size e1 \<noteq> unat (n_ways (l2_info g)))"
  let ?m3 = "if ?s then m2 else m1"
  have m3: "inv ?m3" using v(2) z(2) by simp
  have "pool_ok (ev_cands e1)" using z(3) by (simp add: ev_ok_def)
  from pick_safe [OF m3 this Suc.prems(3), of t 0] obtain nt c' m4 where
    p: "pick_l2_target h g (ev_cands e1) t all_addrs n_all conf ?m3 = Some ((nt, c'), m4)" "inv m4" "pool_ok c'"
    unfolding pick_l2_target_def by blast
  have ok': "ev_ok (e1\<lparr>ev_cands := c'\<rparr>)" using z(3) p(3) by (simp add: ev_ok_def)
  have step: "l2_attempts h g conf all_addrs n_all (Suc k) t e m =
    (if ?s \<and> r \<noteq> FAIL then Some ((True, e1), m2)
     else case nt of None \<Rightarrow> Some ((False, e1\<lparr>ev_cands := c'\<rparr>), m4)
          | Some t' \<Rightarrow> l2_attempts h g conf all_addrs n_all k t' (e1\<lparr>ev_cands := c'\<rparr>) m4)"
    using z(1) v(1) p(1) by auto
  have r: "r \<noteq> FAIL \<longleftrightarrow> r = OK" by (cases r) auto
  show ?case
  proof (cases "?s \<and> r \<noteq> FAIL")
    case True
    then have "ev_passed e1 m2" using z v r by (auto simp: ev_passed_def)
    with True z(3) v(2) show ?thesis unfolding step by (intro exI [of _ True]) auto
  next
    case False
    show ?thesis
    proof (cases nt)
      case None
      with False p(2) ok' show ?thesis unfolding step by auto
    next
      case (Some t')
      from Suc.IH [OF p(2) ok' Suc.prems(3), of t'] False Some show ?thesis unfolding step by auto
    qed
  qed
qed (simp add: ex_bool_eq)

subsection \<open>Pools and single sets\<close>

lemma memset_keeps: "inv m \<Longrightarrow> inv (memset h p v n m)"
  unfolding memset_def mwrite_def by (rule fold_invariant [where P = inv and Q = "\<lambda>_. True"]) (auto intro: keeps_write)

lemma memset_threads_keeps: "inv m \<Longrightarrow> inv (memset_threads h p v sz chunks m)"
proof (induction chunks arbitrary: m)
  case (Cons c chunks)
  obtain lo hi where c: "c = (lo, hi)" by fastforce
  obtain b m1 where t: "os_thread h m = (b, m1)" by fastforce
  then have "inv m1" using keeps_thread [OF Cons.prems] by simp
  with Cons.IH show ?case by (simp add: c t memset_keeps)
qed simp

lemma mmap_para_keeps:
  assumes "inv m" "mmap_shared_init_para h g' sz v m = (p, m')"
  shows "inv m' \<and> (\<forall>a. p = Some a \<longrightarrow> ALIGNED a PAGE_SHIFT)"
proof -
  obtain q m1 where q: "os_mmap h sz m = (q, m1)" by fastforce
  then have "inv m1" using keeps_mmap [OF assms(1), of sz] by simp
  with q mmap_aligned [of sz m _ m1] assms(2) show ?thesis
    by (cases q) (auto simp: mmap_shared_init_para_def mmap_shared_def Let_def memset_keeps memset_threads_keeps
      split: if_splits)
qed

lemma touch_keeps: "inv m \<Longrightarrow> inv (touch_cands h xs m)"
  unfolding touch_cands_def mwrite_def
  by (rule fold_invariant [where P = inv and Q = "\<lambda>_. True"]) (auto intro: keeps_write split: prod.splits)

lemma cands_new_safe:
  assumes "inv m"
  shows "\<exists>c m'. evcands_new h g ci conf None m = Some (c, m') \<and> inv m'"
proof -
  obtain p m1 where p: "os_calloc h 48 m = (p, m1)" by fastforce
  then have i1: "inv m1" using keeps_calloc [OF assms, of 48] by simp
  obtain q m2 where q: "os_calloc h 24 m1 = (q, m2)" by fastforce
  then have i2: "inv m2" using keeps_calloc [OF i1, of 24] by simp
  let ?sz = "unat (cache_uncertainty ci * ucast (n_ways ci) * of_nat (cand_scale conf) * PAGE_SIZE)"
  obtain a m3 where a: "mmap_shared_init_para h g ?sz 0 m2 = (a, m3)" by fastforce
  from mmap_para_keeps [OF i2 a] i1 i2 p q a show ?thesis
    by (cases p; cases q; cases a) (auto simp: evcands_new_def evbuffer_new_def Let_def)
qed

lemma own_cands_safe:
  assumes "inv m" "\<And>c. c0 = Some c \<Longrightarrow> pool_ok c"
  shows "\<exists>c m'. l2_own_cands h g conf c0 m = Some (c, m') \<and> inv m' \<and> (\<forall>c'. c = Some c' \<longrightarrow> pool_ok c')
     \<and> (c0 \<noteq> None \<longrightarrow> c = c0)"
proof (cases c0)
  case None
  obtain c m1 where c: "evcands_new h g (l2_info g) conf None m = Some (c, m1)" "inv m1"
    using cands_new_safe [OF assms(1)] by blast
  show ?thesis
  proof (cases c)
    case None': None
    with None c show ?thesis by (simp add: l2_own_cands_def)
  next
    case (Some c1)
    let ?n = "unat (n_pages (evb c1))"
    obtain p m2 where p: "os_calloc h (?n * 8) m1 = (p, m2)" by fastforce
    then have i2: "inv m2" using keeps_calloc [OF c(2), of "?n * 8"] by simp
    have "evcands_populate h 0 c1 conf conf m1 = Some (case p of None \<Rightarrow> ((True, c1), m2)
        | Some _ \<Rightarrow> ((False, c1\<lparr>cands_addrs := cand_addrs (evb c1) 0, cands_count := ?n\<rparr>),
                     touch_cands h (cand_addrs (evb c1) 0) m2))"
      by (simp add: evcands_populate_def p conf_facts(1) Let_def split: option.splits)
    with None Some c(1) i2 show ?thesis
      by (cases p) (auto simp: l2_own_cands_def pool_ok_def cand_addrs_def touch_keeps)
  qed
qed (use assms in \<open>simp add: l2_own_cands_def\<close>)

lemma l2_evset_init_ok: "pool_ok c \<Longrightarrow> ev_ok (l2_evset_init g conf c t)"
  by (simp add: l2_evset_init_def ev_ok_def Let_def)

lemma single_safe:
  assumes "inv m" "\<And>c. c0 = Some c \<Longrightarrow> pool_ok c" "n_all \<le> length all_addrs"
  shows "\<exists>e c m'. build_single_l2_evset h g conf c0 t0 all_addrs n_all m = Some ((e, c, conf, g), m')
     \<and> inv m' \<and> (\<forall>c'. c = Some c' \<longrightarrow> pool_ok c')
     \<and> (\<forall>e'. e = Some e' \<longrightarrow> ev_ok e' \<and> ev_passed e' m' \<and> c = Some (ev_cands e'))"
proof -
  obtain c m1 where c: "l2_own_cands h g conf c0 m = Some (c, m1)" "inv m1" "\<forall>c'. c = Some c' \<longrightarrow> pool_ok c'"
    using own_cands_safe [OF assms(1,2)] by blast
  show ?thesis
  proof (cases c)
    case None
    with c show ?thesis by (simp add: build_single_l2_evset_def conf_fix)
  next
    case (Some c1)
    have "\<exists>t c2 m2. (if t0 \<noteq> 0 then Some ((Some t0, c1), m1) else pick_l2_target h g c1 0 all_addrs n_all conf m1)
        = Some ((t, c2), m2) \<and> inv m2 \<and> pool_ok c2"
      using pick_safe [OF c(2) _ assms(3), of c1 0 0] c Some by (auto simp: pick_l2_target_def)
    then obtain t c2 m2 where
      t: "(if t0 \<noteq> 0 then Some ((Some t0, c1), m1) else pick_l2_target h g c1 0 all_addrs n_all conf m1) = Some ((t, c2), m2)"
        "inv m2" "pool_ok c2" by blast
    obtain p m3 where p: "os_calloc h 56 m2 = (p, m3)" by fastforce
    then have i3: "inv m3" using keeps_calloc [OF t(2), of 56] by simp
    let ?n = "wrap32 (cap_scaling conf * unat (n_ways (l2_info g))) * 8"
    obtain q m4 where q: "os_calloc h ?n m3 = (q, m4)" by fastforce
    then have i4: "inv m4" using keeps_calloc [OF i3, of ?n] by simp
    have "\<exists>b e' m'. l2_attempts h g conf all_addrs n_all (n_retries conf) (the t) (l2_evset_init g conf c2 (the t)) m4
        = Some ((b, e'), m') \<and> inv m' \<and> ev_ok e' \<and> (b \<longrightarrow> ev_passed e' m')"
      by (rule attempts_safe [OF i4 l2_evset_init_ok [OF t(3)] assms(3)])
    with Some c(1) t p q i3 i4 show ?thesis
      by (cases t; cases p; cases q) (auto simp: build_single_l2_evset_def conf_fix ev_ok_def simp del: l2_attempts.simps)
  qed
qed

subsection \<open>A pass over the uncertain sets\<close>

lemma verify3_safe:
  "inv m \<Longrightarrow> ev_ok e \<Longrightarrow> \<exists>b m'. l2_verify3 h g k e m = Some (b, m') \<and> inv m'"
proof (induction k arbitrary: m)
  case (Suc k)
  have "ev_size e \<le> length (ev_addrs e)" "build_conf e = conf" using Suc.prems(2) by (auto simp: ev_ok_def)
  from verify_returns [OF Suc.prems(1) this, of "target_addr e"] obtain r m1 where
    "verify_evset h g e (target_addr e) m = Some (r, m1)" "inv m1" by blast
  with Suc.IH [of m1] Suc.prems(2) show ?case by auto
qed simp

definition row_ok :: "EvBuildConf EvSet option list \<Rightarrow> bool" where
  "row_ok row \<longleftrightarrow> (\<forall>e. Some e \<in> set row \<longrightarrow> ev_ok e \<and> ev_size e = unat (n_ways (l2_info g)) \<and> target_addr e \<noteq> 0)"

lemma row_ok_simps [simp]:
  "row_ok []"
  "row_ok (None # row) \<longleftrightarrow> row_ok row"
  "row_ok (Some e # row) \<longleftrightarrow> ev_ok e \<and> ev_size e = unat (n_ways (l2_info g)) \<and> target_addr e \<noteq> 0 \<and> row_ok row"
  by (simp only: row_ok_def list.set insert_iff empty_iff simp_thms option.simps; blast)+

lemma row_ok_snoc [simp]: "row_ok (row @ [x]) \<longleftrightarrow> row_ok row \<and> row_ok [x]"
  by (simp only: row_ok_def list.set insert_iff empty_iff simp_thms set_append Un_iff) blast

definition pass_ok :: "l2_pass \<Rightarrow> bool" where
  "pass_ok st \<longleftrightarrow> lp_conf st = conf \<and> lp_g st = g \<and> pool_ok (lp_cands st) \<and> row_ok (lp_row st)"

lemma track_safe:
  assumes "inv m" "pass_ok st" "ev_ok e"
  shows "\<exists>st' m'. l2_track h e st m = Some (st', m') \<and> inv m' \<and> pass_ok st' \<and> lp_row st' = lp_row st"
proof -
  obtain p m1 where p: "os_calloc h ((length (lp_all st) + ev_size e) * 8) m = (p, m1)" by fastforce
  then have i1: "inv m1" using keeps_calloc [OF assms(1), of "(length (lp_all st) + ev_size e) * 8"] by simp
  obtain q m2 where q: "os_calloc h ((length (lp_built st) + ev_size e) * 8) m1 = (q, m2)" by fastforce
  then have i2: "inv m2" using keeps_calloc [OF i1, of "(length (lp_built st) + ev_size e) * 8"] by simp
  have "ev_size e \<le> length (ev_addrs e)" using assms(3) by (auto simp: ev_ok_def)
  moreover obtain c where "remove_cands (take (ev_size e) (ev_addrs e)) (lp_cands st) = Some c" "pool_ok c"
    using remove_cands_Some assms(2) by (force simp: pass_ok_def)
  ultimately show ?thesis
    using p q i1 i2 assms(2) by (cases p; cases q) (auto simp: l2_track_def arr_simps pass_ok_def)
qed

lemma pass_step_safe:
  assumes "inv m" "pass_ok st"
  shows "\<exists>st' m'. l2_pass_step h i st m = Some (st', m') \<and> inv m' \<and> pass_ok st'
     \<and> length (lp_row st') = length (lp_row st) + 1"
proof -
  have p: "lp_conf st = conf" "lp_g st = g" "pool_ok (lp_cands st)" using assms(2) by (auto simp: pass_ok_def)
  have "\<exists>f st1 m1. (if i = 0 then Some (True, st, m)
        else do {
          ((t, cands), m) \<leftarrow> pick_l2_target h (lp_g st) (lp_cands st) (lp_target st) (lp_built st)
                               (length (lp_built st)) (lp_conf st) m;
          Some (case t of None \<Rightarrow> (False, st\<lparr>lp_cands := cands\<rparr>, m)
                | Some t \<Rightarrow> (True, st\<lparr>lp_cands := cands, lp_target := t\<rparr>, m))
        }) = Some (f, st1, m1) \<and> inv m1 \<and> pass_ok st1 \<and> lp_row st1 = lp_row st"
    using pick_safe [OF assms(1) p(3), of "length (lp_built st)" "lp_built st" "lp_target st" 0] assms p
    by (auto simp: pick_l2_target_def pass_ok_def split: option.splits)
  then obtain f st1 m1 where f: "(if i = 0 then Some (True, st, m)
        else do {
          ((t, cands), m) \<leftarrow> pick_l2_target h (lp_g st) (lp_cands st) (lp_target st) (lp_built st)
                               (length (lp_built st)) (lp_conf st) m;
          Some (case t of None \<Rightarrow> (False, st\<lparr>lp_cands := cands\<rparr>, m)
                | Some t \<Rightarrow> (True, st\<lparr>lp_cands := cands, lp_target := t\<rparr>, m))
        }) = Some (f, st1, m1)" "inv m1" "pass_ok st1" "lp_row st1 = lp_row st" by blast
  have p1: "lp_conf st1 = conf" "lp_g st1 = g" "pool_ok (lp_cands st1)" "row_ok (lp_row st1)"
    using f(3) by (auto simp: pass_ok_def)
  obtain e c m2 where b: "build_single_l2_evset h g conf (Some (lp_cands st1)) (lp_target st1) (lp_all st1)
        (length (lp_all st1)) m1 = Some ((e, c, conf, g), m2)" "inv m2" "\<forall>c'. c = Some c' \<longrightarrow> pool_ok c'"
      "\<forall>e'. e = Some e' \<longrightarrow> ev_ok e' \<and> ev_passed e' m2"
    using single_safe [OF f(2), of "Some (lp_cands st1)" "length (lp_all st1)" "lp_all st1" "lp_target st1"] p1 by auto
  let ?st2 = "st1\<lparr>lp_cands := (case c of None \<Rightarrow> lp_cands st1 | Some c \<Rightarrow> c), lp_conf := conf, lp_g := g\<rparr>"
  have p2: "pass_ok ?st2" using p1 b(3) by (auto simp: pass_ok_def split: option.splits)
  have none: "pass_ok (s\<lparr>lp_row := lp_row s @ [None]\<rparr>)" if "pass_ok s" for s
    using that by (simp add: pass_ok_def)
  have eq: "l2_pass_step h i st m = (if \<not> f then Some (st1\<lparr>lp_row := lp_row st1 @ [None]\<rparr>, m1)
     else case e of None \<Rightarrow> Some (?st2\<lparr>lp_row := lp_row ?st2 @ [None]\<rparr>, m2)
       | Some e \<Rightarrow> do {
           (ok, m) \<leftarrow> l2_verify3 h g 3 e m2;
           if \<not> ok then Some (?st2\<lparr>lp_row := lp_row ?st2 @ [None]\<rparr>, m)
           else do { (st, m) \<leftarrow> l2_track h e ?st2 m; Some (st\<lparr>lp_row := lp_row st @ [Some e]\<rparr>, m) }
         })"
    unfolding l2_pass_step_def f(1) using b(1) p1(1,2) by (auto simp: Let_def split: option.splits)
  show ?thesis
  proof (cases "f \<and> e \<noteq> None")
    case False
    with none [OF f(3)] none [OF p2] f(2,4) b(2) show ?thesis unfolding eq by auto
  next
    case True
    then obtain e' where e': "e = Some e'" "ev_ok e'" "ev_passed e' m2" using b(4) by auto
    obtain ok m3 where v: "l2_verify3 h g 3 e' m2 = Some (ok, m3)" "inv m3" using verify3_safe [OF b(2) e'(2)] by blast
    obtain st3 m4 where t: "l2_track h e' ?st2 m3 = Some (st3, m4)" "inv m4" "pass_ok st3" "lp_row st3 = lp_row ?st2"
      using track_safe [OF v(2) p2 e'(2)] by blast
    have "pass_ok (st3\<lparr>lp_row := lp_row st3 @ [Some e']\<rparr>)"
      using t(3) e'(2,3) by (simp add: pass_ok_def ev_passed_def)
    with True e'(1) v t none [OF p2] f(4) show ?thesis unfolding eq by auto
  qed
qed

lemma pass_loop_safe:
  "inv m \<Longrightarrow> pass_ok st \<Longrightarrow> \<exists>st' m'. l2_pass_loop h i k st m = Some (st', m') \<and> inv m' \<and> pass_ok st'
     \<and> length (lp_row st') = length (lp_row st) + k"
proof (induction k arbitrary: i st m)
  case (Suc k)
  obtain st1 m1 where s: "l2_pass_step h i st m = Some (st1, m1)" "inv m1" "pass_ok st1"
      "length (lp_row st1) = length (lp_row st) + 1"
    using pass_step_safe [OF Suc.prems] by blast
  from Suc.IH [OF s(2,3), of "i + 1"] s show ?case by auto
qed simp

subsection \<open>Shifting, validation and the retries\<close>

lemma shift_safe:
  assumes "inv m" "e = None \<or> (\<exists>e'. e = Some e' \<and> ev_ok e')"
  shows "\<exists>e' m'. evset_shift h e off m = Some (e', m') \<and> inv m'"
proof (cases e)
  case (Some s)
  then have s: "ev_size s \<le> length (ev_addrs s)" "ev_size s \<le> ev_cap s" using assms(2) by (auto simp: ev_ok_def)
  obtain p m1 where p: "os_calloc h 56 m = (p, m1)" by fastforce
  then have i1: "inv m1" using keeps_calloc [OF assms(1), of 56] by simp
  obtain q m2 where q: "os_calloc h (ev_cap s * 8) m1 = (q, m2)" by fastforce
  then have i2: "inv m2" using keeps_calloc [OF i1, of "ev_cap s * 8"] by simp
  from Some s p q i1 i2 show ?thesis by (cases p; cases q) (simp_all add: evset_shift_def arr_simps)
qed (use assms(1) in \<open>simp add: evset_shift_def\<close>)

lemma shift_row_safe:
  "inv m \<Longrightarrow> row_ok row \<Longrightarrow> \<exists>row' m'. shift_row h off row m = Some (row', m') \<and> inv m' \<and> length row' = length row"
proof (induction row arbitrary: m)
  case (Cons e row)
  have ok: "e = None \<or> (\<exists>e'. e = Some e' \<and> ev_ok e')"
    using Cons.prems(2) by (cases e) auto
  have r: "row_ok row" using Cons.prems(2) by (cases e) auto
  obtain e' m1 where e: "evset_shift h e off m = Some (e', m1)" "inv m1"
    using shift_safe [OF Cons.prems(1) ok] by blast
  from Cons.IH [OF e(2) r] e(1) show ?case by auto
qed simp

lemma shift_rows_safe:
  "inv m \<Longrightarrow> row_ok row \<Longrightarrow> \<exists>rows m'. shift_rows h cl row ns m = Some (rows, m') \<and> inv m' \<and> length rows = length ns"
proof (induction ns arbitrary: m)
  case (Cons n ns)
  obtain p m1 where p: "os_calloc h (length row * 8) m = (p, m1)" by fastforce
  then have i1: "inv m1" using keeps_calloc [OF Cons.prems(1), of "length row * 8"] by simp
  obtain row' m2 where r: "shift_row h (of_nat n * cl) row m1 = Some (row', m2)" "inv m2"
    using shift_row_safe [OF i1 Cons.prems(2)] by blast
  from Cons.IH [OF i1 Cons.prems(2)] Cons.IH [OF r(2) Cons.prems(2)] p r(1) show ?case by (cases p) auto
qed simp

lemma validate_later_safe:
  "inv m \<Longrightarrow> ev_ok e \<Longrightarrow> None \<notin> set row \<Longrightarrow> \<exists>b m'. validate_later h g conf e row m = Some (b, m') \<and> inv m'"
proof (induction row arbitrary: m)
  case (Cons x row)
  then obtain e' where x: "x = Some e'" by (cases x) auto
  have "ev_size e \<le> length (ev_addrs e)" using Cons.prems(2) by (auto simp: ev_ok_def)
  from detailed_returns [OF Cons.prems(1) this, of "target_addr e'"] obtain r m1 where
    "test_eviction_detailed h g (target_addr e') (ev_addrs e) (ev_size e) conf m = Some (r, m1)" "inv m1" by blast
  with Cons.IH [of m1] Cons.prems x show ?case by auto
qed simp

lemma validate_pairs_safe:
  "inv m \<Longrightarrow> row_ok row \<Longrightarrow> None \<notin> set row \<Longrightarrow> \<exists>b m'. validate_pairs h g conf row m = Some (b, m') \<and> inv m'"
proof (induction row arbitrary: m)
  case (Cons x row)
  then obtain e where x: "x = Some e" by (cases x) auto
  have o: "ev_ok e" "row_ok row" using Cons.prems(2) by (simp_all add: x)
  obtain b m1 where "validate_later h g conf e row m = Some (b, m1)" "inv m1"
    using validate_later_safe [OF Cons.prems(1) o(1), of row] Cons.prems(3) by auto
  with Cons.IH [of m1] Cons.prems(3) o(2) x show ?case by auto
qed simp

lemma validate_self_safe:
  "inv m \<Longrightarrow> row_ok row \<Longrightarrow> \<exists>b m'. validate_self h g row m = Some (b, m') \<and> inv m'"
proof (induction row arbitrary: m)
  case (Cons x row)
  show ?case
  proof (cases x)
    case (Some e)
    have o: "ev_size e \<le> length (ev_addrs e)" "build_conf e = conf" "row_ok row" "target_addr e \<noteq> 0"
      using Cons.prems(2) Some by (auto simp: ev_ok_def)
    from verify_returns [OF Cons.prems(1) o(1,2), of "target_addr e"] obtain r m1 where
      "verify_evset h g e (target_addr e) m = Some (r, m1)" "inv m1" by blast
    with Cons.IH [of m1] o Some Cons.prems(1) show ?thesis by auto
  qed (use Cons.prems in simp)
qed simp

lemma filter_full: "length (filter (\<lambda>e. e \<noteq> None) xs) = length xs \<Longrightarrow> None \<notin> set xs"
  using length_filter_less [of None xs "\<lambda>e. e \<noteq> None"] by auto

lemma validate_safe:
  assumes "inv m" "row_ok row" "None \<notin> set row"
  shows "\<exists>b m'. validate_l2_evsets h g row conf m = Some (b, m') \<and> inv m'"
proof -
  obtain b m1 where s: "validate_self h g row m = Some (b, m1)" "inv m1"
    using validate_self_safe [OF assms(1,2)] by blast
  from validate_pairs_safe [OF s(2) assms(2,3)] s assms(1) show ?thesis by (auto simp: validate_l2_evsets_def)
qed

text \<open>A complex that was accepted: the first row is full, and its validation succeeded.\<close>

definition complex_ok :: "nat \<Rightarrow> nat \<Rightarrow> l2_complex \<Rightarrow> bool" where
  "complex_ok n_offsets n_unc complex \<longleftrightarrow> (\<exists>row rows. complex = Some row # rows \<and> length rows = n_offsets - 1
     \<and> length row = n_unc \<and> None \<notin> set row \<and> row_ok row
     \<and> (\<exists>m1 m2. validate_l2_evsets h g row conf m1 = Some (True, m2)))"

lemma whole_safe:
  assumes "inv m"
  shows "\<exists>r m'. l2_whole h g conf n_offsets n_unc m = Some (r, m') \<and> inv m'
     \<and> (\<forall>v x c' g'. r = Inr (v, x, c', g') \<longrightarrow> c' = conf \<and> g' = g \<and> (v \<longrightarrow> complex_ok n_offsets n_unc x))"
proof -
  obtain p m1 where p: "os_calloc h (n_offsets * 8) m = (p, m1)" by fastforce
  then have i1: "inv m1" using keeps_calloc [OF assms, of "n_offsets * 8"] by simp
  obtain c m2 where c: "l2_own_cands h g conf None m1 = Some (c, m2)" "inv m2" "\<forall>c'. c = Some c' \<longrightarrow> pool_ok c'"
    using own_cands_safe [OF i1, of None] by auto
  obtain q m3 where q: "os_calloc h (n_unc * 8) m2 = (q, m3)" by fastforce
  then have i3: "inv m3" using keeps_calloc [OF c(2), of "n_unc * 8"] by simp
  show ?thesis
  proof (cases "p = None \<or> c = None \<or> q = None")
    case True
    let ?m' = "if p = None then m1 else if c = None then m2 else m3"
    have "l2_whole h g conf n_offsets n_unc m = Some (Inl (), ?m')"
      using True p c(1) q by (cases p; cases c; cases q) (simp_all add: l2_whole_def)
    moreover have "inv ?m'" using i1 c(2) i3 by simp
    ultimately show ?thesis by simp
  next
    case False
    then obtain c1 where c1: "p \<noteq> None" "c = Some c1" "q \<noteq> None" "pool_ok c1" using c(3) by auto
    obtain t c2 m4 where t: "pick_l2_target h g c1 0 [] 0 conf m3 = Some ((t, c2), m4)" "inv m4" "pool_ok c2"
      using pick_safe [OF i3 c1(4), of 0 "[]" 0 0, OF le0] unfolding pick_l2_target_def by blast
    let ?st = "\<lparr>lp_cands = c2, lp_target = the t, lp_all = [], lp_built = [], lp_row = [], lp_conf = conf, lp_g = g\<rparr>"
    have "pass_ok ?st" using t(3) by (simp add: pass_ok_def)
    from pass_loop_safe [OF t(2) this, of 0 n_unc] obtain st m5 where
      l: "l2_pass_loop h 0 n_unc ?st m4 = Some (st, m5)" "inv m5" "pass_ok st" "length (lp_row st) = n_unc" by auto
    then have st: "lp_conf st = conf" "lp_g st = g" "row_ok (lp_row st)" by (auto simp: pass_ok_def)
    obtain rows m6 where r: "shift_rows h (cl_size (l2_info g)) (lp_row st) [1..<n_offsets] m5 = Some (rows, m6)" "inv m6"
        "length rows = n_offsets - 1"
      using shift_rows_safe [OF l(2) st(3), of "cl_size (l2_info g)" "[1..<n_offsets]"] by auto
    let ?full = "length (filter (\<lambda>e. e \<noteq> None) (lp_row st)) = n_unc"
    have "\<exists>v m7. (if ?full then validate_l2_evsets h g (lp_row st) conf m6 else Some (False, m6)) = Some (v, m7)
        \<and> inv m7 \<and> (v \<longrightarrow> complex_ok n_offsets n_unc (Some (lp_row st) # rows))"
    proof (cases ?full)
      case True
      then have full: "None \<notin> set (lp_row st)" using l(4) by (intro filter_full) simp
      from validate_safe [OF r(2) st(3) this] obtain v m7 where
        v: "validate_l2_evsets h g (lp_row st) conf m6 = Some (v, m7)" "inv m7" by blast
      have "v \<longrightarrow> complex_ok n_offsets n_unc (Some (lp_row st) # rows)"
      proof
        assume v
        with v(1) have "\<exists>m1 m2. validate_l2_evsets h g (lp_row st) conf m1 = Some (True, m2)" by auto
        then show "complex_ok n_offsets n_unc (Some (lp_row st) # rows)"
          unfolding complex_ok_def using full r(3) l(4) st(3) by simp
      qed
      with True v show ?thesis by simp
    qed (use r(2) in \<open>simp add: ex_bool_eq\<close>)
    then obtain v m7 where v: "(if ?full then validate_l2_evsets h g (lp_row st) conf m6 else Some (False, m6)) = Some (v, m7)"
        "inv m7" "v \<longrightarrow> complex_ok n_offsets n_unc (Some (lp_row st) # rows)" by blast
    have "l2_whole h g conf n_offsets n_unc m =
        (case t of None \<Rightarrow> Some (Inl (), m4) | Some _ \<Rightarrow> Some (Inr (v, Some (lp_row st) # rows, conf, g), m7))"
      using p c(1) q c1 t(1) l(1) r(1) st v(1) by (cases t; cases p; cases q; cases ?full) (simp_all add: l2_whole_def)
    with v(2,3) t(2) show ?thesis by (cases t) simp_all
  qed
qed

lemma retries_safe:
  "inv m \<Longrightarrow> \<exists>x m'. l2_retries h g conf n_offsets n_unc k m = Some ((x, conf, g), m') \<and> inv m'
     \<and> (\<forall>x'. x = Some x' \<longrightarrow> complex_ok n_offsets n_unc x')"
proof (induction k arbitrary: m)
  case (Suc k)
  obtain r m1 where r: "l2_whole h g conf n_offsets n_unc m = Some (r, m1)" "inv m1"
      "\<forall>v x c' g'. r = Inr (v, x, c', g') \<longrightarrow> c' = conf \<and> g' = g \<and> (v \<longrightarrow> complex_ok n_offsets n_unc x)"
    using whole_safe [OF Suc.prems] by blast
  show ?case
  proof (cases r)
    case (Inr b)
    then obtain v x where "r = Inr (v, x, conf, g)" "v \<longrightarrow> complex_ok n_offsets n_unc x" using r(3) by (cases b) auto
    with r(1,2) Suc.IH [OF r(2)] show ?thesis by auto
  qed (use r in auto)
qed simp

end

subsection \<open>Every machine\<close>

lemma init_def_l2_conf_again:
  "init_def_l2_conf g c = (conf, g') \<Longrightarrow> init_def_l2_conf g' conf = (conf, g') \<and> l2_info g' = l2_info g"
  by (cases "cand_scaling g = 0") (auto simp: init_def_l2_conf_def Let_def)

lemma any_machine:
  assumes "init_def_l2_conf g c = (conf, g')" "0 \<le> unknown_sib (l2_info g)" "unknown_sib (l2_info g) < 30"
    "\<And>n m p m'. os_mmap h n m = (Some p, m') \<Longrightarrow> ALIGNED p PAGE_SHIFT"
  shows "l2_machine h g' conf (\<lambda>m. True)"
proof
  fix m cnt cs t assume n: "cnt \<le> length (cs :: addr list)"
  have "conf = fst (init_def_l2_conf g c)" using assms(1) by simp
  then have "conf_runs h conf" using l2_conf_runs by simp
  from test_trial_returns [OF this n] have "trial_keeps h g' (\<lambda>m. True) t cs cnt conf" by (simp add: trial_keeps_def)
  from test_rounds_returns [OF this, where m = m] show "\<exists>r m'. test_eviction_detailed h g' t cs cnt conf m = Some (r, m') \<and> True"
    unfolding test_eviction_detailed_def Let_def by blast
qed (use init_def_l2_conf_again [OF assms(1)] assms in auto)

text \<open>The machine of flat memory is one of them.\<close>

interpretation flat_l2: l2_machine flat_hw "snd (init_def_l2_conf flat_globals c)"
  "fst (init_def_l2_conf flat_globals c)" "\<lambda>m. True" for c
  by (rule any_machine [of flat_globals c]) (auto simp: flat_globals_def skx_l2_def flat_hw_def ALIGNED_def
    SHIFT_MASK_def PAGE_SHIFT_def)

subsection \<open>Properties\<close>

text \<open>
  C6: on every machine the construction of the L2 sets returns without leaving an array. When
  it returns sets, there is one row of them for every page offset, the row of offset 0 has
  all the uncertain sets asked for, each of exactly as many lines as the L2 has ways, and
  the whole row has passed the validation: every set evicts its target and no set the target
  of a later one.
\<close>

theorem build_l2_evset_validated:
  assumes "l2_counts g num_sets = Some (n_offsets, n_unc)" and "unknown_sib (l2_info g) < 30"
    and "\<And>n m p m'. os_mmap h n m = (Some p, m') \<Longrightarrow> ALIGNED p PAGE_SHIFT"
  shows "\<exists>x conf g' m'. build_l2_evset h g c num_sets m = Some ((x, conf, g'), m')
     \<and> (\<forall>complex. x = Some complex \<longrightarrow> length complex = n_offsets
          \<and> (\<exists>row. hd complex = Some row \<and> length row = n_unc
               \<and> (\<forall>e \<in> set row. \<exists>s. e = Some s \<and> ev_size s = unat (n_ways (l2_info g)) \<and> target_addr s \<noteq> 0)
               \<and> (\<exists>m1 m2. validate_l2_evsets h g' row conf m1 = Some (True, m2))))"
proof -
  obtain conf g' where i: "init_def_l2_conf g c = (conf, g')" by fastforce
  have sib: "0 \<le> unknown_sib (l2_info g)" and off: "0 < n_offsets"
    using assms(1) by (auto simp: l2_counts_def Let_def split: if_splits)
  have L: "l2_machine h g' conf (\<lambda>m. True)" by (rule any_machine [OF i sib assms(2,3)])
  obtain t m0 where t: "os_time_us h m = (t, m0)" by fastforce
  obtain x m1 where r: "l2_retries h g' conf n_offsets n_unc (max_whole_ret conf + 1) m0 = Some ((x, conf, g'), m1)"
      "\<forall>x'. x = Some x' \<longrightarrow> l2_machine.complex_ok h g' conf n_offsets n_unc x'"
    using l2_machine.retries_safe [OF L, where m = m0 and n_offsets = n_offsets and n_unc = n_unc
      and k = "max_whole_ret conf + 1"] by blast
  have "build_l2_evset h g c num_sets m =
      Some ((x, conf, g'), if x = None then m1 else snd (os_time_us h m1))"
    using t assms(1) i r(1) by (simp add: build_l2_evset_def del: l2_retries.simps)
  moreover have "length complex = n_offsets \<and> (\<exists>row. hd complex = Some row \<and> length row = n_unc
      \<and> (\<forall>e \<in> set row. \<exists>s. e = Some s \<and> ev_size s = unat (n_ways (l2_info g)) \<and> target_addr s \<noteq> 0)
      \<and> (\<exists>m1 m2. validate_l2_evsets h g' row conf m1 = Some (True, m2)))" if x: "x = Some complex" for complex
  proof -
    obtain row rows where c: "complex = Some row # rows" "length rows = n_offsets - 1" "length row = n_unc"
        "None \<notin> set row" "l2_machine.row_ok g' conf row"
        "\<exists>m1 m2. validate_l2_evsets h g' row conf m1 = Some (True, m2)"
      using r(2) x unfolding l2_machine.complex_ok_def [OF L] by blast
    have "\<exists>s. e = Some s \<and> ev_size s = unat (n_ways (l2_info g)) \<and> target_addr s \<noteq> 0" if e: "e \<in> set row" for e
    proof -
      obtain s where "e = Some s" using c(4) e by (cases e) auto
      with c(5) e init_def_l2_conf_again [OF i] show ?thesis unfolding l2_machine.row_ok_def [OF L] by auto
    qed
    with c off show ?thesis by simp
  qed
  ultimately show ?thesis by blast
qed

theorem build_l2_evset_validated_witness:
  "\<exists>x conf g' m'. build_l2_evset flat_hw flat_globals conf_zero 100 (\<lambda>a. 0, 0) = Some ((x, conf, g'), m')
     \<and> (\<forall>complex. x = Some complex \<longrightarrow> length complex = 64)"
proof -
  have "l2_counts flat_globals 100 = Some (64, 2)"
    by (simp add: l2_counts_def flat_globals_def skx_l2_def wrap32_def)
  from build_l2_evset_validated [OF this, of flat_hw conf_zero "(\<lambda>a. 0, 0)"] show ?thesis
    by (force simp: flat_globals_def skx_l2_def flat_hw_def ALIGNED_def SHIFT_MASK_def PAGE_SHIFT_def)
qed

end
