(* ===== verification/L2_Exact.thy ===== *)
theory L2_Exact
  imports L2_Safe Lru_Machine
begin

text \<open>
  The L2 builder on a machine whose eviction test is truthful: from a pool with enough lines of
  every colour it builds all the sets that were asked for, at its first attempt, and they
  are pairwise different sets of the cache. The machine of theory \<open>Lru_Machine\<close> is such a
  machine, so the result is one about the code.
\<close>

locale l2_exact = l2_machine h g conf inv
  for h :: "'m hw" and g :: globals and conf :: EvBuildConf and inv :: "'m \<Rightarrow> bool" +
  fixes line :: "addr \<Rightarrow> 'l" and cong :: "addr \<Rightarrow> addr \<Rightarrow> bool" and W :: nat
  assumes detailed_truthful: "inv m \<Longrightarrow> cnt \<le> length cs \<Longrightarrow> distinct (map line (t # take cnt cs)) \<Longrightarrow>
        test_eviction_detailed h g t cs cnt conf m = Some (r, m') \<Longrightarrow>
        r = (if W \<le> length (filter (cong t) (take cnt cs)) then EV_POS else EV_NEG)"
    and cong_same: "cong a a"
    and cong_symm: "cong a b \<Longrightarrow> cong b a"
    and cong_transitive: "cong a b \<Longrightarrow> cong b c \<Longrightarrow> cong a c"
    and W_ways: "W = unat (n_ways (l2_info g))" "2 \<le> W" "2 * W < 2 ^ 32"
    and calloc_succeeds: "\<exists>p m'. os_calloc h n m = (Some p, m')"

sublocale l2_exact \<subseteq> truthful_tester h "conf_test h g conf" inv line cong W
proof
  fix m cnt cs t r m'
  assume a: "inv m" "cnt \<le> length cs" "distinct (map line (t # take cnt cs))" "conf_test h g conf t cs cnt m = Some (r, m')"
  then obtain r' where "test_eviction_detailed h g t cs cnt conf m = Some (r', m')"
      "r = (if ev_test_res_val r' > 0 then OK else FAIL)"
    by (auto simp: conf_test_def test_eviction_def)
  with detailed_truthful [OF a(1-3)] show "(r = OK) = (W \<le> length (filter (cong t) (take cnt cs)))"
    by auto
qed (use W_ways in \<open>auto intro: cong_symm cong_transitive\<close>)

context l2_exact
begin

lemma calloc_ok: "inv m \<Longrightarrow> \<exists>p m'. os_calloc h n m = (Some p, m') \<and> inv m'"
  using calloc_succeeds [of n m] keeps_calloc [of m n] by auto

text \<open>The lines of a multiset of addresses are pairwise different.\<close>

definition lines_distinct :: "addr multiset \<Rightarrow> bool" where
  "lines_distinct A \<longleftrightarrow> (\<forall>l. count (image_mset line A) l \<le> 1)"

lemma lines_distinct_mset: "lines_distinct (mset xs) \<longleftrightarrow> distinct (map line xs)"
proof -
  have one: "count (mset ys) l \<le> 1 \<longleftrightarrow> count (mset ys) l = (if l \<in> set ys then 1 else 0)" for ys :: "'l list" and l
  proof (cases "l \<in> set ys")
    case True
    then have "0 < count (mset ys) l" by simp
    then have "count (mset ys) l \<le> 1 \<longleftrightarrow> count (mset ys) l = 1" by linarith
    with True show ?thesis by simp
  next
    case False
    then have c: "count (mset ys) l = 0" by (simp add: count_mset_0_iff)
    show ?thesis unfolding c using False by simp
  qed
  have "(\<forall>l. count (mset ys) l \<le> 1) \<longleftrightarrow> distinct ys" for ys :: "'l list"
    unfolding one distinct_count_atmost_1 by (rule refl)
  from this [of "map line xs"] show ?thesis by (simp add: lines_distinct_def)
qed

lemma lines_distinct_sub: "lines_distinct B \<Longrightarrow> A \<subseteq># B \<Longrightarrow> lines_distinct A"
  unfolding lines_distinct_def by (meson image_mset_subseteq_mono le_trans mset_subset_eq_count)

lemma lines_distinct_list: "lines_distinct B \<Longrightarrow> mset xs \<subseteq># B \<Longrightarrow> distinct (map line xs)"
  using lines_distinct_sub lines_distinct_mset by blast

subsection \<open>A target that is free\<close>

definition free_target :: "addr \<Rightarrow> addr list \<Rightarrow> addr \<Rightarrow> bool" where
  "free_target cur prev a \<longleftrightarrow> a \<noteq> cur \<and> length (filter (cong a) prev) < W"

lemma pick_exact:
  "inv m \<Longrightarrow> pool_ok c \<Longrightarrow> lines_distinct (pool c + mset prev) \<Longrightarrow>
     j \<le> i \<Longrightarrow> i < cands_count c \<Longrightarrow> free_target cur prev (cands_addrs c ! i) \<Longrightarrow>
     \<exists>t c' m'. pick_l2_loop h g c cur prev (length prev) conf j m = Some ((Some t, c'), m') \<and> inv m'
       \<and> pool_ok c' \<and> pool c = add_mset t (pool c') \<and> free_target cur prev t"
proof (induction "cands_count c - j" arbitrary: j m rule: less_induct)
  case less
  let ?a = "cands_addrs c ! j"
  let ?Q = "\<lambda>r. \<exists>t c' m'. r = Some ((Some t, c'), m') \<and> inv m'
       \<and> pool_ok c' \<and> pool c = add_mset t (pool c') \<and> free_target cur prev t"
  have j: "j < cands_count c" "j < length (cands_addrs c)"
    using less.prems by (auto simp: pool_ok_def)
  have a: "arr_get (cands_addrs c) j = Some ?a" using j by (simp add: arr_simps)
  have "?a \<in># pool c" using j by (auto simp: set_pool in_set_conv_nth)
  then have "mset (?a # prev) \<subseteq># pool c + mset prev" by (simp add: subset_mset.add_mono)
  from lines_distinct_list [OF less.prems(3) this]
  have d: "distinct (map line (?a # take (length prev) prev))" by simp
  then have known: "addr_in_list ?a prev (length prev) 0 = Some False"
    by (auto simp: addr_in_list_Some)
  have more: "?Q (pick_l2_loop h g c cur prev (length prev) conf (j + 1) m1)"
    if "inv m1" "\<not> free_target cur prev ?a" for m1
  proof -
    have "j + 1 \<le> i" using less.prems(4,6) that(2) by (cases "i = j") auto
    with less.prems that j show ?thesis by (intro less.hyps) linarith+
  qed
  obtain r m1 where r: "test_eviction_detailed h g ?a prev (length prev) conf m = Some (r, m1)" "inv m1"
    using detailed_returns [OF less.prems(1), of "length prev" prev ?a] by auto
  have rv: "r = (if W \<le> length (filter (cong ?a) prev) then EV_POS else EV_NEG)"
    using detailed_truthful [OF less.prems(1) _ d r(1)] by simp
  let ?m1 = "if length prev > 0 then m1 else m"
  have i1: "inv ?m1" using r(2) less.prems(1) by simp
  have cl: "(if length prev > 0
       then map_option (\<lambda>(r, m). (r = EV_NEG, m)) (test_eviction_detailed h g ?a prev (length prev) conf m)
       else Some (True, m)) = Some (length (filter (cong ?a) prev) < W, ?m1)"
    using r(1) rv W_ways(2) by auto
  obtain addrs where sw: "arr_swap (cands_addrs c) j (cands_count c - 1) = Some addrs"
      "pool_ok (c\<lparr>cands_addrs := addrs, cands_count := cands_count c - 1\<rparr>)"
      "pool c = add_mset ?a (pool (c\<lparr>cands_addrs := addrs, cands_count := cands_count c - 1\<rparr>))"
    using swap_out [OF less.prems(2) j(1)] by blast
  have step: "pick_l2_loop h g c cur prev (length prev) conf j m =
    (if ?a = cur then pick_l2_loop h g c cur prev (length prev) conf (j + 1) m
     else if \<not> length (filter (cong ?a) prev) < W then pick_l2_loop h g c cur prev (length prev) conf (j + 1) ?m1
     else Some ((Some ?a, c\<lparr>cands_addrs := addrs, cands_count := cands_count c - 1\<rparr>), ?m1))"
    using j a cl sw(1) known by (subst pick_l2_loop.simps) (simp del: if_split split: if_split)
  show ?case
  proof (cases "free_target cur prev ?a")
    case True
    then show ?thesis unfolding step using sw(2,3) i1 by (auto simp: free_target_def)
  next
    case False
    then show ?thesis
      unfolding step using more [OF less.prems(1) False] more [OF i1 False] by (auto simp: free_target_def)
  qed
qed

lemma pick_free:
  assumes "inv m" "pool_ok c" "lines_distinct (pool c + mset prev)" "a \<in># pool c" "free_target cur prev a"
  shows "\<exists>t c' m'. pick_l2_target h g c cur prev (length prev) conf m = Some ((Some t, c'), m') \<and> inv m'
     \<and> pool_ok c' \<and> pool c = add_mset t (pool c') \<and> free_target cur prev t"
proof -
  obtain i where "i < cands_count c" "cands_addrs c ! i = a"
    using assms(2,4) by (auto simp: set_pool pool_ok_def in_set_conv_nth)
  with pick_exact [OF assms(1-3), of 0 i cur] assms(5) show ?thesis by (simp add: pick_l2_target_def)
qed

subsection \<open>One set\<close>

text \<open>A finished set: as many lines as the cache has ways, all in the set of its target.\<close>

definition fits :: "EvBuildConf EvSet \<Rightarrow> bool" where
  "fits e \<longleftrightarrow> ev_ok e \<and> ev_size e = W \<and> target_addr e \<noteq> 0
     \<and> (\<forall>a \<in> set (take W (ev_addrs e)). cong (target_addr e) a)
     \<and> distinct (map line (target_addr e # take W (ev_addrs e)))"

lemma fits_lines: "fits e \<Longrightarrow> length (take W (ev_addrs e)) = W"
  by (auto simp: fits_def ev_ok_def)

lemma fits_filter:
  assumes "fits e"
  shows "length (filter (cong a) (take W (ev_addrs e))) = (if cong a (target_addr e) then W else 0)"
proof (cases "cong a (target_addr e)")
  case True
  then have "\<forall>b \<in> set (take W (ev_addrs e)). cong a b"
    using assms cong_transitive by (auto simp: fits_def)
  then have "filter (cong a) (take W (ev_addrs e)) = take W (ev_addrs e)" by simp
  with True fits_lines [OF assms] show ?thesis by simp
next
  case False
  then have "\<forall>b \<in> set (take W (ev_addrs e)). \<not> cong a b"
    using assms cong_transitive cong_symm unfolding fits_def by blast
  with False show ?thesis by simp
qed

lemma fits_detailed:
  assumes "fits e" "inv m" "distinct (map line (t # take W (ev_addrs e)))"
  shows "\<exists>m'. test_eviction_detailed h g t (ev_addrs e) (ev_size e) conf m =
     Some (if cong t (target_addr e) then EV_POS else EV_NEG, m') \<and> inv m'"
proof -
  have e: "ev_size e = W" "W \<le> length (ev_addrs e)" using assms(1) by (auto simp: fits_def ev_ok_def)
  obtain r m' where r: "test_eviction_detailed h g t (ev_addrs e) W conf m = Some (r, m')" "inv m'"
    using detailed_returns [OF assms(2) e(2)] by blast
  from detailed_truthful [OF assms(2) e(2) assms(3) r(1)] fits_filter [OF assms(1), of t] r e W_ways(2)
  show ?thesis by (cases "cong t (target_addr e)") auto
qed

lemma fits_verify:
  assumes "fits e" "inv m"
  shows "\<exists>m'. verify_evset h g e (target_addr e) m = Some (OK, m') \<and> inv m'"
proof -
  have "distinct (map line (target_addr e # take W (ev_addrs e)))" "build_conf e = conf" "target_addr e \<noteq> 0"
    using assms(1) by (auto simp: fits_def ev_ok_def)
  moreover from this obtain m' where
    "test_eviction_detailed h g (target_addr e) (ev_addrs e) (ev_size e) conf m = Some (EV_POS, m')" "inv m'"
    using fits_detailed [OF assms, of "target_addr e"] cong_same by auto
  ultimately show ?thesis by (intro exI [of _ m']) (simp add: verify_evset_def test_eviction_def)
qed

lemma attempt_exact:
  assumes "inv m" "pool_ok c" "lines_distinct (add_mset t (pool c))" "t \<noteq> 0"
    "W \<le> size (filter_mset (cong t) (pool c))"
  shows "\<exists>e m'. l2_attempts h g conf all_addrs n_all (Suc k) t (l2_evset_init g conf c t) m = Some ((True, e), m')
     \<and> inv m' \<and> fits e \<and> target_addr e = t \<and> mset (take W (ev_addrs e)) \<subseteq># pool c
     \<and> pool_ok (ev_cands e) \<and> pool (ev_cands e) = pool c"
proof -
  let ?e = "l2_evset_init g conf c t"
  have cap: "ev_cap ?e = 2 * W" using W_ways by (simp add: l2_evset_init_def conf_facts wrap32_def Let_def)
  have f: "ev_cands ?e = c" "build_conf ?e = conf" "target_cache ?e = l2_info g" "length (ev_addrs ?e) = ev_cap ?e"
      "target_addr ?e = t" "ev_size ?e = 0" "?e\<lparr>ev_size := 0, target_addr := t\<rparr> = ?e"
    by (simp_all add: l2_evset_init_def Let_def)
  have len: "W \<le> length (filter (cong t) (take (cands_count c) (cands_addrs c)))"
    using assms(5) unfolding pool_def by (metis mset_filter size_mset)
  then have cnt: "1 < cands_count c" using W_ways(2) assms(2) length_filter_le [of "cong t" "take (cands_count c) (cands_addrs c)"]
    by (simp add: pool_ok_def)
  from zhao_pool [OF assms(1) l2_evset_init_ok [OF assms(2)], of t t] obtain err e' m' where
    z: "build_evset_zhao h (conf_test h g) t ?e m = Some ((err, e'), m')" "inv m'" "ev_ok e'"
      "target_addr e' = t" "pool (ev_cands e') = pool c"
      "\<not> err \<longrightarrow> mset (take (ev_size e') (ev_addrs e')) \<subseteq># pool (ev_cands e')"
    using f by auto
  have err: "\<not> err" using z(1) cnt f by (auto simp: build_evset_zhao_def split: bind_splits)
  have d: "distinct (map line (t # take (cands_count (ev_cands ?e)) (cands_addrs (ev_cands ?e))))"
    unfolding f(1) by (rule lines_distinct_list [OF assms(3)]) (simp add: pool_def)
  have "(\<forall>a \<in> set (take (ev_size e') (ev_addrs e')). cong t a) \<and> ev_size e' \<le> W
       \<and> (slack (build_conf ?e) = 0 \<and> 0 < max_backtrack (build_conf ?e) \<and> W \<le> ev_cap ?e
          \<and> W \<le> length (filter (cong t) (take (cands_count (ev_cands ?e)) (cands_addrs (ev_cands ?e))))
          \<longrightarrow> ev_size e' = W)"
    by (rule build_evset_zhao_exact [where T = "conf_test h g" and e = ?e, OF assms(1) _ _ _ _ _ _ _ _ d z(1)])
      (use f assms(2) cap cnt sib_bounds W_ways conf_facts in \<open>auto simp: pool_ok_def\<close>)
  then have ex: "\<forall>a \<in> set (take W (ev_addrs e')). cong t a" "ev_size e' = W"
    using f cap len conf_facts by auto
  have sub: "mset (take W (ev_addrs e')) \<subseteq># pool c" using z(5,6) err ex(2) by simp
  have "fits e'"
    unfolding fits_def using z(3,4) ex assms(4) lines_distinct_list [OF assms(3), of "t # take W (ev_addrs e')"] sub by simp
  moreover from fits_verify [OF this z(2)] obtain m2 where
    v: "verify_evset h g e' t m' = Some (OK, m2)" "inv m2" using z(4) by auto
  moreover have "l2_attempts h g conf all_addrs n_all (Suc k) t ?e m = Some ((True, e'), m2)"
    using z(1) err ex(2) W_ways(1) v(1) by (simp add: f(7))
  moreover have "pool_ok (ev_cands e')" using z(3) by (simp add: ev_ok_def)
  ultimately show ?thesis using z(4,5) sub by blast
qed

lemma single_exact:
  assumes "inv m" "pool_ok c" "lines_distinct (add_mset t (pool c))" "t \<noteq> 0"
    "W \<le> size (filter_mset (cong t) (pool c))"
  shows "\<exists>e c' m'. build_single_l2_evset h g conf (Some c) t all_addrs n_all m = Some ((Some e, Some c', conf, g), m')
     \<and> inv m' \<and> fits e \<and> target_addr e = t \<and> mset (take W (ev_addrs e)) \<subseteq># pool c
     \<and> pool_ok c' \<and> pool c' = pool c"
proof -
  obtain p m1 where p: "os_calloc h 56 m = (Some p, m1)" "inv m1" using calloc_ok [OF assms(1)] by blast
  let ?n = "wrap32 (cap_scaling conf * unat (n_ways (l2_info g))) * 8"
  obtain q m2 where q: "os_calloc h ?n m1 = (Some q, m2)" "inv m2" using calloc_ok [OF p(2)] by blast
  have k: "n_retries conf = Suc 9" by (simp add: conf_facts)
  obtain e m' where e: "l2_attempts h g conf all_addrs n_all (Suc 9) t (l2_evset_init g conf c t) m2 = Some ((True, e), m')"
      "inv m'" "fits e" "target_addr e = t" "mset (take W (ev_addrs e)) \<subseteq># pool c"
      "pool_ok (ev_cands e)" "pool (ev_cands e) = pool c"
    using attempt_exact [OF q(2) assms(2-5)] by blast
  have "build_single_l2_evset h g conf (Some c) t all_addrs n_all m = Some ((Some e, Some (ev_cands e), conf, g), m')"
    using p(1) q(1) e(1) assms(4)
    by (simp add: build_single_l2_evset_def conf_fix l2_own_cands_def k del: l2_attempts.simps)
  with e show ?thesis by blast
qed

subsection \<open>A pass over the uncertain sets\<close>

text \<open>
  What the pass has done so far, from the pool \<open>P\<close> on: the finished sets \<open>es\<close> fit, no two of
  them are for the same set of the cache, and pool, lines and targets together are \<open>P\<close>. The
  target of the first set is chosen before the pass.
\<close>

abbreviation ev_lines :: "EvBuildConf EvSet \<Rightarrow> addr list" where
  "ev_lines e \<equiv> take W (ev_addrs e)"

definition apart :: "EvBuildConf EvSet list \<Rightarrow> bool" where
  "apart es \<longleftrightarrow> (\<forall>e \<in> set es. fits e) \<and> sorted_wrt (\<lambda>e e'. \<not> cong (target_addr e') (target_addr e)) es"

definition used :: "EvBuildConf EvSet list \<Rightarrow> addr multiset" where
  "used es = mset (concat (map ev_lines es)) + mset (map target_addr es)"

definition pass_at :: "addr multiset \<Rightarrow> EvBuildConf EvSet list \<Rightarrow> l2_pass \<Rightarrow> bool" where
  "pass_at P es st \<longleftrightarrow> lp_conf st = conf \<and> lp_g st = g \<and> pool_ok (lp_cands st) \<and> apart es
     \<and> lp_row st = map Some es \<and> lp_built st = concat (map ev_lines es) \<and> lp_all st = lp_built st
     \<and> (if es = [] then P = add_mset (lp_target st) (pool (lp_cands st))
        else P = pool (lp_cands st) + used es \<and> lp_target st \<in> set (map target_addr es))"

text \<open>Enough lines of every class, and enough classes.\<close>

definition rich :: "nat \<Rightarrow> addr multiset \<Rightarrow> bool" where
  "rich n P \<longleftrightarrow> lines_distinct P \<and> 0 \<notin># P \<and> (\<forall>a \<in># P. W < size (filter_mset (cong a) P))
     \<and> (\<forall>ts. set ts \<subseteq> set_mset P \<and> length ts < n \<longrightarrow> (\<exists>a \<in># P. \<forall>t \<in> set ts. \<not> cong a t))"

lemma apart_used_free:
  assumes "apart es" "\<forall>e \<in> set es. \<not> cong a (target_addr e)"
  shows "filter_mset (cong a) (used es) = {#}" "filter (cong a) (concat (map ev_lines es)) = []"
proof -
  have "\<not> cong a b" if "e \<in> set es" "b \<in> set (ev_lines e)" for e b
    using assms that cong_transitive cong_symm unfolding apart_def fits_def by blast
  then show "filter (cong a) (concat (map ev_lines es)) = []" by (auto simp: filter_empty_conv)
  then have "filter_mset (cong a) (mset (concat (map ev_lines es))) = {#}"
    by (metis mset_filter mset.simps(1))
  moreover have "filter_mset (cong a) (mset (map target_addr es)) = {#}"
    using assms(2) by (auto simp flip: mset_filter simp: filter_empty_conv)
  ultimately show "filter_mset (cong a) (used es) = {#}" by (simp add: used_def)
qed

lemma free_target_apart:
  assumes "apart es" "free_target cur (concat (map ev_lines es)) a" "e \<in> set es"
  shows "\<not> cong a (target_addr e)"
proof
  assume "cong a (target_addr e)"
  moreover have "fits e" using assms(1,3) by (simp add: apart_def)
  ultimately have "length (filter (cong a) (ev_lines e)) = W" by (simp add: fits_filter)
  moreover have "length (filter (cong a) (ev_lines e)) \<le> length (filter (cong a) (concat (map ev_lines es)))"
    using assms(3) by (induction es) auto
  ultimately show False using assms(2) by (simp add: free_target_def)
qed

lemma next_target:
  assumes "rich n P" "pass_at P es st" "es \<noteq> []" "length es < n" "inv m"
  shows "\<exists>t c' m'. pick_l2_target h g (lp_cands st) (lp_target st) (lp_built st) (length (lp_built st)) conf m
       = Some ((Some t, c'), m') \<and> inv m' \<and> pool_ok c' \<and> pool (lp_cands st) = add_mset t (pool c')
       \<and> (\<forall>e \<in> set es. \<not> cong t (target_addr e))"
proof -
  have p: "pool_ok (lp_cands st)" "apart es" "lp_built st = concat (map ev_lines es)"
      "P = pool (lp_cands st) + used es" "lp_target st \<in> set (map target_addr es)"
    using assms(2,3) by (auto simp: pass_at_def)
  have "set (map target_addr es) \<subseteq> set_mset P" using p(4) by (auto simp: used_def)
  then obtain a where a: "a \<in># P" "\<forall>t \<in> set (map target_addr es). \<not> cong a t"
    using assms(1,4) unfolding rich_def by (metis length_map)
  have free: "filter_mset (cong a) (used es) = {#}" "filter (cong a) (lp_built st) = []"
    using apart_used_free [OF p(2), of a] a(2) p(3) by auto
  have "a \<notin># used es"
  proof
    assume "a \<in># used es"
    then have "a \<in># filter_mset (cong a) (used es)" using cong_same by simp
    with free(1) show False by auto
  qed
  then have "a \<in># pool (lp_cands st)" using a(1) p(4) by simp
  moreover have "free_target (lp_target st) (lp_built st) a"
    using a(2) p(5) free(2) cong_same W_ways(2) by (auto simp: free_target_def)
  moreover have "lines_distinct (pool (lp_cands st) + mset (lp_built st))"
    by (rule lines_distinct_sub [of P]) (use assms(1) p(3,4) in \<open>auto simp: rich_def used_def\<close>)
  ultimately obtain t c' m' where t: "pick_l2_target h g (lp_cands st) (lp_target st) (lp_built st) (length (lp_built st)) conf m
      = Some ((Some t, c'), m')" "inv m'" "pool_ok c'" "pool (lp_cands st) = add_mset t (pool c')"
      "free_target (lp_target st) (lp_built st) t"
    using pick_free [OF assms(5) p(1)] by blast
  with free_target_apart [OF p(2), of "lp_target st" t] p(3) show ?thesis by auto
qed

text \<open>A new target leaves enough lines of its class in the pool.\<close>

lemma target_lines:
  assumes "rich n P" "apart es" "P = add_mset t (C + used es)" "\<forall>e \<in> set es. \<not> cong t (target_addr e)"
  shows "W \<le> size (filter_mset (cong t) C)" "t \<noteq> 0" "lines_distinct (add_mset t C)"
proof -
  have "W < size (filter_mset (cong t) P)" using assms(1,3) by (simp add: rich_def)
  moreover have "filter_mset (cong t) P = add_mset t (filter_mset (cong t) C)"
    using assms(3) apart_used_free(1) [OF assms(2,4)] cong_same by simp
  ultimately show "W \<le> size (filter_mset (cong t) C)" by simp
  show "t \<noteq> 0" using assms(1,3) by (auto simp: rich_def)
  show "lines_distinct (add_mset t C)"
    by (rule lines_distinct_sub [of P]) (use assms(1,3) in \<open>auto simp: rich_def\<close>)
qed

lemma verify3_exact: "fits e \<Longrightarrow> inv m \<Longrightarrow> \<exists>m'. l2_verify3 h g (Suc k) e m = Some (True, m') \<and> inv m'"
proof -
  assume "fits e" "inv m"
  from fits_verify [OF this] obtain m' where "verify_evset h g e (target_addr e) m = Some (OK, m')" "inv m'" by blast
  then show ?thesis by simp
qed

lemma track_exact:
  assumes "inv m" "fits e" "pool_ok (lp_cands st)" "lp_all st = lp_built st"
  shows "\<exists>c' m'. l2_track h e st m =
       Some (st\<lparr>lp_cands := c', lp_all := lp_all st @ ev_lines e, lp_built := lp_built st @ ev_lines e\<rparr>, m')
     \<and> inv m' \<and> pool_ok c' \<and> pool c' = pool (lp_cands st) - mset (ev_lines e)"
proof -
  have e: "ev_size e = W" "W \<le> length (ev_addrs e)" using assms(2) by (auto simp: fits_def ev_ok_def)
  obtain p m1 where p: "os_calloc h ((length (lp_all st) + W) * 8) m = (Some p, m1)" "inv m1"
    using calloc_ok [OF assms(1)] by blast
  obtain q m2 where q: "os_calloc h ((length (lp_built st) + W) * 8) m1 = (Some q, m2)" "inv m2"
    using calloc_ok [OF p(2)] by blast
  obtain c' where c: "remove_cands (ev_lines e) (lp_cands st) = Some c'" "pool_ok c'"
      "pool c' = pool (lp_cands st) - mset (ev_lines e)"
    using remove_cands_Some [OF assms(3)] by blast
  have "l2_track h e st m =
       Some (st\<lparr>lp_cands := c', lp_all := lp_all st @ ev_lines e, lp_built := lp_built st @ ev_lines e\<rparr>, m2)"
    using p(1) q(1) c(1) e by (simp add: l2_track_def arr_simps)
  with q(2) c show ?thesis by blast
qed

text \<open>The part of a step after the target has been chosen.\<close>

lemma step_built:
  assumes "rich n P" "apart es" "inv m" "pool_ok (lp_cands st)" "lp_conf st = conf" "lp_g st = g"
    "lp_row st = map Some es" "lp_built st = concat (map ev_lines es)" "lp_all st = lp_built st"
    "P = add_mset (lp_target st) (pool (lp_cands st) + used es)"
    "\<forall>e \<in> set es. \<not> cong (lp_target st) (target_addr e)"
  shows "\<exists>e c c' m1 m2 m'. build_single_l2_evset h g conf (Some (lp_cands st)) (lp_target st) (lp_all st)
        (length (lp_all st)) m = Some ((Some e, Some c, conf, g), m1)
     \<and> l2_verify3 h g 3 e m1 = Some (True, m2)
     \<and> l2_track h e (st\<lparr>lp_cands := c, lp_conf := conf, lp_g := g\<rparr>) m2 =
         Some (st\<lparr>lp_cands := c', lp_conf := conf, lp_g := g, lp_all := lp_all st @ ev_lines e,
                   lp_built := lp_built st @ ev_lines e\<rparr>, m')
     \<and> inv m' \<and> pass_at P (es @ [e]) (st\<lparr>lp_cands := c', lp_conf := conf, lp_g := g, lp_all := lp_all st @ ev_lines e,
                   lp_built := lp_built st @ ev_lines e, lp_row := lp_row st @ [Some e]\<rparr>)"
proof -
  let ?t = "lp_target st"
  note tl = target_lines [OF assms(1,2,10,11)]
  obtain e c m1 where e: "build_single_l2_evset h g conf (Some (lp_cands st)) ?t (lp_all st) (length (lp_all st)) m
        = Some ((Some e, Some c, conf, g), m1)" "inv m1" "fits e" "target_addr e = ?t"
      "mset (ev_lines e) \<subseteq># pool (lp_cands st)" "pool_ok c" "pool c = pool (lp_cands st)"
    using single_exact [OF assms(3,4) tl(3,2,1)] by blast
  obtain m2 where v: "l2_verify3 h g 3 e m1 = Some (True, m2)" "inv m2"
    using verify3_exact [OF e(3,2), of 2] by (auto simp: numeral_3_eq_3 numeral_2_eq_2)
  let ?st = "st\<lparr>lp_cands := c, lp_conf := conf, lp_g := g\<rparr>"
  obtain c' m' where t: "l2_track h e ?st m2 =
       Some (?st\<lparr>lp_cands := c', lp_all := lp_all ?st @ ev_lines e, lp_built := lp_built ?st @ ev_lines e\<rparr>, m')"
      "inv m'" "pool_ok c'" "pool c' = pool c - mset (ev_lines e)"
    using track_exact [OF v(2) e(3), of ?st] e(6) assms(9) by auto
  have "apart (es @ [e])"
    using assms(2,11) e(3,4) by (auto simp: apart_def sorted_wrt_append)
  moreover have "P = pool c' + used (es @ [e])"
  proof -
    have "pool (lp_cands st) = pool c' + mset (ev_lines e)" using e(5) by (simp add: t(4) e(7))
    with assms(10) e(4) show ?thesis by (simp add: used_def)
  qed
  ultimately have "pass_at P (es @ [e]) (st\<lparr>lp_cands := c', lp_conf := conf, lp_g := g, lp_all := lp_all st @ ev_lines e,
                   lp_built := lp_built st @ ev_lines e, lp_row := lp_row st @ [Some e]\<rparr>)"
    using t(3) e(4) assms(7-9) by (simp add: pass_at_def)
  moreover have "l2_track h e ?st m2 = Some (st\<lparr>lp_cands := c', lp_conf := conf, lp_g := g,
      lp_all := lp_all st @ ev_lines e, lp_built := lp_built st @ ev_lines e\<rparr>, m')"
    using t(1) by simp
  ultimately show ?thesis using e(1) v(1) t(2) by blast
qed

lemma pass_step_exact:
  assumes "rich n P" "pass_at P es st" "length es < n" "inv m"
  shows "\<exists>e st' m'. l2_pass_step h (length es) st m = Some (st', m') \<and> inv m' \<and> pass_at P (es @ [e]) st'"
proof -
  let ?pick = "if length es = 0 then Some (True, st, m)
        else do {
          ((t, cands), m) \<leftarrow> pick_l2_target h (lp_g st) (lp_cands st) (lp_target st) (lp_built st)
                               (length (lp_built st)) (lp_conf st) m;
          Some (case t of None \<Rightarrow> (False, st\<lparr>lp_cands := cands\<rparr>, m)
                | Some t \<Rightarrow> (True, st\<lparr>lp_cands := cands, lp_target := t\<rparr>, m))
        }"
  have f: "lp_conf st = conf" "lp_g st = g" "pool_ok (lp_cands st)" "apart es" "lp_row st = map Some es"
      "lp_built st = concat (map ev_lines es)" "lp_all st = lp_built st"
    using assms(2) by (auto simp: pass_at_def)
  have "\<exists>t c m1. ?pick = Some (True, st\<lparr>lp_cands := c, lp_target := t\<rparr>, m1) \<and> inv m1 \<and> pool_ok c
      \<and> P = add_mset t (pool c + used es) \<and> (\<forall>e \<in> set es. \<not> cong t (target_addr e))"
  proof (cases "es = []")
    case True
    with assms(2,4) f show ?thesis
      by (intro exI [of _ "lp_target st"] exI [of _ "lp_cands st"] exI [of _ m]) (simp add: pass_at_def used_def)
  next
    case False
    obtain t c m1 where "pick_l2_target h g (lp_cands st) (lp_target st) (lp_built st) (length (lp_built st)) conf m
        = Some ((Some t, c), m1)" "inv m1" "pool_ok c" "pool (lp_cands st) = add_mset t (pool c)"
        "\<forall>e \<in> set es. \<not> cong t (target_addr e)"
      using next_target [OF assms(1,2) False assms(3,4)] by blast
    with False f assms(2) show ?thesis
      by (intro exI [of _ t] exI [of _ c] exI [of _ m1]) (simp add: pass_at_def)
  qed
  then obtain t c m1 where t: "?pick = Some (True, st\<lparr>lp_cands := c, lp_target := t\<rparr>, m1)" "inv m1" "pool_ok c"
      "P = add_mset t (pool c + used es)" "\<forall>e \<in> set es. \<not> cong t (target_addr e)" by blast
  let ?st = "st\<lparr>lp_cands := c, lp_target := t\<rparr>"
  have "\<exists>e c2 c' m2 m3 m'. build_single_l2_evset h g conf (Some (lp_cands ?st)) (lp_target ?st) (lp_all ?st)
        (length (lp_all ?st)) m1 = Some ((Some e, Some c2, conf, g), m2)
     \<and> l2_verify3 h g 3 e m2 = Some (True, m3)
     \<and> l2_track h e (?st\<lparr>lp_cands := c2, lp_conf := conf, lp_g := g\<rparr>) m3 =
         Some (?st\<lparr>lp_cands := c', lp_conf := conf, lp_g := g, lp_all := lp_all ?st @ ev_lines e,
                   lp_built := lp_built ?st @ ev_lines e\<rparr>, m')
     \<and> inv m' \<and> pass_at P (es @ [e]) (?st\<lparr>lp_cands := c', lp_conf := conf, lp_g := g, lp_all := lp_all ?st @ ev_lines e,
                   lp_built := lp_built ?st @ ev_lines e, lp_row := lp_row ?st @ [Some e]\<rparr>)"
    by (rule step_built [OF assms(1) f(4) t(2)]) (use f t in simp_all)
  then obtain e c2 c' m2 m3 m' where
    b: "build_single_l2_evset h g conf (Some (lp_cands ?st)) (lp_target ?st) (lp_all ?st)
        (length (lp_all ?st)) m1 = Some ((Some e, Some c2, conf, g), m2)"
      "l2_verify3 h g 3 e m2 = Some (True, m3)"
      "l2_track h e (?st\<lparr>lp_cands := c2, lp_conf := conf, lp_g := g\<rparr>) m3 =
         Some (?st\<lparr>lp_cands := c', lp_conf := conf, lp_g := g, lp_all := lp_all ?st @ ev_lines e,
                   lp_built := lp_built ?st @ ev_lines e\<rparr>, m')"
      "inv m'" "pass_at P (es @ [e]) (?st\<lparr>lp_cands := c', lp_conf := conf, lp_g := g, lp_all := lp_all ?st @ ev_lines e,
                   lp_built := lp_built ?st @ ev_lines e, lp_row := lp_row ?st @ [Some e]\<rparr>)" by blast
  have "l2_pass_step h (length es) st m = Some (?st\<lparr>lp_cands := c', lp_conf := conf, lp_g := g,
      lp_all := lp_all ?st @ ev_lines e, lp_built := lp_built ?st @ ev_lines e, lp_row := lp_row ?st @ [Some e]\<rparr>, m')"
    unfolding l2_pass_step_def t(1) using b(1-3) f(1,2) by simp
  with b(4,5) show ?thesis by blast
qed

lemma pass_loop_exact:
  "rich n P \<Longrightarrow> pass_at P es st \<Longrightarrow> length es + k \<le> n \<Longrightarrow> inv m \<Longrightarrow>
     \<exists>es' st' m'. l2_pass_loop h (length es) k st m = Some (st', m') \<and> inv m' \<and> pass_at P es' st'
       \<and> length es' = length es + k"
proof (induction k arbitrary: es st m)
  case 0
  then show ?case by (intro exI [of _ es]) simp
next
  case (Suc k)
  have "length es < n" using Suc.prems(3) by simp
  from pass_step_exact [OF Suc.prems(1,2) this Suc.prems(4)] obtain e st1 m1 where
    s: "l2_pass_step h (length es) st m = Some (st1, m1)" "inv m1" "pass_at P (es @ [e]) st1" by blast
  have "length (es @ [e]) + k \<le> n" using Suc.prems(3) by simp
  from Suc.IH [OF Suc.prems(1) s(3) this s(2)] s(1) show ?case by auto
qed

subsection \<open>Validation and shifting\<close>

text \<open>The target of a later set is no line of an earlier one.\<close>

definition separate :: "EvBuildConf EvSet list \<Rightarrow> bool" where
  "separate es \<longleftrightarrow> sorted_wrt (\<lambda>e e'. distinct (map line (target_addr e' # ev_lines e))) es"

lemma used_separate: "lines_distinct (used es) \<Longrightarrow> separate es"
proof (induction es)
  case (Cons e es)
  have "used es \<subseteq># used (e # es)" by (simp add: used_def subset_mset.add_mono)
  then have "separate es" using Cons.IH lines_distinct_sub [OF Cons.prems] by blast
  moreover have "distinct (map line (target_addr e' # ev_lines e))" if "e' \<in> set es" for e'
  proof (rule lines_distinct_list [OF Cons.prems])
    have "{#target_addr e'#} \<subseteq># mset (map target_addr es)" using that by auto
    then show "mset (target_addr e' # ev_lines e) \<subseteq># used (e # es)"
      by (simp add: used_def)
  qed
  ultimately show ?case by (simp add: separate_def)
qed (simp add: separate_def)

lemma validate_self_exact:
  "\<forall>e \<in> set es. fits e \<Longrightarrow> inv m \<Longrightarrow> \<exists>m'. validate_self h g (map Some es) m = Some (True, m') \<and> inv m'"
proof (induction es arbitrary: m)
  case (Cons e es)
  then have "fits e" by simp
  from fits_verify [OF this Cons.prems(2)] obtain m1 where
    "verify_evset h g e (target_addr e) m = Some (OK, m1)" "inv m1" by blast
  with Cons.IH [of m1] Cons.prems(1) show ?case by (simp add: fits_def)
qed simp

lemma validate_later_exact:
  "fits e \<Longrightarrow> \<forall>e' \<in> set es. \<not> cong (target_addr e') (target_addr e) \<and> distinct (map line (target_addr e' # ev_lines e))
     \<Longrightarrow> inv m \<Longrightarrow> \<exists>m'. validate_later h g conf e (map Some es) m = Some (True, m') \<and> inv m'"
proof (induction es arbitrary: m)
  case (Cons e' es)
  then obtain m1 where "test_eviction_detailed h g (target_addr e') (ev_addrs e) (ev_size e) conf m = Some (EV_NEG, m1)" "inv m1"
    using fits_detailed [OF Cons.prems(1,3), of "target_addr e'"] by auto
  with Cons.IH [of m1] Cons.prems show ?case by simp
qed simp

lemma validate_pairs_exact:
  "apart es \<Longrightarrow> separate es \<Longrightarrow> inv m \<Longrightarrow> \<exists>m'. validate_pairs h g conf (map Some es) m = Some (True, m') \<and> inv m'"
proof (induction es arbitrary: m)
  case (Cons e es)
  have "fits e" and later: "\<forall>e' \<in> set es. \<not> cong (target_addr e') (target_addr e)
      \<and> distinct (map line (target_addr e' # ev_lines e))" and rest: "apart es" "separate es"
    using Cons.prems(1,2) by (auto simp: apart_def separate_def)
  from validate_later_exact [OF this(1,2) Cons.prems(3)] obtain m1 where
    "validate_later h g conf e (map Some es) m = Some (True, m1)" "inv m1" by blast
  with Cons.IH [OF rest, of m1] show ?case by simp
qed simp

lemma validate_exact:
  assumes "apart es" "separate es" "es \<noteq> []" "inv m"
  shows "\<exists>m'. validate_l2_evsets h g (map Some es) conf m = Some (True, m') \<and> inv m'"
proof -
  have "\<forall>e \<in> set es. fits e" using assms(1) by (simp add: apart_def)
  from validate_self_exact [OF this assms(4)] obtain m1 where
    "validate_self h g (map Some es) m = Some (True, m1)" "inv m1" by blast
  with validate_pairs_exact [OF assms(1,2), of m1] assms(3) show ?thesis by (simp add: validate_l2_evsets_def)
qed

text \<open>What shifting makes of a set.\<close>

definition shifted :: "u32 \<Rightarrow> EvBuildConf EvSet \<Rightarrow> EvBuildConf EvSet" where
  "shifted off e = e\<lparr>target_addr := page_shift off (target_addr e),
     ev_addrs := map (page_shift off) (ev_lines e) @ replicate (ev_cap e - W) 0\<rparr>"

lemma shift_row_exact:
  "\<forall>e \<in> set es. fits e \<Longrightarrow> inv m \<Longrightarrow>
     \<exists>m'. shift_row h off (map Some es) m = Some (map (Some \<circ> shifted off) es, m') \<and> inv m'"
proof (induction es arbitrary: m)
  case (Cons e es)
  have e: "ev_size e = W" "W \<le> length (ev_addrs e)" "W \<le> ev_cap e" using Cons.prems(1) by (auto simp: fits_def ev_ok_def)
  obtain p m1 where p: "os_calloc h 56 m = (Some p, m1)" "inv m1" using calloc_ok [OF Cons.prems(2)] by blast
  obtain q m2 where q: "os_calloc h (ev_cap e * 8) m1 = (Some q, m2)" "inv m2" using calloc_ok [OF p(2)] by blast
  have "evset_shift h (Some e) off m = Some (Some (shifted off e), m2)"
    using p(1) q(1) e by (simp add: evset_shift_def arr_simps shifted_def)
  with Cons.IH [of m2] Cons.prems(1) q(2) show ?case by auto
qed simp

lemma shift_rows_exact:
  "\<forall>e \<in> set es. fits e \<Longrightarrow> inv m \<Longrightarrow>
     \<exists>m'. shift_rows h cl (map Some es) ns m = Some (map (\<lambda>n. Some (map (Some \<circ> shifted (of_nat n * cl)) es)) ns, m') \<and> inv m'"
proof (induction ns arbitrary: m)
  case (Cons n ns)
  obtain p m1 where p: "os_calloc h (length es * 8) m = (Some p, m1)" "inv m1" using calloc_ok [OF Cons.prems(2)] by blast
  obtain m2 where r: "shift_row h (of_nat n * cl) (map Some es) m1 = Some (map (Some \<circ> shifted (of_nat n * cl)) es, m2)" "inv m2"
    using shift_row_exact [OF Cons.prems(1) p(2)] by blast
  from Cons.IH [OF Cons.prems(1) r(2)] p(1) r(1) show ?case by auto
qed simp

subsection \<open>The complex\<close>

definition complex_of :: "nat \<Rightarrow> EvBuildConf EvSet list \<Rightarrow> l2_complex" where
  "complex_of n_offsets es = Some (map Some es)
     # map (\<lambda>n. Some (map (Some \<circ> shifted (of_nat n * cl_size (l2_info g))) es)) [1..<n_offsets]"

lemma whole_exact:
  assumes "inv m" "0 < n_unc"
    and cands: "\<And>m1. inv m1 \<Longrightarrow> os_calloc h (n_offsets * 8) m = (Some p, m1) \<Longrightarrow>
        \<exists>c m2. l2_own_cands h g conf None m1 = Some (Some c, m2) \<and> inv m2 \<and> pool_ok c \<and> pool c = P"
    and "os_calloc h (n_offsets * 8) m = (Some p, m1)" "rich n_unc P"
  shows "\<exists>es m'. l2_whole h g conf n_offsets n_unc m = Some (Inr (True, complex_of n_offsets es, conf, g), m')
     \<and> inv m' \<and> apart es \<and> length es = n_unc \<and> used es \<subseteq># P"
proof -
  have i1: "inv m1" using keeps_calloc [OF assms(1), of "n_offsets * 8"] assms(4) by simp
  obtain c m2 where c: "l2_own_cands h g conf None m1 = Some (Some c, m2)" "inv m2" "pool_ok c" "pool c = P"
    using cands [OF i1 assms(4)] by blast
  obtain q m3 where q: "os_calloc h (n_unc * 8) m2 = (Some q, m3)" "inv m3" using calloc_ok [OF c(2)] by blast
  obtain a where a: "a \<in># P" using assms(2,5) unfolding rich_def by (metis empty_set length_0_conv subset_empty subsetI list.size(3) empty_iff)
  have "free_target 0 [] a" using a assms(5) W_ways(2) by (auto simp: rich_def free_target_def)
  moreover have "lines_distinct (pool c + mset [])" using assms(5) c(4) by (simp add: rich_def)
  ultimately obtain t c2 m4 where t: "pick_l2_target h g c 0 [] 0 conf m3 = Some ((Some t, c2), m4)" "inv m4" "pool_ok c2"
      "P = add_mset t (pool c2)"
    using pick_free [OF q(2) c(3), of "[]" a 0] a c(4) by auto
  let ?st = "\<lparr>lp_cands = c2, lp_target = t, lp_all = [], lp_built = [], lp_row = [], lp_conf = conf, lp_g = g\<rparr>"
  have "pass_at P [] ?st" using t(3,4) by (simp add: pass_at_def apart_def)
  from pass_loop_exact [OF assms(5) this, of n_unc m4] t(2) obtain es st m5 where
    l: "l2_pass_loop h 0 n_unc ?st m4 = Some (st, m5)" "inv m5" "pass_at P es st" "length es = n_unc" by auto
  have st: "lp_conf st = conf" "lp_g st = g" "apart es" "lp_row st = map Some es" "es \<noteq> []" "used es \<subseteq># P"
    using l(3,4) assms(2) by (auto simp: pass_at_def)
  have "separate es" using st(6) assms(5) used_separate lines_distinct_sub by (auto simp: rich_def)
  have fits: "\<forall>e \<in> set es. fits e" using st(3) by (simp add: apart_def)
  obtain m6 where r: "shift_rows h (cl_size (l2_info g)) (map Some es) [1..<n_offsets] m5 =
      Some (map (\<lambda>n. Some (map (Some \<circ> shifted (of_nat n * cl_size (l2_info g))) es)) [1..<n_offsets], m6)" "inv m6"
    using shift_rows_exact [OF fits l(2)] by blast
  obtain m7 where v: "validate_l2_evsets h g (map Some es) conf m6 = Some (True, m7)" "inv m7"
    using validate_exact [OF st(3) \<open>separate es\<close> st(5) r(2)] by blast
  have "length (filter (\<lambda>e. e \<noteq> None) (map Some es)) = n_unc" using l(4) by (simp add: filter_map comp_def)
  then have "l2_whole h g conf n_offsets n_unc m = Some (Inr (True, complex_of n_offsets es, conf, g), m7)"
    using assms(4) c(1) q(1) t(1) l(1) st r(1) v(1) by (simp add: l2_whole_def complex_of_def del: filter_map)
  with v(2) st(3,6) l(4) show ?thesis by blast
qed

end

end
