(* ===== verification/Lru_L2.thy ===== *)
theory Lru_L2
  imports L2_Exact
begin

text \<open>
  The L2 builder on the machine with least recently used replacement. The pages of its buffer
  may lie anywhere in physical memory, as long as there are enough of every colour.
\<close>

subsection \<open>The machine as a truthful one\<close>

lemma ALIGN_UP_aligned: "ALIGNED (ALIGN_UP x PAGE_SHIFT) PAGE_SHIFT"
proof -
  have "push_bit n y AND mask n = 0" for n and y :: u64
    by (rule bit_eqI) (auto simp: bit_simps)
  then show ?thesis
    by (auto simp: ALIGN_UP_def ALIGN_NEXT_def ALIGNED_def SHIFT_MASK_mask PAGE_SHIFT_def)
qed

locale lru_l2 = lru_machine cfg g conf for cfg g conf +
  assumes fixed: "init_def_l2_conf g conf = (conf, g)"
    and info: "l2_info g = lru_cache cfg"
    and ways: "2 \<le> lru_ways cfg" "2 * lru_ways cfg < 2 ^ 32"
    and sib: "0 \<le> unknown_sib (lru_cache cfg)" "unknown_sib (lru_cache cfg) < 30"

sublocale lru_l2 \<subseteq> l2: l2_exact "lru_hw cfg" g conf "lru_inv cfg" "lru_line cfg"
  "same_set (lru_cache cfg) (lru_tr cfg)" "lru_ways cfg"
proof
  have conf: "fst (init_def_l2_conf g conf) = conf" by (simp add: fixed)
  fix m cnt cs t assume i: "lru_inv cfg m" and n: "cnt \<le> length (cs :: addr list)"
  from test_rounds_returns [OF lru_trial_keeps [OF n, of cfg g t conf] i]
  show "\<exists>r m'. test_eviction_detailed (lru_hw cfg) g t cs cnt conf m = Some (r, m') \<and> lru_inv cfg m'"
    unfolding test_eviction_detailed_def Let_def conf by blast
  fix r m' assume "distinct (map (lru_line cfg) (t # take cnt cs))"
    "test_eviction_detailed (lru_hw cfg) g t cs cnt conf m = Some (r, m')"
  with lru_detailed_truthful [OF cfg_ok i n, of t conf]
  show "r = (if lru_ways cfg \<le> length (filter (same_set (lru_cache cfg) (lru_tr cfg) t) (take cnt cs)) then EV_POS else EV_NEG)"
    by (auto simp: conf)
next
  fix m n p m' assume "os_mmap (lru_hw cfg) n m = (Some p, m')"
  then show "ALIGNED p PAGE_SHIFT" using ALIGN_UP_aligned by (auto simp: lru_hw_def lru_mmap_def Let_def)
qed (use fixed info ways sib in \<open>auto simp: same_set_def lru_hw_def lru_mmap_def Let_def lru_inv_def lru_read_inv [unfolded lru_inv_def]\<close>)

subsection \<open>The colours of pages\<close>

text \<open>The colour of the frame behind an address, and what the address adds to it.\<close>

definition page_color :: "lru_cfg \<Rightarrow> addr \<Rightarrow> nat" where
  "page_color cfg a = unat (cache_get_color (lru_tr cfg a) (lru_cache cfg))"

lemma lru_set_color:
  assumes "geometry_ok (lru_cache cfg)" "idx_bits (lru_cache cfg) \<le> 32" "pagewise (lru_tr cfg)"
    "unat b div 4096 = unat a div 4096" "unat b mod 4096 = n * 2 ^ cl_bits (lru_cache cfg)"
  shows "lru_set cfg b = page_color cfg a * 2 ^ (12 - cl_bits (lru_cache cfg)) + n"
proof -
  have "unat (lru_tr cfg b) mod 4096 = unat b mod 4096"
    and frame: "unat (lru_tr cfg b) div 4096 = unat (lru_tr cfg a) div 4096"
    using assms(3,4) unfolding pagewise_def by blast+
  then have tr: "unat (lru_tr cfg b) mod 4096 = n * 2 ^ cl_bits (lru_cache cfg)"
      "unat (lru_tr cfg b) div 4096 = unat (lru_tr cfg a) div 4096"
    using assms(5) by simp_all
  show ?thesis
    by (simp add: lru_set_def lru_line_def page_color_def sib_split [OF assms(1)] tr
      cache_get_color_arith [OF assms(1,2)])
qed

definition l2_pages :: "globals \<Rightarrow> EvBuildConf \<Rightarrow> lru_state \<Rightarrow> addr list" where
  "l2_pages g conf m = cand_addrs \<lparr>buf = ALIGN_UP (lru_top m) PAGE_SHIFT,
     n_pages = cache_uncertainty (l2_info g) * ucast (n_ways (l2_info g)) * of_nat (cand_scale conf),
     evb_ref_cnt = 1\<rparr> 0"

lemma l2_pages_aligned: "a \<in> set (l2_pages g conf m) \<Longrightarrow> unat a mod 4096 = 0"
proof -
  assume "a \<in> set (l2_pages g conf m)"
  then obtain n where a: "a = ALIGN_UP (lru_top m) PAGE_SHIFT + of_nat n * PAGE_SIZE"
    by (auto simp: l2_pages_def cand_addrs_def)
  have "take_bit 12 (ALIGN_UP (lru_top m) PAGE_SHIFT) = 0"
    using ALIGN_UP_aligned [of "lru_top m"] by (simp add: ALIGNED_def SHIFT_MASK_mask PAGE_SHIFT_def take_bit_eq_mask)
  then have up: "unat (ALIGN_UP (lru_top m) PAGE_SHIFT) mod 4096 = 0"
    using unsigned_take_bit_eq [where ?'a = nat, of 12 "ALIGN_UP (lru_top m) PAGE_SHIFT"]
    by (simp only: take_bit_eq_mod [where ?'a = nat]) simp
  have d: "(4096 :: nat) dvd 2 ^ 64" by simp
  have m: "unat (x + y) mod 4096 = (unat x + unat y) mod 4096" "unat (x * y) mod 4096 = (unat x * unat y) mod 4096" for x y :: u64
    using mod_mod_cancel [OF d] by (simp_all add: unat_word_ariths)
  have "unat (of_nat n * PAGE_SIZE) mod 4096 = 0" unfolding m by (simp add: PAGE_SIZE_def)
  with up show "unat a mod 4096 = 0" unfolding a m(1) by (simp only: mod_eq_0_iff_dvd dvd_add)
qed

lemma mmap_init_para_fst: "fst (mmap_shared_init_para h g sz v m) = fst (os_mmap h sz m)"
  by (simp add: mmap_shared_init_para_def mmap_shared_def Let_def split: prod.splits option.splits)

context lru_l2
begin

lemma geometry: "geometry_ok (lru_cache cfg)" "idx_bits (lru_cache cfg) \<le> 32"
  using cfg_ok by (auto simp: lru_ok_def)

lemma lru_own_cands:
  assumes "lru_inv cfg m"
  shows "\<exists>c m'. l2_own_cands (lru_hw cfg) g conf None m = Some (Some c, m') \<and> lru_inv cfg m' \<and> pool_ok c
     \<and> pool c = mset (l2_pages g conf m)"
proof -
  have calloc: "os_calloc (lru_hw cfg) n m = (Some 0x10, m)" for n m by (simp add: lru_hw_def)
  let ?n = "cache_uncertainty (l2_info g) * ucast (n_ways (l2_info g)) * of_nat (cand_scale conf)"
  let ?p = "ALIGN_UP (lru_top m) PAGE_SHIFT"
  obtain p m1 where p: "mmap_shared_init_para (lru_hw cfg) g (unat (?n * PAGE_SIZE)) 0 m = (p, m1)" by fastforce
  have "p = Some ?p"
    using arg_cong [OF p, of fst] by (simp add: mmap_init_para_fst lru_hw_def lru_mmap_def Let_def)
  moreover note l2.mmap_para_keeps [OF assms p]
  ultimately have new: "evcands_new (lru_hw cfg) g (l2_info g) conf None m =
      Some (Some \<lparr>cands_scale = 0, evb = \<lparr>buf = ?p, n_pages = ?n, evb_ref_cnt = 1\<rparr>, cands_addrs = [],
        cands_count = 0, cands_ref_cnt = 0, cands_cache = Some (l2_info g)\<rparr>, m1)" and i: "lru_inv cfg m1"
    using p by (simp_all add: evcands_new_def evbuffer_new_def calloc Let_def)
  show ?thesis
    using l2.touch_keeps [OF i] new
    by (simp add: l2_own_cands_def evcands_populate_def calloc l2.conf_facts Let_def pool_ok_def pool_def l2_pages_def
      cand_addrs_def)
qed

lemma pages_cong:
  assumes "pagewise (lru_tr cfg)" "unat a mod 4096 = 0" "unat b mod 4096 = 0"
  shows "same_set (lru_cache cfg) (lru_tr cfg) a b \<longleftrightarrow> page_color cfg a = page_color cfg b"
proof -
  have "lru_set cfg x = page_color cfg x * 2 ^ (12 - cl_bits (lru_cache cfg)) + 0" if "unat x mod 4096 = 0" for x
    by (rule lru_set_color [OF geometry assms(1) refl]) (simp add: that)
  with assms(2,3) show ?thesis by (simp add: lru_set_same_set [OF geometry])
qed

lemma pages_rich:
  assumes "pagewise (lru_tr cfg)" "distinct (map (lru_line cfg) (l2_pages g conf m))" "0 \<notin> set (l2_pages g conf m)"
    and many: "\<And>k. k < 2 ^ nat (unknown_sib (lru_cache cfg)) \<Longrightarrow>
          lru_ways cfg < length (filter (\<lambda>a. page_color cfg a = k) (l2_pages g conf m))"
    and "n \<le> 2 ^ nat (unknown_sib (lru_cache cfg))"
  shows "l2.rich n (mset (l2_pages g conf m))"
proof -
  let ?ps = "l2_pages g conf m" and ?cong = "same_set (lru_cache cfg) (lru_tr cfg)"
  have col: "?cong a b \<longleftrightarrow> page_color cfg a = page_color cfg b" if "a \<in> set ?ps" "b \<in> set ?ps" for a b
    by (rule pages_cong [OF assms(1) l2_pages_aligned [OF that(1)] l2_pages_aligned [OF that(2)]])
  have below: "page_color cfg a < 2 ^ nat (unknown_sib (lru_cache cfg))" for a
  proof -
    have "unknown_sib (lru_cache cfg) = calc_unknown_sib (lru_cache cfg)" using geometry(1) by (simp add: geometry_ok_def)
    then show ?thesis
      by (simp add: page_color_def cache_get_color_arith [OF geometry] calc_unknown_sib_int [OF geometry(1)])
  qed
  have "lru_ways cfg < size (filter_mset (?cong a) (mset ?ps))" if a: "a \<in> set ?ps" for a
  proof -
    have "filter (?cong a) ?ps = filter (\<lambda>b. page_color cfg b = page_color cfg a) ?ps"
      using col [OF a] by (intro filter_cong) auto
    then show ?thesis using many [OF below, of a] by (simp flip: mset_filter)
  qed
  moreover have "\<exists>a \<in> set ?ps. \<forall>t \<in> set ts. \<not> ?cong a t" if ts: "set ts \<subseteq> set ?ps" "length ts < n" for ts
  proof -
    have "card (page_color cfg ` set ts) < 2 ^ nat (unknown_sib (lru_cache cfg))"
      using ts(2) assms(5) card_image_le [of "set ts" "page_color cfg"] card_length [of ts] by simp
    then have "\<not> {..<2 ^ nat (unknown_sib (lru_cache cfg))} \<subseteq> page_color cfg ` set ts"
      using card_mono [of "page_color cfg ` set ts" "{..<2 ^ nat (unknown_sib (lru_cache cfg))}"] by auto
    then obtain k where k: "k < 2 ^ nat (unknown_sib (lru_cache cfg))" "k \<notin> page_color cfg ` set ts" by auto
    have "filter (\<lambda>a. page_color cfg a = k) ?ps \<noteq> []" using many [OF k(1)] by auto
    then obtain a where "a \<in> set ?ps" "page_color cfg a = k" by (auto simp: filter_empty_conv)
    with k(2) col ts(1) show ?thesis by (metis imageI subsetD)
  qed
  ultimately show ?thesis
    unfolding l2.rich_def using assms(2,3) by (simp add: l2.lines_distinct_mset)
qed

lemma whole_lru:
  assumes "lru_inv cfg m" "0 < n_unc" "l2.rich n_unc (mset (l2_pages g conf m))"
  shows "\<exists>es m'. l2_whole (lru_hw cfg) g conf n_offsets n_unc m =
       Some (Inr (True, l2.complex_of n_offsets es, conf, g), m')
     \<and> l2.apart es \<and> length es = n_unc \<and> l2.used es \<subseteq># mset (l2_pages g conf m)"
proof -
  have calloc: "os_calloc (lru_hw cfg) (n_offsets * 8) m = (Some 0x10, m)" by (simp add: lru_hw_def)
  have "\<exists>es m'. l2_whole (lru_hw cfg) g conf n_offsets n_unc m =
       Some (Inr (True, l2.complex_of n_offsets es, conf, g), m')
     \<and> lru_inv cfg m' \<and> l2.apart es \<and> length es = n_unc \<and> l2.used es \<subseteq># mset (l2_pages g conf m)"
    by (rule l2.whole_exact [OF assms(1,2) _ calloc assms(3)]) (use calloc lru_own_cands [OF assms(1)] in auto)
  then show ?thesis by blast
qed

text \<open>A set of the complex, seen from its target at offset 0.\<close>

lemma shifted_sets:
  assumes "pagewise (lru_tr cfg)" "l2.fits e" "n < 2 ^ (12 - cl_bits (lru_cache cfg))"
    "cl_size (lru_cache cfg) = 2 ^ cl_bits (lru_cache cfg)"
    "\<forall>a \<in> set (target_addr e # take (lru_ways cfg) (ev_addrs e)). unat a mod 4096 = 0"
  defines "e' \<equiv> if n = 0 then e else l2.shifted (of_nat n * cl_size (l2_info g)) e"
  shows "ev_size e' = lru_ways cfg"
    and "\<forall>a \<in> set (target_addr e' # take (lru_ways cfg) (ev_addrs e')).
       lru_set cfg a = page_color cfg (target_addr e) * 2 ^ (12 - cl_bits (lru_cache cfg)) + n"
proof -
  let ?cl = "cl_bits (lru_cache cfg)" and ?W = "lru_ways cfg" and ?off = "of_nat n * cl_size (l2_info g) :: u32"
  have f: "ev_size e = ?W" "length (take ?W (ev_addrs e)) = ?W"
      "\<forall>a \<in> set (take ?W (ev_addrs e)). same_set (lru_cache cfg) (lru_tr cfg) (target_addr e) a"
    using assms(2) l2.fits_lines by (auto simp: l2.fits_def)
  show "ev_size e' = ?W" using f(1) by (simp add: e'_def l2.shifted_def)
  have cl: "?cl \<le> 12" using geometry(1) by (simp add: geometry_ok_def)
  have lt: "n * 2 ^ ?cl < 4096"
  proof -
    have "n * 2 ^ ?cl < 2 ^ (12 - ?cl) * 2 ^ ?cl" using assms(3) by simp
    also have "\<dots> = 2 ^ 12" using cl by (simp flip: power_add)
    finally show ?thesis by simp
  qed
  have off: "unat ?off = n * 2 ^ ?cl"
  proof -
    have o: "?off = of_nat (n * 2 ^ ?cl)" by (simp add: info assms(4))
    have "unat (of_nat k :: u32) = k" if "k < 4096" for k
      using that by (simp add: unsigned_of_nat take_bit_nat_eq_self)
    from this [OF lt] show ?thesis unfolding o .
  qed
  have col: "page_color cfg a = page_color cfg (target_addr e)" if "a \<in> set (target_addr e # take ?W (ev_addrs e))" for a
    using that f(3) assms(5) pages_cong [OF assms(1), of "target_addr e" a] by auto
  have at: "lru_set cfg a = page_color cfg (target_addr e) * 2 ^ (12 - ?cl)"
    if "a \<in> set (target_addr e # take ?W (ev_addrs e))" for a
    using lru_set_color [OF geometry assms(1) refl, of a 0] col [OF that] assms(5) that by auto
  have sh: "lru_set cfg (page_shift ?off a) = page_color cfg (target_addr e) * 2 ^ (12 - ?cl) + n"
    if "a \<in> set (target_addr e # take ?W (ev_addrs e))" for a
  proof -
    have "unat ?off < 4096" using lt off by simp
    from page_shift_page [OF this] off lru_set_color [OF geometry assms(1), of "page_shift ?off a" a n] col [OF that]
    show ?thesis by simp
  qed
  show "\<forall>a \<in> set (target_addr e' # take ?W (ev_addrs e')).
       lru_set cfg a = page_color cfg (target_addr e) * 2 ^ (12 - ?cl) + n"
  proof (cases "n = 0")
    case True
    with at show ?thesis by (simp add: e'_def)
  next
    case False
    have "take ?W (ev_addrs e') = map (page_shift ?off) (take ?W (ev_addrs e))"
      using False f(2) by (simp add: e'_def l2.shifted_def)
    with False sh show ?thesis by (simp add: e'_def l2.shifted_def)
  qed
qed

end

text \<open>The sets of a complex that was built, as a table.\<close>

definition complex_set :: "l2_complex \<Rightarrow> nat \<Rightarrow> nat \<Rightarrow> EvBuildConf EvSet" where
  "complex_set x n i = the (the (x ! n) ! i)"

context lru_l2
begin

lemma complex_entry:
  assumes "n < n_offsets" "i < length es"
  shows "\<exists>row. l2.complex_of n_offsets es ! n = Some row \<and> length row = length es
     \<and> row ! i = Some (complex_set (l2.complex_of n_offsets es) n i)
     \<and> complex_set (l2.complex_of n_offsets es) n i =
         (if n = 0 then es ! i else l2.shifted (of_nat n * cl_size (l2_info g)) (es ! i))"
  using assms by (cases n) (auto simp: l2.complex_of_def complex_set_def)

text \<open>What is known of every entry of the table, by its colour.\<close>

lemma complex_sets:
  assumes "pagewise (lru_tr cfg)" "l2.apart es" "l2.used es \<subseteq># mset (l2_pages g conf m)"
    "cl_size (lru_cache cfg) = 2 ^ cl_bits (lru_cache cfg)" "n_offsets = 2 ^ (12 - cl_bits (lru_cache cfg))"
    "n < n_offsets" "i < length es"
  defines "e' \<equiv> complex_set (l2.complex_of n_offsets es) n i"
  shows "ev_size e' = lru_ways cfg"
    and "\<forall>a \<in> set (target_addr e' # take (lru_ways cfg) (ev_addrs e')).
       lru_set cfg a = page_color cfg (target_addr (es ! i)) * n_offsets + n"
proof -
  let ?e = "es ! i"
  have fits: "l2.fits ?e" using assms(2,7) by (simp add: l2.apart_def)
  have "set (target_addr ?e # take (lru_ways cfg) (ev_addrs ?e)) \<subseteq> set_mset (l2.used es)"
    using assms(7) by (force simp: l2.used_def)
  also have "\<dots> \<subseteq> set (l2_pages g conf m)" using assms(3) by (metis set_mset_mono set_mset_mset)
  finally have "\<forall>a \<in> set (target_addr ?e # take (lru_ways cfg) (ev_addrs ?e)). unat a mod 4096 = 0"
    using l2_pages_aligned by blast
  note s = shifted_sets [OF assms(1) fits assms(6) [unfolded assms(5)] assms(4) this]
  have e': "e' = (if n = 0 then ?e else l2.shifted (of_nat n * cl_size (l2_info g)) ?e)"
    unfolding e'_def using complex_entry [OF assms(6,7)] by blast
  show "ev_size e' = lru_ways cfg" unfolding e' by (rule s(1))
  show "\<forall>a \<in> set (target_addr e' # take (lru_ways cfg) (ev_addrs e')).
       lru_set cfg a = page_color cfg (target_addr (es ! i)) * n_offsets + n"
    unfolding e' assms(5) by (rule s(2))
qed

lemma apart_colors:
  assumes "pagewise (lru_tr cfg)" "l2.apart es" "l2.used es \<subseteq># mset (l2_pages g conf m)"
    "i < length es" "j < length es" "page_color cfg (target_addr (es ! i)) = page_color cfg (target_addr (es ! j))"
  shows "i = j"
proof (rule ccontr)
  have "\<forall>e \<in> set es. target_addr e \<in># l2.used es" by (auto simp: l2.used_def)
  moreover have "set_mset (l2.used es) \<subseteq> set (l2_pages g conf m)"
    using assms(3) by (metis set_mset_mono set_mset_mset)
  ultimately have al: "unat (target_addr (es ! k)) mod 4096 = 0" if "k < length es" for k
    using l2_pages_aligned that nth_mem by blast
  have c: "same_set (lru_cache cfg) (lru_tr cfg) (target_addr (es ! a)) (target_addr (es ! b))"
    if "a \<in> {i, j}" "b \<in> {i, j}" for a b
    using that assms(4-6) pages_cong [OF assms(1) al al] by auto
  have ap: "\<not> same_set (lru_cache cfg) (lru_tr cfg) (target_addr (es ! b)) (target_addr (es ! a))"
    if "a < b" "b < length es" for a b
    using assms(2) that by (simp add: l2.apart_def sorted_wrt_iff_nth_less)
  assume "i \<noteq> j"
  with ap [of i j] ap [of j i] c assms(4,5) show False by (cases "i < j") auto
qed

end

lemma lru_ok_init: "lru_ok cfg g \<Longrightarrow> init_def_l2_conf g c = (conf, g') \<Longrightarrow> lru_ok cfg g'"
  by (auto simp: init_def_l2_conf_def Let_def lru_ok_def)

subsection \<open>Properties\<close>

text \<open>
  C1: on a core with least recently used replacement, when every page colour has more pages in
  the buffer than the L2 has ways, the construction succeeds and returns, for every page
  offset and every uncertain set asked for, an eviction set of exactly as many lines as the
  L2 has ways that all map to the set of its target; and no two of all these sets
  belong to the same set of the L2. Asking for as many sets as the cache has thus covers
  the whole cache.
\<close>

theorem build_l2_evset_covers:
  assumes "lru_ok cfg g" and "lru_inv cfg m" and "l2_info g = lru_cache cfg" and "pagewise (lru_tr cfg)"
    and "2 \<le> lru_ways cfg" and "2 * lru_ways cfg < 2 ^ 32" and "unknown_sib (lru_cache cfg) < 30"
    and "cl_size (lru_cache cfg) = 2 ^ cl_bits (lru_cache cfg)"
    and "l2_counts g num_sets = Some (n_offsets, n_unc)" and "0 < n_unc"
    and "distinct (map (lru_line cfg) (l2_pages g (fst (init_def_l2_conf g c)) m))"
    and "0 \<notin> set (l2_pages g (fst (init_def_l2_conf g c)) m)"
    and "\<And>k. k < 2 ^ nat (unknown_sib (lru_cache cfg)) \<Longrightarrow>
          lru_ways cfg < length (filter (\<lambda>a. page_color cfg a = k) (l2_pages g (fst (init_def_l2_conf g c)) m))"
  shows "\<exists>x conf g' m'. build_l2_evset (lru_hw cfg) g c num_sets m = Some ((Some x, conf, g'), m')
     \<and> (\<forall>n < n_offsets. \<forall>i < n_unc. \<exists>row. x ! n = Some row \<and> length row = n_unc
          \<and> row ! i = Some (complex_set x n i) \<and> ev_size (complex_set x n i) = lru_ways cfg
          \<and> (\<forall>a \<in> set (take (lru_ways cfg) (ev_addrs (complex_set x n i))).
               lru_set cfg a = lru_set cfg (target_addr (complex_set x n i))))
     \<and> inj_on (\<lambda>(n, i). lru_set cfg (target_addr (complex_set x n i))) ({..<n_offsets} \<times> {..<n_unc})"
proof -
  obtain conf g' where i: "init_def_l2_conf g c = (conf, g')" by fastforce
  note i' = init_def_l2_conf_again [OF i]
  have sib: "0 \<le> unknown_sib (lru_cache cfg)" and off: "n_offsets = 4096 div unat (cl_size (lru_cache cfg))"
      and unc: "n_unc \<le> 2 ^ nat (unknown_sib (lru_cache cfg))"
    using assms(3,9) by (auto simp: l2_counts_def Let_def split: if_splits)
  have L: "lru_l2 cfg g' conf"
    by unfold_locales (use lru_ok_init [OF assms(1) i] i' assms(3,5,6,7) sib in auto)
  have pages: "l2_pages g' conf m = l2_pages g conf m" using i' by (simp add: l2_pages_def)
  have "l2_exact.rich (lru_line cfg) (same_set (lru_cache cfg) (lru_tr cfg)) (lru_ways cfg) n_unc (mset (l2_pages g' conf m))"
    by (rule lru_l2.pages_rich [OF L assms(4) _ _ _ unc]) (use assms(11-13) i pages in auto)
  from lru_l2.whole_lru [OF L assms(2,10) this] obtain es m' where
    w: "l2_whole (lru_hw cfg) g' conf n_offsets n_unc m =
        Some (Inr (True, l2_exact.complex_of g' (lru_ways cfg) n_offsets es, conf, g'), m')"
      "l2_exact.apart g' conf (lru_line cfg) (same_set (lru_cache cfg) (lru_tr cfg)) (lru_ways cfg) es"
      "length es = n_unc" "l2_exact.used (lru_ways cfg) es \<subseteq># mset (l2_pages g' conf m)"
    by blast
  let ?x = "l2_exact.complex_of g' (lru_ways cfg) n_offsets es"
  have unc1: "n_unc = length es" using w(3) by simp
  have cl: "cl_bits (lru_cache cfg) \<le> 12" using assms(1) by (simp add: lru_ok_def geometry_ok_def)
  then have "unat (cl_size (lru_cache cfg)) = 2 ^ cl_bits (lru_cache cfg)"
    unfolding assms(8) by (intro unat_2p) simp
  moreover have "(4096 :: nat) div 2 ^ cl_bits (lru_cache cfg) = 2 ^ (12 - cl_bits (lru_cache cfg))"
    using cl power_diff [of "2::nat" "cl_bits (lru_cache cfg)" 12] by simp
  ultimately have o: "n_offsets = 2 ^ (12 - cl_bits (lru_cache cfg))" using off by simp
  note entry = lru_l2.complex_entry [OF L, of _ n_offsets _ es] and
    sets = lru_l2.complex_sets [OF L assms(4) w(2,4) assms(8) o]
  have "build_l2_evset (lru_hw cfg) g c num_sets m = Some ((Some ?x, conf, g'), m')"
    using w(1) i assms(9) by (simp add: build_l2_evset_def)
  moreover have "\<exists>row. ?x ! n = Some row \<and> length row = n_unc
          \<and> row ! i = Some (complex_set ?x n i) \<and> ev_size (complex_set ?x n i) = lru_ways cfg
          \<and> (\<forall>a \<in> set (take (lru_ways cfg) (ev_addrs (complex_set ?x n i))).
               lru_set cfg a = lru_set cfg (target_addr (complex_set ?x n i)))"
    if n: "n < n_offsets" and k: "i < n_unc" for n i
  proof -
    have k': "i < length es" using k unc1 by simp
    obtain row where "?x ! n = Some row" "length row = n_unc" "row ! i = Some (complex_set ?x n i)"
      using entry [OF n k'] unc1 by blast
    with sets [OF n k'] show ?thesis by simp
  qed
  moreover have "inj_on (\<lambda>(n, i). lru_set cfg (target_addr (complex_set ?x n i))) ({..<n_offsets} \<times> {..<n_unc})"
  proof (rule inj_onI, clarsimp)
    fix n i n' i' assume b: "n < n_offsets" "i < n_unc" "n' < n_offsets" "i' < n_unc"
      and eq: "lru_set cfg (target_addr (complex_set ?x n i)) = lru_set cfg (target_addr (complex_set ?x n' i'))"
    have s: "page_color cfg (target_addr (es ! i)) * n_offsets + n = page_color cfg (target_addr (es ! i')) * n_offsets + n'"
      using sets(2) [OF b(1), of i] sets(2) [OF b(3), of i'] b unc1 eq by simp
    from mult_add_inj [OF s b(1,3)] have "page_color cfg (target_addr (es ! i)) = page_color cfg (target_addr (es ! i'))" .
    with lru_l2.apart_colors [OF L assms(4) w(2,4)] b unc1 s show "n = n' \<and> i = i'" by auto
  qed
  ultimately show ?thesis by blast
qed

text \<open>A two way cache with two colours, for the concrete run.\<close>

definition small_l2 :: CacheInfo where
  "small_l2 = skx_l2\<lparr>n_ways := 2, n_sets := 128, n_set_idx_bits := 7, unknown_sib := 1\<rparr>"

definition small_cfg :: lru_cfg where
  "small_cfg = skx_cfg\<lparr>lru_cache := small_l2\<rparr>"

definition small_globals :: globals where
  "small_globals = flat_globals\<lparr>l2_info := small_l2\<rparr>"

lemma small_ok: "lru_ok small_cfg small_globals"
  using skx_cfg_ok
  by (simp add: lru_ok_def small_cfg_def small_globals_def small_l2_def skx_cfg_def geometry_ok_def skx_l2_def
    calc_unknown_sib_def PAGE_OFFSET_BITS_def flat_globals_def)

interpretation small: lru_l2 small_cfg "snd (init_def_l2_conf small_globals conf_zero)"
  "fst (init_def_l2_conf small_globals conf_zero)"
proof
  show "lru_ok small_cfg (snd (init_def_l2_conf small_globals conf_zero))"
    by (rule lru_ok_init [OF small_ok surjective_pairing])
  show "init_def_l2_conf (snd (init_def_l2_conf small_globals conf_zero)) (fst (init_def_l2_conf small_globals conf_zero))
      = (fst (init_def_l2_conf small_globals conf_zero), snd (init_def_l2_conf small_globals conf_zero))"
    using init_def_l2_conf_again [OF surjective_pairing] by blast
qed (simp_all add: small_cfg_def small_globals_def small_l2_def init_def_l2_conf_def Let_def)

lemma small_pages:
  "l2_pages small_globals (fst (init_def_l2_conf small_globals conf_zero)) lru_empty =
     map (\<lambda>n. 0x100000 + of_nat n * 0x1000) [0..<12]"
  by (simp add: l2_pages_def cand_addrs_def small_globals_def small_l2_def skx_l2_def flat_globals_def lru_empty_def
    init_def_l2_conf_def cache_uncertainty_def ALIGN_UP_def ALIGNED_def SHIFT_MASK_def PAGE_SHIFT_def PAGE_SIZE_def)

lemma swap_pagewise: "pagewise (\<lambda>a. a XOR 0x1000)"
proof -
  have b: "unat (a XOR 0x1000) = unat a XOR 0x1000" for a :: u64
    by (simp add: unsigned_xor_eq)
  have m: "(n XOR 0x1000) mod 4096 = n mod 4096" "(n XOR 0x1000) div 4096 = (n div 4096) XOR 1" for n :: nat
  proof -
    have "take_bit 12 (n XOR 0x1000) = take_bit 12 n" by (simp add: take_bit_xor)
    then show "(n XOR 0x1000) mod 4096 = n mod 4096" by (simp add: take_bit_eq_mod)
    have "drop_bit 12 (n XOR 0x1000) = drop_bit 12 n XOR 1" by (simp add: drop_bit_xor)
    then show "(n XOR 0x1000) div 4096 = (n div 4096) XOR 1" by (simp add: drop_bit_eq_div)
  qed
  show ?thesis unfolding pagewise_def b m by simp
qed

theorem build_l2_evset_covers_witness:
  "\<exists>x conf g' m'. build_l2_evset (lru_hw small_cfg) small_globals conf_zero 128 lru_empty = Some ((Some x, conf, g'), m')
     \<and> inj_on (\<lambda>(n, i). lru_set small_cfg (target_addr (complex_set x n i))) ({..<64} \<times> {..<2})"
proof -
  have col: "page_color small_cfg a = unat (a XOR 0x1000) div 4096 mod 2" for a
    using small.geometry cache_get_color_arith [OF small.geometry]
    by (simp add: page_color_def) (simp add: small_cfg_def small_l2_def skx_cfg_def skx_l2_def)
  have lin: "lru_line small_cfg a = unat (a XOR 0x1000) div 64" for a
    by (simp add: lru_line_def small_cfg_def small_l2_def skx_cfg_def skx_l2_def)
  have c: "l2_counts small_globals 128 = Some (64, 2)"
    by (simp add: l2_counts_def small_globals_def small_l2_def skx_l2_def wrap32_def)
  let ?ps = "l2_pages small_globals (fst (init_def_l2_conf small_globals conf_zero)) lru_empty"
  have d: "distinct (map (lru_line small_cfg) ?ps)" and z: "0 \<notin> set ?ps"
    by (simp_all add: small_pages lin upt_rec)
  have "lru_ways small_cfg < length (filter (\<lambda>a. page_color small_cfg a = k) ?ps)"
    if "k < 2 ^ nat (unknown_sib (lru_cache small_cfg))" for k
  proof -
    have "k = 0 \<or> k = 1" using that by (auto simp: small_cfg_def small_l2_def)
    moreover have "lru_ways small_cfg = 2" by (simp add: small_cfg_def small_l2_def)
    ultimately show ?thesis by (elim disjE) (simp_all add: small_pages col upt_rec)
  qed
  from build_l2_evset_covers [OF small_ok lru_empty_inv _ _ _ _ _ _ c _ d z this] swap_pagewise show ?thesis
    by (force simp: small_cfg_def small_globals_def small_l2_def skx_cfg_def skx_l2_def)
qed

end
