(* ===== verification/Evset_L3.thy ===== *)
theory Evset_L3
  imports Evset_L2
begin

text \<open>
  The construction of L3 eviction sets in src/evset.c: the search with retries
  (\<open>final_l3_evset\<close>), all sets of one page offset (\<open>build_evsets_at\<close>), a single set from nothing
  (\<open>build_single_l3_evset\<close>), the candidate pools of all L2 sets, and the reference counts of
  the buffers behind the pools.
\<close>

subsection \<open>final_l3_evset\<close>

text \<open>
  The loop over the retries. The result is the \<open>can_evict\<close> of the source with the set. A
  failed search tries again with the same target; a set that fails its test gives way to
  the last candidate as a new target.
\<close>

fun final_l3_loop ::
    "'m hw \<Rightarrow> globals \<Rightarrow> u64 \<Rightarrow> nat \<Rightarrow> addr \<Rightarrow> EvBuildConf EvSet \<Rightarrow> 'm
       \<Rightarrow> ((bool \<times> EvBuildConf EvSet) \<times> 'm) option" where
  "final_l3_loop h g timeout_start 0 target l3ev m = Some ((False, l3ev), m)"
| "final_l3_loop h g timeout_start (Suc r) target l3ev m = do {
     ((build_err, l3ev), m) \<leftarrow> build_evset_zhao h (conf_test h g) target (l3ev\<lparr>ev_size := 0\<rparr>) m;
     if build_err then final_l3_loop h g timeout_start r target l3ev m
     else do {
       (res, m) \<leftarrow> test_eviction h g target (ev_addrs l3ev) (ev_size l3ev) (build_conf l3ev) m;
       if res = OK then do {
         ((addrs, k), m) \<leftarrow> prune_evcands h (conf_test h g (build_conf l3ev)) target (ev_addrs l3ev) (ev_size l3ev) m;
         Some ((True, l3ev\<lparr>ev_addrs := addrs, ev_size := k\<rparr>), m)
       }
       else if cands_count (ev_cands l3ev) = 0 then Some ((False, l3ev), m)
       else do {
         t \<leftarrow> arr_get (cands_addrs (ev_cands l3ev)) (cands_count (ev_cands l3ev) - 1);
         let l3ev = l3ev\<lparr>target_addr := t,
                         ev_cands := (ev_cands l3ev)\<lparr>cands_count := cands_count (ev_cands l3ev) - 1\<rparr>\<rparr>;
         let (now, m) = (if retry_timeout (build_conf l3ev) = 0 then (timeout_start, m) else os_time_us h m);
         if retry_timeout (build_conf l3ev) \<noteq> 0
            \<and> unat (now - timeout_start) > wrap32 (retry_timeout (build_conf l3ev) * 1000)
         then Some ((False, l3ev), m)
         else final_l3_loop h g timeout_start r t l3ev m
       }
     }
   }"

text \<open>The result \<open>True\<close> is the error of the source.\<close>

definition final_l3_evset ::
    "'m hw \<Rightarrow> globals \<Rightarrow> EvBuildConf EvSet \<Rightarrow> 'm \<Rightarrow> ((bool \<times> EvBuildConf EvSet) \<times> 'm) option" where
  "final_l3_evset h g l3ev m =
     (let (start, m) = os_time_us h m
      in map_option (\<lambda>((can_evict, l3ev), m). ((\<not> can_evict, l3ev), m))
           (final_l3_loop h g start (verify_retry (build_conf l3ev)) (target_addr l3ev) l3ev m))"

subsection \<open>All sets at one page offset\<close>

text \<open>
  What the loop of \<open>build_evsets_at\<close> changes. The pointer \<open>cands->addrs\<close> moves forward over the
  lines of every finished set: \<open>ea_passed\<close> is the part of the array before it, the pool the
  part from it on. \<open>ea_addrs\<close> is the array of the lines found, with its length in use,
  \<open>None\<close> before it is allocated.
\<close>

record evsets_at =
  ea_passed :: "addr list"
  ea_cands :: EvCands
  ea_target :: addr
  ea_addrs :: "addr list option"
  ea_evsets :: "EvBuildConf EvSet option list"
  ea_conf :: EvBuildConf
  ea_skipped :: nat

text \<open>The first of the lower sets that evicts the target.\<close>

fun find_lower ::
    "'m hw \<Rightarrow> globals \<Rightarrow> EvBuildConf EvSet list \<Rightarrow> addr \<Rightarrow> 'm \<Rightarrow> (EvBuildConf EvSet option \<times> 'm) option" where
  "find_lower h g [] target m = Some (None, m)"
| "find_lower h g (e # es) target m = do {
     (r, m) \<leftarrow> verify_evset h g e target m;
     if r = OK then Some (Some e, m) else find_lower h g es target m
   }"

text \<open>The next target: the first candidate that the lines found so far do not evict.\<close>

function next_target_loop ::
    "'m hw \<Rightarrow> globals \<Rightarrow> EvBuildConf \<Rightarrow> addr list \<Rightarrow> EvCands \<Rightarrow> nat \<Rightarrow> 'm
       \<Rightarrow> ((addr option \<times> EvCands) \<times> 'm) option" where
  "next_target_loop h g conf addrs cands j m =
     (if j < cands_count cands then do {
        a \<leftarrow> arr_get (cands_addrs cands) j;
        (r, m) \<leftarrow> test_eviction h g a addrs (length addrs) conf m;
        if r = FAIL then do {
          xs \<leftarrow> arr_swap (cands_addrs cands) j (cands_count cands - 1);
          Some ((Some a, cands\<lparr>cands_addrs := xs, cands_count := cands_count cands - 1\<rparr>), m)
        } else next_target_loop h g conf addrs cands (j + 1) m
      } else Some ((None, cands), m))"
  by pat_completeness auto
termination
  by (relation "measure (\<lambda>(h, g, conf, addrs, cands, j, m). cands_count cands - j)") auto

declare next_target_loop.simps [simp del]

text \<open>
  From the label \<open>l2_ev_fail\<close> to the end of the body. The flag of the result is the \<open>break\<close>.
\<close>

definition evsets_at_next ::
    "'m hw \<Rightarrow> globals \<Rightarrow> nat \<Rightarrow> nat \<Rightarrow> evsets_at \<Rightarrow> 'm \<Rightarrow> ((bool \<times> evsets_at) \<times> 'm) option" where
  "evsets_at_next h g limit i st m =
     (if i + 1 = limit \<or> cands_count (ea_cands st) = 0 then Some ((True, st), m)
      else case ea_addrs st of
        Some addrs \<Rightarrow> do {
          ((t, cands), m) \<leftarrow> next_target_loop h g (ea_conf st) addrs (ea_cands st) 0 m;
          Some (case t of None \<Rightarrow> ((True, st\<lparr>ea_cands := cands\<rparr>), m)
                | Some t \<Rightarrow> ((False, st\<lparr>ea_cands := cands, ea_target := t\<rparr>), m))
        }
      | None \<Rightarrow> do {
          t \<leftarrow> arr_get (cands_addrs (ea_cands st)) (cands_count (ea_cands st) - 1);
          Some ((False, st\<lparr>ea_cands := (ea_cands st)\<lparr>cands_count := cands_count (ea_cands st) - 1\<rparr>, ea_target := t\<rparr>), m)
        })"

text \<open>
  Building one set and taking its lines. The value is an error (\<open>goto err\<close>), a failed build
  (\<open>continue\<close>) or a finished set. An allocation of the set itself that fails is dereferenced.
\<close>

datatype 'a at_built = At_err 'a | At_failed 'a | At_done 'a

definition evsets_at_build ::
    "'m hw \<Rightarrow> globals \<Rightarrow> CacheInfo \<Rightarrow> nat \<Rightarrow> nat \<Rightarrow> evsets_at \<Rightarrow> 'm \<Rightarrow> (evsets_at at_built \<times> 'm) option" where
  "evsets_at_build h g cache limit i st m =
     (let cap = wrap32 (unat (n_ways (l3_info g)) * cap_scaling (ea_conf st));
          (p, m) = os_calloc h 56 m
      in if p = None then None else
        (let (q, m) = os_calloc h (cap * 8) m
         in do {
           ((err, ev), m) \<leftarrow> final_l3_evset h g
              \<lparr>ev_addrs = (if q = None then [] else replicate cap 0), ev_size = 0, ev_cap = cap,
               target_addr = ea_target st, ev_cands = ea_cands st, build_conf = ea_conf st, target_cache = cache\<rparr> m;
           let st = st\<lparr>ea_cands := ev_cands ev\<rparr>;
           if err \<or> ev_size ev = 0 then Some (At_failed st, m)
           else if length (cands_addrs (ea_cands st)) < ev_size ev \<or> cands_count (ea_cands st) < ev_size ev then None
           else do {
             evsets \<leftarrow> arr_set (ea_evsets st) i (Some ev);
             let st = st\<lparr>ea_evsets := evsets,
                         ea_passed := ea_passed st @ take (ev_size ev) (cands_addrs (ea_cands st)),
                         ea_cands := (ea_cands st)\<lparr>cands_addrs := drop (ev_size ev) (cands_addrs (ea_cands st)),
                                                    cands_count := cands_count (ea_cands st) - ev_size ev\<rparr>\<rparr>;
             let (have, m) = (case ea_addrs st of Some _ \<Rightarrow> (True, m)
                              | None \<Rightarrow> (let (a, m) = os_calloc h (cap * limit * 8) m in (a \<noteq> None, m)));
             if \<not> have then Some (At_err st, m)
             else do {
               xs \<leftarrow> arr_range (ev_addrs ev) 0 (ev_size ev);
               let addrs = (case ea_addrs st of None \<Rightarrow> [] | Some addrs \<Rightarrow> addrs) @ xs;
               if cap * limit < length addrs then None
               else Some (At_done (st\<lparr>ea_addrs := Some addrs\<rparr>), m)
             }
           }
         }))"

text \<open>The body of the loop: the flag says whether the loop is left, \<open>None\<close> inside an error.\<close>

definition evsets_at_step ::
    "'m hw \<Rightarrow> globals \<Rightarrow> CacheInfo \<Rightarrow> EvBuildConf EvSet list \<Rightarrow> nat \<Rightarrow> nat \<Rightarrow> evsets_at \<Rightarrow> 'm
       \<Rightarrow> ((bool option \<times> evsets_at) \<times> 'm) option" where
  "evsets_at_step h g cache lowers limit i st m = do {
     (skip, st, m) \<leftarrow>
       (if lowers = [] then Some (False, st, m)
        else do {
          (l, m) \<leftarrow> find_lower h g lowers (ea_target st) (snd (os_time_us h m));
          let m = snd (os_time_us h m);
          Some (case l of
              None \<Rightarrow> (True, st\<lparr>ea_conf := (ea_conf st)\<lparr>lower_ev := None\<rparr>, ea_skipped := ea_skipped st + 1\<rparr>, m)
            | Some e \<Rightarrow> (False, st\<lparr>ea_conf := (ea_conf st)\<lparr>lower_ev := Some (as_lower e)\<rparr>\<rparr>, m))
        });
     if skip then map_option (\<lambda>((b, st), m). ((Some b, st), m)) (evsets_at_next h g limit i st m)
     else do {
       (r, m) \<leftarrow> evsets_at_build h g cache limit i st m;
       case r of
         At_err st \<Rightarrow> Some ((None, st), m)
       | At_failed st \<Rightarrow> Some ((Some False, st), m)
       | At_done st \<Rightarrow> map_option (\<lambda>((b, st), m). ((Some b, st), m)) (evsets_at_next h g limit i st m)
     }
   }"

function evsets_at_loop ::
    "'m hw \<Rightarrow> globals \<Rightarrow> CacheInfo \<Rightarrow> EvBuildConf EvSet list \<Rightarrow> nat \<Rightarrow> nat \<Rightarrow> evsets_at \<Rightarrow> 'm
       \<Rightarrow> ((bool \<times> evsets_at) \<times> 'm) option" where
  "evsets_at_loop h g cache lowers limit i st m =
     (if i < limit \<and> cands_count (ea_cands st) > 0 then do {
        ((r, st), m) \<leftarrow> evsets_at_step h g cache lowers limit i st m;
        case r of None \<Rightarrow> Some ((True, st), m)
        | Some True \<Rightarrow> Some ((False, st), m)
        | Some False \<Rightarrow> evsets_at_loop h g cache lowers limit (i + 1) st m
      } else Some ((False, st), m))"
  by pat_completeness auto
termination
  by (relation "measure (\<lambda>(h, g, cache, lowers, limit, i, st, m). limit - i)") auto

declare evsets_at_loop.simps [simp del]

text \<open>How many sets there can be at one offset, and how many of them are built.\<close>

definition evsets_at_counts :: "EvBuildConf \<Rightarrow> CacheInfo \<Rightarrow> nat \<Rightarrow> (nat \<times> nat) option" where
  "evsets_at_counts conf cache max_evsets =
     (case filter_ev conf of
        None \<Rightarrow> Some (unat (cache_uncertainty cache))
      | Some f \<Rightarrow> if cache_uncertainty (target_cache f) = 0 then None
                 else Some (unat (cache_uncertainty cache div cache_uncertainty (target_cache f))))
     \<bind> (\<lambda>n_possible. let cap = (if max_evsets > 0 then max_evsets else n_possible)
                       in Some (cap, min n_possible cap))"

text \<open>
  The result: the array of sets or \<open>NULL\<close>, the count written to \<open>ev_cnt\<close>, the pool, and the
  configuration. The pool gets its array and its count back at the end.
\<close>

definition build_evsets_at ::
    "'m hw \<Rightarrow> globals \<Rightarrow> EvBuildConf \<Rightarrow> u32 \<Rightarrow> EvBuildConf \<Rightarrow> CacheInfo \<Rightarrow> EvCands option
       \<Rightarrow> EvBuildConf EvSet list \<Rightarrow> nat \<Rightarrow> 'm
       \<Rightarrow> ((EvBuildConf EvSet option list option \<times> nat \<times> EvCands option \<times> EvBuildConf) \<times> 'm) option" where
  "build_evsets_at h g l2conf offset conf cache cands0 lowers max_evsets m = do {
     (cap, limit) \<leftarrow> evsets_at_counts conf cache max_evsets;
     (c, m) \<leftarrow> (case cands0 of Some c \<Rightarrow> Some (Some c, m)
               | None \<Rightarrow> do {
                   (c, m) \<leftarrow> evcands_new h g cache conf None m;
                   case c of None \<Rightarrow> Some (None, m)
                   | Some c \<Rightarrow> do {
                       ((err, c), m) \<leftarrow> evcands_populate h offset c conf l2conf m;
                       Some (if err then None else Some c, m)
                     }
                 });
     case c of None \<Rightarrow> Some ((None, cap, None, conf), m)
     | Some c \<Rightarrow>
         (let (p, m) = os_calloc h (cap * 8) m
          in if p = None \<or> cands_count c = 0 then Some ((None, cap, Some c, conf), m)
             else do {
               t \<leftarrow> arr_get (cands_addrs c) (cands_count c - 1);
               ((err, st), m) \<leftarrow> evsets_at_loop h g cache lowers limit 0
                  \<lparr>ea_passed = [], ea_cands = c\<lparr>cands_count := cands_count c - 1\<rparr>, ea_target = t,
                   ea_addrs = None, ea_evsets = replicate cap None, ea_conf = conf, ea_skipped = 0\<rparr> m;
               Some ((if err then None else Some (ea_evsets st), cap,
                      Some ((ea_cands st)\<lparr>cands_addrs := ea_passed st @ cands_addrs (ea_cands st),
                                          cands_count := cands_count c\<rparr>), ea_conf st), m)
             })
   }"

subsection \<open>One L3 set from nothing\<close>

text \<open>
  \<open>place\<close> stands for the topology probing and the pinning of threads that precede the start of
  the helper; both only act on the machine. The configuration's pointer to the helper is
  set before the helper is started, so a helper that does not start leaves it unusable.
\<close>

definition l3_single_build ::
    "'m hw \<Rightarrow> globals \<Rightarrow> EvBuildConf \<Rightarrow> EvCands \<Rightarrow> 'm \<Rightarrow> (EvBuildConf EvSet option \<times> 'm) option" where
  "l3_single_build h g conf cands m =
     (let n_filtered = cands_count cands
      in if n_filtered \<le> 1 then Some (None, m) else do {
        target \<leftarrow> arr_get (cands_addrs cands) (n_filtered - 1);
        let cands = cands\<lparr>cands_count := n_filtered - 1\<rparr>;
        (r, m) \<leftarrow> test_eviction h g target (cands_addrs cands) (cands_count cands) conf m;
        if r = FAIL then Some (None, m)
        else (let (p, m) = os_calloc h 56 m in
          if p = None then Some (None, m) else
            (let cap = wrap32 (unat (n_ways (l3_info g)) * cap_scaling conf);
                 (q, m) = os_calloc h (cap * 8) m
             in if q = None then Some (None, m) else do {
               let m = snd (os_time_us h m);
               ((err, ev), m) \<leftarrow> final_l3_evset h g
                  \<lparr>ev_addrs = replicate cap 0, ev_size = 0, ev_cap = cap, target_addr = target,
                   ev_cands = cands, build_conf = conf, target_cache = l3_info g\<rparr> m;
               let m = snd (os_time_us h m);
               if err then Some (None, m)
               else do {
                 (v, m) \<leftarrow> verify_evset h g ev target m;
                 Some (if v = OK then Some ev else None, m)
               }
             }))
      })"

definition build_single_l3_evset ::
    "'m hw \<Rightarrow> globals \<Rightarrow> EvBuildConf \<Rightarrow> EvBuildConf \<Rightarrow> ('m \<Rightarrow> 'm) \<Rightarrow> 'm
       \<Rightarrow> ((EvBuildConf EvSet list option \<times> EvBuildConf \<times> EvBuildConf \<times> globals) \<times> 'm) option" where
  "build_single_l3_evset h g0 l2conf0 l3conf0 place m0 =
     (let m = snd (os_time_us h m0);
          (l2conf, g) = init_def_l2_conf g0 l2conf0;
          (p, m) = os_calloc h 8 m
      in if p = None then Some ((None, l2conf, l3conf0, g), m) else do {
        ((l2_evset, c, l2conf, g), m) \<leftarrow>
          build_single_l2_evset h g l2conf None 0 [] 0 (snd (os_time_us h m));
        let m = snd (os_time_us h m);
        case l2_evset of None \<Rightarrow> Some ((None, l2conf, l3conf0, g), m)
        | Some e \<Rightarrow>
            (let (started, m) = os_thread h (place m);
                 l3conf = init_def_l3_conf g (Some (as_lower e)) started l3conf0
             in do {
               (cands, m) \<leftarrow> evcands_new h g (l3_info g) l3conf None m;
               case cands of None \<Rightarrow> Some ((None, l2conf, l3conf, g), m)
               | Some cands \<Rightarrow> do {
                   ((err, cands), m) \<leftarrow> evcands_populate h 0 cands l3conf l2conf m;
                   if err then Some ((None, l2conf, l3conf, g), m)
                   else do {
                     (ev, m) \<leftarrow> l3_single_build h g l3conf cands m;
                     let m = (case ev of None \<Rightarrow> m
                              | Some ev \<Rightarrow> snd (os_time_us h (snd (os_calloc h ((ev_size ev + 1) * 8) m))));
                     Some ((map_option (\<lambda>e. [e]) ev, l2conf, l3conf, g), m)
                   }
                 }
             })
      })"

subsection \<open>The candidate pools of all L2 sets\<close>

text \<open>Allocations whose results are used unchecked: one that fails is dereferenced.\<close>

fun callocs :: "'m hw \<Rightarrow> nat list \<Rightarrow> 'm \<Rightarrow> 'm option" where
  "callocs h [] m = Some m"
| "callocs h (n # ns) m =
     (let (p, m) = os_calloc h n m in if p = None then None else callocs h ns m)"

text \<open>The filter of one pool: a set of the L2 complex, with the L2 configuration put into it.\<close>

definition l2_filter :: "EvBuildConf \<Rightarrow> l2_complex \<Rightarrow> nat \<Rightarrow> nat \<Rightarrow> EvTestConf EvSet option" where
  "l2_filter l2conf l2evsets n i = do {
     row \<leftarrow> arr_get l2evsets n;
     row \<leftarrow> row;
     e \<leftarrow> arr_get row i;
     e \<leftarrow> e;
     Some (as_lower (e\<lparr>build_conf := l2conf\<rparr>))
   }"

text \<open>
  One filtered pool on the shared buffer (\<open>build_single_cand\<close>; the serial version has the same
  body with set \<open>i\<close> at offset 0). The buffer's reference count is passed along.
\<close>

definition build_single_cand ::
    "'m hw \<Rightarrow> globals \<Rightarrow> EvBuildConf \<Rightarrow> EvBuildConf \<Rightarrow> l2_complex \<Rightarrow> nat \<Rightarrow> nat \<Rightarrow> EvBuffer \<Rightarrow> 'm
       \<Rightarrow> ((EvCands option \<times> EvBuffer) \<times> 'm) option" where
  "build_single_cand h g l2conf conf l2evsets n i e m = do {
     fev \<leftarrow> l2_filter l2conf l2evsets n i;
     let c = conf\<lparr>filter_ev := Some fev\<rparr>;
     (cand, m) \<leftarrow> evcands_new h g (l3_info g) c (Some e) m;
     case cand of None \<Rightarrow> Some ((None, e), m)
     | Some cand \<Rightarrow> do {
         ((err, cand), m) \<leftarrow> evcands_populate h (of_nat n * ucast CL_SIZE) cand c l2conf m;
         Some ((if err then None else Some cand, evb cand), m)
       }
   }"

text \<open>\<open>cand_para_worker\<close>: the pools of a range of L2 sets, in order; a failure leaves its entry empty.\<close>

fun cand_para_worker ::
    "'m hw \<Rightarrow> globals \<Rightarrow> EvBuildConf \<Rightarrow> EvBuildConf \<Rightarrow> l2_complex \<Rightarrow> nat list \<Rightarrow> EvBuffer \<Rightarrow> 'm
       \<Rightarrow> ((EvCands option list \<times> EvBuffer) \<times> 'm) option" where
  "cand_para_worker h g l2conf conf l2evsets [] e m = Some (([], e), m)"
| "cand_para_worker h g l2conf conf l2evsets (i # is') e m = do {
     ((c, e), m) \<leftarrow> build_single_cand h g l2conf conf l2evsets i i e m;
     ((cs, e), m) \<leftarrow> cand_para_worker h g l2conf conf l2evsets is' e m;
     Some ((c # cs, e), m)
   }"

text \<open>
  The loop that starts the workers, one after the other on disjoint ranges. When a thread
  cannot be started the ranges that are left stay empty.
\<close>

fun cand_workers ::
    "'m hw \<Rightarrow> globals \<Rightarrow> EvBuildConf \<Rightarrow> EvBuildConf \<Rightarrow> l2_complex \<Rightarrow> nat \<Rightarrow> (nat \<times> nat) list \<Rightarrow> EvBuffer \<Rightarrow> 'm
       \<Rightarrow> ((EvCands option list \<times> EvBuffer) \<times> 'm) option" where
  "cand_workers h g l2conf conf l2evsets n_unc [] e m = Some (([], e), m)"
| "cand_workers h g l2conf conf l2evsets n_unc ((lo, hi) # rs) e m =
     (let (started, m) = os_thread h m
      in if \<not> started then Some ((replicate (n_unc - lo) None, e), m)
         else do {
           ((cs, e), m) \<leftarrow> cand_para_worker h g l2conf conf l2evsets [lo..<hi] e m;
           ((cs', e), m) \<leftarrow> cand_workers h g l2conf conf l2evsets n_unc rs e m;
           Some ((cs @ cs', e), m)
         })"

text \<open>The pools of one L2 set at all offsets, shifted from the one that was filtered.\<close>

fun shift_cands ::
    "'m hw \<Rightarrow> EvCands \<Rightarrow> nat \<Rightarrow> nat list \<Rightarrow> EvBuffer \<Rightarrow> 'm \<Rightarrow> ((EvCands option list \<times> EvBuffer) \<times> 'm) option" where
  "shift_cands h c own [] e m = Some (([], e), m)"
| "shift_cands h c own (n # ns) e m = do {
     ((s, e), m) \<leftarrow> (if n = own then Some ((Some c, e), m) else evcands_shift h e c (of_nat n * ucast CL_SIZE) m);
     ((ss, e), m) \<leftarrow> shift_cands h c own ns e m;
     Some ((s # ss, e), m)
   }"

fun shift_columns ::
    "'m hw \<Rightarrow> nat \<Rightarrow> EvCands list \<Rightarrow> EvBuffer \<Rightarrow> 'm \<Rightarrow> ((EvCands option list list \<times> EvBuffer) \<times> 'm) option" where
  "shift_columns h i [] e m = Some (([], e), m)"
| "shift_columns h i (c # cs) e m = do {
     ((col, e), m) \<leftarrow> shift_cands h c i [0..<NUM_OFFSETS] e m;
     ((cols, e), m) \<leftarrow> shift_columns h (i + 1) cs e m;
     Some ((col # cols, e), m)
   }"

text \<open>
  The result is indexed by L2 set first and by offset second, where the source has the offset
  first. More L2 sets than offsets would leave the diagonal of the source's array.
\<close>

definition build_evcands_all_para ::
    "'m hw \<Rightarrow> globals \<Rightarrow> EvBuildConf \<Rightarrow> EvBuildConf \<Rightarrow> l2_complex \<Rightarrow> 'm
       \<Rightarrow> (EvCands option list list option \<times> 'm) option" where
  "build_evcands_all_para h g l2conf conf l2evsets m = do {
     (base, m) \<leftarrow> evcands_new h g (l3_info g) conf None (snd (os_time_us h m));
     case base of None \<Rightarrow> Some (None, m)
     | Some base \<Rightarrow>
         (let m = snd (os_time_us h (snd (os_time_us h m)));
              n_unc = unat (g_n_uncertain_l2_sets g);
              n_threads = min (if num_threads g \<noteq> 0 then num_threads g else nat (n_system_cores g)) n_unc
          in if n_threads = 0 \<or> n_unc > NUM_OFFSETS then None else do {
            m \<leftarrow> callocs h (NUM_OFFSETS * 8 # replicate NUM_OFFSETS (n_unc * 8)) m;
            ((diag, e), m) \<leftarrow> cand_workers h g l2conf conf l2evsets n_unc (block_ranges n_unc n_threads) (evb base) m;
            if None \<in> set diag then Some (None, m)
            else do {
              ((cols, e), m) \<leftarrow> shift_columns h 0 (map the diag) e m;
              Some (Some cols, snd (os_time_us h m))
            }
          })
   }"

text \<open>
  The serial version filters at offset 0, one L2 set after the other, and shifts from there.
  A pool that cannot be made ends it.
\<close>

fun cands_serial ::
    "'m hw \<Rightarrow> globals \<Rightarrow> EvBuildConf \<Rightarrow> EvBuildConf \<Rightarrow> l2_complex \<Rightarrow> nat list \<Rightarrow> EvBuffer \<Rightarrow> 'm
       \<Rightarrow> ((EvCands list option \<times> EvBuffer) \<times> 'm) option" where
  "cands_serial h g l2conf conf l2evsets [] e m = Some ((Some [], e), m)"
| "cands_serial h g l2conf conf l2evsets (i # is') e m = do {
     ((c, e), m) \<leftarrow> build_single_cand h g l2conf conf l2evsets 0 i e m;
     case c of None \<Rightarrow> Some ((None, e), m)
     | Some c \<Rightarrow> do {
         ((cs, e), m) \<leftarrow> cands_serial h g l2conf conf l2evsets is' e m;
         Some ((map_option (\<lambda>cs. c # cs) cs, e), m)
       }
   }"

fun shift_row_cands ::
    "'m hw \<Rightarrow> nat \<Rightarrow> EvCands list \<Rightarrow> EvBuffer \<Rightarrow> 'm \<Rightarrow> ((EvCands option list \<times> EvBuffer) \<times> 'm) option" where
  "shift_row_cands h n [] e m = Some (([], e), m)"
| "shift_row_cands h n (c # cs) e m = do {
     ((s, e), m) \<leftarrow> evcands_shift h e c (of_nat n * ucast CL_SIZE) m;
     ((ss, e), m) \<leftarrow> shift_row_cands h n cs e m;
     Some ((s # ss, e), m)
   }"

fun shift_rows_cands ::
    "'m hw \<Rightarrow> nat list \<Rightarrow> EvCands list \<Rightarrow> EvBuffer \<Rightarrow> 'm \<Rightarrow> ((EvCands option list list \<times> EvBuffer) \<times> 'm) option" where
  "shift_rows_cands h [] cs e m = Some (([], e), m)"
| "shift_rows_cands h (n # ns) cs e m = do {
     m \<leftarrow> callocs h [length cs * 8] m;
     ((r, e), m) \<leftarrow> shift_row_cands h n cs e m;
     ((rs, e), m) \<leftarrow> shift_rows_cands h ns cs e m;
     Some ((r # rs, e), m)
   }"

definition build_evcands_all ::
    "'m hw \<Rightarrow> globals \<Rightarrow> EvBuildConf \<Rightarrow> EvBuildConf \<Rightarrow> l2_complex \<Rightarrow> 'm
       \<Rightarrow> (EvCands option list list option \<times> 'm) option" where
  "build_evcands_all h g l2conf conf l2evsets m = do {
     (base, m) \<leftarrow> evcands_new h g (l3_info g) conf None (snd (os_time_us h m));
     case base of None \<Rightarrow> Some (None, m)
     | Some base \<Rightarrow> do {
         let m = snd (os_time_us h (snd (os_time_us h m)));
         m \<leftarrow> callocs h [NUM_OFFSETS * 8, unat (g_n_uncertain_l2_sets g) * 8] m;
         ((row, e), m) \<leftarrow> cands_serial h g l2conf conf l2evsets [0..<unat (g_n_uncertain_l2_sets g)] (evb base) m;
         case row of None \<Rightarrow> Some (None, m)
         | Some row \<Rightarrow> do {
             ((rows, e), m) \<leftarrow> shift_rows_cands h [1..<NUM_OFFSETS] row e m;
             Some (Some (map Some row # rows), snd (os_time_us h m))
           }
       }
   }"

text \<open>The accuracy that is reported with \<open>debug\<close>: candidates in the L2 set of the filter's target.\<close>

definition cand_accuracy :: "(addr \<Rightarrow> u64) \<Rightarrow> CacheInfo \<Rightarrow> EvCands \<Rightarrow> addr \<Rightarrow> nat option" where
  "cand_accuracy va_to_hpa l2 cands target = do {
     xs \<leftarrow> arr_range (cands_addrs cands) 0 (cands_count cands);
     Some (length (filter (\<lambda>a. cache_get_sib (va_to_hpa a) l2 = cache_get_sib (va_to_hpa target) l2) xs))
   }"

subsection \<open>Giving pools back\<close>

text \<open>
  \<open>evcands_free\<close>: the buffer's count after the call and whether the buffer is unmapped. Freeing
  the buffer is the last use of it.
\<close>

definition evcands_free :: "EvCands \<Rightarrow> EvBuffer \<Rightarrow> EvBuffer option" where
  "evcands_free cands e =
     (let e = (if evb_ref_cnt e > 0 then e\<lparr>evb_ref_cnt := evb_ref_cnt e - 1\<rparr> else e)
      in if evb_ref_cnt e = 0 then None else Some e)"

end
