(* ===== verification/L3_Safe.thy ===== *)
theory L3_Safe
  imports Evset_L3 L2_Safe
begin

text \<open>
  The construction of the L3 sets of one page offset on every machine: for a configuration
  whose test returns and a machine whose allocations succeed, \<open>build_evsets_at\<close> returns, stays in
  its arrays, and gives the pool back with the same lines, in another order, although it
  moves the pool's pointer and count while it works.
\<close>

lemma perm_upto_append: "perm_upto k xs ys \<Longrightarrow> perm_upto (length p + k) (p @ xs) (p @ ys)"
  by (simp add: perm_upto_def)

locale l3_machine = safe_tester h "conf_test h g conf" inv
  for h :: "'m hw" and g :: globals and conf :: EvBuildConf and inv :: "'m \<Rightarrow> bool" +
  fixes cache :: CacheInfo
  assumes keeps_calloc: "inv m \<Longrightarrow> inv (snd (os_calloc h n m))"
    and calloc_succeeds: "fst (os_calloc h n m) \<noteq> None"
    and sib_bounds: "0 \<le> unknown_sib cache" "unknown_sib cache < 30"
begin

lemma calloc_obtain:
  assumes "inv m"
  obtains p m' where "os_calloc h n m = (Some p, m')" "inv m'"
  using keeps_calloc [OF assms, of n] calloc_succeeds [of n m] by (cases "os_calloc h n m") auto

lemma test_obtain:
  assumes "inv m" "cnt \<le> length cs"
  obtains r m' where "test_eviction h g t cs cnt conf m = Some (r, m')" "inv m'"
  using test_returns [OF assms, of t] by (auto simp: conf_test_def)

text \<open>A set in construction, on the pool \<open>c\<close>.\<close>

definition at_ev :: "EvBuildConf EvSet \<Rightarrow> bool" where
  "at_ev e \<longleftrightarrow> build_conf e = conf \<and> target_cache e = cache \<and> ev_cap e \<le> length (ev_addrs e)
     \<and> pool_ok (ev_cands e)"

definition shrunk :: "EvCands \<Rightarrow> EvCands \<Rightarrow> bool" where
  "shrunk c c' \<longleftrightarrow> perm_upto (cands_count c) (cands_addrs c) (cands_addrs c') \<and> cands_count c' \<le> cands_count c
     \<and> evb c' = evb c"

lemma shrunk_refl [simp]: "shrunk c c"
  by (simp add: shrunk_def)

lemma shrunk_trans: "shrunk a b \<Longrightarrow> shrunk b c \<Longrightarrow> shrunk a c"
  using perm_upto_mono [of "cands_count b" "cands_addrs b" "cands_addrs c" "cands_count a"]
  by (auto simp: shrunk_def intro: perm_upto_trans)

lemma shrunk_pool_ok: "pool_ok c \<Longrightarrow> shrunk c c' \<Longrightarrow> pool_ok c'"
  by (auto simp: shrunk_def pool_ok_def dest: perm_upto_length)

lemma zhao_step:
  assumes "inv m" "at_ev e" "ev_size e = 0"
  shows "\<exists>err e' m'. build_evset_zhao h (conf_test h g) t e m = Some ((err, e'), m') \<and> inv m' \<and> at_ev e'
     \<and> shrunk (ev_cands e) (ev_cands e') \<and> ev_cap e' = ev_cap e \<and> ev_size e' \<le> ev_cap e'
     \<and> ev_size e' \<le> cands_count (ev_cands e')
     \<and> take (ev_size e') (ev_addrs e') = take (ev_size e') (cands_addrs (ev_cands e'))"
proof (cases "cands_count (ev_cands e) \<le> 1")
  case True
  then have "build_evset_zhao h (conf_test h g) t e m = Some ((True, e), m)"
    by (simp add: build_evset_zhao_def)
  then show ?thesis
    using assms by simp
next
  case False
  have ok: "cands_count (ev_cands e) \<le> length (cands_addrs (ev_cands e))" "ev_cap e \<le> length (ev_addrs e)"
      "0 \<le> unknown_sib (target_cache e)" "unknown_sib (target_cache e) < 30" "1 < cands_count (ev_cands e)"
      "conf_test h g (build_conf e) = conf_test h g conf"
    using assms(2) sib_bounds False by (auto simp: at_ev_def pool_ok_def)
  obtain k addrs cands m' where
    b: "build_evset_zhao h (conf_test h g) t e m =
        Some ((False, e\<lparr>ev_size := k, ev_addrs := addrs, ev_cands := (ev_cands e)\<lparr>cands_addrs := cands\<rparr>\<rparr>), m')"
      "inv m'" "k \<le> ev_cap e" "k \<le> cands_count (ev_cands e)" "length addrs = length (ev_addrs e)"
      "take k addrs = take k cands" "perm_upto (cands_count (ev_cands e)) (cands_addrs (ev_cands e)) cands"
    using build_evset_zhao_safe [where T = "conf_test h g" and e = e, OF assms(1) ok(6) ok(1-5), of t] by blast
  have "at_ev (e\<lparr>ev_size := k, ev_addrs := addrs, ev_cands := (ev_cands e)\<lparr>cands_addrs := cands\<rparr>\<rparr>)"
    using assms(2) b(5) perm_upto_length [OF b(7)] by (simp add: at_ev_def pool_ok_def)
  then show ?thesis
    using b by (simp add: shrunk_def)
qed

text \<open>What the search leaves of a set on the pool of \<open>e\<close>, and what a successful one adds.\<close>

definition at_left :: "EvBuildConf EvSet \<Rightarrow> EvBuildConf EvSet \<Rightarrow> bool" where
  "at_left e e' \<longleftrightarrow> at_ev e' \<and> shrunk (ev_cands e) (ev_cands e') \<and> ev_cap e' = ev_cap e"

definition at_found :: "EvBuildConf EvSet \<Rightarrow> bool" where
  "at_found e \<longleftrightarrow> ev_size e \<le> ev_cap e \<and> ev_size e \<le> cands_count (ev_cands e)
     \<and> mset (take (ev_size e) (ev_addrs e)) \<subseteq># pool (ev_cands e)"

lemma at_left_trans: "at_left a b \<Longrightarrow> at_left b c \<Longrightarrow> at_left a c"
  by (auto simp: at_left_def intro: shrunk_trans)

lemma mset_take_mono: "k \<le> n \<Longrightarrow> mset (take k xs) \<subseteq># mset (take n xs)"
  by (metis append_take_drop_id mset_append mset_subset_eq_add_left min_def take_take)

lemma prune_step:
  assumes "inv m" "at_ev e" "ev_size e \<le> ev_cap e" "ev_size e \<le> cands_count (ev_cands e)"
    "take (ev_size e) (ev_addrs e) = take (ev_size e) (cands_addrs (ev_cands e))"
  shows "\<exists>addrs k m'. prune_evcands h (conf_test h g conf) t (ev_addrs e) (ev_size e) m = Some ((addrs, k), m')
     \<and> inv m' \<and> at_left e (e\<lparr>ev_addrs := addrs, ev_size := k\<rparr>) \<and> at_found (e\<lparr>ev_addrs := addrs, ev_size := k\<rparr>)"
proof -
  have "ev_size e \<le> length (ev_addrs e)"
    using assms(2,3) by (auto simp: at_ev_def)
  then obtain addrs k m' where
    p: "prune_evcands h (conf_test h g conf) t (ev_addrs e) (ev_size e) m = Some ((addrs, k), m')"
      "inv m'" "k \<le> ev_size e" "perm_upto (ev_size e) (ev_addrs e) addrs"
    using prune_evcands_safe [OF assms(1), of "ev_size e" "ev_addrs e" t] by blast
  have "mset (take k addrs) \<subseteq># mset (take (ev_size e) addrs)"
    by (rule mset_take_mono [OF p(3)])
  also have "\<dots> = mset (take (ev_size e) (cands_addrs (ev_cands e)))"
    using p(4) assms(5) by (simp add: perm_upto_def)
  also have "\<dots> \<subseteq># pool (ev_cands e)"
    unfolding pool_def by (rule mset_take_mono [OF assms(4)])
  finally have "mset (take k addrs) \<subseteq># pool (ev_cands e)" .
  then show ?thesis
    using p assms perm_upto_length [OF p(4)] by (auto simp: at_left_def at_found_def at_ev_def)
qed

lemma final_loop_safe:
  assumes "inv m" "at_ev e"
  shows "\<exists>ok e' m'. final_l3_loop h g start r t e m = Some ((ok, e'), m') \<and> inv m' \<and> at_left e e' \<and> (ok \<longrightarrow> at_found e')"
  using assms
proof (induction r arbitrary: t e m)
  case 0
  then show ?case by (simp add: at_left_def ex_bool_eq)
next
  case (Suc r)
  let ?P = "\<lambda>res. \<exists>ok e' m'. res = Some ((ok, e'), m') \<and> inv m' \<and> at_left e e' \<and> (ok \<longrightarrow> at_found e')"
  have "at_ev (e\<lparr>ev_size := 0\<rparr>)"
    using Suc.prems(2) by (simp add: at_ev_def)
  from zhao_step [OF Suc.prems(1) this, of t] obtain err e1 m1 where
    z: "build_evset_zhao h (conf_test h g) t (e\<lparr>ev_size := 0\<rparr>) m = Some ((err, e1), m1)" "inv m1" "at_ev e1"
      "ev_size e1 \<le> ev_cap e1" "ev_size e1 \<le> cands_count (ev_cands e1)"
      "take (ev_size e1) (ev_addrs e1) = take (ev_size e1) (cands_addrs (ev_cands e1))" and
    e1: "at_left e e1"
    by (auto simp: at_left_def)
  have ih: "?P (final_l3_loop h g start r t' e2 m2)" if "inv m2" "at_left e e2" for t' e2 m2
    using Suc.IH [of m2 e2 t'] at_left_trans [OF that(2)] that by (auto simp: at_left_def)
  have sz: "ev_size e1 \<le> length (ev_addrs e1)" and bc: "build_conf e1 = conf"
    using z(3,4) by (auto simp: at_ev_def)
  obtain res m2 where t: "test_eviction h g t (ev_addrs e1) (ev_size e1) conf m1 = Some (res, m2)" "inv m2"
    using test_obtain [OF z(2) sz] .
  obtain addrs k m3 where p: "prune_evcands h (conf_test h g conf) t (ev_addrs e1) (ev_size e1) m2 = Some ((addrs, k), m3)"
      "inv m3" "at_left e1 (e1\<lparr>ev_addrs := addrs, ev_size := k\<rparr>)" "at_found (e1\<lparr>ev_addrs := addrs, ev_size := k\<rparr>)"
    using prune_step [OF t(2) z(3-6), of t] by blast
  let ?c = "cands_count (ev_cands e1)"
  define t4 where "t4 = cands_addrs (ev_cands e1) ! (?c - 1)"
  define e4 where "e4 = e1\<lparr>target_addr := t4, ev_cands := (ev_cands e1)\<lparr>cands_count := ?c - 1\<rparr>\<rparr>"
  have e4: "at_left e e4"
    using e1 by (auto simp: e4_def at_left_def at_ev_def pool_ok_def shrunk_def)
  obtain now m5 where tm: "(if retry_timeout conf = 0 then (start, m2) else os_time_us h m2) = (now, m5)"
    by fastforce
  have m5: "inv m5"
    using tm t(2) time_keeps [OF t(2)] by (auto split: if_splits)
  have get: "?c \<noteq> 0 \<Longrightarrow> arr_get (cands_addrs (ev_cands e1)) (?c - 1) = Some t4"
    using z(3) unfolding t4_def by (intro arr_get_Some) (auto simp: at_ev_def pool_ok_def)
  have step: "final_l3_loop h g start (Suc r) t e m =
    (if err then final_l3_loop h g start r t e1 m1
     else if res = OK then Some ((True, e1\<lparr>ev_addrs := addrs, ev_size := k\<rparr>), m3)
     else if ?c = 0 then Some ((False, e1), m2)
     else if retry_timeout conf \<noteq> 0 \<and> unat (now - start) > wrap32 (retry_timeout conf * 1000)
       then Some ((False, e4), m5)
     else final_l3_loop h g start r t4 e4 m5)"
    using z(1) t(1) p(1) get tm bc by (simp add: e4_def Let_def)
  have "?P (Some ((True, e1\<lparr>ev_addrs := addrs, ev_size := k\<rparr>), m3))" "?P (Some ((False, e1), m2))"
      "?P (Some ((False, e4), m5))"
    using p at_left_trans [OF e1 p(3)] e1 t(2) e4 m5 by (simp_all add: ex_bool_eq)
  then show ?case
    unfolding step using ih [OF z(2) e1] ih [OF m5 e4] by (simp del: final_l3_loop.simps)
qed

lemma final_safe:
  assumes "inv m" "at_ev e"
  shows "\<exists>err e' m'. final_l3_evset h g e m = Some ((err, e'), m') \<and> inv m' \<and> at_left e e' \<and> (\<not> err \<longrightarrow> at_found e')"
proof -
  obtain s m1 where s: "os_time_us h m = (s, m1)" "inv m1"
    using time_keeps [OF assms(1)] by (cases "os_time_us h m") auto
  obtain ok e' m' where "final_l3_loop h g s (verify_retry (build_conf e)) (target_addr e) e m1 = Some ((ok, e'), m')"
      "inv m'" "at_left e e'" "ok \<longrightarrow> at_found e'"
    using final_loop_safe [OF s(2) assms(2)] by blast
  then have "final_l3_evset h g e m = Some ((\<not> ok, e'), m')" "inv m'" "at_left e e'" "\<not> \<not> ok \<longrightarrow> at_found e'"
    by (simp_all add: final_l3_evset_def s(1))
  then show ?thesis by blast
qed

subsection \<open>The loop over the sets of an offset\<close>

text \<open>
  The state of the loop on the pool \<open>c0\<close>, after at most \<open>i\<close> sets, with \<open>n\<close> entries in the
  array of results.
\<close>

abbreviation at_cap :: nat where
  "at_cap \<equiv> wrap32 (unat (n_ways (l3_info g)) * cap_scaling conf)"

definition at_set :: "EvCands \<Rightarrow> EvBuildConf EvSet \<Rightarrow> bool" where
  "at_set c0 e \<longleftrightarrow> 0 < ev_size e \<and> ev_size e \<le> at_cap \<and> mset (take (ev_size e) (ev_addrs e)) \<subseteq># pool c0"

definition at_ok :: "EvCands \<Rightarrow> nat \<Rightarrow> nat \<Rightarrow> evsets_at \<Rightarrow> bool" where
  "at_ok c0 n i st \<longleftrightarrow> ea_conf st = conf \<and> length (ea_evsets st) = n
     \<and> perm_upto (cands_count c0) (cands_addrs c0) (ea_passed st @ cands_addrs (ea_cands st))
     \<and> length (ea_passed st) + cands_count (ea_cands st) \<le> cands_count c0
     \<and> (\<forall>addrs. ea_addrs st = Some addrs \<longrightarrow> length addrs \<le> at_cap * i)
     \<and> (\<forall>e. Some e \<in> set (ea_evsets st) \<longrightarrow> at_set c0 e)"

lemma at_ok_pool:
  assumes "pool_ok c0" "at_ok c0 n i st"
  shows "pool_ok (ea_cands st)" "pool (ea_cands st) \<subseteq># pool c0"
proof -
  have p: "perm_upto (cands_count c0) (cands_addrs c0) (ea_passed st @ cands_addrs (ea_cands st))"
    and l: "length (ea_passed st) + cands_count (ea_cands st) \<le> cands_count c0"
    using assms(2) by (auto simp: at_ok_def)
  show "pool_ok (ea_cands st)"
    using perm_upto_length [OF p] l assms(1) by (simp add: pool_ok_def)
  have "pool (ea_cands st) \<subseteq># mset (take (length (ea_passed st) + cands_count (ea_cands st)) (ea_passed st @ cands_addrs (ea_cands st)))"
    by (simp add: pool_def)
  also have "\<dots> \<subseteq># mset (take (cands_count c0) (ea_passed st @ cands_addrs (ea_cands st)))"
    by (rule mset_take_mono [OF l])
  also have "\<dots> = pool c0"
    using p by (simp add: perm_upto_def pool_def)
  finally show "pool (ea_cands st) \<subseteq># pool c0" .
qed

lemma at_ok_shrunk:
  assumes "at_ok c0 n i st" "shrunk (ea_cands st) c"
  shows "at_ok c0 n i (st\<lparr>ea_cands := c\<rparr>)"
proof -
  have "perm_upto (length (ea_passed st) + cands_count (ea_cands st)) (ea_passed st @ cands_addrs (ea_cands st))
          (ea_passed st @ cands_addrs c)"
    using assms(2) by (intro perm_upto_append) (simp add: shrunk_def)
  from perm_upto_mono [OF this, of "cands_count c0"]
  have "perm_upto (cands_count c0) (ea_passed st @ cands_addrs (ea_cands st)) (ea_passed st @ cands_addrs c)"
    using assms(1) by (simp add: at_ok_def)
  from perm_upto_trans [OF _ this, of "cands_addrs c0"] show ?thesis
    using assms by (simp add: at_ok_def shrunk_def)
qed

lemma at_ok_mono:
  assumes "at_ok c0 n i st" "i \<le> j"
  shows "at_ok c0 n j st"
proof -
  have "at_cap * i \<le> at_cap * j"
    using assms(2) by simp
  then show ?thesis
    using assms(1) unfolding at_ok_def by (meson order_trans)
qed

lemma next_target_safe:
  assumes "inv m" "pool_ok c"
  shows "\<exists>t c' m'. next_target_loop h g conf addrs c j m = Some ((t, c'), m') \<and> inv m' \<and> shrunk c c'"
  using assms(1)
proof (induction "cands_count c - j" arbitrary: j m rule: less_induct)
  case less
  show ?case
  proof (cases "j < cands_count c")
    case False
    then show ?thesis
      using less.prems by (subst next_target_loop.simps) simp
  next
    case True
    obtain r m1 where t: "test_eviction h g (cands_addrs c ! j) addrs (length addrs) conf m = Some (r, m1)" "inv m1"
      using test_obtain [OF less.prems order_refl] .
    have a: "arr_get (cands_addrs c) j = Some (cands_addrs c ! j)"
      using True assms(2) by (intro arr_get_Some) (simp add: pool_ok_def)
    obtain xs where sw: "arr_swap (cands_addrs c) j (cands_count c - 1) = Some xs"
      using swap_out [OF assms(2) True] by blast
    have sh: "shrunk c (c\<lparr>cands_addrs := xs, cands_count := cands_count c - 1\<rparr>)"
      using arr_swap_perm_upto [OF sw True] True by (simp add: shrunk_def)
    show ?thesis
      using True t a sw sh less.hyps [of "j + 1" m1]
      by (subst next_target_loop.simps) (cases "r = FAIL"; simp)
  qed
qed

lemma at_next_safe:
  assumes "inv m" "pool_ok c0" "at_ok c0 n i st"
  shows "\<exists>b st' m'. evsets_at_next h g limit j st m = Some ((b, st'), m') \<and> inv m' \<and> at_ok c0 n i st'"
proof -
  note ok = at_ok_pool(1) [OF assms(2,3)]
  have cf: "ea_conf st = conf"
    using assms(3) by (simp add: at_ok_def)
  have tgt: "at_ok c0 n i (st'\<lparr>ea_target := t\<rparr>)" if "at_ok c0 n i st'" for st' t
    using that by (simp add: at_ok_def)
  show ?thesis
  proof (cases "j + 1 = limit \<or> cands_count (ea_cands st) = 0")
    case True
    then have "evsets_at_next h g limit j st m = Some ((True, st), m)"
      by (simp add: evsets_at_next_def)
    then show ?thesis using assms by blast
  next
    case False
    show ?thesis
    proof (cases "ea_addrs st")
      case None
      let ?c = "(ea_cands st)\<lparr>cands_count := cands_count (ea_cands st) - 1\<rparr>"
      have "arr_get (cands_addrs (ea_cands st)) (cands_count (ea_cands st) - 1) =
          Some (cands_addrs (ea_cands st) ! (cands_count (ea_cands st) - 1))"
        using ok False by (intro arr_get_Some) (auto simp: pool_ok_def)
      then have "evsets_at_next h g limit j st m =
          Some ((False, st\<lparr>ea_cands := ?c, ea_target := cands_addrs (ea_cands st) ! (cands_count (ea_cands st) - 1)\<rparr>), m)"
        using None False by (simp add: evsets_at_next_def)
      moreover have "shrunk (ea_cands st) ?c"
        by (simp add: shrunk_def)
      ultimately show ?thesis
        using assms tgt [OF at_ok_shrunk [OF assms(3)]] by blast
    next
      case (Some addrs)
      obtain t c' m' where nt: "next_target_loop h g conf addrs (ea_cands st) 0 m = Some ((t, c'), m')" "inv m'"
          "shrunk (ea_cands st) c'"
        using next_target_safe [OF assms(1) ok] by blast
      from nt(1) False Some cf have "evsets_at_next h g limit j st m =
          Some (case t of None \<Rightarrow> ((True, st\<lparr>ea_cands := c'\<rparr>), m')
                | Some t \<Rightarrow> ((False, st\<lparr>ea_cands := c', ea_target := t\<rparr>), m'))"
        by (simp add: evsets_at_next_def)
      then show ?thesis
        using nt(2) at_ok_shrunk [OF assms(3) nt(3)] tgt by (cases t) auto
    qed
  qed
qed

text \<open>Taking the lines of a finished set.\<close>

lemma at_taken:
  assumes "pool_ok c0" "at_ok c0 n i st" "i < n" "at_found e" "ev_cands e = ea_cands st" "0 < ev_size e" "ev_cap e = at_cap"
    "at_ev e"
  shows "at_ok c0 n (i + 1) (st\<lparr>ea_evsets := (ea_evsets st)[i := Some e],
            ea_passed := ea_passed st @ take (ev_size e) (cands_addrs (ea_cands st)),
            ea_cands := (ea_cands st)\<lparr>cands_addrs := drop (ev_size e) (cands_addrs (ea_cands st)),
                                       cands_count := cands_count (ea_cands st) - ev_size e\<rparr>,
            ea_addrs := Some ((case ea_addrs st of None \<Rightarrow> [] | Some addrs \<Rightarrow> addrs) @ take (ev_size e) (ev_addrs e))\<rparr>)"
proof -
  have k: "ev_size e \<le> at_cap" "ev_size e \<le> cands_count (ea_cands st)"
      "mset (take (ev_size e) (ev_addrs e)) \<subseteq># pool (ea_cands st)"
    using assms(4,5,7) by (auto simp: at_found_def)
  have "at_set c0 e"
    using k assms(6) subset_mset.order_trans [OF k(3) at_ok_pool(2) [OF assms(1,2)]] by (simp add: at_set_def)
  moreover have "length (case ea_addrs st of None \<Rightarrow> [] | Some addrs \<Rightarrow> addrs) \<le> at_cap * i"
    using assms(2) by (auto simp: at_ok_def split: option.splits)
  moreover have "length (take (ev_size e) (ev_addrs e)) \<le> at_cap"
    using k(1) by simp
  ultimately show ?thesis
    using assms(2,3) k(2) at_ok_pool(1) [OF assms(1,2)]
    by (auto simp: at_ok_def pool_ok_def min_absorb2 algebra_simps dest: set_update_subset_insert [THEN subsetD])
qed

lemma at_build_safe:
  assumes "inv m" "pool_ok c0" "at_ok c0 n i st" "i < n" "i < limit"
  shows "\<exists>r m'. evsets_at_build h g cache limit i st m = Some (r, m') \<and> inv m'
     \<and> (\<forall>st'. r = At_err st' \<longrightarrow> False) \<and> (\<forall>st'. r = At_failed st' \<longrightarrow> at_ok c0 n i st')
     \<and> (\<forall>st'. r = At_done st' \<longrightarrow> at_ok c0 n (i + 1) st')"
proof -
  obtain p m1 where p: "os_calloc h 56 m = (Some p, m1)" "inv m1"
    using calloc_obtain [OF assms(1)] .
  obtain q m2 where q: "os_calloc h (at_cap * 8) m1 = (Some q, m2)" "inv m2"
    using calloc_obtain [OF p(2)] .
  have cf: "ea_conf st = conf" and len: "length (ea_evsets st) = n"
    using assms(3) by (auto simp: at_ok_def)
  let ?e = "\<lparr>ev_addrs = replicate at_cap 0, ev_size = 0, ev_cap = at_cap, target_addr = ea_target st,
      ev_cands = ea_cands st, build_conf = conf, target_cache = cache\<rparr>"
  have "at_ev ?e"
    using at_ok_pool(1) [OF assms(2,3)] by (simp add: at_ev_def)
  from final_safe [OF q(2) this] obtain err e m3 where
    f: "final_l3_evset h g ?e m2 = Some ((err, e), m3)" "inv m3" "at_left ?e e" "\<not> err \<longrightarrow> at_found e"
    by blast
  let ?st = "st\<lparr>ea_cands := ev_cands e\<rparr>"
  have e: "at_ev e" "ev_cap e = at_cap" and ok: "at_ok c0 n i ?st"
    using f(3) at_ok_shrunk [OF assms(3)] by (auto simp: at_left_def)
  show ?thesis
  proof (cases "err \<or> ev_size e = 0")
    case True
    then have "evsets_at_build h g cache limit i st m = Some (At_failed ?st, m3)"
      using p(1) q(1) f(1) cf by (simp add: evsets_at_build_def)
    then show ?thesis using ok f(2) by simp
  next
    case False
    obtain b m' where b: "os_calloc h (at_cap * limit * 8) m3 = (Some b, m')" "inv m'"
      using calloc_obtain [OF f(2)] .
    obtain m4 where a: "(case ea_addrs st of Some _ \<Rightarrow> (True, m3)
        | None \<Rightarrow> (let (a, m) = os_calloc h (at_cap * limit * 8) m3 in (a \<noteq> None, m))) = (True, m4)" "inv m4"
      by (rule that [of "if ea_addrs st = None then m' else m3"]) (use b f(2) in \<open>auto split: option.splits\<close>)
    have k: "ev_size e \<le> length (cands_addrs (ev_cands e))" "ev_size e \<le> cands_count (ev_cands e)"
        "ev_size e \<le> length (ev_addrs e)"
      using False f(4) e by (auto simp: at_found_def at_ev_def pool_ok_def)
    let ?addrs = "(case ea_addrs st of None \<Rightarrow> [] | Some addrs \<Rightarrow> addrs) @ take (ev_size e) (ev_addrs e)"
    let ?st' = "?st\<lparr>ea_evsets := (ea_evsets ?st)[i := Some e],
            ea_passed := ea_passed ?st @ take (ev_size e) (cands_addrs (ea_cands ?st)),
            ea_cands := (ea_cands ?st)\<lparr>cands_addrs := drop (ev_size e) (cands_addrs (ea_cands ?st)),
                                       cands_count := cands_count (ea_cands ?st) - ev_size e\<rparr>,
            ea_addrs := Some ((case ea_addrs ?st of None \<Rightarrow> [] | Some addrs \<Rightarrow> addrs) @ take (ev_size e) (ev_addrs e))\<rparr>"
    have ok': "at_ok c0 n (i + 1) ?st'"
      using False f(4) e assms(2,4) ok by (intro at_taken) simp_all
    then have "length ?addrs \<le> at_cap * (i + 1)"
      by (simp add: at_ok_def)
    also have "\<dots> \<le> at_cap * limit"
      using assms(5) by (intro mult_le_mono2) simp
    finally have "evsets_at_build h g cache limit i st m = Some (At_done ?st', m4)"
      using p(1) q(1) f(1) cf False k a(1) len assms(4)
      by (simp add: evsets_at_build_def arr_simps Let_def)
    then show ?thesis using ok' a(2) by simp
  qed
qed

lemma at_step_safe:
  assumes "inv m" "pool_ok c0" "at_ok c0 n i st" "i < n" "i < limit"
  shows "\<exists>b st' m'. evsets_at_step h g cache [] limit i st m = Some ((Some b, st'), m') \<and> inv m' \<and> at_ok c0 n (i + 1) st'"
proof -
  obtain r m1 where b: "evsets_at_build h g cache limit i st m = Some (r, m1)" "inv m1"
    and r: "\<forall>st'. r = At_err st' \<longrightarrow> False" "\<forall>st'. r = At_failed st' \<longrightarrow> at_ok c0 n i st'"
      "\<forall>st'. r = At_done st' \<longrightarrow> at_ok c0 n (i + 1) st'"
    using at_build_safe [OF assms] by blast
  show ?thesis
  proof (cases r)
    case (At_failed st')
    then have "evsets_at_step h g cache [] limit i st m = Some ((Some False, st'), m1)"
      using b(1) by (simp add: evsets_at_step_def)
    moreover have "at_ok c0 n (i + 1) st'"
      using r(2) At_failed at_ok_mono [of c0 n i st' "i + 1"] by simp
    ultimately show ?thesis using b(2) by blast
  next
    case (At_done st')
    then have "at_ok c0 n (i + 1) st'" using r(3) by simp
    from at_next_safe [OF b(2) assms(2) this] obtain x st2 m2 where
      "evsets_at_next h g limit i st' m1 = Some ((x, st2), m2)" "inv m2" "at_ok c0 n (i + 1) st2" by blast
    moreover from this have "evsets_at_step h g cache [] limit i st m = Some ((Some x, st2), m2)"
      using b(1) At_done by (simp add: evsets_at_step_def)
    ultimately show ?thesis by blast
  qed (use r(1) in simp)
qed

lemma at_loop_safe:
  assumes "inv m" "pool_ok c0" "at_ok c0 n i st" "limit \<le> n"
  shows "\<exists>st' m'. evsets_at_loop h g cache [] limit i st m = Some ((False, st'), m') \<and> inv m'
     \<and> (\<exists>j. at_ok c0 n j st')"
  using assms(1,3)
proof (induction "limit - i" arbitrary: i st m rule: less_induct)
  case less
  show ?case
  proof (cases "i < limit \<and> cands_count (ea_cands st) > 0")
    case False
    then have "evsets_at_loop h g cache [] limit i st m = Some ((False, st), m)"
      by (subst evsets_at_loop.simps) auto
    then show ?thesis using less.prems by blast
  next
    case True
    have i: "i < n" "i < limit" using True assms(4) by auto
    obtain b st1 m1 where s: "evsets_at_step h g cache [] limit i st m = Some ((Some b, st1), m1)" "inv m1"
        "at_ok c0 n (i + 1) st1"
      using at_step_safe [OF less.prems(1) assms(2) less.prems(2) i] by blast
    have eq: "evsets_at_loop h g cache [] limit i st m =
      (if b then Some ((False, st1), m1) else evsets_at_loop h g cache [] limit (i + 1) st1 m1)"
      using True s(1) by (subst evsets_at_loop.simps) simp
    show ?thesis
    proof (cases b)
      case True
      then show ?thesis using eq s by auto
    next
      case False
      then show ?thesis using eq less.hyps [OF _ s(2,3)] i(2) by simp
    qed
  qed
qed

lemma at_start:
  assumes "pool_ok c0" "0 < cands_count c0"
  shows "at_ok c0 n 0 \<lparr>ea_passed = [], ea_cands = c0\<lparr>cands_count := cands_count c0 - 1\<rparr>, ea_target = t,
     ea_addrs = None, ea_evsets = replicate n None, ea_conf = conf, ea_skipped = 0\<rparr>"
  using assms by (simp add: at_ok_def)

lemma evsets_at_safe:
  assumes "inv m" "pool_ok c" "evsets_at_counts conf cache max_evsets = Some (cap, limit)"
  shows "\<exists>r c' m'. build_evsets_at h g l2conf offset conf cache (Some c) [] max_evsets m =
       Some ((r, cap, Some c', conf), m') \<and> inv m' \<and> cands_count c' = cands_count c
     \<and> perm_upto (cands_count c) (cands_addrs c) (cands_addrs c')
     \<and> (\<forall>evs. r = Some evs \<longrightarrow> length evs = cap \<and> (\<forall>e. Some e \<in> set evs \<longrightarrow> at_set c e))"
proof -
  obtain p m1 where p: "os_calloc h (cap * 8) m = (Some p, m1)" "inv m1"
    using calloc_obtain [OF assms(1)] .
  have lim: "limit \<le> cap"
    using assms(3) by (auto simp: evsets_at_counts_def Let_def split: option.splits if_splits)
  show ?thesis
  proof (cases "cands_count c = 0")
    case True
    then have "build_evsets_at h g l2conf offset conf cache (Some c) [] max_evsets m = Some ((None, cap, Some c, conf), m1)"
      using assms(3) p(1) by (simp add: build_evsets_at_def)
    then show ?thesis using p(2) by simp
  next
    case False
    let ?t = "cands_addrs c ! (cands_count c - 1)"
    have t: "arr_get (cands_addrs c) (cands_count c - 1) = Some ?t"
      using False assms(2) by (intro arr_get_Some) (auto simp: pool_ok_def)
    let ?st = "\<lparr>ea_passed = [], ea_cands = c\<lparr>cands_count := cands_count c - 1\<rparr>, ea_target = ?t,
     ea_addrs = None, ea_evsets = replicate cap None, ea_conf = conf, ea_skipped = 0\<rparr>"
    have "at_ok c cap 0 ?st"
      using at_start [OF assms(2)] False by simp
    from at_loop_safe [OF p(2) assms(2) this lim] obtain st' m' j where
      l: "evsets_at_loop h g cache [] limit 0 ?st m1 = Some ((False, st'), m')" "inv m'" "at_ok c cap j st'"
      by blast
    have "build_evsets_at h g l2conf offset conf cache (Some c) [] max_evsets m =
        Some ((Some (ea_evsets st'), cap, Some ((ea_cands st')\<lparr>cands_addrs := ea_passed st' @ cands_addrs (ea_cands st'),
            cands_count := cands_count c\<rparr>), ea_conf st'), m')"
      using assms(3) p(1) t l(1) False by (simp add: build_evsets_at_def)
    then show ?thesis
      using l(2,3) by (simp add: at_ok_def)
  qed
qed

end

subsection \<open>Properties\<close>

lemma l3_conf_runs:
  assumes "\<And>n m. fst (os_calloc h n m) \<noteq> None" and "\<And>e. l2ev = Some e \<Longrightarrow> ev_size e \<le> length (ev_addrs e)"
  shows "conf_runs h (init_def_l3_conf g l2ev True c)"
  using assms by (simp add: conf_runs_def init_def_l3_conf_def)

lemma l3_any_machine:
  assumes "\<And>n m. fst (os_calloc h n m) \<noteq> None" and "conf_runs h conf"
    and "0 \<le> unknown_sib cache" and "unknown_sib cache < 30"
  shows "l3_machine h g conf (\<lambda>m. True) cache"
  by (intro l3_machine.intro l3_machine_axioms.intro conf_runs_safe assms) simp

interpretation flat_l3: l3_machine flat_hw flat_globals "init_def_l3_conf flat_globals None True conf_zero" "\<lambda>m. True" skx_l3
proof (rule l3_any_machine)
  show al: "fst (os_calloc flat_hw n m) \<noteq> None" for n m
    by (simp add: flat_hw_def)
  show "conf_runs flat_hw (init_def_l3_conf flat_globals None True conf_zero)"
    by (rule l3_conf_runs [OF al]) simp
qed (simp_all add: skx_l3_def)

lemma evsets_at_any:
  assumes "\<And>n m. fst (os_calloc h n m) \<noteq> None" and "\<And>e. l2ev = Some e \<Longrightarrow> ev_size e \<le> length (ev_addrs e)"
    and "pool_ok c" and "0 \<le> unknown_sib cache" and "unknown_sib cache < 30"
    and "evsets_at_counts conf cache max_evsets = Some (cap, limit)"
    and "conf = init_def_l3_conf g l2ev True conf0"
  shows "\<exists>r c' m'. build_evsets_at h g l2conf offset conf cache (Some c) [] max_evsets m =
       Some ((r, cap, Some c', conf), m') \<and> cands_count c' = cands_count c
     \<and> perm_upto (cands_count c) (cands_addrs c) (cands_addrs c')
     \<and> (\<forall>evs. r = Some evs \<longrightarrow> length evs = cap \<and> (\<forall>e. Some e \<in> set evs \<longrightarrow> 0 < ev_size e
          \<and> ev_size e \<le> wrap32 (unat (n_ways (l3_info g)) * 2)
          \<and> mset (take (ev_size e) (ev_addrs e)) \<subseteq># pool c))"
proof -
  have L: "l3_machine h g conf (\<lambda>m. True) cache"
    unfolding assms(7) using assms(1,2,4,5) by (intro l3_any_machine l3_conf_runs) auto
  have cs: "cap_scaling conf = 2"
    by (simp add: assms(7) init_def_l3_conf_def)
  have s: "l3_machine.at_set g conf c e \<Longrightarrow> 0 < ev_size e \<and> ev_size e \<le> wrap32 (unat (n_ways (l3_info g)) * 2)
          \<and> mset (take (ev_size e) (ev_addrs e)) \<subseteq># pool c" for e
    by (simp add: l3_machine.at_set_def [OF L] cs)
  show ?thesis
    using l3_machine.evsets_at_safe [OF L TrueI assms(3,6), of l2conf offset m] s by blast
qed


text \<open>A set of two lines as the L2 filter, and a pool of three lines.\<close>

definition demo_filter :: "EvTestConf EvSet" where
  "demo_filter = as_lower ((demo_evset [0x10000, 0x20000] skx_l2)\<lparr>ev_size := 2\<rparr>)"

definition demo_pool :: EvCands where
  "demo_pool = (ev_cands (demo_evset [0x10000, 0x20000, 0x30000] skx_l3))"

lemma skx_uncertainty: "cache_uncertainty skx_l2 = 16" "cache_uncertainty skx_l3 = 896"
  by code_simp+


end
