(* ===== verification/Topo_Utils.thy ===== *)
theory Topo_Utils
  imports Evset_Data
begin

text \<open>
  The placement of threads: queries on the vCPU topology that src/vm_tools/vtop.c detects
  (src/utils.c), the choice of vCPU pairs (\<open>find_optimal_vcpu_pairs\<close> of src/evset_para.c), the
  number of physical cores read from sysfs, and the small helpers of src/utils.c.
\<close>

subsection \<open>The topology (vtop.h)\<close>

datatype cpu_relation = CPU_RELATION_SMT | CPU_RELATION_CORE | CPU_RELATION_SOCKET | CPU_RELATION_REMOTE

text \<open>The arrays have the fixed length \<open>MAX_CPUS\<close> in the source; here they have their own length.\<close>

record cpu_topology =
  nr_cpus :: nat
  nr_sockets :: int
  nr_cores :: int
  cpu_to_socket :: "int list"
  cpu_to_core :: "int list"
  relation_matrix :: "cpu_relation list list"

definition relation :: "cpu_topology \<Rightarrow> nat \<Rightarrow> nat \<Rightarrow> cpu_relation option" where
  "relation topo i j = do { row \<leftarrow> arr_get (relation_matrix topo) i; arr_get row j }"

text \<open>\<open>get_vcpu_topo\<close>: up to three attempts of the detection, which is a parameter.\<close>

fun get_vcpu_topo_tries :: "('m \<Rightarrow> cpu_topology option \<times> 'm) \<Rightarrow> nat \<Rightarrow> 'm \<Rightarrow> cpu_topology option \<times> 'm" where
  "get_vcpu_topo_tries detect 0 m = (None, m)"
| "get_vcpu_topo_tries detect (Suc r) m =
     (let (topo, m) = detect m
      in case topo of Some t \<Rightarrow> (Some t, m) | None \<Rightarrow> get_vcpu_topo_tries detect r m)"

definition get_vcpu_topo :: "('m \<Rightarrow> cpu_topology option \<times> 'm) \<Rightarrow> 'm \<Rightarrow> cpu_topology option \<times> 'm" where
  "get_vcpu_topo detect m = get_vcpu_topo_tries detect 3 m"

subsection \<open>A pair on one socket (find_same_socket_nonSMT_vcpu_pair)\<close>

text \<open>The inner loop: the first partner of \<open>i\<close> on its socket that is not on its core.\<close>

fun socket_partner :: "cpu_topology \<Rightarrow> nat \<Rightarrow> nat list \<Rightarrow> nat option option" where
  "socket_partner topo i [] = Some None"
| "socket_partner topo i (j # js) =
     (if i = j then socket_partner topo i js
      else do {
        r \<leftarrow> relation topo i j;
        if r = CPU_RELATION_SOCKET then Some (Some j) else socket_partner topo i js
      })"

fun socket_pair :: "cpu_topology \<Rightarrow> nat list \<Rightarrow> (nat \<times> nat) option option" where
  "socket_pair topo [] = Some None"
| "socket_pair topo (i # is') = do {
     p \<leftarrow> socket_partner topo i [0..<nr_cpus topo];
     case p of Some j \<Rightarrow> Some (Some (i, j)) | None \<Rightarrow> socket_pair topo is'
   }"

text \<open>The two vCPUs, -1 where there is no pair, and whether there is one.\<close>

definition find_same_socket_nonSMT_vcpu_pair :: "cpu_topology option \<Rightarrow> int \<times> int \<Rightarrow> (bool \<times> int \<times> int) option" where
  "find_same_socket_nonSMT_vcpu_pair topo cur =
     (case topo of None \<Rightarrow> Some (False, cur)
      | Some topo \<Rightarrow> do {
          p \<leftarrow> socket_pair topo [0..<nr_cpus topo];
          Some (case p of None \<Rightarrow> (False, -1, -1) | Some (i, j) \<Rightarrow> (True, int i, int j))
        })"

subsection \<open>Sockets (get_socket_info)\<close>

record socket_info =
  socket_id :: int
  socket_vcpus :: "nat list"

text \<open>Putting one vCPU into the list of its socket, at the end of that list.\<close>

fun add_to_socket :: "int \<Rightarrow> nat \<Rightarrow> socket_info list \<Rightarrow> socket_info list" where
  "add_to_socket s i [] = [\<lparr>socket_id = s, socket_vcpus = [i]\<rparr>]"
| "add_to_socket s i (x # xs) =
     (if socket_id x = s then x\<lparr>socket_vcpus := socket_vcpus x @ [i]\<rparr> # xs else x # add_to_socket s i xs)"

fun socket_loop :: "cpu_topology \<Rightarrow> nat list \<Rightarrow> socket_info list \<Rightarrow> socket_info list option" where
  "socket_loop topo [] info = Some info"
| "socket_loop topo (i # is') info = do {
     s \<leftarrow> arr_get (cpu_to_socket topo) i;
     socket_loop topo is' (add_to_socket s i info)
   }"

definition get_socket_info :: "cpu_topology option \<Rightarrow> socket_info list option" where
  "get_socket_info topo =
     (case topo of None \<Rightarrow> Some [] | Some topo \<Rightarrow> socket_loop topo [0..<nr_cpus topo] [])"

subsection \<open>Changes of the topology (is_topo_change_harmless)\<close>

definition is_topo_change_harmless :: "cpu_topology option \<Rightarrow> cpu_topology option \<Rightarrow> nat \<Rightarrow> nat \<Rightarrow> bool option" where
  "is_topo_change_harmless prev_topo curr_topo main helper =
     (case (prev_topo, curr_topo) of
        (Some _, Some topo) \<Rightarrow> do {
          s \<leftarrow> arr_get (cpu_to_socket topo) main;
          s' \<leftarrow> arr_get (cpu_to_socket topo) helper;
          if s \<noteq> s' then Some False
          else do {
            r \<leftarrow> relation topo main helper;
            Some (r \<noteq> CPU_RELATION_SMT)
          }
        }
      | _ \<Rightarrow> Some True)"

subsection \<open>Pairs of vCPUs (find_optimal_vcpu_pairs)\<close>

record vcpu_pair =
  main_vcpu :: nat
  helper_vcpu :: nat

text \<open>The search for another partner, and the exchange with the one that did not fit.\<close>

fun other_partner :: "cpu_topology \<Rightarrow> nat \<Rightarrow> nat \<Rightarrow> nat list \<Rightarrow> (nat \<times> nat list) option option" where
  "other_partner topo v1 v2 [] = Some None"
| "other_partner topo v1 v2 (v3 # vs) = do {
     r \<leftarrow> relation topo v1 v3;
     if r \<noteq> CPU_RELATION_SMT then Some (Some (v3, v2 # vs))
     else do {
       p \<leftarrow> other_partner topo v1 v2 vs;
       Some (map_option (\<lambda>(v, vs). (v, v3 # vs)) p)
     }
   }"

lemma other_partner_length:
  "other_partner topo v1 v2 vs = Some (Some (v, vs')) \<Longrightarrow> length vs' = length vs"
  by (induction vs arbitrary: v vs') (auto split: bind_splits if_splits)

text \<open>The loop \<open>i += 2\<close> over the vCPUs of one socket, on the part of the array from \<open>i\<close> on.\<close>

function pair_up :: "cpu_topology \<Rightarrow> nat \<Rightarrow> nat list \<Rightarrow> vcpu_pair list option" where
  "pair_up topo 0 vs = Some []"
| "pair_up topo (Suc k) [] = Some []"
| "pair_up topo (Suc k) [v1] = Some []"
| "pair_up topo (Suc k) (v1 # v2 # vs) = do {
     r \<leftarrow> relation topo v1 v2;
     if r \<noteq> CPU_RELATION_SMT
     then map_option (\<lambda>ps. \<lparr>main_vcpu = v1, helper_vcpu = v2\<rparr> # ps) (pair_up topo k vs)
     else do {
       p \<leftarrow> other_partner topo v1 v2 vs;
       case p of None \<Rightarrow> pair_up topo (Suc k) vs
       | Some (v3, vs') \<Rightarrow>
           map_option (\<lambda>ps. \<lparr>main_vcpu = v1, helper_vcpu = v3\<rparr> # ps) (pair_up topo k vs')
     }
   }"
  by pat_completeness auto
termination
  by (relation "measure (\<lambda>(topo, k, vs). length vs)") (auto dest: other_partner_length)

text \<open>The vCPUs of one socket that are not taken yet.\<close>

fun socket_members :: "cpu_topology \<Rightarrow> int \<Rightarrow> nat list \<Rightarrow> nat list \<Rightarrow> nat list option" where
  "socket_members topo s used [] = Some []"
| "socket_members topo s used (i # is') = do {
     s' \<leftarrow> arr_get (cpu_to_socket topo) i;
     vs \<leftarrow> socket_members topo s used is';
     Some (if s' = s \<and> i \<notin> set used then i # vs else vs)
   }"

definition pair_vcpus :: "vcpu_pair list \<Rightarrow> nat list" where
  "pair_vcpus ps = concat (map (\<lambda>p. [main_vcpu p, helper_vcpu p]) ps)"

text \<open>One socket after the other; an allocation that fails ends it with the pairs found so far.\<close>

fun pair_sockets ::
    "'m hw \<Rightarrow> cpu_topology \<Rightarrow> nat \<Rightarrow> int list \<Rightarrow> vcpu_pair list \<Rightarrow> 'm \<Rightarrow> (vcpu_pair list \<times> 'm) option" where
  "pair_sockets h topo n [] ps m = Some (ps, m)"
| "pair_sockets h topo n (s # ss) ps m =
     (if length ps < n then
        (let (p, m) = os_calloc h (nr_cpus topo * 4) m
         in if p = None then Some (ps, m)
            else do {
              vs \<leftarrow> socket_members topo s (pair_vcpus ps) [0..<nr_cpus topo];
              qs \<leftarrow> pair_up topo (n - length ps) vs;
              pair_sockets h topo n ss (ps @ qs) m
            })
      else Some (ps, m))"

definition find_optimal_vcpu_pairs ::
    "'m hw \<Rightarrow> cpu_topology option \<Rightarrow> nat \<Rightarrow> 'm \<Rightarrow> (vcpu_pair list \<times> 'm) option" where
  "find_optimal_vcpu_pairs h topo n_requested m =
     (case topo of None \<Rightarrow> Some ([], m)
      | Some topo \<Rightarrow>
          if n_requested = 0 then Some ([], m)
          else (let (p, m) = os_calloc h (nr_cpus topo) m
                in if p = None then Some ([], m)
                   else pair_sockets h topo n_requested (map int [0..<nat (nr_sockets topo)]) [] m))"

subsection \<open>Physical cores (n_physical_cores, validate_core_count_arg)\<close>

text \<open>
  A directory entry of \<open>/sys/devices/system/cpu\<close>. \<open>parse_cpu_dir_name\<close> accepts \<open>cpu\<close> followed by
  what \<open>strtol\<close> reads to the end as a number that fits an \<open>i32\<close>; \<open>strtol\<close> skips white space
  and takes a sign.
\<close>

fun parse_digits :: "string \<Rightarrow> int \<Rightarrow> int option" where
  "parse_digits [] n = Some n"
| "parse_digits (c # cs) n =
     (if 48 \<le> (of_char c :: int) \<and> of_char c \<le> (57 :: int) then parse_digits cs (n * 10 + (of_char c - 48)) else None)"

definition strtol_all :: "string \<Rightarrow> int option" where
  "strtol_all s =
     (let s = dropWhile (\<lambda>c. c \<in> set [CHR '' '', CHR 0x09, CHR 0x0A, CHR 0x0B, CHR 0x0C, CHR 0x0D]) s;
          (neg, ds) = (case s of c # cs \<Rightarrow> if c = CHR ''-'' then (True, cs) else if c = CHR ''+'' then (False, cs) else (False, s)
                       | [] \<Rightarrow> (False, s))
      in if ds = [] then None else map_option (\<lambda>n. if neg then - n else n) (parse_digits ds 0))"

definition parse_cpu_dir_name :: "string \<Rightarrow> int option" where
  "parse_cpu_dir_name name =
     (if take 3 name \<noteq> ''cpu'' \<or> length name = 3 then None
      else case strtol_all (drop 3 name) of
        None \<Rightarrow> None
      | Some n \<Rightarrow> if n < 0 \<or> n > 2147483647 then None else Some n)"

record sysfs =
  sys_entries :: "string list option"
  sys_online :: "int \<Rightarrow> int option"
  sys_package_id :: "int \<Rightarrow> int option"
  sys_core_id :: "int \<Rightarrow> int option"

definition cpu_is_online :: "sysfs \<Rightarrow> int \<Rightarrow> bool" where
  "cpu_is_online fs cpu = (case sys_online fs cpu of None \<Rightarrow> True | Some online \<Rightarrow> online \<noteq> 0)"

definition physical_core_seen :: "(int \<times> int) list \<Rightarrow> int \<Rightarrow> int \<Rightarrow> bool" where
  "physical_core_seen cores package_id core_id = ((package_id, core_id) \<in> set cores)"

text \<open>The growth of the array fails or not by \<open>grow\<close>, asked with the new capacity.\<close>

fun core_loop :: "sysfs \<Rightarrow> (nat \<Rightarrow> bool) \<Rightarrow> nat \<Rightarrow> string list \<Rightarrow> (int \<times> int) list \<Rightarrow> (int \<times> int) list" where
  "core_loop fs grow cap [] cores = cores"
| "core_loop fs grow cap (name # names) cores =
     (case parse_cpu_dir_name name of None \<Rightarrow> core_loop fs grow cap names cores
      | Some cpu \<Rightarrow>
          if \<not> cpu_is_online fs cpu then core_loop fs grow cap names cores
          else case (sys_package_id fs cpu, sys_core_id fs cpu) of
            (Some p, Some c) \<Rightarrow>
              if physical_core_seen cores p c then core_loop fs grow cap names cores
              else if length cores = cap then
                (if grow (cap * 2) then core_loop fs grow (cap * 2) names (cores @ [(p, c)]) else cores)
              else core_loop fs grow cap names (cores @ [(p, c)])
          | _ \<Rightarrow> core_loop fs grow cap names cores)"

definition n_physical_cores :: "globals \<Rightarrow> sysfs \<Rightarrow> (nat \<Rightarrow> bool) \<Rightarrow> int" where
  "n_physical_cores g fs grow =
     (case sys_entries fs of None \<Rightarrow> n_system_cores g
      | Some names \<Rightarrow>
          (let cap = (if n_system_cores g = 0 then 1 else nat (n_system_cores g))
           in if \<not> grow cap then n_system_cores g
              else (let n = length (core_loop fs grow cap names [])
                    in if n = 0 then n_system_cores g else int n)))"

definition validate_core_count_arg :: "globals \<Rightarrow> sysfs \<Rightarrow> (nat \<Rightarrow> bool) \<Rightarrow> nat \<Rightarrow> bool" where
  "validate_core_count_arg g fs grow requested =
     (if requested = 0 then True
      else (let n = n_physical_cores g fs grow; mx = (if n \<le> 0 then n_system_cores g else n)
            in int requested \<le> mx))"

subsection \<open>Address translation (va_to_pa, va_to_l2color)\<close>

text \<open>
  \<open>pagemap\<close> is the entry of a virtual page in \<open>/proc/self/pagemap\<close>, \<open>None\<close> when the file cannot
  be opened or read there; \<open>page_size\<close> is the result of \<open>getpagesize\<close>.
\<close>

definition va_to_pa :: "u64 \<Rightarrow> (u64 \<Rightarrow> u64 option) \<Rightarrow> addr \<Rightarrow> u64" where
  "va_to_pa page_size pagemap va =
     (case pagemap (va div page_size) of None \<Rightarrow> 0
      | Some entry \<Rightarrow>
          if entry AND push_bit 63 1 = 0 then 0
          else push_bit 12 (entry AND (push_bit 55 1 - 1)) OR (va AND (page_size - 1)))"

definition va_to_l2color :: "globals \<Rightarrow> u64 \<Rightarrow> (u64 \<Rightarrow> u64 option) \<Rightarrow> addr \<Rightarrow> u32" where
  "va_to_l2color g page_size pagemap va = cache_get_color (va_to_pa page_size pagemap va) (l2_info g)"

subsection \<open>Shuffling (shuffle_index)\<close>

text \<open>The loop from \<open>tail\<close> down to 1; \<open>choice tail\<close> is the random choice among \<open>0, \<dots>, tail\<close>.\<close>

fun shuffle_loop :: "(nat \<Rightarrow> nat) \<Rightarrow> nat \<Rightarrow> 'a list \<Rightarrow> 'a list option" where
  "shuffle_loop rand 0 idxs = Some idxs"
| "shuffle_loop rand (Suc k) idxs = do {
     idxs \<leftarrow> arr_swap idxs (rand (Suc k) mod (Suc k + 1)) (Suc k);
     shuffle_loop rand k idxs
   }"

text \<open>For an empty array \<open>sz - 1\<close> wraps to the largest \<open>u32\<close>, and the first swap leaves the array.\<close>

definition shuffle_index :: "(nat \<Rightarrow> nat) \<Rightarrow> 'a list \<Rightarrow> 'a list option" where
  "shuffle_index rand idxs = (if idxs = [] then None else shuffle_loop rand (length idxs - 1) idxs)"


subsection \<open>Lemmas\<close>

definition topo_wf :: "cpu_topology \<Rightarrow> bool" where
  "topo_wf topo =
     (nr_cpus topo \<le> length (cpu_to_socket topo) \<and> nr_cpus topo \<le> length (relation_matrix topo) \<and>
      (\<forall>row \<in> set (relation_matrix topo). nr_cpus topo \<le> length row))"

definition related :: "cpu_topology \<Rightarrow> nat \<Rightarrow> nat \<Rightarrow> cpu_relation" where
  "related topo i j = relation_matrix topo ! i ! j"

lemma relation_Some [simp]:
  "topo_wf topo \<Longrightarrow> i < nr_cpus topo \<Longrightarrow> j < nr_cpus topo \<Longrightarrow> relation topo i j = Some (related topo i j)"
  by (auto simp: topo_wf_def relation_def related_def arr_get_def dest!: bspec [of _ _ "relation_matrix topo ! i"])

lemma cpu_to_socket_Some [simp]:
  "topo_wf topo \<Longrightarrow> i < nr_cpus topo \<Longrightarrow> arr_get (cpu_to_socket topo) i = Some (cpu_to_socket topo ! i)"
  by (auto simp: topo_wf_def arr_get_def)

lemma socket_partner_find:
  assumes "topo_wf topo" and "i < nr_cpus topo" and "set js \<subseteq> {..<nr_cpus topo}"
  shows "socket_partner topo i js = Some (find (\<lambda>j. i \<noteq> j \<and> related topo i j = CPU_RELATION_SOCKET) js)"
  using assms by (induction js) auto

lemma socket_pair_spec:
  assumes "topo_wf topo" and "set is' \<subseteq> {..<nr_cpus topo}"
  obtains "socket_pair topo is' = Some None"
      "\<forall>i \<in> set is'. \<forall>j < nr_cpus topo. i \<noteq> j \<longrightarrow> related topo i j \<noteq> CPU_RELATION_SOCKET"
  | i j where "socket_pair topo is' = Some (Some (i, j))" "i < nr_cpus topo" "j < nr_cpus topo" "i \<noteq> j"
      "related topo i j = CPU_RELATION_SOCKET"
  using assms
proof (induction is' arbitrary: thesis)
  case (Cons i is')
  have eq: "socket_partner topo i [0..<nr_cpus topo] =
      Some (find (\<lambda>j. i \<noteq> j \<and> related topo i j = CPU_RELATION_SOCKET) [0..<nr_cpus topo])"
    using Cons.prems by (intro socket_partner_find) auto
  show ?case
  proof (cases "find (\<lambda>j. i \<noteq> j \<and> related topo i j = CPU_RELATION_SOCKET) [0..<nr_cpus topo]")
    case None
    then have no: "\<forall>j < nr_cpus topo. i \<noteq> j \<longrightarrow> related topo i j \<noteq> CPU_RELATION_SOCKET"
      by (auto simp: find_None_iff)
    show ?thesis
      by (rule Cons.IH) (use Cons.prems None eq no in auto)
  next
    case (Some j)
    then have "i \<noteq> j \<and> related topo i j = CPU_RELATION_SOCKET \<and> j < nr_cpus topo"
      by (auto simp: find_Some_iff)
    then show ?thesis
      using Cons.prems(2) [of i j] Cons.prems(4) Some eq by simp
  qed
qed simp

text \<open>Pairing up within one socket.\<close>

lemma other_partner_spec:
  assumes "topo_wf topo" and "v1 < nr_cpus topo" and "set vs \<subseteq> {..<nr_cpus topo}"
  obtains "other_partner topo v1 v2 vs = Some None"
      "\<forall>v \<in> set vs. related topo v1 v = CPU_RELATION_SMT"
  | v3 vs' where "other_partner topo v1 v2 vs = Some (Some (v3, vs'))"
      "mset (v3 # vs') = mset (v2 # vs)" "related topo v1 v3 \<noteq> CPU_RELATION_SMT" "v3 \<in> set vs"
  using assms
proof (induction vs arbitrary: thesis)
  case (Cons v vs)
  show ?case
  proof (cases "related topo v1 v = CPU_RELATION_SMT")
    case True
    show ?thesis
      by (rule Cons.IH) (use Cons.prems True in \<open>auto simp: add_mset_commute\<close>)
  qed (use Cons.prems(2) [of v "v2 # vs"] Cons.prems(3-5) in \<open>auto simp: add_mset_commute\<close>)
qed simp

definition pairs_ok :: "cpu_topology \<Rightarrow> nat set \<Rightarrow> vcpu_pair list \<Rightarrow> bool" where
  "pairs_ok topo V ps =
     (distinct (pair_vcpus ps) \<and> set (pair_vcpus ps) \<subseteq> V \<and>
      (\<forall>p \<in> set ps. related topo (main_vcpu p) (helper_vcpu p) \<noteq> CPU_RELATION_SMT))"

lemma pair_vcpus_simps [simp]:
  "pair_vcpus [] = []"
  "pair_vcpus (p # ps) = main_vcpu p # helper_vcpu p # pair_vcpus ps"
  "pair_vcpus (ps @ qs) = pair_vcpus ps @ pair_vcpus qs"
  by (simp_all add: pair_vcpus_def)

lemma pairs_ok_Nil [simp]: "pairs_ok topo V []"
  by (simp add: pairs_ok_def)

lemma pairs_ok_mono: "pairs_ok topo V ps \<Longrightarrow> V \<subseteq> W \<Longrightarrow> pairs_ok topo W ps"
  by (auto simp: pairs_ok_def)

lemma pairs_ok_Cons:
  "pairs_ok topo (set vs) ps \<Longrightarrow> distinct (v1 # v2 # vs) \<Longrightarrow> related topo v1 v2 \<noteq> CPU_RELATION_SMT \<Longrightarrow>
   pairs_ok topo (set (v1 # v2 # vs)) (\<lparr>main_vcpu = v1, helper_vcpu = v2\<rparr> # ps)"
  by (auto simp: pairs_ok_def)

lemma pair_up_ok:
  assumes "topo_wf topo" and "set vs \<subseteq> {..<nr_cpus topo}" and "distinct vs"
  shows "\<exists>ps. pair_up topo k vs = Some ps \<and> length ps \<le> k \<and> pairs_ok topo (set vs) ps"
  using assms
proof (induction topo k vs rule: pair_up.induct)
  case (4 topo k v1 v2 vs)
  show ?case
  proof (cases "related topo v1 v2 = CPU_RELATION_SMT")
    case False
    obtain ps where "pair_up topo k vs = Some ps" "length ps \<le> k" "pairs_ok topo (set vs) ps"
      using 4(1) [of "related topo v1 v2"] 4(4-) False by auto
    then show ?thesis
      using pairs_ok_Cons [of topo vs ps v1 v2] 4(4-) False by simp
  next
    case True
    have b: "v1 < nr_cpus topo" "set vs \<subseteq> {..<nr_cpus topo}" and r: "relation topo v1 v2 = Some CPU_RELATION_SMT"
      using 4(4-) True by auto
    show ?thesis
    proof (rule other_partner_spec [OF 4(4) b, of v2])
      assume n: "other_partner topo v1 v2 vs = Some None"
      obtain ps where "pair_up topo (Suc k) vs = Some ps" "length ps \<le> Suc k" "pairs_ok topo (set vs) ps"
        using 4(2) [OF r _ n] 4(4-) by auto
      then show ?thesis
        using r n pairs_ok_mono [of topo "set vs" ps "set (v1 # v2 # vs)"] by auto
    next
      fix v3 vs'
      assume n: "other_partner topo v1 v2 vs = Some (Some (v3, vs'))"
        and ms: "mset (v3 # vs') = mset (v2 # vs)" and ne: "related topo v1 v3 \<noteq> CPU_RELATION_SMT"
      have st: "set (v3 # vs') = set (v2 # vs)" and di: "distinct (v3 # vs')"
        using ms 4(6) mset_eq_setD [OF ms] mset_eq_imp_distinct_iff [OF ms] by auto
      have "set vs' \<subseteq> {..<nr_cpus topo}"
        using st 4(5) by force
      then obtain ps where ps: "pair_up topo k vs' = Some ps" "length ps \<le> k" "pairs_ok topo (set vs') ps"
        using 4(3) [OF r _ n, of "(v3, vs')" v3 vs'] 4(4) di by auto
      have "v1 \<notin> set (v3 # vs')"
        using 4(6) by (simp only: st) simp
      then have "pairs_ok topo (set (v1 # v3 # vs')) (\<lparr>main_vcpu = v1, helper_vcpu = v3\<rparr> # ps)"
        using di ne ps(3) by (intro pairs_ok_Cons) auto
      moreover have "set (v1 # v3 # vs') = set (v1 # v2 # vs)"
        using st by simp
      ultimately show ?thesis
        using r n ps by simp
    qed
  qed
qed auto

lemma socket_members_eq:
  assumes "topo_wf topo" and "set is' \<subseteq> {..<nr_cpus topo}"
  shows "socket_members topo s used is' = Some (filter (\<lambda>i. cpu_to_socket topo ! i = s \<and> i \<notin> set used) is')"
  using assms by (induction is') auto

definition pair_placed :: "cpu_topology \<Rightarrow> vcpu_pair \<Rightarrow> bool" where
  "pair_placed topo p =
     (main_vcpu p < nr_cpus topo \<and> helper_vcpu p < nr_cpus topo \<and>
      cpu_to_socket topo ! main_vcpu p = cpu_to_socket topo ! helper_vcpu p \<and>
      related topo (main_vcpu p) (helper_vcpu p) \<noteq> CPU_RELATION_SMT)"

lemma pair_members: "p \<in> set ps \<Longrightarrow> main_vcpu p \<in> set (pair_vcpus ps) \<and> helper_vcpu p \<in> set (pair_vcpus ps)"
  by (auto simp: pair_vcpus_def)

lemma pair_sockets_ok:
  assumes "topo_wf topo" and "distinct (pair_vcpus ps)" and "list_all (pair_placed topo) ps" and "length ps \<le> n"
  shows "\<exists>qs m'. pair_sockets h topo n ss ps m = Some (qs, m') \<and> distinct (pair_vcpus qs) \<and>
           list_all (pair_placed topo) qs \<and> length qs \<le> n"
  using assms(2-)
proof (induction ss arbitrary: ps m)
  case (Cons s ss)
  obtain p m' where c: "os_calloc h (nr_cpus topo * 4) m = (p, m')"
    by (cases "os_calloc h (nr_cpus topo * 4) m")
  define vs where "vs = filter (\<lambda>i. cpu_to_socket topo ! i = s \<and> i \<notin> set (pair_vcpus ps)) [0..<nr_cpus topo]"
  have vs: "socket_members topo s (pair_vcpus ps) [0..<nr_cpus topo] = Some vs"
    unfolding vs_def by (intro socket_members_eq assms(1)) auto
  obtain qs where qs: "pair_up topo (n - length ps) vs = Some qs" "length qs \<le> n - length ps"
      "pairs_ok topo (set vs) qs"
    using pair_up_ok [OF assms(1), of vs "n - length ps"] by (auto simp: vs_def)
  have "distinct (pair_vcpus (ps @ qs))"
    using qs(3) Cons.prems(1) by (auto simp: pairs_ok_def vs_def)
  moreover have "pair_placed topo p" if "p \<in> set qs" for p
  proof -
    have "main_vcpu p \<in> set vs" "helper_vcpu p \<in> set vs"
        "related topo (main_vcpu p) (helper_vcpu p) \<noteq> CPU_RELATION_SMT"
      using qs(3) that pair_members [OF that] by (auto simp: pairs_ok_def)
    then show ?thesis
      by (simp add: vs_def pair_placed_def)
  qed
  moreover have "length (ps @ qs) \<le> n"
    using qs(2) Cons.prems(3) by simp
  ultimately have "\<exists>qs' m''. pair_sockets h topo n ss (ps @ qs) m' = Some (qs', m'') \<and> distinct (pair_vcpus qs') \<and>
           list_all (pair_placed topo) qs' \<and> length qs' \<le> n"
    using Cons.prems(2) by (intro Cons.IH) (auto simp: list_all_iff)
  then show ?case
    using Cons.prems by (simp add: c vs qs(1))
qed simp

text \<open>
  C29: On a topology whose arrays cover its vCPUs, \<open>find_optimal_vcpu_pairs\<close> returns, whatever
  allocations fail, at most the requested number of pairs; no vCPU is in two pairs or twice in
  one, and the two vCPUs of every pair exist, are on one socket and are not SMT siblings.
\<close>

theorem find_optimal_vcpu_pairs_placed:
  assumes "topo_wf topo"
  shows "\<exists>ps m'. find_optimal_vcpu_pairs h (Some topo) n m = Some (ps, m') \<and> length ps \<le> n \<and>
           distinct (pair_vcpus ps) \<and> list_all (pair_placed topo) ps"
proof -
  obtain p m' where c: "os_calloc h (nr_cpus topo) m = (p, m')"
    by (cases "os_calloc h (nr_cpus topo) m")
  show ?thesis
    using pair_sockets_ok [OF assms, of "[]" n h "map int [0..<nat (nr_sockets topo)]" m']
    by (simp add: find_optimal_vcpu_pairs_def c conj_ac)
qed

text \<open>Two cores of two threads each, on one socket; and a machine whose allocations succeed.\<close>

definition two_cores :: cpu_topology where
  "two_cores = \<lparr>nr_cpus = 4, nr_sockets = 1, nr_cores = 2, cpu_to_socket = [0, 0, 0, 0],
     cpu_to_core = [0, 0, 1, 1],
     relation_matrix =
       [[CPU_RELATION_SMT, CPU_RELATION_SMT, CPU_RELATION_SOCKET, CPU_RELATION_SOCKET],
        [CPU_RELATION_SMT, CPU_RELATION_SMT, CPU_RELATION_SOCKET, CPU_RELATION_SOCKET],
        [CPU_RELATION_SOCKET, CPU_RELATION_SOCKET, CPU_RELATION_SMT, CPU_RELATION_SMT],
        [CPU_RELATION_SOCKET, CPU_RELATION_SOCKET, CPU_RELATION_SMT, CPU_RELATION_SMT]]\<rparr>"

lemma two_cores_wf [simp]: "topo_wf two_cores"
  by (simp add: topo_wf_def two_cores_def)

theorem find_optimal_vcpu_pairs_placed_witness:
  "topo_wf two_cores \<and>
   (\<exists>ps m'. find_optimal_vcpu_pairs flat_hw (Some two_cores) 2 (\<lambda>_. 0, 0) = Some (ps, m') \<and> length ps \<le> 2 \<and>
      distinct (pair_vcpus ps) \<and> list_all (pair_placed two_cores) ps)"
  using find_optimal_vcpu_pairs_placed [of two_cores flat_hw 2 "(\<lambda>_. 0, 0)"] by simp

text \<open>
  C16: \<open>find_same_socket_nonSMT_vcpu_pair\<close> reports a pair exactly when two different vCPUs of the
  topology are on different cores of one socket; it then stores two such vCPUs, and otherwise the
  value -1 twice, which leaves both threads unpinned.
\<close>

theorem find_same_socket_pair_complete:
  assumes "topo_wf topo"
  shows "\<exists>found main helper.
    find_same_socket_nonSMT_vcpu_pair (Some topo) cur = Some (found, main, helper) \<and>
    found = (\<exists>i < nr_cpus topo. \<exists>j < nr_cpus topo. i \<noteq> j \<and> related topo i j = CPU_RELATION_SOCKET) \<and>
    (if found then (\<exists>i < nr_cpus topo. \<exists>j < nr_cpus topo. main = int i \<and> helper = int j \<and> i \<noteq> j \<and>
                      related topo i j = CPU_RELATION_SOCKET)
     else main = -1 \<and> helper = -1)"
proof (rule socket_pair_spec [OF assms, of "[0..<nr_cpus topo]"])
  assume "socket_pair topo [0..<nr_cpus topo] = Some None"
    "\<forall>i \<in> set [0..<nr_cpus topo]. \<forall>j < nr_cpus topo. i \<noteq> j \<longrightarrow> related topo i j \<noteq> CPU_RELATION_SOCKET"
  then show ?thesis
    by (auto simp: find_same_socket_nonSMT_vcpu_pair_def)
next
  fix i j
  assume p: "socket_pair topo [0..<nr_cpus topo] = Some (Some (i, j))" and
    ij: "i < nr_cpus topo" "j < nr_cpus topo" "i \<noteq> j" "related topo i j = CPU_RELATION_SOCKET"
  have "find_same_socket_nonSMT_vcpu_pair (Some topo) cur = Some (True, int i, int j)"
    by (simp add: find_same_socket_nonSMT_vcpu_pair_def p)
  then show ?thesis
    using ij by auto
qed auto

theorem find_same_socket_pair_complete_witness:
  "topo_wf two_cores \<and>
   (\<exists>found main helper.
    find_same_socket_nonSMT_vcpu_pair (Some two_cores) (7, 7) = Some (found, main, helper) \<and>
    found = (\<exists>i < nr_cpus two_cores. \<exists>j < nr_cpus two_cores. i \<noteq> j \<and> related two_cores i j = CPU_RELATION_SOCKET) \<and>
    (if found then (\<exists>i < nr_cpus two_cores. \<exists>j < nr_cpus two_cores. main = int i \<and> helper = int j \<and> i \<noteq> j \<and>
                      related two_cores i j = CPU_RELATION_SOCKET)
     else main = -1 \<and> helper = -1))"
  using find_same_socket_pair_complete [of two_cores "(7, 7)"] by simp

text \<open>The sockets of a topology.\<close>

definition sockets_ok :: "cpu_topology \<Rightarrow> nat list \<Rightarrow> socket_info list \<Rightarrow> bool" where
  "sockets_ok topo is' info =
     (distinct (map socket_id info) \<and>
      (\<forall>x \<in> set info. socket_vcpus x \<noteq> [] \<and>
         socket_vcpus x = filter (\<lambda>i. cpu_to_socket topo ! i = socket_id x) is') \<and>
      (\<forall>i \<in> set is'. cpu_to_socket topo ! i \<in> socket_id ` set info))"

lemma add_to_socket_ids: "socket_id ` set (add_to_socket s i info) = insert s (socket_id ` set info)"
  by (induction info) auto

lemma add_to_socket_distinct:
  "distinct (map socket_id info) \<Longrightarrow> distinct (map socket_id (add_to_socket s i info))"
  by (induction info) (auto simp flip: set_map simp: add_to_socket_ids [simplified set_map [symmetric]])

lemma add_to_socket_mem:
  assumes "x \<in> set (add_to_socket s i info)" and "distinct (map socket_id info)"
  shows "(x \<in> set info \<and> socket_id x \<noteq> s) \<or>
    (socket_id x = s \<and> ((\<exists>y \<in> set info. socket_id y = s \<and> socket_vcpus x = socket_vcpus y @ [i]) \<or>
       (s \<notin> socket_id ` set info \<and> socket_vcpus x = [i])))"
  using assms by (induction info) (auto simp: image_iff split: if_splits)

lemma add_to_socket_ok:
  assumes "sockets_ok topo is' info" and "s = cpu_to_socket topo ! i"
  shows "sockets_ok topo (is' @ [i]) (add_to_socket s i info)"
proof -
  have d: "distinct (map socket_id info)" and
    v: "\<And>x. x \<in> set info \<Longrightarrow> socket_vcpus x \<noteq> [] \<and> socket_vcpus x = filter (\<lambda>i. cpu_to_socket topo ! i = socket_id x) is'" and
    c: "\<And>i. i \<in> set is' \<Longrightarrow> cpu_to_socket topo ! i \<in> socket_id ` set info"
    using assms(1) by (auto simp: sockets_ok_def)
  have "socket_vcpus x \<noteq> [] \<and> socket_vcpus x = filter (\<lambda>i. cpu_to_socket topo ! i = socket_id x) (is' @ [i])"
    if x: "x \<in> set (add_to_socket s i info)" for x
    using add_to_socket_mem [OF x d]
  proof (elim disjE conjE bexE)
    assume n: "socket_id x = s" "s \<notin> socket_id ` set info" "socket_vcpus x = [i]"
    then have "filter (\<lambda>i. cpu_to_socket topo ! i = s) is' = []"
      using c unfolding filter_empty_conv by metis
    then show ?thesis
      using n assms(2) by simp
  qed (use v assms(2) in force)+
  moreover have "cpu_to_socket topo ! j \<in> socket_id ` set (add_to_socket s i info)" if "j \<in> set (is' @ [i])" for j
    using that c assms(2) by (auto simp: add_to_socket_ids)
  ultimately show ?thesis
    using add_to_socket_distinct [OF d] unfolding sockets_ok_def by blast
qed

lemma socket_loop_ok:
  assumes "topo_wf topo" and "set js \<subseteq> {..<nr_cpus topo}" and "sockets_ok topo is' info"
  shows "\<exists>info'. socket_loop topo js info = Some info' \<and> sockets_ok topo (is' @ js) info'"
  using assms(2,3)
proof (induction js arbitrary: is' info)
  case (Cons i js)
  show ?case
    using Cons.IH [OF _ add_to_socket_ok [OF Cons.prems(2) refl, of i]] Cons.prems(1) assms(1) by simp
qed simp

text \<open>
  C20: \<open>get_socket_info\<close> partitions the vCPUs: no socket is listed twice, every socket of a vCPU
  is listed, and the list of each socket is the non-empty list of the vCPUs on it, in order.
\<close>

theorem get_socket_info_partition:
  assumes "topo_wf topo"
  shows "\<exists>info. get_socket_info (Some topo) = Some info \<and> sockets_ok topo [0..<nr_cpus topo] info"
proof -
  have "sockets_ok topo [] []"
    by (simp add: sockets_ok_def)
  then show ?thesis
    using socket_loop_ok [OF assms, of "[0..<nr_cpus topo]" "[]" "[]"]
    by (simp add: get_socket_info_def lessThan_atLeast0)
qed

theorem get_socket_info_partition_witness:
  "topo_wf two_cores \<and>
   (\<exists>info. get_socket_info (Some two_cores) = Some info \<and> sockets_ok two_cores [0..<nr_cpus two_cores] info)"
  using get_socket_info_partition [of two_cores] by simp

text \<open>Counting physical cores.\<close>

text \<open>The core of a directory entry that counts: an online CPU with both identifiers.\<close>

definition entry_core :: "sysfs \<Rightarrow> string \<Rightarrow> (int \<times> int) option" where
  "entry_core fs name = do {
     cpu \<leftarrow> parse_cpu_dir_name name;
     if cpu_is_online fs cpu then do { p \<leftarrow> sys_package_id fs cpu; c \<leftarrow> sys_core_id fs cpu; Some (p, c) }
     else None
   }"

lemma core_loop_step:
  "core_loop fs (\<lambda>_. True) cap (name # names) cores =
     (case entry_core fs name of
        Some pc \<Rightarrow>
          if pc \<in> set cores then core_loop fs (\<lambda>_. True) cap names cores
          else core_loop fs (\<lambda>_. True) (if length cores = cap then cap * 2 else cap) names (cores @ [pc])
      | None \<Rightarrow> core_loop fs (\<lambda>_. True) cap names cores)"
  by (simp add: entry_core_def physical_core_seen_def split: option.splits prod.splits)

lemma core_loop_set:
  assumes "distinct cores"
  shows "distinct (core_loop fs (\<lambda>_. True) cap names cores) \<and>
         set (core_loop fs (\<lambda>_. True) cap names cores) = set cores \<union> {pc. Some pc \<in> entry_core fs ` set names}"
  using assms
proof (induction names arbitrary: cap cores)
  case (Cons name names)
  show ?case
    unfolding core_loop_step using Cons by (cases "entry_core fs name") auto
qed simp

definition system_cores :: "sysfs \<Rightarrow> string list \<Rightarrow> (int \<times> int) set" where
  "system_cores fs names = {pc. Some pc \<in> entry_core fs ` set names}"

text \<open>
  Where memory suffices, \<open>n_physical_cores\<close> is the number of different pairs of package and
  core identifier among the online CPUs that \<open>/sys\<close> lists, however many SMT threads share a
  core, and \<open>get_nprocs\<close> when \<open>/sys\<close> shows none; it is always positive, and \<open>-c\<close> is accepted
  exactly up to it.
\<close>

theorem n_physical_cores_count:
  assumes "sys_entries fs = Some names"
  shows "n_physical_cores g fs (\<lambda>_. True) =
           (if system_cores fs names = {} then n_system_cores g else int (card (system_cores fs names))) \<and>
         0 < n_physical_cores g fs (\<lambda>_. True) \<and>
         validate_core_count_arg g fs (\<lambda>_. True) requested =
           (int requested \<le> n_physical_cores g fs (\<lambda>_. True))"
proof -
  define cs where "cs = core_loop fs (\<lambda>_. True) (if n_system_cores g = 0 then 1 else nat (n_system_cores g)) names []"
  have d: "distinct cs" and st: "set cs = system_cores fs names"
    using core_loop_set [of "[]" fs _ names] by (simp_all add: cs_def system_cores_def)
  have len: "length cs = card (system_cores fs names)"
    using d st distinct_card by metis
  have pos: "0 < n_system_cores g"
    by (simp add: n_system_cores_def)
  have eq: "n_physical_cores g fs (\<lambda>_. True) = (if cs = [] then n_system_cores g else int (length cs))"
    by (simp add: n_physical_cores_def assms Let_def flip: cs_def)
  have p: "0 < n_physical_cores g fs (\<lambda>_. True)"
    using pos by (simp add: eq)
  show ?thesis
    using p eq len st by (auto simp: validate_core_count_arg_def)
qed

definition two_cpus :: sysfs where
  "two_cpus = \<lparr>sys_entries = Some [''cpu0'', ''cpu1'', ''cpufreq''], sys_online = (\<lambda>_. None),
     sys_package_id = (\<lambda>_. Some 0), sys_core_id = (\<lambda>_. Some 0)\<rparr>"

theorem n_physical_cores_count_witness:
  "sys_entries two_cpus = Some [''cpu0'', ''cpu1'', ''cpufreq''] \<and>
   n_physical_cores flat_globals two_cpus (\<lambda>_. True) =
     (if system_cores two_cpus [''cpu0'', ''cpu1'', ''cpufreq''] = {} then n_system_cores flat_globals
      else int (card (system_cores two_cpus [''cpu0'', ''cpu1'', ''cpufreq'']))) \<and>
   0 < n_physical_cores flat_globals two_cpus (\<lambda>_. True) \<and>
   validate_core_count_arg flat_globals two_cpus (\<lambda>_. True) 1 =
     (int 1 \<le> n_physical_cores flat_globals two_cpus (\<lambda>_. True))"
  using n_physical_cores_count [of two_cpus "[''cpu0'', ''cpu1'', ''cpufreq'']" flat_globals 1]
  by (simp add: two_cpus_def)

text \<open>Directory names.\<close>

fun decimal :: "nat \<Rightarrow> string" where
  "decimal n = (if n < 10 then [char_of (48 + n)] else decimal (n div 10) @ [char_of (48 + n mod 10)])"

declare decimal.simps [simp del]

lemma parse_digits_append:
  "parse_digits (xs @ ys) n = Option.bind (parse_digits xs n) (parse_digits ys)"
  by (induction xs arbitrary: n) auto

lemma of_char_digit: "d < 10 \<Longrightarrow> of_char (char_of (48 + d)) = (48 + int d)"
  using of_nat_of_char [of "char_of (48 + d)", where 'a = int] by simp

lemma parse_digits_one: "d < 10 \<Longrightarrow> parse_digits [char_of (48 + d)] n = Some (n * 10 + int d)"
  using of_char_digit [of d] by simp

lemma parse_decimal: "parse_digits (decimal n) 0 = Some (int n)"
proof (induction n rule: decimal.induct)
  case (1 n)
  show ?case
  proof (cases "n < 10")
    case False
    have "int (n div 10) * 10 + int (n mod 10) = int n"
      by presburger
    then show ?thesis
      using False 1 parse_digits_one [of "n mod 10" "int (n div 10)"]
      by (simp add: decimal.simps [of n] parse_digits_append)
  qed (use parse_digits_one [of n 0] in \<open>simp add: decimal.simps [of n]\<close>)
qed

lemma decimal_first: "\<exists>(d :: nat) ds. decimal n = char_of (48 + d) # ds \<and> d < 10"
proof (induction n rule: decimal.induct)
  case (1 n)
  show ?case
  proof (cases "n < 10")
    case True
    then have "decimal n = char_of (48 + n) # []"
      by (simp add: decimal.simps [of n])
    then show ?thesis using True by blast
  next
    case False
    then obtain d :: nat and ds where "decimal (n div 10) = char_of (48 + d) # ds" "d < 10"
      using 1 by blast
    then have "decimal n = char_of (48 + d) # (ds @ [char_of (48 + n mod 10)])"
      using False by (simp add: decimal.simps [of n])
    then show ?thesis using \<open>d < 10\<close> by blast
  qed
qed

lemma digit_plain:
  fixes d :: nat
  assumes "d < 10"
  shows "char_of (48 + d) \<notin> {CHR '' '', CHR 0x09, CHR 0x0A, CHR 0x0B, CHR 0x0C, CHR 0x0D, CHR ''-'', CHR ''+''}"
proof -
  have "d \<in> set [0..<10]"
    using assms by simp
  then show ?thesis
    by (simp add: upt_rec) (elim disjE; simp add: char_of_def bit_nat_def)
qed

lemma strtol_decimal: "strtol_all (decimal n) = Some (int n)"
proof -
  obtain d :: nat and ds where d: "decimal n = char_of (48 + d) # ds" "d < 10"
    using decimal_first by blast
  then show ?thesis
    using digit_plain [OF d(2)] parse_decimal [of n] by (simp add: strtol_all_def)
qed

text \<open>
  C22: \<open>parse_cpu_dir_name\<close> reads back the directory names of the kernel: \<open>cpu\<close> and the decimal
  digits of \<open>n\<close> give the CPU number \<open>n\<close>, for every number that an \<open>i32\<close> holds and for no
  larger one.
\<close>

theorem parse_cpu_dir_name_roundtrip:
  "parse_cpu_dir_name (''cpu'' @ decimal n) = (if n < 2 ^ 31 then Some (int n) else None)"
proof -
  obtain d :: nat and ds where "decimal n = char_of (48 + d) # ds" "d < 10"
    using decimal_first by blast
  then show ?thesis
    using strtol_decimal [of n] by (auto simp: parse_cpu_dir_name_def)
qed

text \<open>Shuffling.\<close>

lemma shuffle_loop_perm:
  assumes "k < length idxs"
  shows "\<exists>ys. shuffle_loop rand k idxs = Some ys \<and> mset ys = mset idxs \<and> drop (Suc k) ys = drop (Suc k) idxs"
  using assms
proof (induction k arbitrary: idxs)
  case (Suc k)
  define zs where "zs = idxs[rand (Suc k) mod (Suc k + 1) := idxs ! Suc k, Suc k := idxs ! (rand (Suc k) mod (Suc k + 1))]"
  have i: "rand (Suc k) mod (Suc k + 1) < Suc (Suc k)"
    by simp
  have sw: "arr_swap idxs (rand (Suc k) mod (Suc k + 1)) (Suc k) = Some zs"
    using Suc.prems i unfolding zs_def by (intro arr_swap_Some) linarith+
  obtain ys where ys: "shuffle_loop rand k zs = Some ys" "mset ys = mset zs" "drop (Suc k) ys = drop (Suc k) zs"
    using Suc.IH [of zs] Suc.prems arr_swap_length [OF sw] by auto
  have "drop (Suc (Suc k)) ys = drop 1 (drop (Suc k) ys)"
    by simp
  also have "\<dots> = drop (Suc (Suc k)) zs"
    using ys(3) by simp
  also have "\<dots> = drop (Suc (Suc k)) idxs"
    using i by (simp add: zs_def)
  finally have "drop (Suc (Suc k)) ys = drop (Suc (Suc k)) idxs" .
  moreover have "shuffle_loop rand (Suc k) idxs = Some ys"
    by (simp only: shuffle_loop.simps sw bind.simps ys(1))
  ultimately show ?case
    using ys(2) arr_swap_mset [OF sw] by simp
qed simp

text \<open>Every order of the indices is the result of some random choices.\<close>

lemma shuffle_loop_cong:
  fixes idxs :: "'a list"
  assumes "\<And>i. 0 < i \<Longrightarrow> i \<le> k \<Longrightarrow> rand i = rand' i"
  shows "shuffle_loop rand k idxs = shuffle_loop rand' k idxs"
  using assms
proof (induction k arbitrary: idxs)
  case (Suc k)
  have "rand (Suc k) = rand' (Suc k)"
    using Suc.prems by simp
  moreover have "shuffle_loop rand k = (shuffle_loop rand' k :: 'a list \<Rightarrow> _)"
    by (rule ext, rule Suc.IH) (use Suc.prems in simp)
  ultimately show ?case
    by (simp only: shuffle_loop.simps)
qed simp

lemma mset_take_eq:
  assumes "mset ys = mset xs" and "drop k ys = drop k xs"
  shows "mset (take k ys) = mset (take k xs)"
proof -
  have "mset (take k ys) + mset (drop k ys) = mset (take k xs) + mset (drop k xs)"
    using assms(1) by (simp flip: mset_append)
  then show ?thesis
    using assms(2) by simp
qed

lemma shuffle_loop_reaches:
  assumes "mset ys = mset idxs" and "drop (Suc k) ys = drop (Suc k) idxs" and "k < length idxs"
  shows "\<exists>rand. shuffle_loop rand k idxs = Some ys"
  using assms
proof (induction k arbitrary: idxs)
  case 0
  have "mset (take 1 ys) = mset (take 1 idxs)"
    using 0 by (intro mset_take_eq) simp_all
  then have "take 1 ys = take 1 idxs"
    by (cases ys; cases idxs) auto
  then have "ys = idxs"
    using 0(2) append_take_drop_id by (metis One_nat_def)
  then show ?case by simp
next
  case (Suc k)
  have len: "length ys = length idxs"
    using Suc.prems(1) by (metis size_mset)
  have "ys ! Suc k \<in> set (take (Suc (Suc k)) ys)"
    using Suc.prems(3) len by (auto simp: in_set_conv_nth)
  then have "ys ! Suc k \<in> set (take (Suc (Suc k)) idxs)"
    using mset_take_eq [OF Suc.prems(1,2)] by (metis mset_eq_setD)
  then obtain i where i: "i \<le> Suc k" "idxs ! i = ys ! Suc k"
    by (auto simp: in_set_conv_nth less_Suc_eq_le)
  define zs where "zs = idxs[i := idxs ! Suc k, Suc k := idxs ! i]"
  have sw: "arr_swap idxs i (Suc k) = Some zs"
    using Suc.prems(3) i unfolding zs_def by (intro arr_swap_Some) linarith+
  have "drop (Suc k) zs = zs ! Suc k # drop (Suc (Suc k)) zs"
    using Suc.prems(3) arr_swap_length [OF sw] by (simp add: Cons_nth_drop_Suc)
  also have "\<dots> = ys ! Suc k # drop (Suc (Suc k)) ys"
    using Suc.prems i by (simp add: zs_def)
  also have "\<dots> = drop (Suc k) ys"
    using Suc.prems(3) len by (simp add: Cons_nth_drop_Suc)
  finally obtain rand where r: "shuffle_loop rand k zs = Some ys"
    using Suc.IH [of zs] Suc.prems arr_swap_mset [OF sw] arr_swap_length [OF sw] by auto
  have "shuffle_loop (rand(Suc k := i)) k zs = Some ys"
    using r shuffle_loop_cong [of k rand "rand(Suc k := i)" zs] by simp
  moreover have "(rand(Suc k := i)) (Suc k) mod (Suc k + 1) = i"
    using i(1) by simp
  ultimately have "shuffle_loop (rand(Suc k := i)) (Suc k) idxs = Some ys"
    by (simp only: shuffle_loop.simps sw bind.simps)
  then show ?case by blast
qed

text \<open>
  C15: \<open>shuffle_index\<close> of a non-empty array returns for all random numbers and only permutes the
  entries, and every permutation is the result of some random numbers; of an empty array it
  leaves the array bounds.
\<close>

theorem shuffle_index_permutes:
  "(shuffle_index rand [] = None) \<and>
   {ys. \<exists>rand. shuffle_index rand (x # xs) = Some ys} = {ys. mset ys = mset (x # xs)} \<and>
   shuffle_index rand (x # xs) \<noteq> None"
proof -
  have to: "\<exists>rand. shuffle_index rand (x # xs) = Some ys" if "mset ys = mset (x # xs)" for ys
  proof -
    have "length ys = length (x # xs)"
      using that by (metis size_mset)
    then show ?thesis
      using shuffle_loop_reaches [OF that, of "length xs"] by (simp add: shuffle_index_def)
  qed
  have perm: "\<exists>ys. shuffle_index rand (x # xs) = Some ys \<and> mset ys = mset (x # xs)" for rand
    using shuffle_loop_perm [of "length xs" "x # xs" rand] by (auto simp: shuffle_index_def)
  have "mset ys = mset (x # xs)" if "shuffle_index rand (x # xs) = Some ys" for rand ys
    using perm [of rand] that by (metis option.inject)
  moreover have "shuffle_index rand (x # xs) \<noteq> None"
    using perm [of rand] by (metis option.discI)
  ultimately show ?thesis
    by (intro conjI set_eqI iffI; (elim CollectE exE)?) (simp_all add: shuffle_index_def [of _ "[]"] to)
qed

text \<open>
  For a page that is present, \<open>va_to_pa\<close> keeps the offset in the 4 KiB page, and the page frame
  of the result is the frame of the pagemap entry in its low 52 bits (the shift drops the
  three bits above them that the mask lets through); for any other page it is 0.
\<close>

theorem va_to_pa_frame:
  "case pagemap (va div 4096) of
     None \<Rightarrow> va_to_pa 4096 pagemap va = 0
   | Some entry \<Rightarrow>
       if bit entry 63
       then take_bit 12 (va_to_pa 4096 pagemap va) = take_bit 12 va \<and>
            drop_bit 12 (va_to_pa 4096 pagemap va) = take_bit 52 entry
       else va_to_pa 4096 pagemap va = 0"
proof (cases "pagemap (va div 4096)")
  case (Some entry)
  have m: "push_bit 55 1 - 1 = (mask 55 :: u64)" "4096 - 1 = (mask 12 :: u64)"
    by (simp_all add: mask_eq_exp_minus_1 push_bit_eq_mult)
  have eq: "va_to_pa 4096 pagemap va =
      (if bit entry 63 then push_bit 12 (take_bit 55 entry) OR take_bit 12 va else 0)"
    by (simp only: va_to_pa_def Some option.case bit_iff_and_push_bit_not_eq_0 m take_bit_eq_mask if_not_P
        if_cancel flip: and.assoc) auto
  have "take_bit 12 (push_bit 12 (take_bit 55 entry) OR take_bit 12 va) = take_bit 12 va"
    by (rule bit_eqI) (auto simp: bit_simps)
  moreover have "drop_bit 12 (push_bit 12 (take_bit 55 entry) OR take_bit 12 va) = take_bit 52 entry"
    by (rule bit_eqI) (auto simp: bit_simps)
  ultimately show ?thesis
    by (simp add: Some eq)
qed (simp add: va_to_pa_def)

end
