(* ===== verification/Evset_Para.thy ===== *)
theory Evset_Para
  imports L3_Safe Topo_Utils
begin

text \<open>
  The parallel construction of the L3 sets (src/evset_para.c): how many pairs of threads there
  are and on which cores, how the work is dealt out (in fixed shares in the granular mode,
  offset by offset from a shared counter otherwise), what one worker does, and the sizes that
  the final report looks at. The shared counter and the barrier are a step relation in theory
  \<open>Para_Claims\<close>.
\<close>

subsection \<open>How many pairs\<close>

text \<open>The same lines open all three builders; \<open>None\<close> is the error return.\<close>

definition usable_pairs :: "globals \<Rightarrow> nat option" where
  "usable_pairs g =
     (let n_cores = n_system_cores g
      in if n_cores \<le> 1 then None
         else if num_threads g = 1 then None
         else (let usable = (if num_threads g = 0 then nat n_cores else num_threads g);
                   usable = (if usable > nat n_cores
                             then (if nat n_cores mod 2 \<noteq> 0 then nat n_cores - 1 else nat n_cores)
                             else usable);
                   usable = (if usable mod 2 \<noteq> 0 then usable - 1 else usable)
               in Some (usable div 2)))"

text \<open>The offsets of the two other builders: none requested means all.\<close>

definition clamp_offsets :: "nat \<Rightarrow> nat" where
  "clamp_offsets n_offset =
     (let n = (if n_offset > NUM_OFFSETS then NUM_OFFSETS else n_offset)
      in if n = 0 then NUM_OFFSETS else n)"

definition gran_offsets :: "nat \<Rightarrow> nat" where
  "gran_offsets n_offsets =
     (let n = (if n_offsets > NUM_OFFSETS then NUM_OFFSETS else n_offsets)
      in if n = 0 then 1 else n)"

definition gran_l2_sets :: "globals \<Rightarrow> nat \<Rightarrow> nat" where
  "gran_l2_sets g n_l2_sets =
     (let n_unc = unat (g_n_uncertain_l2_sets g)
      in if n_l2_sets = 0 then n_unc else if n_l2_sets > n_unc then n_unc else n_l2_sets)"

text \<open>The largest \<open>-f\<close>, whether the requested one is accepted; a division by 0 is \<open>None\<close>.\<close>

definition gran_f_ok :: "globals \<Rightarrow> nat \<Rightarrow> bool option" where
  "gran_f_ok g evsets_per_l2 =
     (if cache_uncertainty (l2_info g) = 0 then None
      else (let max_f = cache_uncertainty (l3_info g) div cache_uncertainty (l2_info g)
            in Some (max_f \<noteq> 0 \<and> \<not> evsets_per_l2 > unat max_f)))"

subsection \<open>Core identifiers\<close>

text \<open>The counter \<open>next_core_id\<close> is an atomic \<open>u32\<close>.\<close>

definition get_next_core_id :: "nat \<Rightarrow> u32 \<Rightarrow> (nat \<times> u32) option" where
  "get_next_core_id max_cores next_core_id =
     (if max_cores = 0 then None else Some (unat next_core_id mod max_cores, next_core_id + 1))"

definition reset_core_id_counter :: u32 where
  "reset_core_id_counter = 0"

record thread_pair =
  thread_idx :: nat
  core_id_main :: nat
  core_id_helper :: nat

text \<open>The pairs from index \<open>i\<close> on, \<open>k\<close> of them, pinned by vTop where it has a pair.\<close>

fun init_pairs :: "nat \<Rightarrow> vcpu_pair list \<Rightarrow> nat \<Rightarrow> nat \<Rightarrow> u32 \<Rightarrow> thread_pair list option" where
  "init_pairs n_cores vcpus i 0 ctr = Some []"
| "init_pairs n_cores vcpus i (Suc k) ctr =
     (if i < length vcpus
      then map_option (\<lambda>ps. \<lparr>thread_idx = i, core_id_main = main_vcpu (vcpus ! i),
                               core_id_helper = helper_vcpu (vcpus ! i)\<rparr> # ps)
             (init_pairs n_cores vcpus (i + 1) k ctr)
      else do {
        (a, ctr) \<leftarrow> get_next_core_id n_cores ctr;
        (b, ctr) \<leftarrow> get_next_core_id n_cores ctr;
        ps \<leftarrow> init_pairs n_cores vcpus (i + 1) k ctr;
        Some (\<lparr>thread_idx = i, core_id_main = a, core_id_helper = b\<rparr> # ps)
      })"

subsection \<open>Shares of work\<close>

definition calc_thread_workload :: "nat \<Rightarrow> nat \<Rightarrow> nat list \<Rightarrow> nat list option" where
  "calc_thread_workload n_pairs n_offsets pair_workload =
     (if n_pairs = 0 \<or> n_offsets = 0 then Some pair_workload
      else if length pair_workload < n_pairs then None
      else Some (map (block_len n_offsets n_pairs) [0..<n_pairs] @ drop n_pairs pair_workload))"

record gran_work =
  offset_idx :: nat
  l2_set_idx :: nat

definition all_work :: "nat \<Rightarrow> nat \<Rightarrow> gran_work list" where
  "all_work n_offsets n_l2_sets =
     concat (map (\<lambda>s. map (\<lambda>k. \<lparr>offset_idx = k, l2_set_idx = s\<rparr>) [0..<n_offsets]) [0..<n_l2_sets])"

text \<open>
  The loop over the pairs, with \<open>current_work_idx\<close>. A share is an array of \<open>len i\<close> zeroed
  entries of which those that are left are filled. An allocation that fails gives \<open>NULL\<close>.
\<close>

fun gran_shares :: "'m hw \<Rightarrow> (nat \<Rightarrow> nat) \<Rightarrow> gran_work list \<Rightarrow> nat \<Rightarrow> nat list \<Rightarrow> 'm \<Rightarrow> gran_work list list option \<times> 'm" where
  "gran_shares h len work cur [] m = (Some [], m)"
| "gran_shares h len work cur (i # is') m =
     (if len i > 0 then
        (let (p, m) = os_calloc h (len i * 8) m
         in if p = None then (None, m)
            else (let xs = take (len i) (drop cur work);
                      (rest, m) = gran_shares h len work (cur + length xs) is' m
                  in (map_option (\<lambda>r. (xs @ replicate (len i - length xs) \<lparr>offset_idx = 0, l2_set_idx = 0\<rparr>) # r) rest, m)))
      else (let (rest, m) = gran_shares h len work cur is' m in (map_option (\<lambda>r. [] # r) rest, m)))"

text \<open>The shares, \<open>None\<close> for \<open>NULL\<close>, and the number written to \<open>total_assignments\<close>.\<close>

definition calc_gran_assignments ::
    "'m hw \<Rightarrow> nat \<Rightarrow> nat \<Rightarrow> nat \<Rightarrow> 'm \<Rightarrow> (gran_work list list option \<times> nat) \<times> 'm" where
  "calc_gran_assignments h n_pairs n_offsets n_l2_sets m =
     (let total_work = wrap32 (n_offsets * n_l2_sets)
      in if total_work = 0 \<or> n_pairs = 0 then ((None, total_work), m)
         else (let n_pairs = (if n_pairs > total_work then total_work else n_pairs);
                   (p, m) = os_calloc h (n_pairs * 16) m
               in if p = None then ((None, total_work), m)
                  else (let (q, m) = os_calloc h (total_work * 8) m
                        in if q = None then ((None, total_work), m)
                           else (let (r, m) = gran_shares h (block_len total_work n_pairs)
                                       (all_work n_offsets n_l2_sets) 0 [0..<n_pairs] m
                                 in ((r, total_work), m)))))"

subsection \<open>One worker\<close>

text \<open>
  What the workers share: the pools, by L2 set and offset, and the results, by offset and L2
  set. A result is the array of \<open>build_evsets_at\<close>; with every set comes whether it got its own
  copy of the configuration, without which its \<open>build_conf\<close> is \<open>NULL\<close>.
\<close>

type_synonym l3_entry = "(EvBuildConf EvSet \<times> bool) option list option"

record para_shared =
  ps_pools :: "EvCands option list list"
  ps_results :: "l3_entry list list"

text \<open>The copies of the configuration, and how many sets were counted in \<open>total_built\<close>.\<close>

fun copy_confs ::
    "'m hw \<Rightarrow> EvBuildConf \<Rightarrow> EvBuildConf EvSet option list \<Rightarrow> 'm
       \<Rightarrow> ((EvBuildConf EvSet \<times> bool) option list \<times> nat) \<times> 'm" where
  "copy_confs h conf [] m = (([], 0), m)"
| "copy_confs h conf (None # es) m =
     (let ((rest, k), m) = copy_confs h conf es m in ((None # rest, k), m))"
| "copy_confs h conf (Some e # es) m =
     (if ev_size e = 0
      then (let ((rest, k), m) = copy_confs h conf es m in ((Some (e, True) # rest, k), m))
      else (let (p, m) = os_calloc h 144 m;
                ((rest, k), m) = copy_confs h conf es m
            in ((Some (e\<lparr>build_conf := conf\<rparr>, p \<noteq> None) # rest, k + 1), m)))"

text \<open>Arrays of arrays.\<close>

definition grid_get :: "'a list list \<Rightarrow> nat \<Rightarrow> nat \<Rightarrow> 'a option" where
  "grid_get xs i j = do { row \<leftarrow> arr_get xs i; arr_get row j }"

definition grid_set :: "'a list list \<Rightarrow> nat \<Rightarrow> nat \<Rightarrow> 'a \<Rightarrow> 'a list list option" where
  "grid_set xs i j v = do { row \<leftarrow> arr_get xs i; row \<leftarrow> arr_set row j v; arr_set xs i row }"

text \<open>
  The body of the worker loops for offset \<open>n\<close> and L2 set \<open>i\<close>. \<open>per\<close> is \<open>evsets_per_l2\<close> in
  the granular mode and 0 otherwise. The pool that \<open>build_evsets_at\<close> makes for itself when it
  is given none is not kept.
\<close>

definition build_unit ::
    "'m hw \<Rightarrow> globals \<Rightarrow> EvBuildConf \<Rightarrow> l2_complex \<Rightarrow> nat \<Rightarrow> nat \<Rightarrow> nat \<Rightarrow> EvBuildConf \<Rightarrow> para_shared \<Rightarrow> 'm
       \<Rightarrow> ((nat \<times> EvBuildConf \<times> para_shared) \<times> 'm) option" where
  "build_unit h g l2conf l2evsets per n i conf sh m = do {
     row \<leftarrow> arr_get l2evsets n;
     row \<leftarrow> row;
     l2ev \<leftarrow> arr_get row i;
     let conf = init_def_l3_conf g (map_option as_lower l2ev) True conf;
     c \<leftarrow> grid_get (ps_pools sh) i n;
     ((r, l3_cnt, c', conf), m) \<leftarrow>
       build_evsets_at h g l2conf (of_nat n * ucast CL_SIZE) conf (l3_info g) c [] per m;
     pools \<leftarrow> (if c = None then Some (ps_pools sh) else grid_set (ps_pools sh) i n c');
     let ((r, k), m) = (case r of None \<Rightarrow> ((None, 0), m)
                        | Some es \<Rightarrow> (let ((es, k), m) = copy_confs h conf es m in ((Some es, k), m)));
     results \<leftarrow> grid_set (ps_results sh) n i r;
     Some ((k, conf, sh\<lparr>ps_pools := pools, ps_results := results\<rparr>), m)
   }"

text \<open>\<open>evset_thread_worker_gran\<close> after its helper has started: the units of its share, in order.\<close>

fun gran_worker_loop ::
    "'m hw \<Rightarrow> globals \<Rightarrow> EvBuildConf \<Rightarrow> l2_complex \<Rightarrow> nat \<Rightarrow> gran_work list \<Rightarrow> EvBuildConf \<Rightarrow> nat \<Rightarrow> para_shared \<Rightarrow> 'm
       \<Rightarrow> ((nat \<times> para_shared) \<times> 'm) option" where
  "gran_worker_loop h g l2conf l2evsets per [] conf built sh m = Some ((built, sh), m)"
| "gran_worker_loop h g l2conf l2evsets per (w # ws) conf built sh m = do {
     ((k, conf, sh), m) \<leftarrow> build_unit h g l2conf l2evsets per (offset_idx w) (l2_set_idx w) conf sh m;
     gran_worker_loop h g l2conf l2evsets per ws conf (built + k) sh m
   }"

definition evset_thread_worker_gran ::
    "'m hw \<Rightarrow> globals \<Rightarrow> EvBuildConf \<Rightarrow> l2_complex \<Rightarrow> nat \<Rightarrow> gran_work list \<Rightarrow> para_shared \<Rightarrow> 'm
       \<Rightarrow> ((nat \<times> para_shared) \<times> 'm) option" where
  "evset_thread_worker_gran h g l2conf l2evsets per share sh m =
     gran_worker_loop h g l2conf l2evsets per share (init_def_l3_conf g None True conf_zero) 0 sh m"

text \<open>
  One claimed offset of \<open>evset_thread_worker\<close> and of \<open>vtop_para_worker\<close>: all its L2 sets. The
  flag is the time limit of the former, \<open>total_runtime_limit\<close> in minutes, 0 for none; the
  latter has none.
\<close>

fun offset_units ::
    "'m hw \<Rightarrow> globals \<Rightarrow> EvBuildConf \<Rightarrow> l2_complex \<Rightarrow> nat \<Rightarrow> u64 \<Rightarrow> nat \<Rightarrow> nat list \<Rightarrow> EvBuildConf \<Rightarrow> nat \<Rightarrow> para_shared \<Rightarrow> 'm
       \<Rightarrow> ((bool \<times> nat \<times> EvBuildConf \<times> para_shared) \<times> 'm) option" where
  "offset_units h g l2conf l2evsets limit start n [] conf built sh m = Some ((False, built, conf, sh), m)"
| "offset_units h g l2conf l2evsets limit start n (i # is') conf built sh m = do {
     ((k, conf, sh), m) \<leftarrow> build_unit h g l2conf l2evsets 0 n i conf sh m;
     let (now, m) = (if limit = 0 then (start, m) else os_time_us h m);
     if limit \<noteq> 0 \<and> unat (now - start) \<ge> limit * 60 * 1000000
     then Some ((True, built + k, conf, sh), m)
     else offset_units h g l2conf l2evsets limit start n is' conf (built + k) sh m
   }"

subsection \<open>The granular builder\<close>

text \<open>
  The workers run one after the other, each at its start: their shares are disjoint. The flag
  is \<open>pthread_create\<close>; \<open>None\<close> in the list is a helper that did not start, for which the
  builder waits forever.
\<close>

fun run_gran_workers ::
    "'m hw \<Rightarrow> globals \<Rightarrow> EvBuildConf \<Rightarrow> l2_complex \<Rightarrow> nat \<Rightarrow> gran_work list list \<Rightarrow> nat \<Rightarrow> para_shared \<Rightarrow> 'm
       \<Rightarrow> ((bool \<times> nat \<times> para_shared) \<times> 'm) option" where
  "run_gran_workers h g l2conf l2evsets per [] built sh m = Some ((True, built, sh), m)"
| "run_gran_workers h g l2conf l2evsets per (share # shares) built sh m =
     (let (started, m) = os_thread h m
      in if \<not> started then Some ((False, built, sh), m)
         else (let (helper, m) = os_thread h m
               in if \<not> helper then None
                  else do {
                    ((k, sh), m) \<leftarrow> evset_thread_worker_gran h g l2conf l2evsets per share sh m;
                    run_gran_workers h g l2conf l2evsets per shares (built + k) sh m
                  }))"

text \<open>The array of results, allocated row by row; \<open>None\<close> for an allocation that fails.\<close>

fun calloc_rows :: "'m hw \<Rightarrow> nat \<Rightarrow> nat \<Rightarrow> 'm \<Rightarrow> bool \<times> 'm" where
  "calloc_rows h sz 0 m = (True, m)"
| "calloc_rows h sz (Suc k) m =
     (let (p, m) = os_calloc h sz m in if p = None then (False, m) else calloc_rows h sz k m)"

definition calloc_complex :: "'m hw \<Rightarrow> nat \<Rightarrow> 'm \<Rightarrow> l3_entry list list option \<times> 'm" where
  "calloc_complex h n_unc m =
     (let (p, m) = os_calloc h (NUM_OFFSETS * 8) m
      in if p = None then (None, m)
         else (let (ok, m) = calloc_rows h (n_unc * 8) NUM_OFFSETS m
               in (if ok then Some (replicate NUM_OFFSETS (replicate n_unc None)) else None, m)))"

text \<open>
  The vTop part: the pairs it finds and the number of pairs that is left. \<open>detect\<close> is
  \<open>detect_vcpu_topology\<close>. Without a topology, or without memory for the pairs, it goes on
  unpinned.
\<close>

definition gran_vtop ::
    "'m hw \<Rightarrow> ('m \<Rightarrow> cpu_topology option \<times> 'm) option \<Rightarrow> nat \<Rightarrow> 'm \<Rightarrow> ((vcpu_pair list \<times> nat) \<times> 'm) option" where
  "gran_vtop h detect n_pairs m =
     (case detect of None \<Rightarrow> Some (([], n_pairs), m)
      | Some detect \<Rightarrow>
          (let (topo, m) = get_vcpu_topo detect (snd (os_time_us h m));
               m = snd (os_time_us h m)
           in case topo of None \<Rightarrow> Some (([], n_pairs), m)
              | Some t \<Rightarrow>
                  (let (p, m) = os_calloc h (n_pairs * 12) m
                   in if p = None then Some (([], n_pairs), m)
                      else do {
                        (ps, m) \<leftarrow> find_optimal_vcpu_pairs h (Some t) n_pairs m;
                        Some ((ps, if length ps < n_pairs then length ps else n_pairs), m)
                      })))"

text \<open>
  The globals after the L2 stage, the L2 configuration and the sets; \<open>pre_l2evsets\<close> are sets
  that the caller has already built.
\<close>

definition gran_l2 ::
    "'m hw \<Rightarrow> globals \<Rightarrow> EvBuildConf \<Rightarrow> l2_complex option \<Rightarrow> 'm
       \<Rightarrow> ((l2_complex option \<times> EvBuildConf \<times> globals) \<times> 'm) option" where
  "gran_l2 h g l2conf pre_l2evsets m =
     (case pre_l2evsets of Some l \<Rightarrow> Some ((Some l, l2conf, g), m)
      | None \<Rightarrow> build_l2_evset h g l2conf (unat (n_sets (l2_info g))) m)"

definition gran_build ::
    "'m hw \<Rightarrow> globals \<Rightarrow> EvBuildConf \<Rightarrow> nat \<Rightarrow> ('m \<Rightarrow> cpu_topology option \<times> 'm) option \<Rightarrow> nat \<Rightarrow> nat \<Rightarrow> nat
       \<Rightarrow> l2_complex \<Rightarrow> EvCands option list list \<Rightarrow> l3_entry list list \<Rightarrow> 'm
       \<Rightarrow> ((nat \<times> para_shared) option \<times> 'm) option" where
  "gran_build h g l2conf evsets_per_l2 detect n_pairs n_offsets n_l2_sets l2evsets pools results m = do {
     ((vcpus, n_pairs), m) \<leftarrow> gran_vtop h detect n_pairs m;
     let ((shares, tot), m) = calc_gran_assignments h n_pairs n_offsets n_l2_sets m;
     case shares of None \<Rightarrow> Some (None, m)
     | Some shares \<Rightarrow>
         (let (p, m) = os_calloc h (n_pairs * 272) m
          in if p = None then Some (None, m)
             else do {
               let m = snd (os_time_us h m);
               pairs \<leftarrow> init_pairs (nat (n_system_cores g)) vcpus 0 n_pairs reset_core_id_counter;
               ((ok, built, sh), m) \<leftarrow> run_gran_workers h g l2conf l2evsets evsets_per_l2 shares 0
                  \<lparr>ps_pools = pools, ps_results = results\<rparr> m;
               Some (if ok then Some (built, sh) else None, snd (os_time_us h m))
             })
   }"

definition build_l3_evsets_para_gran ::
    "'m hw \<Rightarrow> globals \<Rightarrow> EvBuildConf \<Rightarrow> EvBuildConf \<Rightarrow> nat \<Rightarrow> ('m \<Rightarrow> cpu_topology option \<times> 'm) option
       \<Rightarrow> nat \<Rightarrow> nat \<Rightarrow> l2_complex option \<Rightarrow> 'm \<Rightarrow> ((nat \<times> para_shared) option \<times> 'm) option" where
  "build_l3_evsets_para_gran h g l2conf l3conf evsets_per_l2 detect n_l2_sets n_offsets pre_l2evsets m =
     (case usable_pairs g of None \<Rightarrow> Some (None, m)
      | Some n_pairs \<Rightarrow> do {
          let n_offsets = gran_offsets n_offsets;
          let n_l2_sets = gran_l2_sets g n_l2_sets;
          f_ok \<leftarrow> gran_f_ok g evsets_per_l2;
          if \<not> f_ok then Some (None, m)
          else do {
            let total_work = wrap32 (n_offsets * n_l2_sets);
            let n_pairs = (if n_pairs > total_work then total_work else n_pairs);
            ((l2evsets, l2conf, g'), m) \<leftarrow> gran_l2 h g l2conf pre_l2evsets m;
            case l2evsets of None \<Rightarrow> Some (None, m)
            | Some l2evsets \<Rightarrow> do {
                (pools, m) \<leftarrow> build_evcands_all_para h g' l2conf (init_def_l3_conf g' None False l3conf) l2evsets m;
                case pools of None \<Rightarrow> Some (None, m)
                | Some pools \<Rightarrow>
                    (let (results, m) = calloc_complex h (unat (g_n_uncertain_l2_sets g)) m
                     in case results of None \<Rightarrow> Some (None, m)
                        | Some results \<Rightarrow>
                            gran_build h g' l2conf evsets_per_l2 detect n_pairs n_offsets n_l2_sets l2evsets pools results m)
              }
          }
        })"

subsection \<open>The sizes of the report\<close>

text \<open>The size of a set as the report counts it: 0 for a set that is missing or too large.\<close>

definition report_size :: "CacheInfo \<Rightarrow> (EvBuildConf EvSet \<times> bool) option \<Rightarrow> int" where
  "report_size l3 e =
     (case e of None \<Rightarrow> 0
      | Some (e, _) \<Rightarrow> if ev_size e = 0 \<or> ev_size e > unat (n_ways l3) then 0 else int (ev_size e))"

text \<open>
  The first \<open>l3_cnt\<close> entries of the array of one offset and L2 set; a missing array counts as
  zeros, an array that is too short is read past its end.
\<close>

definition report_entry :: "CacheInfo \<Rightarrow> nat \<Rightarrow> l3_entry \<Rightarrow> int list option" where
  "report_entry l3 l3_cnt r =
     (case r of None \<Rightarrow> Some (replicate l3_cnt 0)
      | Some es \<Rightarrow> map_option (map (report_size l3)) (arr_range es 0 l3_cnt))"

fun report_row :: "CacheInfo \<Rightarrow> nat \<Rightarrow> l3_entry list \<Rightarrow> int list option" where
  "report_row l3 l3_cnt [] = Some []"
| "report_row l3 l3_cnt (r # rs) = do {
     xs \<leftarrow> report_entry l3 l3_cnt r;
     ys \<leftarrow> report_row l3 l3_cnt rs;
     Some (xs @ ys)
   }"

fun report_sizes :: "CacheInfo \<Rightarrow> nat \<Rightarrow> nat \<Rightarrow> l3_entry list list \<Rightarrow> int list option" where
  "report_sizes l3 n_l2_sets l3_cnt [] = Some []"
| "report_sizes l3 n_l2_sets l3_cnt (row # rows) = do {
     row \<leftarrow> arr_range row 0 n_l2_sets;
     xs \<leftarrow> report_row l3 l3_cnt row;
     ys \<leftarrow> report_sizes l3 n_l2_sets l3_cnt rows;
     Some (xs @ ys)
   }"

text \<open>\<open>build_l3_evsets_para\<close> takes the number of sets per L2 set to be this.\<close>

definition para_l3_cnt :: "globals \<Rightarrow> nat" where
  "para_l3_cnt g = unat ((n_set_idx_bits (l3_info g) - n_set_idx_bits (l2_info g)) * n_slices (l3_info g))"

subsection \<open>Pairs and cores\<close>

definition pair_cores :: "thread_pair list \<Rightarrow> nat list" where
  "pair_cores ps = concat (map (\<lambda>p. [core_id_main p, core_id_helper p]) ps)"

lemma init_pairs_cores:
  assumes "2 * (i + k) \<le> n_cores" and "n_cores < 2 ^ 32"
  shows "\<exists>ps. init_pairs n_cores [] i k (of_nat (2 * i)) = Some ps \<and> length ps = k \<and> pair_cores ps = [2 * i..<2 * (i + k)]"
  using assms(1)
proof (induction k arbitrary: i)
  case (Suc k)
  have u: "unat (of_nat (2 * i) :: u32) = 2 * i" "unat (of_nat (2 * i) + 1 :: u32) = 2 * i + 1"
  proof -
    have "unat (of_nat x :: u32) = x" if "x \<le> 2 * i + 1" for x
      using that Suc.prems assms(2) by (simp add: unat_of_nat)
    from this [of "2 * i"] this [of "2 * i + 1"]
    show "unat (of_nat (2 * i) :: u32) = 2 * i" "unat (of_nat (2 * i) + 1 :: u32) = 2 * i + 1"
      by (simp_all add: add.commute)
  qed
  have n: "(of_nat (2 * i) + 1 + 1 :: u32) = of_nat (2 * (i + 1))"
    by simp
  obtain ps where ps: "init_pairs n_cores [] (i + 1) k (of_nat (2 * (i + 1))) = Some ps" "length ps = k"
      "pair_cores ps = [2 * (i + 1)..<2 * (i + 1 + k)]"
    using Suc.IH [of "i + 1"] Suc.prems by auto
  have "[2 * i..<2 * (i + Suc k)] = 2 * i # (2 * i + 1) # [2 * (i + 1)..<2 * (i + 1 + k)]"
    by (simp add: upt_rec)
  moreover have "init_pairs n_cores [] i (Suc k) (of_nat (2 * i)) =
      Some (\<lparr>thread_idx = i, core_id_main = 2 * i, core_id_helper = 2 * i + 1\<rparr> # ps)"
    using Suc.prems u n ps(1) by (simp add: get_next_core_id_def)
  ultimately show ?case
    using ps(2,3) by (simp add: pair_cores_def)
qed (simp add: pair_cores_def)

lemma even_part: "(if u mod 2 \<noteq> 0 then u - 1 else u) div 2 = u div (2 :: nat)"
  by presburger

lemma usable_pairs_eq:
  assumes "usable_pairs g = Some n"
  shows "1 < n_system_cores g" "num_threads g \<noteq> 1"
    "n = (if num_threads g = 0 then nat (n_system_cores g) else min (num_threads g) (nat (n_system_cores g))) div 2"
proof -
  show c: "1 < n_system_cores g" "num_threads g \<noteq> 1"
    using assms by (auto simp: usable_pairs_def Let_def split: if_splits)
  then have "n = (let u = (if num_threads g = 0 then nat (n_system_cores g) else num_threads g)
                  in (if u > nat (n_system_cores g) then
                        (if nat (n_system_cores g) mod 2 \<noteq> 0 then nat (n_system_cores g) - 1 else nat (n_system_cores g))
                      else u) div 2)"
    using assms unfolding usable_pairs_def Let_def even_part by simp
  then show "n = (if num_threads g = 0 then nat (n_system_cores g) else min (num_threads g) (nat (n_system_cores g))) div 2"
    using even_part [of "nat (n_system_cores g)"] unfolding Let_def min_def by (auto split: if_splits)
qed

lemma usable_pairs_bounds:
  assumes "usable_pairs g = Some n"
  shows "0 < n" "2 * n \<le> nat (n_system_cores g)" "num_threads g = 0 \<or> 2 * n \<le> num_threads g"
proof -
  note e = usable_pairs_eq [OF assms]
  show "0 < n" "2 * n \<le> nat (n_system_cores g)" "num_threads g = 0 \<or> 2 * n \<le> num_threads g"
    using e by (auto simp: min_def)
qed

text \<open>
  The builders start at least one pair of threads, never more threads than there are cores or
  than \<open>-c\<close> allows, and the default pinning gives all threads of all pairs different cores that
  exist.
\<close>

theorem para_pairs_distinct_cores:
  assumes "usable_pairs g = Some k" and "n \<le> k" and "n_system_cores g < 2 ^ 32"
  shows "0 < k \<and> 2 * int k \<le> n_system_cores g \<and> (num_threads g = 0 \<or> 2 * k \<le> num_threads g) \<and>
    (\<exists>ps. init_pairs (nat (n_system_cores g)) [] 0 n reset_core_id_counter = Some ps \<and> length ps = n \<and>
       distinct (pair_cores ps) \<and> (\<forall>c \<in> set (pair_cores ps). int c < n_system_cores g))"
proof -
  note b = usable_pairs_bounds [OF assms(1)]
  obtain ps where "init_pairs (nat (n_system_cores g)) [] 0 n (of_nat (2 * 0)) = Some ps" "length ps = n"
      "pair_cores ps = [2 * 0..<2 * (0 + n)]"
    using init_pairs_cores [of 0 n "nat (n_system_cores g)"] b(2) assms(2,3) by fastforce
  then have "init_pairs (nat (n_system_cores g)) [] 0 n reset_core_id_counter = Some ps \<and> length ps = n \<and>
      distinct (pair_cores ps) \<and> (\<forall>c \<in> set (pair_cores ps). int c < n_system_cores g)"
    using b(2) assms(2) by (auto simp: reset_core_id_counter_def)
  then show ?thesis
    using b by auto
qed

theorem para_pairs_distinct_cores_witness:
  "usable_pairs flat_globals = Some 1 \<and> n_system_cores flat_globals < 2 ^ 32 \<and>
   0 < (1 :: nat) \<and> 2 * int 1 \<le> n_system_cores flat_globals \<and>
   (num_threads flat_globals = 0 \<or> 2 * 1 \<le> num_threads flat_globals) \<and>
    (\<exists>ps. init_pairs (nat (n_system_cores flat_globals)) [] 0 1 reset_core_id_counter = Some ps \<and> length ps = 1 \<and>
       distinct (pair_cores ps) \<and> (\<forall>c \<in> set (pair_cores ps). int c < n_system_cores flat_globals))"
proof -
  have "usable_pairs flat_globals = Some 1" "n_system_cores flat_globals < 2 ^ 32"
    by (simp_all add: usable_pairs_def flat_globals_def n_system_cores_def)
  with para_pairs_distinct_cores [of flat_globals 1 1] show ?thesis by simp
qed

subsection \<open>Shares\<close>

lemma gran_shares_concat:
  assumes "\<And>n m. fst (os_calloc h n m) \<noteq> None" and "cur + sum_list (map len js) \<le> length work"
  shows "\<exists>ss m'. gran_shares h len work cur js m = (Some ss, m') \<and> map length ss = map len js \<and>
           concat ss = take (sum_list (map len js)) (drop cur work)"
  using assms(2)
proof (induction js arbitrary: cur m)
  case (Cons j js)
  obtain p m1 where c: "os_calloc h (len j * 8) m = (Some p, m1)"
    using assms(1) [of "len j * 8" m] by (cases "os_calloc h (len j * 8) m") auto
  have l: "length (take (len j) (drop cur work)) = len j"
    using Cons.prems by simp
  obtain ss m' where ss: "gran_shares h len work (cur + len j) js (if len j > 0 then m1 else m) = (Some ss, m')"
      "map length ss = map len js" "concat ss = take (sum_list (map len js)) (drop (cur + len j) work)"
    using Cons.IH [of "cur + len j" "if len j > 0 then m1 else m"] Cons.prems by (auto simp: add.assoc)
  have "gran_shares h len work cur (j # js) m = (Some (take (len j) (drop cur work) # ss), m')"
    using ss(1) c l by (cases "len j > 0") (simp_all add: Let_def)
  then show ?case
    using ss(2,3) l by (simp add: take_add add.commute)
qed simp

lemma all_work_length [simp]: "length (all_work n s) = n * s"
  by (simp add: all_work_def length_concat comp_def sum_list_triv)

lemma all_work_set: "w \<in> set (all_work n s) \<longleftrightarrow> offset_idx w < n \<and> l2_set_idx w < s"
proof -
  have "w = \<lparr>offset_idx = offset_idx w, l2_set_idx = l2_set_idx w\<rparr>"
    by simp
  then show ?thesis
    unfolding all_work_def by (auto intro!: bexI [of _ "l2_set_idx w"] image_eqI [of _ _ "offset_idx w"])
qed

lemma all_work_distinct: "distinct (all_work n s)"
proof (induction s)
  case (Suc s)
  have "all_work n (Suc s) = all_work n s @ map (\<lambda>k. \<lparr>offset_idx = k, l2_set_idx = s\<rparr>) [0..<n]"
    by (simp add: all_work_def)
  moreover have "distinct (map (\<lambda>k. \<lparr>offset_idx = k, l2_set_idx = s\<rparr>) [0..<n])"
    by (simp add: distinct_map inj_on_def)
  ultimately show ?case
    using Suc by (auto simp: all_work_set)
qed (simp add: all_work_def)

lemma gran_assignments:
  assumes "\<And>n m. fst (os_calloc h n m) \<noteq> None" and "0 < n_pairs" and "0 < n_offsets * n_l2_sets"
    and "n_offsets * n_l2_sets < 2 ^ 32"
  shows "\<exists>ss m'. calc_gran_assignments h n_pairs n_offsets n_l2_sets m = ((Some ss, n_offsets * n_l2_sets), m') \<and>
    length ss = min n_pairs (n_offsets * n_l2_sets) \<and> distinct (concat ss) \<and>
    (\<forall>w. w \<in> set (concat ss) \<longleftrightarrow> offset_idx w < n_offsets \<and> l2_set_idx w < n_l2_sets) \<and>
    (\<forall>a \<in> set ss. \<forall>b \<in> set ss. length a \<le> length b + 1)"
proof -
  let ?t = "n_offsets * n_l2_sets"
  define n where "n = (if n_pairs > ?t then ?t else n_pairs)"
  have n: "0 < n" "n = min n_pairs ?t"
    using assms(2,3) by (auto simp: n_def)
  have w: "wrap32 ?t = ?t"
    using assms(4) by (simp add: wrap32_def)
  obtain p m1 where p: "os_calloc h (n * 16) m = (Some p, m1)"
    using assms(1) [of "n * 16" m] by (cases "os_calloc h (n * 16) m") auto
  obtain q m2 where q: "os_calloc h (?t * 8) m1 = (Some q, m2)"
    using assms(1) [of "?t * 8" m1] by (cases "os_calloc h (?t * 8) m1") auto
  have sum: "sum_list (map (block_len ?t n) [0..<n]) = ?t"
    using block_len_sum [OF n(1), of ?t] by (simp add: interv_sum_list_conv_sum_set_nat atLeast0LessThan)
  obtain ss m' where ss: "gran_shares h (block_len ?t n) (all_work n_offsets n_l2_sets) 0 [0..<n] m2 = (Some ss, m')"
      "map length ss = map (block_len ?t n) [0..<n]" "concat ss = all_work n_offsets n_l2_sets"
    using gran_shares_concat [OF assms(1), where cur = 0 and len = "block_len ?t n" and js = "[0..<n]" and
        work = "all_work n_offsets n_l2_sets" and m = m2] sum by auto
  have len: "length ss = n"
    using ss(2) by (metis diff_zero length_map length_upt)
  have bal: "length a \<le> length b + 1" if "a \<in> set ss" "b \<in> set ss" for a b
  proof -
    have "length a \<in> set (map (block_len ?t n) [0..<n])" "length b \<in> set (map (block_len ?t n) [0..<n])"
      using that by (auto simp flip: ss(2))
    then show ?thesis using block_len_balanced by auto
  qed
  have "calc_gran_assignments h n_pairs n_offsets n_l2_sets m = ((Some ss, ?t), m')"
    using assms(2,3) p q ss(1) w n_def by (simp add: calc_gran_assignments_def Let_def)
  then show ?thesis
    using len n(2) ss(3) all_work_distinct [of n_offsets n_l2_sets] all_work_set bal by (simp del: set_concat)
qed

text \<open>
  C30: Where allocations succeed and the number of units fits a \<open>u32\<close>, \<open>calc_gran_assignments\<close> deals
  every pair of a requested offset and a requested L2 set to exactly one pair of threads, once,
  and no two threads get numbers of units that differ by more than one.
\<close>

theorem calc_gran_assignments_partition:
  assumes "\<And>n m. fst (os_calloc h n m) \<noteq> None" and "0 < n_pairs" and "0 < n_offsets * n_l2_sets"
    and "n_offsets * n_l2_sets < 2 ^ 32"
  shows "\<exists>ss m'. calc_gran_assignments h n_pairs n_offsets n_l2_sets m = ((Some ss, n_offsets * n_l2_sets), m') \<and>
    length ss = min n_pairs (n_offsets * n_l2_sets) \<and> distinct (concat ss) \<and>
    (\<forall>w. w \<in> set (concat ss) \<longleftrightarrow> offset_idx w < n_offsets \<and> l2_set_idx w < n_l2_sets) \<and>
    (\<forall>a \<in> set ss. \<forall>b \<in> set ss. length a \<le> length b + 1)"
  by (rule gran_assignments [OF assms])

theorem calc_gran_assignments_partition_witness:
  "\<exists>ss m'. calc_gran_assignments flat_hw 2 3 1 (\<lambda>_. 0, 0) = ((Some ss, 3 * 1), m') \<and>
    length ss = min 2 (3 * 1) \<and> distinct (concat ss) \<and>
    (\<forall>w. w \<in> set (concat ss) \<longleftrightarrow> offset_idx w < 3 \<and> l2_set_idx w < 1) \<and>
    (\<forall>a \<in> set ss. \<forall>b \<in> set ss. length a \<le> length b + 1)"
  by (rule calc_gran_assignments_partition) (simp_all add: flat_hw_def)

end
