(* ===== verification/Para_Safe.thy ===== *)
theory Para_Safe
  imports Evset_Para
begin

text \<open>
  The granular builder on every machine: each worker returns, and what the workers leave behind
  is one result per unit of work, made of lines of that unit's pool, with every pool intact.
\<close>

subsection \<open>Arrays of arrays\<close>

definition grid_ok :: "'a list list \<Rightarrow> nat \<Rightarrow> nat \<Rightarrow> bool" where
  "grid_ok xs a b \<longleftrightarrow> length xs = a \<and> (\<forall>row \<in> set xs. length row = b)"

lemma grid_row: "grid_ok xs a b \<Longrightarrow> i < a \<Longrightarrow> length (xs ! i) = b"
  by (auto simp: grid_ok_def)

lemma grid_get_Some: "grid_ok xs a b \<Longrightarrow> i < a \<Longrightarrow> j < b \<Longrightarrow> grid_get xs i j = Some (xs ! i ! j)"
  using grid_row [of xs a b i] by (simp add: grid_get_def arr_get_def grid_ok_def)

lemma grid_set_Some:
  assumes "grid_ok xs a b" "i < a" "j < b"
  shows "grid_set xs i j v = Some (xs[i := (xs ! i)[j := v]])" "grid_ok (xs[i := (xs ! i)[j := v]]) a b"
    "i' < a \<Longrightarrow> j' < b \<Longrightarrow> xs[i := (xs ! i)[j := v]] ! i' ! j' = (if i' = i \<and> j' = j then v else xs ! i' ! j')"
  using assms grid_row [OF assms(1,2)]
  by (auto simp: grid_set_def arr_simps grid_ok_def nth_list_update dest!: set_update_subset_insert [THEN subsetD])

subsection \<open>One unit\<close>

definition pool_set_ok :: "globals \<Rightarrow> EvCands \<Rightarrow> EvBuildConf EvSet \<Rightarrow> bool" where
  "pool_set_ok g c e \<longleftrightarrow> 0 < ev_size e \<and> ev_size e \<le> wrap32 (unat (n_ways (l3_info g)) * 2)
     \<and> mset (take (ev_size e) (ev_addrs e)) \<subseteq># pool c"

definition entry_ok :: "globals \<Rightarrow> nat \<Rightarrow> EvCands \<Rightarrow> l3_entry \<Rightarrow> bool" where
  "entry_ok g cap c r \<longleftrightarrow>
     (\<forall>es. r = Some es \<longrightarrow> length es = cap \<and> (\<forall>e b. Some (e, b) \<in> set es \<longrightarrow> pool_set_ok g c e))"

definition sets_in :: "l3_entry \<Rightarrow> nat" where
  "sets_in r = (case r of None \<Rightarrow> 0 | Some es \<Rightarrow> length (filter (\<lambda>e. e \<noteq> None) es))"

lemma copy_confs_ok:
  assumes "\<forall>e. Some e \<in> set es \<longrightarrow> pool_set_ok g c e"
  shows "\<exists>rs m'. copy_confs h conf es m = ((rs, length (filter (\<lambda>e. e \<noteq> None) rs)), m') \<and> length rs = length es
     \<and> (\<forall>e b. Some (e, b) \<in> set rs \<longrightarrow> pool_set_ok g c e)"
  using assms
proof (induction es arbitrary: m)
  case (Cons x es)
  obtain p m1 where p: "os_calloc h 144 m = (p, m1)"
    by fastforce
  obtain rs m' where rs: "copy_confs h conf es (if x = None then m else m1) = ((rs, length (filter (\<lambda>e. e \<noteq> None) rs)), m')"
      "length rs = length es" "\<forall>e b. Some (e, b) \<in> set rs \<longrightarrow> pool_set_ok g c e"
    using Cons.IH [of "if x = None then m else m1"] Cons.prems by auto
  show ?case
  proof (cases x)
    case None
    then show ?thesis using rs by auto
  next
    case (Some e)
    have ok: "pool_set_ok g c e"
      using Cons.prems Some by simp
    then have "copy_confs h conf (x # es) m =
        ((Some (e\<lparr>build_conf := conf\<rparr>, p \<noteq> None) # rs, length (filter (\<lambda>e. e \<noteq> None) rs) + 1), m')"
      using rs(1) p Some by (simp add: pool_set_ok_def)
    moreover have "pool_set_ok g c (e\<lparr>build_conf := conf\<rparr>)"
      using ok by (simp add: pool_set_ok_def)
    ultimately show ?thesis using rs(2,3) by auto
  qed
qed simp

lemma entry_copied:
  assumes "\<forall>evs. r = Some evs \<longrightarrow> length evs = cap \<and> (\<forall>e. Some e \<in> set evs \<longrightarrow> pool_set_ok g c e)"
  shows "\<exists>r' m'. (case r of None \<Rightarrow> ((None, 0), m)
      | Some es \<Rightarrow> (let ((es, k), m) = copy_confs h conf es m in ((Some es, k), m))) = ((r', sets_in r'), m')
      \<and> entry_ok g cap c r'"
proof (cases r)
  case (Some evs)
  then obtain rs m' where "copy_confs h conf evs m = ((rs, length (filter (\<lambda>e. e \<noteq> None) rs)), m')"
      "length rs = length evs" "\<forall>e b. Some (e, b) \<in> set rs \<longrightarrow> pool_set_ok g c e"
    using copy_confs_ok [of evs g c h conf m] assms by blast
  then show ?thesis
    using Some assms by (intro exI [of _ "Some rs"] exI [of _ m']) (simp add: sets_in_def entry_ok_def)
qed (simp add: sets_in_def entry_ok_def)

text \<open>What the builder needs: the L2 sets at all offsets, and memory.\<close>

definition l2_sets_ok :: "globals \<Rightarrow> nat \<Rightarrow> nat \<Rightarrow> l2_complex \<Rightarrow> bool" where
  "l2_sets_ok g n_off n_unc l2evsets \<longleftrightarrow>
     (\<forall>n < n_off. \<exists>row. arr_get l2evsets n = Some (Some row) \<and> length row = n_unc
        \<and> (\<forall>i < n_unc. \<exists>e. row ! i = Some e \<and> ev_size e \<le> length (ev_addrs e) \<and> target_cache e = l2_info g))"

definition same_pool :: "EvCands \<Rightarrow> EvCands \<Rightarrow> bool" where
  "same_pool c c' \<longleftrightarrow> cands_count c' = cands_count c \<and> perm_upto (cands_count c) (cands_addrs c) (cands_addrs c')"

lemma same_pool_trans: "same_pool a b \<Longrightarrow> same_pool b c \<Longrightarrow> same_pool a c"
  by (auto simp: same_pool_def intro: perm_upto_trans)

lemma same_pool_ok: "same_pool a b \<Longrightarrow> pool_ok a \<Longrightarrow> pool_ok b"
  by (auto simp: same_pool_def pool_ok_def dest: perm_upto_length)

lemma same_pool_eq: "same_pool a b \<Longrightarrow> pool b = pool a"
  by (simp add: same_pool_def pool_def perm_upto_def)

locale gran_machine =
  fixes h :: "'m hw" and g :: globals and l2conf :: EvBuildConf and l2evsets :: l2_complex and per :: nat
    and n_off :: nat and n_unc :: nat
  assumes calloc_succeeds: "fst (os_calloc h n m) \<noteq> None"
    and thread_succeeds: "fst (os_thread h m)"
    and l2_ok: "l2_sets_ok g n_off n_unc l2evsets"
    and l2_unc: "cache_uncertainty (l2_info g) \<noteq> 0"
    and l3_sib: "0 \<le> unknown_sib (l3_info g)" "unknown_sib (l3_info g) < 30"
begin

definition unit_cap :: nat where
  "unit_cap = (if per > 0 then per else unat (cache_uncertainty (l3_info g) div cache_uncertainty (l2_info g)))"

text \<open>
  The shared state after the units \<open>D\<close>, on the pools \<open>pools0\<close> and the empty results
  \<open>results0\<close>, with \<open>built\<close> sets counted.
\<close>

definition shared_ok :: "EvCands option list list \<Rightarrow> l3_entry list list \<Rightarrow> (nat \<times> nat) set \<Rightarrow> nat \<Rightarrow> para_shared \<Rightarrow> bool" where
  "shared_ok pools0 results0 D built sh \<longleftrightarrow>
     grid_ok (ps_pools sh) n_unc n_off \<and> grid_ok (ps_results sh) n_off n_unc
     \<and> D \<subseteq> {..<n_off} \<times> {..<n_unc} \<and> built = (\<Sum>(n, i) \<in> D. sets_in (ps_results sh ! n ! i))
     \<and> (\<forall>n < n_off. \<forall>i < n_unc. \<exists>c0 c. pools0 ! i ! n = Some c0 \<and> ps_pools sh ! i ! n = Some c \<and> pool_ok c0
          \<and> same_pool c0 c
          \<and> (if (n, i) \<in> D then entry_ok g unit_cap c0 (ps_results sh ! n ! i)
             else ps_results sh ! n ! i = results0 ! n ! i))"

lemma unit_builds:
  assumes "n < n_off" "i < n_unc" "grid_ok (ps_pools sh) n_unc n_off" "grid_ok (ps_results sh) n_off n_unc"
    "ps_pools sh ! i ! n = Some c" "pool_ok c"
  shows "\<exists>r c' conf' m'. build_unit h g l2conf l2evsets per n i conf sh m =
      Some ((sets_in r, conf', sh\<lparr>ps_pools := (ps_pools sh)[i := (ps_pools sh ! i)[n := Some c']],
          ps_results := (ps_results sh)[n := (ps_results sh ! n)[i := r]]\<rparr>), m')
      \<and> same_pool c c' \<and> entry_ok g unit_cap c r"
proof -
  obtain row where r0: "arr_get l2evsets n = Some (Some row)" "length row = n_unc"
      "\<forall>i < n_unc. \<exists>e. row ! i = Some e \<and> ev_size e \<le> length (ev_addrs e) \<and> target_cache e = l2_info g"
    using l2_ok assms(1) unfolding l2_sets_ok_def by blast
  then obtain e where e: "row ! i = Some e" "ev_size e \<le> length (ev_addrs e)" "target_cache e = l2_info g"
    using assms(2) by blast
  have row: "arr_get l2evsets n = Some (Some row)" "arr_get row i = Some (Some e)"
      "ev_size e \<le> length (ev_addrs e)" "target_cache e = l2_info g"
    using r0(1,2) e assms(2) by (simp_all add: arr_get_def)
  define l3conf where "l3conf = init_def_l3_conf g (Some (as_lower e)) True conf"
  have fe: "filter_ev l3conf = Some (as_lower e)" and tc: "target_cache (as_lower e) = l2_info g"
    and sz: "ev_size (as_lower e) \<le> length (ev_addrs (as_lower e))"
    using row(3,4) by (simp_all add: l3conf_def init_def_l3_conf_def as_lower_def)
  obtain limit where cnt: "evsets_at_counts l3conf (l3_info g) per = Some (unit_cap, limit)"
    using l2_unc by (simp add: evsets_at_counts_def fe tc Let_def unit_cap_def)
  have "\<exists>r c' m'. build_evsets_at h g l2conf (of_nat n * ucast CL_SIZE) l3conf (l3_info g) (Some c) [] per m =
       Some ((r, unit_cap, Some c', l3conf), m') \<and> same_pool c c'
     \<and> (\<forall>evs. r = Some evs \<longrightarrow> length evs = unit_cap \<and> (\<forall>e. Some e \<in> set evs \<longrightarrow> pool_set_ok g c e))"
    unfolding pool_set_ok_def same_pool_def conj_assoc
    by (rule evsets_at_any [OF calloc_succeeds _ assms(6) l3_sib cnt l3conf_def]) (use sz in simp)
  then obtain r c' m1 where
    b: "build_evsets_at h g l2conf (of_nat n * ucast CL_SIZE) l3conf (l3_info g) (Some c) [] per m =
        Some ((r, unit_cap, Some c', l3conf), m1)" "same_pool c c'"
    and es: "\<forall>evs. r = Some evs \<longrightarrow> length evs = unit_cap \<and> (\<forall>e. Some e \<in> set evs \<longrightarrow> pool_set_ok g c e)"
    by blast
  obtain r' m2 where r': "(case r of None \<Rightarrow> ((None, 0), m1)
      | Some es \<Rightarrow> (let ((es, k), m) = copy_confs h l3conf es m1 in ((Some es, k), m))) = ((r', sets_in r'), m2)"
      "entry_ok g unit_cap c r'"
    using entry_copied [OF es, where m = m1 and h = h and conf = l3conf] by blast
  have "build_unit h g l2conf l2evsets per n i conf sh m =
      Some ((sets_in r', l3conf, sh\<lparr>ps_pools := (ps_pools sh)[i := (ps_pools sh ! i)[n := Some c']],
          ps_results := (ps_results sh)[n := (ps_results sh ! n)[i := r']]\<rparr>), m2)"
    unfolding build_unit_def row(1,2) bind.simps Let_def option.map prod.case
    by (simp only: grid_get_Some [OF assms(3,2,1)] assms(5) bind.simps b(1) prod.case option.distinct if_False
        grid_set_Some(1) [OF assms(3,2,1)] r'(1) [unfolded Let_def] grid_set_Some(1) [OF assms(4,1,2)] flip: l3conf_def)
  then show ?thesis
    using b(2) r'(2) by blast
qed

lemma unit_safe:
  assumes "shared_ok pools0 results0 D built sh" "n < n_off" "i < n_unc" "(n, i) \<notin> D"
  shows "\<exists>k conf' sh' m'. build_unit h g l2conf l2evsets per n i conf sh m = Some ((k, conf', sh'), m')
     \<and> shared_ok pools0 results0 (insert (n, i) D) (built + k) sh'"
proof -
  have gp: "grid_ok (ps_pools sh) n_unc n_off" and gr: "grid_ok (ps_results sh) n_off n_unc"
    and D: "D \<subseteq> {..<n_off} \<times> {..<n_unc}" and sum: "built = (\<Sum>(n, i) \<in> D. sets_in (ps_results sh ! n ! i))"
    and cells: "\<And>n i. n < n_off \<Longrightarrow> i < n_unc \<Longrightarrow> \<exists>c0 c. pools0 ! i ! n = Some c0 \<and> ps_pools sh ! i ! n = Some c
          \<and> pool_ok c0 \<and> same_pool c0 c \<and> (if (n, i) \<in> D then entry_ok g unit_cap c0 (ps_results sh ! n ! i)
             else ps_results sh ! n ! i = results0 ! n ! i)"
    using assms(1) unfolding shared_ok_def by blast+
  obtain c0 c where c: "pools0 ! i ! n = Some c0" "ps_pools sh ! i ! n = Some c" "pool_ok c0" "same_pool c0 c"
    using cells [OF assms(2,3)] by blast
  obtain r c' conf' m' where u: "build_unit h g l2conf l2evsets per n i conf sh m =
      Some ((sets_in r, conf', sh\<lparr>ps_pools := (ps_pools sh)[i := (ps_pools sh ! i)[n := Some c']],
          ps_results := (ps_results sh)[n := (ps_results sh ! n)[i := r]]\<rparr>), m')"
      "same_pool c c'" "entry_ok g unit_cap c r"
    using unit_builds [OF assms(2,3) gp gr c(2) same_pool_ok [OF c(4,3)]] by blast
  let ?sh = "sh\<lparr>ps_pools := (ps_pools sh)[i := (ps_pools sh ! i)[n := Some c']],
          ps_results := (ps_results sh)[n := (ps_results sh ! n)[i := r]]\<rparr>"
  note ps = grid_set_Some(2,3) [OF gp assms(3,2), where v = "Some c'"]
  note rs = grid_set_Some(2,3) [OF gr assms(2,3), where v = r]
  have fin: "finite D"
    using D by (rule finite_subset) simp
  have "(\<Sum>(n, i) \<in> D. sets_in (ps_results ?sh ! n ! i)) = built"
    unfolding sum using D assms(4) rs(2) by (intro sum.cong refl) (auto split: if_splits)
  then have sum': "(\<Sum>(n, i) \<in> insert (n, i) D. sets_in (ps_results ?sh ! n ! i)) = built + sets_in r"
    using fin assms(4) rs(2) [OF assms(2,3)] by simp
  have "entry_ok g unit_cap c0 r"
    using u(3) same_pool_eq [OF c(4)] by (simp add: entry_ok_def pool_set_ok_def)
  then have "\<exists>c0 c. pools0 ! y ! x = Some c0 \<and> ps_pools ?sh ! y ! x = Some c
          \<and> pool_ok c0 \<and> same_pool c0 c \<and> (if (x, y) \<in> insert (n, i) D then entry_ok g unit_cap c0 (ps_results ?sh ! x ! y)
             else ps_results ?sh ! x ! y = results0 ! x ! y)" if "x < n_off" "y < n_unc" for x y
    using cells [OF that] c same_pool_trans [OF c(4) u(2)] ps(2) [OF that(2,1)] rs(2) [OF that] by auto
  then have "shared_ok pools0 results0 (insert (n, i) D) (built + sets_in r) ?sh"
    unfolding shared_ok_def using ps(1) rs(1) D assms(2,3) sum' by simp
  then show ?thesis
    using u(1) by blast
qed

abbreviation units :: "gran_work list \<Rightarrow> (nat \<times> nat) set" where
  "units ws \<equiv> (\<lambda>w. (offset_idx w, l2_set_idx w)) ` set ws"

lemma unit_inj: "inj (\<lambda>w :: gran_work. (offset_idx w, l2_set_idx w))"
  by (rule injI) simp

lemma unit_mem [simp]: "(offset_idx w, l2_set_idx w) \<in> units ws \<longleftrightarrow> w \<in> set ws" for w :: gran_work
  by (rule inj_image_mem_iff [OF unit_inj])

lemma units_disjoint [simp]: "units vs \<inter> units ws = {} \<longleftrightarrow> set vs \<inter> set ws = {}"
  by (simp flip: image_Int [OF unit_inj])

lemma worker_loop_safe:
  assumes "shared_ok pools0 results0 D built0 sh" "distinct ws" "units ws \<inter> D = {}" "units ws \<subseteq> {..<n_off} \<times> {..<n_unc}"
    "built0 = done + built"
  shows "\<exists>k sh' m'. gran_worker_loop h g l2conf l2evsets per ws conf built sh m = Some ((k, sh'), m')
     \<and> shared_ok pools0 results0 (units ws \<union> D) (done + k) sh'"
  using assms
proof (induction ws arbitrary: conf built built0 sh m D)
  case (Cons w ws)
  have w: "offset_idx w < n_off" "l2_set_idx w < n_unc" "(offset_idx w, l2_set_idx w) \<notin> D"
    using Cons.prems(3,4) by auto
  obtain k conf' sh1 m1 where u: "build_unit h g l2conf l2evsets per (offset_idx w) (l2_set_idx w) conf sh m = Some ((k, conf', sh1), m1)"
      "shared_ok pools0 results0 (insert (offset_idx w, l2_set_idx w) D) (built0 + k) sh1"
    using unit_safe [OF Cons.prems(1) w] by blast
  have d: "distinct ws" "units ws \<inter> insert (offset_idx w, l2_set_idx w) D = {}"
      "units ws \<subseteq> {..<n_off} \<times> {..<n_unc}" "built0 + k = done + (built + k)"
    using Cons.prems(2-5) by (auto simp: Int_insert_right)
  obtain k' sh' m' where
    "gran_worker_loop h g l2conf l2evsets per ws conf' (built + k) sh1 m1 = Some ((k', sh'), m')"
    "shared_ok pools0 results0 (units ws \<union> insert (offset_idx w, l2_set_idx w) D) (done + k') sh'"
    using Cons.IH [OF u(2) d] by blast
  then show ?case
    using u(1) by simp
qed auto

lemma run_workers_safe:
  assumes "shared_ok pools0 results0 D built sh" "distinct (concat shares)" "units (concat shares) \<inter> D = {}"
    "units (concat shares) \<subseteq> {..<n_off} \<times> {..<n_unc}"
  shows "\<exists>k sh' m'. run_gran_workers h g l2conf l2evsets per shares built sh m = Some ((True, k, sh'), m')
     \<and> shared_ok pools0 results0 (units (concat shares) \<union> D) k sh'"
  using assms
proof (induction shares arbitrary: built sh m D)
  case (Cons ws shares)
  obtain m1 where m1: "os_thread h m = (True, m1)"
    using thread_succeeds [of m] by (cases "os_thread h m") auto
  obtain m2 where m2: "os_thread h m1 = (True, m2)"
    using thread_succeeds [of m1] by (cases "os_thread h m1") auto
  obtain k sh1 m3 where w: "evset_thread_worker_gran h g l2conf l2evsets per ws sh m2 = Some ((k, sh1), m3)"
      "shared_ok pools0 results0 (units ws \<union> D) (built + k) sh1"
  proof -
    have "distinct ws" "units ws \<inter> D = {}" "units ws \<subseteq> {..<n_off} \<times> {..<n_unc}" "built = built + 0"
      using Cons.prems(2-4) by auto
    from worker_loop_safe [OF Cons.prems(1) this] show thesis
      using that unfolding evset_thread_worker_gran_def by blast
  qed
  have "set ws \<inter> set (concat shares) = {}"
    using Cons.prems(2) by auto
  then have dj: "units (concat shares) \<inter> units ws = {}"
    by (subst units_disjoint) blast
  have un: "units (concat (ws # shares)) = units ws \<union> units (concat shares)"
    by (simp add: image_Un)
  have d: "distinct (concat shares)" "units (concat shares) \<inter> (units ws \<union> D) = {}"
      "units (concat shares) \<subseteq> {..<n_off} \<times> {..<n_unc}"
  proof -
    show "distinct (concat shares)" using Cons.prems(2) by simp
    show "units (concat shares) \<inter> (units ws \<union> D) = {}" using Cons.prems(3) dj unfolding un by blast
    show "units (concat shares) \<subseteq> {..<n_off} \<times> {..<n_unc}" using Cons.prems(4) unfolding un by blast
  qed
  obtain k' sh' m' where
    "run_gran_workers h g l2conf l2evsets per shares (built + k) sh1 m3 = Some ((True, k', sh'), m')"
    "shared_ok pools0 results0 (units (concat shares) \<union> (units ws \<union> D)) k' sh'"
    using Cons.IH [OF w(2) d] by blast
  moreover have "units (concat shares) \<union> (units ws \<union> D) = units (concat (ws # shares)) \<union> D"
    unfolding un by blast
  ultimately show ?case
    using m1 m2 w(1) by simp
qed auto

end

lemma n_system_cores_pos: "0 < n_system_cores g"
  by (simp add: n_system_cores_def)

lemma init_pairs_returns: "0 < n_cores \<Longrightarrow> \<exists>ps. init_pairs n_cores vcpus i k ctr = Some ps"
proof (induction k arbitrary: i ctr)
  case (Suc k)
  obtain ps qs where "init_pairs n_cores vcpus (i + 1) k ctr = Some ps" "init_pairs n_cores vcpus (i + 1) k (ctr + 1 + 1) = Some qs"
    using Suc.IH Suc.prems by blast
  then show ?case
    using Suc.prems by (simp add: get_next_core_id_def add.assoc)
qed simp

lemma unit_image:
  fixes X :: "gran_work set"
  shows "(n, i) \<in> (\<lambda>w. (offset_idx w, l2_set_idx w)) ` X \<longleftrightarrow> \<lparr>offset_idx = n, l2_set_idx = i\<rparr> \<in> X"
proof
  assume "(n, i) \<in> (\<lambda>w. (offset_idx w, l2_set_idx w)) ` X"
  then obtain w where w: "w \<in> X" "offset_idx w = n" "l2_set_idx w = i"
    by auto
  then have "w = \<lparr>offset_idx = n, l2_set_idx = i\<rparr>"
    by (cases w) simp
  then show "\<lparr>offset_idx = n, l2_set_idx = i\<rparr> \<in> X"
    using w(1) by simp
qed (auto intro: rev_image_eqI)


text \<open>One offset, one L2 set and its pool of three lines.\<close>

definition steady_hw :: "((addr \<Rightarrow> u8) \<times> nat) hw" where
  "steady_hw = flat_hw\<lparr>os_thread := (\<lambda>m. (True, m))\<rparr>"

interpretation steady: gran_machine steady_hw flat_globals conf_zero "[Some [Some (demo_evset [0x10000, 0x20000] skx_l2)]]" 2 1 1
  by unfold_locales (simp_all add: steady_hw_def flat_hw_def flat_globals_def l2_sets_ok_def arr_get_def
    demo_evset_def skx_uncertainty skx_l3_def)


end
