(* ===== verification/Para_Claims.thy ===== *)
theory Para_Claims
  imports Para_Safe
begin

text \<open>
  The workers of \<open>build_l3_evsets_para\<close> and \<open>build_l3_evsets_para_vtop\<close> (src/evset_para.c) take
  offsets from a shared counter until none is left, and the main thread waits for them. The
  threads are a step relation: a step is one worker that starts its helper, draws a number
  from the counter, or finishes the offset it has drawn, or the main thread passing the
  barrier or joining a worker, in any order. The work on one offset is one step.
\<close>

subsection \<open>The threads\<close>

text \<open>
  A worker that could not start its helper returns at once. A worker that draws a number past
  the last offset, or runs into its time limit, is done.
\<close>

datatype worker = W_new | W_ready | W_busy nat | W_done | W_failed

text \<open>The main thread waits for all helpers to be up, then joins the workers in turn.\<close>

datatype main_thread = M_wait | M_join nat | M_end

text \<open>
  The counter \<open>next_offset_idx\<close>, the counter \<open>n_pair_init_done\<close>, the threads and the memory
  they share; and the offsets finished and the offsets given up at the time limit so far, which
  the program does not keep.
\<close>

record 's claim_state =
  cl_next :: nat
  cl_init :: nat
  cl_workers :: "worker list"
  cl_main :: main_thread
  cl_shared :: 's
  cl_finished :: "nat list"
  cl_stopped :: "nat list"

text \<open>
  \<open>work i n\<close> is what worker \<open>i\<close> does for the number \<open>n\<close>; its flag says that the time limit
  was reached.
\<close>

inductive claim_step ::
    "nat \<Rightarrow> (nat \<Rightarrow> nat \<Rightarrow> 's \<Rightarrow> (bool \<times> 's) option) \<Rightarrow> 's claim_state \<Rightarrow> 's claim_state \<Rightarrow> bool"
  for max_offsets work where
  helper_up: "i < length (cl_workers s) \<Longrightarrow> cl_workers s ! i = W_new \<Longrightarrow>
    claim_step max_offsets work s (s\<lparr>cl_workers := (cl_workers s)[i := W_ready], cl_init := cl_init s + 1\<rparr>)"
| helper_failed: "i < length (cl_workers s) \<Longrightarrow> cl_workers s ! i = W_new \<Longrightarrow>
    claim_step max_offsets work s (s\<lparr>cl_workers := (cl_workers s)[i := W_failed]\<rparr>)"
| draw: "i < length (cl_workers s) \<Longrightarrow> cl_workers s ! i = W_ready \<Longrightarrow> cl_next s < max_offsets \<Longrightarrow>
    claim_step max_offsets work s (s\<lparr>cl_workers := (cl_workers s)[i := W_busy (cl_next s)], cl_next := cl_next s + 1\<rparr>)"
| exhausted: "i < length (cl_workers s) \<Longrightarrow> cl_workers s ! i = W_ready \<Longrightarrow> \<not> cl_next s < max_offsets \<Longrightarrow>
    claim_step max_offsets work s (s\<lparr>cl_workers := (cl_workers s)[i := W_done], cl_next := cl_next s + 1\<rparr>)"
| finish: "i < length (cl_workers s) \<Longrightarrow> cl_workers s ! i = W_busy n \<Longrightarrow> work i n (cl_shared s) = Some (False, m) \<Longrightarrow>
    claim_step max_offsets work s (s\<lparr>cl_workers := (cl_workers s)[i := W_ready], cl_shared := m, cl_finished := n # cl_finished s\<rparr>)"
| time_limit: "i < length (cl_workers s) \<Longrightarrow> cl_workers s ! i = W_busy n \<Longrightarrow> work i n (cl_shared s) = Some (True, m) \<Longrightarrow>
    claim_step max_offsets work s (s\<lparr>cl_workers := (cl_workers s)[i := W_done], cl_shared := m, cl_stopped := n # cl_stopped s\<rparr>)"
| barrier: "cl_main s = M_wait \<Longrightarrow> cl_init s = length (cl_workers s) \<Longrightarrow>
    claim_step max_offsets work s (s\<lparr>cl_main := M_join 0\<rparr>)"
| join: "cl_main s = M_join k \<Longrightarrow> k < length (cl_workers s) \<Longrightarrow> cl_workers s ! k \<in> {W_done, W_failed} \<Longrightarrow>
    claim_step max_offsets work s (s\<lparr>cl_main := M_join (k + 1)\<rparr>)"
| all_joined: "cl_main s = M_join (length (cl_workers s)) \<Longrightarrow>
    claim_step max_offsets work s (s\<lparr>cl_main := M_end\<rparr>)"

definition claim_init :: "nat \<Rightarrow> 's \<Rightarrow> 's claim_state" where
  "claim_init n_pairs m = \<lparr>cl_next = 0, cl_init = 0, cl_workers = replicate n_pairs W_new, cl_main = M_wait,
     cl_shared = m, cl_finished = [], cl_stopped = []\<rparr>"

definition claim_runs :: "nat \<Rightarrow> (nat \<Rightarrow> nat \<Rightarrow> 's \<Rightarrow> (bool \<times> 's) option) \<Rightarrow> 's claim_state \<Rightarrow> 's claim_state \<Rightarrow> bool" where
  "claim_runs max_offsets work = (claim_step max_offsets work)\<^sup>*\<^sup>*"

subsection \<open>The invariant\<close>

fun busy_of :: "worker list \<Rightarrow> nat list" where
  "busy_of [] = []"
| "busy_of (W_busy n # ws) = n # busy_of ws"
| "busy_of (w # ws) = busy_of ws"

lemma busy_of_append [simp]: "busy_of (xs @ ys) = busy_of xs @ busy_of ys"
  by (induction xs rule: busy_of.induct) auto

lemma busy_of_set: "n \<in> set (busy_of ws) \<longleftrightarrow> W_busy n \<in> set ws"
  by (induction ws rule: busy_of.induct) auto

lemma busy_of_replicate [simp]: "busy_of (replicate k W_new) = []"
  by (induction k) auto

text \<open>How a multiset over the workers changes when one worker does.\<close>

lemma busy_of_update:
  assumes "i < length ws"
  shows "mset (busy_of (ws[i := w])) + mset (busy_of [ws ! i]) = mset (busy_of ws) + mset (busy_of [w])"
proof -
  have ws: "ws = take i ws @ ws ! i # drop (Suc i) ws"
    using assms by (simp add: id_take_nth_drop)
  have "busy_of ws = busy_of (take i ws) @ busy_of [ws ! i] @ busy_of (drop (Suc i) ws)"
    by (subst ws) (simp flip: busy_of_append)
  moreover have "busy_of (ws[i := w]) = busy_of (take i ws) @ busy_of [w] @ busy_of (drop (Suc i) ws)"
    using assms by (simp add: upd_conv_take_nth_drop flip: busy_of_append)
  ultimately show ?thesis
    by simp
qed

lemma filter_update_length:
  assumes "i < length ws"
  shows "length (filter P (ws[i := w])) + (if P (ws ! i) then 1 else 0) = length (filter P ws) + (if P w then 1 else 0)"
proof -
  have ws: "ws = take i ws @ ws ! i # drop (Suc i) ws"
    using assms by (simp add: id_take_nth_drop)
  have "length (filter P ws) = length (filter P (take i ws @ ws ! i # drop (Suc i) ws))"
    using ws by simp
  then show ?thesis
    using assms by (simp add: upd_conv_take_nth_drop)
qed

text \<open>
  The numbers drawn below the limit are those finished, those given up and those being worked
  on, each once; the counter runs past the limit only by workers that are done; the
  initialisation counter counts the workers whose helper is up.
\<close>

definition up :: "worker \<Rightarrow> bool" where
  "up w \<longleftrightarrow> w \<noteq> W_new \<and> w \<noteq> W_failed"

definition claim_inv :: "nat \<Rightarrow> 's claim_state \<Rightarrow> bool" where
  "claim_inv mx s \<longleftrightarrow>
     mset (cl_finished s) + mset (cl_stopped s) + mset (busy_of (cl_workers s)) = mset [0..<min (cl_next s) mx]
     \<and> cl_next s \<le> mx + length (filter (\<lambda>w. w = W_done) (cl_workers s))
     \<and> cl_init s = length (filter up (cl_workers s))
     \<and> (W_done \<in> set (cl_workers s) \<longrightarrow> cl_stopped s = [] \<longrightarrow> mx \<le> cl_next s)
     \<and> (cl_main s \<noteq> M_wait \<longrightarrow> list_all up (cl_workers s))
     \<and> (\<forall>k. cl_main s = M_join k \<longrightarrow> k \<le> length (cl_workers s) \<and> (\<forall>j < k. cl_workers s ! j = W_done))
     \<and> (cl_main s = M_end \<longrightarrow> (\<forall>j < length (cl_workers s). cl_workers s ! j = W_done))"

lemma claim_inv_init: "claim_inv mx (claim_init k m)"
  by (simp add: claim_inv_def claim_init_def up_def)

text \<open>A worker that is not done changes to \<open>w\<close>: what stays of the part on the main thread.\<close>

lemma main_part_update:
  assumes "list_all up (cl_workers s)" "\<forall>k. cl_main s = M_join k \<longrightarrow> k \<le> length (cl_workers s) \<and> (\<forall>j < k. cl_workers s ! j = W_done)"
    "cl_main s = M_end \<longrightarrow> (\<forall>j < length (cl_workers s). cl_workers s ! j = W_done)"
    "i < length (cl_workers s)" "cl_workers s ! i \<noteq> W_done" "up w"
  shows "list_all up ((cl_workers s)[i := w])"
    "\<forall>k. cl_main s = M_join k \<longrightarrow> k \<le> length ((cl_workers s)[i := w]) \<and> (\<forall>j < k. (cl_workers s)[i := w] ! j = W_done)"
    "cl_main s = M_end \<longrightarrow> (\<forall>j < length ((cl_workers s)[i := w]). (cl_workers s)[i := w] ! j = W_done)"
  using assms by (auto simp: list_all_length nth_list_update)

text \<open>The whole invariant under a change of one worker, by the change of each part.\<close>

lemma claim_inv_update:
  fixes s s' :: "'s claim_state"
  assumes "claim_inv mx s" "i < length (cl_workers s)" "cl_workers s ! i \<noteq> W_done" "cl_workers s' = (cl_workers s)[i := w]"
    "cl_main s' = cl_main s" "up w \<or> cl_main s = M_wait"
    "mset (cl_finished s') + mset (cl_stopped s') + mset (busy_of [w]) + mset [0..<min (cl_next s) mx] =
       mset (cl_finished s) + mset (cl_stopped s) + mset (busy_of [cl_workers s ! i]) + mset [0..<min (cl_next s') mx]"
    "cl_next s' \<le> cl_next s \<or> cl_next s' \<le> mx \<or> (w = W_done \<and> cl_next s' = cl_next s + 1)"
    "cl_init s' + (if up (cl_workers s ! i) then 1 else 0) = cl_init s + (if up w then 1 else 0)"
    "cl_stopped s' = [] \<Longrightarrow> cl_stopped s = [] \<and> (w = W_done \<longrightarrow> mx \<le> cl_next s')" "cl_next s \<le> cl_next s'"
  shows "claim_inv mx s'"
proof -
  note inv = assms(1) [unfolded claim_inv_def]
  note u = busy_of_update [OF assms(2), of w] filter_update_length [OF assms(2), where w = w]
  have "mset (cl_finished s') + mset (cl_stopped s') + mset (busy_of (cl_workers s')) = mset [0..<min (cl_next s') mx]"
  proof -
    have "mset (cl_finished s') + mset (cl_stopped s') + mset (busy_of (cl_workers s')) + mset (busy_of [cl_workers s ! i])
            + mset [0..<min (cl_next s) mx] =
          mset (cl_finished s') + mset (cl_stopped s') + mset (busy_of [w]) + mset [0..<min (cl_next s) mx] + mset (busy_of (cl_workers s))"
      using u(1) by (simp add: assms(4) ac_simps)
    also have "\<dots> = mset [0..<min (cl_next s') mx] + mset (busy_of [cl_workers s ! i]) + mset [0..<min (cl_next s) mx]"
      using inv by (simp only: assms(7)) (simp add: ac_simps)
    finally show ?thesis by simp
  qed
  moreover have "cl_next s' \<le> mx + length (filter (\<lambda>w. w = W_done) (cl_workers s'))"
    using inv assms(3,8) u(2) [where P = "\<lambda>w. w = W_done"] by (auto simp: assms(4) split: if_splits)
  moreover have "cl_init s' = length (filter up (cl_workers s'))"
    using inv assms(9) u(2) [where P = up] by (simp add: assms(4) split: if_splits)
  moreover have "mx \<le> cl_next s'" if "W_done \<in> set (cl_workers s')" "cl_stopped s' = []"
    using that assms(10,11) inv set_update_subset_insert [of "cl_workers s" i w] by (auto simp: assms(4) intro: order_trans)
  moreover have "list_all up (cl_workers s') \<and>
      (\<forall>k. cl_main s' = M_join k \<longrightarrow> k \<le> length (cl_workers s') \<and> (\<forall>j < k. cl_workers s' ! j = W_done)) \<and>
      (cl_main s' = M_end \<longrightarrow> (\<forall>j < length (cl_workers s'). cl_workers s' ! j = W_done))" if "cl_main s' \<noteq> M_wait"
    using main_part_update [of s i w] inv assms(2,3,6) that by (simp add: assms(4,5))
  ultimately show ?thesis
    unfolding claim_inv_def by (metis main_thread.distinct(1,3))
qed

lemma claim_inv_step:
  assumes "claim_step mx work s s'" "claim_inv mx s"
  shows "claim_inv mx s'"
  using assms(1)
proof (cases rule: claim_step.cases)
  case (helper_up i)
  then have "cl_main s = M_wait"
    using assms(2) by (auto simp: claim_inv_def list_all_length up_def)
  then show ?thesis
    using helper_up by (intro claim_inv_update [OF assms(2), of i s' W_ready]) (simp_all add: up_def)
next
  case (helper_failed i)
  then have "cl_main s = M_wait"
    using assms(2) by (auto simp: claim_inv_def list_all_length up_def)
  then show ?thesis
    using helper_failed by (intro claim_inv_update [OF assms(2), of i s' W_failed]) (simp_all add: up_def)
next
  case (draw i)
  have "min (cl_next s + 1) mx = Suc (min (cl_next s) mx)" "min (cl_next s) mx = cl_next s"
    using draw by simp_all
  then show ?thesis
    using draw by (intro claim_inv_update [OF assms(2), of i s' "W_busy (cl_next s)"]) (simp_all add: up_def)
next
  case (exhausted i)
  have "min (cl_next s + 1) mx = min (cl_next s) mx"
    using exhausted by simp
  then show ?thesis
    using exhausted by (intro claim_inv_update [OF assms(2), of i s' W_done]) (simp_all add: up_def)
next
  case (finish i n m)
  then show ?thesis
    by (intro claim_inv_update [OF assms(2), of i s' W_ready]) (simp_all add: up_def)
next
  case (time_limit i n m)
  then show ?thesis
    by (intro claim_inv_update [OF assms(2), of i s' W_done]) (simp_all add: up_def)
next
  case barrier
  then have "list_all up (cl_workers s)"
    using assms(2) length_filter_less [of _ "cl_workers s" up] by (force simp: claim_inv_def list_all_iff)
  then show ?thesis
    using barrier assms(2) by (simp add: claim_inv_def)
next
  case (join k)
  then have "cl_workers s ! k = W_done"
    using assms(2) by (auto simp: claim_inv_def list_all_length up_def)
  then show ?thesis
    using join assms(2) by (auto simp: claim_inv_def less_Suc_eq)
next
  case all_joined
  then show ?thesis
    using assms(2) by (simp add: claim_inv_def)
qed

lemma claim_inv_runs: "claim_runs mx work s s' \<Longrightarrow> claim_inv mx s \<Longrightarrow> claim_inv mx s'"
  unfolding claim_runs_def by (induction rule: rtranclp_induct) (auto intro: claim_inv_step)

subsection \<open>Every run ends\<close>

fun worker_weight :: "worker \<Rightarrow> nat" where
  "worker_weight W_new = 3"
| "worker_weight W_ready = 2"
| "worker_weight (W_busy n) = 3"
| "worker_weight W_done = 0"
| "worker_weight W_failed = 0"

fun main_weight :: "nat \<Rightarrow> main_thread \<Rightarrow> nat" where
  "main_weight k M_wait = k + 2"
| "main_weight k (M_join j) = k + 1 - j"
| "main_weight k M_end = 0"

definition claim_weight :: "nat \<Rightarrow> 's claim_state \<Rightarrow> nat" where
  "claim_weight mx s = sum_list (map worker_weight (cl_workers s)) + 2 * (mx - cl_next s)
     + main_weight (length (cl_workers s)) (cl_main s)"

lemma weight_update:
  assumes "i < length ws"
  shows "sum_list (map worker_weight (ws[i := w])) + worker_weight (ws ! i) = sum_list (map worker_weight ws) + worker_weight w"
proof -
  have "ws = take i ws @ ws ! i # drop (Suc i) ws"
    using assms by (simp add: id_take_nth_drop)
  then have "sum_list (map worker_weight ws) = sum_list (map worker_weight (take i ws @ ws ! i # drop (Suc i) ws))"
    by simp
  then show ?thesis
    using assms by (simp add: upd_conv_take_nth_drop)
qed

lemma claim_weight_update:
  assumes "i < length (cl_workers s)" "cl_workers s' = (cl_workers s)[i := w]" "cl_main s' = cl_main s"
    "worker_weight w + 2 * (mx - cl_next s') < worker_weight (cl_workers s ! i) + 2 * (mx - cl_next s)"
  shows "claim_weight mx s' < claim_weight mx s"
  using weight_update [OF assms(1), of w] assms(2-4) by (simp add: claim_weight_def)

lemma claim_step_weight:
  assumes "claim_step mx work s s'"
  shows "claim_weight mx s' < claim_weight mx s"
  using assms
proof (cases rule: claim_step.cases)
  case (helper_up i)
  then show ?thesis by (intro claim_weight_update [of i s s' W_ready]) simp_all
next
  case (helper_failed i)
  then show ?thesis by (intro claim_weight_update [of i s s' W_failed]) simp_all
next
  case (draw i)
  then show ?thesis by (intro claim_weight_update [of i s s' "W_busy (cl_next s)"]) simp_all
next
  case (exhausted i)
  then show ?thesis by (intro claim_weight_update [of i s s' W_done]) simp_all
next
  case (finish i n m)
  then show ?thesis by (intro claim_weight_update [of i s s' W_ready]) simp_all
next
  case (time_limit i n m)
  then show ?thesis by (intro claim_weight_update [of i s s' W_done]) simp_all
qed (simp_all add: claim_weight_def)

lemma claim_runs_init: "claim_runs mx work (claim_init k m) s \<Longrightarrow> claim_inv mx s"
  by (erule claim_inv_runs) (rule claim_inv_init)

lemma claim_step_length: "claim_step mx work s s' \<Longrightarrow> length (cl_workers s') = length (cl_workers s)"
  by (cases rule: claim_step.cases) auto

text \<open>A worker whose helper failed stays failed, and holds up the barrier.\<close>

lemma failed_step: "claim_step mx work s s' \<Longrightarrow> W_failed \<in> set (cl_workers s) \<Longrightarrow> W_failed \<in> set (cl_workers s')"
  by (cases rule: claim_step.cases) (auto simp: in_set_conv_nth nth_list_update, (metis worker.distinct)+)

lemma failed_waits:
  assumes "claim_inv mx s" "W_failed \<in> set (cl_workers s)"
  shows "cl_main s = M_wait"
  using assms by (auto simp: claim_inv_def list_all_iff up_def)

text \<open>
  The contract of the work on one number, with what the finished numbers \<open>F\<close> have left in the
  shared memory: it returns within the time limit and adds its number.
\<close>

locale claim_workers =
  fixes work :: "nat \<Rightarrow> nat \<Rightarrow> 's \<Rightarrow> (bool \<times> 's) option" and mx :: nat and k :: nat
    and inv :: "nat set \<Rightarrow> 's \<Rightarrow> bool"
  assumes work_ok: "inv F m \<Longrightarrow> i < k \<Longrightarrow> n < mx \<Longrightarrow> n \<notin> F \<Longrightarrow> \<exists>m'. work i n m = Some (False, m') \<and> inv (insert n F) m'"
begin

definition run_ok :: "'s claim_state \<Rightarrow> bool" where
  "run_ok s \<longleftrightarrow> claim_inv mx s \<and> length (cl_workers s) = k \<and> cl_stopped s = [] \<and> inv (set (cl_finished s)) (cl_shared s)"

lemma busy_number:
  assumes "claim_inv mx s" "i < length (cl_workers s)" "cl_workers s ! i = W_busy n"
  shows "n < mx" "n \<notin> set (cl_finished s)"
proof -
  have ms: "mset (cl_finished s) + mset (cl_stopped s) + mset (busy_of (cl_workers s)) = mset [0..<min (cl_next s) mx]"
    using assms(1) by (simp add: claim_inv_def)
  have n: "n \<in> set (busy_of (cl_workers s))"
    using assms(2,3) nth_mem [OF assms(2)] by (simp add: busy_of_set)
  have d: "mset (cl_finished s @ cl_stopped s @ busy_of (cl_workers s)) = mset [0..<min (cl_next s) mx]"
    using ms by (simp add: ac_simps)
  have "distinct (cl_finished s @ cl_stopped s @ busy_of (cl_workers s))"
    using mset_eq_imp_distinct_iff [OF d] by simp
  then show "n \<notin> set (cl_finished s)"
    using n by auto
  have "n \<in> set [0..<min (cl_next s) mx]"
    using n mset_eq_setD [OF d] by auto
  then show "n < mx" by simp
qed

lemma run_ok_step:
  assumes "claim_step mx work s s'" "run_ok s"
  shows "run_ok s'"
proof -
  have inv: "claim_inv mx s'" "length (cl_workers s') = k"
    using claim_inv_step [OF assms(1)] claim_step_length [OF assms(1)] assms(2) by (simp_all add: run_ok_def)
  have work: "\<exists>m'. work i n (cl_shared s) = Some (False, m') \<and> inv (insert n (set (cl_finished s))) m'"
    if "i < length (cl_workers s)" "cl_workers s ! i = W_busy n" for i n
    using that busy_number [OF _ that] assms(2) by (intro work_ok) (auto simp: run_ok_def)
  from assms(1) have "cl_stopped s' = [] \<and> inv (set (cl_finished s')) (cl_shared s')"
    by (cases rule: claim_step.cases) (use work assms(2) in \<open>fastforce simp: run_ok_def\<close>)+
  with inv show ?thesis
    by (simp add: run_ok_def)
qed

lemma runs_ok:
  assumes "claim_runs mx work (claim_init k m) s" "inv {} m"
  shows "run_ok s"
  using assms(1) unfolding claim_runs_def
proof (induction rule: rtranclp_induct)
  case base
  then show ?case
    using assms(2) by (simp add: run_ok_def claim_inv_init) (simp add: claim_init_def)
qed (rule run_ok_step)

lemma progress:
  assumes "run_ok s" "W_failed \<notin> set (cl_workers s)" "cl_main s \<noteq> M_end"
  shows "\<exists>s'. claim_step mx work s s'"
proof (cases "\<exists>i < length (cl_workers s). cl_workers s ! i \<noteq> W_done")
  case True
  then obtain i where i: "i < length (cl_workers s)" "cl_workers s ! i \<noteq> W_done" by blast
  show ?thesis
  proof (cases "cl_workers s ! i")
    case (W_busy n)
    then have "\<exists>m'. work i n (cl_shared s) = Some (False, m')"
      using work_ok [of "set (cl_finished s)" "cl_shared s" i n] busy_number [OF _ i(1) W_busy] assms(1) i(1)
      by (auto simp: run_ok_def)
    then show ?thesis using i(1) W_busy claim_step.finish by metis
  qed (use i assms(2) nth_mem [OF i(1)] claim_step.helper_up claim_step.draw claim_step.exhausted in metis)+
next
  case False
  then have up: "\<forall>w \<in> set (cl_workers s). up w"
    by (auto simp: in_set_conv_nth up_def)
  show ?thesis
  proof (cases "cl_main s")
    case M_wait
    then have "cl_init s = length (cl_workers s)"
      using up assms(1) by (simp add: run_ok_def claim_inv_def)
    then show ?thesis using M_wait claim_step.barrier by metis
  next
    case (M_join j)
    then have "j \<le> length (cl_workers s)"
      using assms(1) by (simp add: run_ok_def claim_inv_def)
    then show ?thesis
      using M_join False claim_step.join [of s j] claim_step.all_joined [of s] by (cases "j = length (cl_workers s)") auto
  qed (use assms(3) in simp)
qed

lemma at_end:
  assumes "run_ok s" "cl_main s = M_end" "0 < k"
  shows "mset (cl_finished s) = mset [0..<mx]" "inv {..<mx} (cl_shared s)"
proof -
  have d: "\<forall>j < length (cl_workers s). cl_workers s ! j = W_done" and l: "length (cl_workers s) = k"
    using assms(1,2) by (auto simp: run_ok_def claim_inv_def)
  then have all: "\<forall>w \<in> set (cl_workers s). w = W_done"
    by (auto simp: in_set_conv_nth)
  then have "busy_of (cl_workers s) = []"
    using busy_of_set [of _ "cl_workers s"] by (metis list.set_intros(1) neq_Nil_conv worker.distinct(15))
  moreover have "mx \<le> cl_next s"
    using assms(1,3) d l nth_mem [of 0 "cl_workers s"] by (auto simp: run_ok_def claim_inv_def)
  moreover have "cl_stopped s = []"
    using assms(1) by (simp add: run_ok_def)
  ultimately show ms: "mset (cl_finished s) = mset [0..<mx]"
    using assms(1) by (simp add: run_ok_def claim_inv_def min_absorb2)
  then have "set (cl_finished s) = {..<mx}"
    by (metis atLeast0LessThan mset_eq_setD set_upt)
  then show "inv {..<mx} (cl_shared s)"
    using assms(1) by (simp add: run_ok_def)
qed

end

subsection \<open>The work on one offset\<close>

text \<open>Each worker's configuration and \<open>total_built\<close>, the shared arrays, and the machine.\<close>

record 'm para_mem =
  pm_confs :: "EvBuildConf list"
  pm_built :: "nat list"
  pm_shared :: para_shared
  pm_mach :: 'm

definition para_work ::
    "'m hw \<Rightarrow> globals \<Rightarrow> EvBuildConf \<Rightarrow> l2_complex \<Rightarrow> nat \<Rightarrow> (nat \<Rightarrow> u64) \<Rightarrow> nat list \<Rightarrow> nat
       \<Rightarrow> nat \<Rightarrow> nat \<Rightarrow> 'm para_mem \<Rightarrow> (bool \<times> 'm para_mem) option" where
  "para_work h g l2conf l2evsets limit start idxs n_unc i curr_off_idx st = do {
     n \<leftarrow> arr_get idxs curr_off_idx;
     conf \<leftarrow> arr_get (pm_confs st) i;
     built \<leftarrow> arr_get (pm_built st) i;
     ((stop, built, conf, sh), m) \<leftarrow>
       offset_units h g l2conf l2evsets limit (start i) n [0..<n_unc] conf built (pm_shared st) (pm_mach st);
     Some (stop, st\<lparr>pm_confs := (pm_confs st)[i := conf], pm_built := (pm_built st)[i := built],
                    pm_shared := sh, pm_mach := m\<rparr>)
   }"

text \<open>The memory when the workers start; the configurations are zeroed, then initialised.\<close>

definition para_init :: "globals \<Rightarrow> nat \<Rightarrow> EvCands option list list \<Rightarrow> l3_entry list list \<Rightarrow> 'm \<Rightarrow> 'm para_mem" where
  "para_init g n_pairs pools results m = \<lparr>pm_confs = replicate n_pairs (init_def_l3_conf g None True conf_zero),
     pm_built = replicate n_pairs 0, pm_shared = \<lparr>ps_pools = pools, ps_results = results\<rparr>, pm_mach = m\<rparr>"

context gran_machine
begin

lemma offset_units_safe:
  assumes "shared_ok pools0 results0 D (rest + b) sh" "per = 0" "n < n_off" "distinct js" "set js \<subseteq> {..<n_unc}"
    "({n} \<times> set js) \<inter> D = {}"
  shows "\<exists>b' conf' sh' m'. offset_units h g l2conf l2evsets 0 start n js conf b sh m = Some ((False, b', conf', sh'), m')
     \<and> shared_ok pools0 results0 ({n} \<times> set js \<union> D) (rest + b') sh'"
  using assms
proof (induction js arbitrary: conf b sh m D)
  case (Cons j js)
  have j: "j < n_unc" "(n, j) \<notin> D" and js: "distinct js" "set js \<subseteq> {..<n_unc}" "({n} \<times> set js) \<inter> insert (n, j) D = {}"
    using Cons.prems(4-6) by auto
  obtain k conf' sh1 m1 where u: "build_unit h g l2conf l2evsets per n j conf sh m = Some ((k, conf', sh1), m1)"
      "shared_ok pools0 results0 (insert (n, j) D) (rest + b + k) sh1"
    using unit_safe [OF Cons.prems(1,3) j] by blast
  then have "shared_ok pools0 results0 (insert (n, j) D) (rest + (b + k)) sh1"
    by (simp add: add.assoc)
  from Cons.IH [OF this Cons.prems(2,3) js] obtain b' conf2 sh' m' where
    "offset_units h g l2conf l2evsets 0 start n js conf' (b + k) sh1 m1 = Some ((False, b', conf2, sh'), m')"
    "shared_ok pools0 results0 ({n} \<times> set js \<union> insert (n, j) D) (rest + b') sh'"
    by blast
  moreover have "{n} \<times> set js \<union> insert (n, j) D = {n} \<times> set (j # js) \<union> D"
    by auto
  ultimately show ?case
    using u(1) Cons.prems(2) by simp
qed simp

text \<open>What the finished offsets \<open>F\<close> leave in the memory of \<open>k\<close> workers.\<close>

definition mem_ok :: "EvCands option list list \<Rightarrow> l3_entry list list \<Rightarrow> nat \<Rightarrow> nat set \<Rightarrow> 'm para_mem \<Rightarrow> bool" where
  "mem_ok pools0 results0 k F st \<longleftrightarrow> length (pm_confs st) = k \<and> length (pm_built st) = k
     \<and> shared_ok pools0 results0 (F \<times> {..<n_unc}) (sum_list (pm_built st)) (pm_shared st)"

lemma para_claim_workers:
  assumes "per = 0" "mx \<le> n_off"
  shows "claim_workers (para_work h g l2conf l2evsets 0 start [0..<n_off] n_unc) mx k (mem_ok pools0 results0 k)"
proof
  fix F and st :: "'m para_mem" and i n
  assume st: "mem_ok pools0 results0 k F st" and i: "i < k" and n: "n < mx" "n \<notin> F"
  define b rest where "b = pm_built st ! i" and "rest = sum_list (pm_built st) - b"
  have i': "i < length (pm_built st)" "i < length (pm_confs st)"
    using st i by (simp_all add: mem_ok_def)
  have b: "b \<le> sum_list (pm_built st)"
    unfolding b_def using i'(1) by (intro member_le_sum_list) simp_all
  then have sh: "shared_ok pools0 results0 (F \<times> {..<n_unc}) (rest + b) (pm_shared st)"
    using st by (simp add: mem_ok_def rest_def)
  have js: "n < n_off" "distinct [0..<n_unc]" "set [0..<n_unc] \<subseteq> {..<n_unc}"
      "({n} \<times> set [0..<n_unc]) \<inter> (F \<times> {..<n_unc}) = {}"
    using n assms(2) by auto
  obtain b' conf' sh' m' where
    o: "offset_units h g l2conf l2evsets 0 (start i) n [0..<n_unc] (pm_confs st ! i) b (pm_shared st) (pm_mach st) =
          Some ((False, b', conf', sh'), m')"
      "shared_ok pools0 results0 ({n} \<times> set [0..<n_unc] \<union> F \<times> {..<n_unc}) (rest + b') sh'"
    using offset_units_safe [OF sh assms(1) js] by blast
  let ?st = "st\<lparr>pm_confs := (pm_confs st)[i := conf'], pm_built := (pm_built st)[i := b'], pm_shared := sh', pm_mach := m'\<rparr>"
  have "para_work h g l2conf l2evsets 0 start [0..<n_off] n_unc i n st = Some (False, ?st)"
    using o(1) i' js(1) by (simp add: para_work_def arr_get_def b_def)
  moreover have "sum_list ((pm_built st)[i := b']) = rest + b'"
    using i'(1) b by (simp add: sum_list_update rest_def b_def)
  moreover have "{n} \<times> set [0..<n_unc] \<union> F \<times> {..<n_unc} = insert n F \<times> {..<n_unc}"
    by auto
  ultimately show "\<exists>m'. para_work h g l2conf l2evsets 0 start [0..<n_off] n_unc i n st = Some (False, m')
      \<and> mem_ok pools0 results0 k (insert n F) m'"
    using o(2) st by (simp add: mem_ok_def)
qed

end

interpretation steady_claims: claim_workers
  "para_work steady_hw flat_globals conf_zero [Some [Some (demo_evset [0x10000, 0x20000] skx_l2)]] 0 (\<lambda>_. 0) [0..<1] 1"
  1 2 "gran_machine.mem_ok flat_globals 0 1 1 [[Some demo_pool]] [[None]] 2"
proof (rule gran_machine.para_claim_workers)
  show "gran_machine steady_hw flat_globals [Some [Some (demo_evset [0x10000, 0x20000] skx_l2)]] 1 1"
    by (rule steady.gran_machine_axioms)
qed simp_all

subsection \<open>Properties\<close>


text \<open>A run of two workers over one offset: both start, the first draws the offset.\<close>

definition demo_claims :: "unit claim_state" where
  "demo_claims = (claim_init 2 ())\<lparr>cl_workers := [W_busy 0, W_ready], cl_init := 2, cl_next := 1\<rparr>"

lemma demo_claims_run: "claim_runs 1 (\<lambda>i n m. Some (False, m)) (claim_init 2 ()) demo_claims"
proof -
  let ?s = "claim_step 1 (\<lambda>i n m. Some (False, m :: unit))"
  let ?a = "(claim_init 2 ())\<lparr>cl_workers := [W_ready, W_new], cl_init := 1\<rparr>"
  let ?b = "(claim_init 2 ())\<lparr>cl_workers := [W_ready, W_ready], cl_init := 2\<rparr>"
  have "?s (claim_init 2 ()) ?a"
    using claim_step.helper_up [of 0 "claim_init 2 ()" 1] by (simp add: claim_init_def numeral_2_eq_2)
  moreover have "?s ?a ?b"
    using claim_step.helper_up [of 1 ?a 1] by (simp add: claim_init_def numeral_2_eq_2)
  moreover have "?s ?b demo_claims"
    using claim_step.draw [of 0 ?b 1] by (simp add: claim_init_def demo_claims_def)
  ultimately show ?thesis
    unfolding claim_runs_def by (meson converse_rtranclp_into_rtranclp rtranclp.rtrancl_refl)
qed




definition demo_work :: "nat \<Rightarrow> nat \<Rightarrow> ((addr \<Rightarrow> u8) \<times> nat) para_mem \<Rightarrow> (bool \<times> ((addr \<Rightarrow> u8) \<times> nat) para_mem) option" where
  "demo_work = para_work steady_hw flat_globals conf_zero [Some [Some (demo_evset [0x10000, 0x20000] skx_l2)]]
     0 (\<lambda>_. 0) [0..<1] 1"


text \<open>
  C37: A pair whose helper thread does not start leaves the main thread at the barrier for good:
  from such a state on, the builder waits in every state it can reach and never returns, since
  the worker returns without counting itself in \<open>n_pair_init_done\<close>.
\<close>

theorem failed_helper_blocks:
  assumes "claim_runs max_offsets work (claim_init n_pairs m) s" and "W_failed \<in> set (cl_workers s)"
    and "claim_runs max_offsets work s s'"
  shows "cl_main s' = M_wait"
proof -
  have "W_failed \<in> set (cl_workers s')"
    using assms(3,2) unfolding claim_runs_def by (induction rule: rtranclp_induct) (auto intro: failed_step)
  then show ?thesis
    using failed_waits claim_inv_runs [OF assms(3) claim_runs_init [OF assms(1)]] by blast
qed

theorem failed_helper_blocks_witness:
  "cl_main ((claim_init 1 ())\<lparr>cl_workers := [W_failed]\<rparr>) = M_wait"
proof (rule failed_helper_blocks)
  show "claim_runs 1 (\<lambda>i n m. Some (False, m)) (claim_init 1 ()) ((claim_init 1 ())\<lparr>cl_workers := [W_failed]\<rparr>)"
    using claim_step.helper_failed [of 0 "claim_init 1 ()"]
    unfolding claim_runs_def by (intro r_into_rtranclp) (simp add: claim_init_def)
qed (simp_all add: claim_runs_def)

end
