(* ===== verification/Latency.thy ===== *)
theory Latency
  imports Evset_Data "HOL-Library.Log_Nat" "HOL-Library.Signed_Division"
begin

text \<open>
  The latency measurements of src/lats.c and include/lats.h: the statistics on measured
  values, the four measurements, and the thresholds between the levels of the hierarchy.

  An \<open>i32\<close> is an integer in its range, and signed overflow is \<open>None\<close>. The \<open>double\<close>
  arithmetic of the thresholds is exact rational arithmetic followed by the rounding of IEEE
  754, so the results are those of the compiled code.
\<close>

subsection \<open>Signed integers and doubles\<close>

definition i32_of :: "'a::len word \<Rightarrow> int" where
  "i32_of w = sint (ucast w :: 32 word)"

definition i32_ok :: "int \<Rightarrow> bool" where
  "i32_ok x \<longleftrightarrow> - (2 ^ 31) \<le> x \<and> x < 2 ^ 31"

definition i32_add :: "int \<Rightarrow> int \<Rightarrow> int option" where
  "i32_add a b = (if i32_ok (a + b) then Some (a + b) else None)"

text \<open>
  Rounding to the nearest number of 53 significant bits, ties to even, for numbers that are
  not negative; numbers below \<open>2 ^ -1000\<close> do not occur.
\<close>

definition round_even :: "rat \<Rightarrow> int" where
  "round_even y = (let k = \<lfloor>y\<rfloor>; r = y - of_int k
     in if r < 1 / 2 \<or> (r = 1 / 2 \<and> even k) then k else k + 1)"

definition fl_scale :: "rat \<Rightarrow> rat" where
  "fl_scale x = 2 ^ 1053 / 2 ^ floorlog 2 (nat \<lfloor>x * 2 ^ 1000\<rfloor>)"

definition fl :: "rat \<Rightarrow> rat" where
  "fl x = of_int (round_even (x * fl_scale x)) / fl_scale x"

text \<open>The literals \<open>4.6\<close>, \<open>1.2\<close>, \<open>1.15\<close> and \<open>1.8\<close> as the doubles they denote.\<close>

definition dbl_4_6 :: rat where "dbl_4_6 = 0x12666666666666 / 2 ^ 50"
definition dbl_1_2 :: rat where "dbl_1_2 = 0x13333333333333 / 2 ^ 52"
definition dbl_1_15 :: rat where "dbl_1_15 = 0x12666666666666 / 2 ^ 52"
definition dbl_1_8 :: rat where "dbl_1_8 = 0x1ccccccccccccd / 2 ^ 52"

definition dbl_of :: "u64 \<Rightarrow> rat" where
  "dbl_of w = fl (of_nat (unat w))"

text \<open>A conversion back to an integer truncates, and is undefined out of range.\<close>

definition u64_of_dbl :: "rat \<Rightarrow> u64 option" where
  "u64_of_dbl x = (if 0 \<le> \<lfloor>x\<rfloor> \<and> \<lfloor>x\<rfloor> < 2 ^ 64 then Some (of_int \<lfloor>x\<rfloor>) else None)"

definition u32_of_dbl :: "rat \<Rightarrow> u32 option" where
  "u32_of_dbl x = (if 0 \<le> \<lfloor>x\<rfloor> \<and> \<lfloor>x\<rfloor> < 2 ^ 32 then Some (of_int \<lfloor>x\<rfloor>) else None)"

subsection \<open>Statistics (lats.c)\<close>

text \<open>The median; the array is sorted in place.\<close>

definition calc_median :: "int list \<Rightarrow> nat \<Rightarrow> (int \<times> int list) option" where
  "calc_median nums_arr cnt =
     (if cnt = 0 then Some (- 1, nums_arr)
      else if cnt = 1 then do { x \<leftarrow> arr_get nums_arr 0; Some (x, nums_arr) }
      else do {
        xs \<leftarrow> arr_range nums_arr 0 cnt;
        let s = sort xs;
        let nums_arr = s @ drop cnt nums_arr;
        if cnt mod 2 \<noteq> 0 then Some (s ! (cnt div 2), nums_arr)
        else do {
          t \<leftarrow> i32_add (s ! (cnt div 2)) (s ! (cnt div 2 - 1));
          Some (t sdiv 2, nums_arr)
        }
      })"

text \<open>The average; \<open>sum / cnt\<close> is a division of unsigned numbers.\<close>

fun i32_sum :: "int \<Rightarrow> int list \<Rightarrow> int option" where
  "i32_sum s [] = Some s"
| "i32_sum s (x # xs) = do { s \<leftarrow> i32_add s x; i32_sum s xs }"

definition calc_avg :: "int list \<Rightarrow> nat \<Rightarrow> int option" where
  "calc_avg nums_arr cnt =
     (if cnt = 0 then Some (- 1)
      else if cnt = 1 then arr_get nums_arr 0
      else do {
        xs \<leftarrow> arr_range nums_arr 0 cnt;
        s \<leftarrow> i32_sum 0 xs;
        Some (sint ((of_int s :: u32) div of_nat cnt))
      })"

text \<open>
  The table of values and their frequencies, with room for 32 values: an entry is counted up
  when the value is there, and appended otherwise.
\<close>

fun bump :: "int \<Rightarrow> (int \<times> nat) list \<Rightarrow> (int \<times> nat) list option" where
  "bump v [] = None"
| "bump v ((w, f) # tab) =
     (if w = v then Some ((w, f + 1) # tab) else map_option (Cons (w, f)) (bump v tab))"

fun tally :: "(int \<times> nat) list \<Rightarrow> int list \<Rightarrow> (int \<times> nat) list option" where
  "tally tab [] = Some tab"
| "tally tab (v # vs) =
     (case bump v tab of Some tab \<Rightarrow> tally tab vs
      | None \<Rightarrow> if length tab < 32 then tally (tab @ [(v, 1)]) vs else None)"

definition best_step :: "nat \<Rightarrow> int \<times> nat \<Rightarrow> int \<Rightarrow> int" where
  "best_step min_freq = (\<lambda>(v, f) best. if f \<ge> min_freq \<and> (best = - 1 \<or> v < best) then v else best)"

definition min_cluster_of :: "int list \<Rightarrow> int option" where
  "min_cluster_of cleaned = do {
     tab \<leftarrow> tally [] cleaned;
     let clean_len = length cleaned;
     let min_freq = clean_len * 5 mod 2 ^ 32 div 100;
     let best = fold (best_step min_freq) tab (- 1);
     if best \<noteq> - 1 then Some best
     else if clean_len mod 2 \<noteq> 0 then Some (cleaned ! (clean_len div 2))
     else do {
       t \<leftarrow> i32_add (cleaned ! (clean_len div 2)) (cleaned ! (clean_len div 2 - 1));
       Some (t sdiv 2)
     }
   }"

definition valid_size :: "globals \<Rightarrow> int \<Rightarrow> bool" where
  "valid_size g v \<longleftrightarrow> v > 0 \<and> v \<le> int (unat (n_ways (l3_info g)))"

definition calc_min_cluster :: "'m hw \<Rightarrow> globals \<Rightarrow> int list \<Rightarrow> nat \<Rightarrow> 'm \<Rightarrow> ((int \<times> int list) \<times> 'm) option" where
  "calc_min_cluster h g arr cnt m =
     (if cnt = 0 then Some ((- 1, arr), m)
      else if cnt = 1 then do { x \<leftarrow> arr_get arr 0; Some ((x, arr), m) }
      else do {
        xs \<leftarrow> arr_range arr 0 cnt;
        let s = sort xs;
        let arr = s @ drop cnt arr;
        let (p, m) = os_calloc h (cnt * 4) m;
        if p = None then Some ((- 1, arr), m)
        else (let cleaned = filter (valid_size g) s
              in if cleaned = [] then Some ((- 1, arr), m)
                 else map_option (\<lambda>v. ((v, arr), m)) (min_cluster_of cleaned))
      })"

subsection \<open>The measurements (lats.c)\<close>

text \<open>
  The loop of all four measurements: a round gives a latency and whether it is kept, and a
  kept latency is stored at \<open>lat_cnt\<close>. Latencies are truncated to \<open>i32\<close>.
\<close>

fun collect :: "(nat \<Rightarrow> 'm \<Rightarrow> ((u64 \<times> bool) \<times> 'm) option) \<Rightarrow> nat list \<Rightarrow> int list \<Rightarrow> nat \<Rightarrow> 'm
    \<Rightarrow> ((int list \<times> nat) \<times> 'm) option" where
  "collect sample [] arr lat_cnt m = Some ((arr, lat_cnt), m)"
| "collect sample (i # is') arr lat_cnt m = do {
     ((lat, keep), m) \<leftarrow> sample i m;
     if keep then do {
       arr \<leftarrow> arr_set arr lat_cnt (i32_of lat);
       collect sample is' arr (lat_cnt + 1) m
     } else collect sample is' arr lat_cnt m
   }"

definition dram_sample :: "'m hw \<Rightarrow> addr \<Rightarrow> nat \<Rightarrow> 'm \<Rightarrow> ((u64 \<times> bool) \<times> 'm) option" where
  "dram_sample h target i m =
     (let (aux1, m) = rdtscp_aux h m;
          m = clflush h target m;
          (lat, m) = time_maccess h target m;
          (aux2, m) = rdtscp_aux h m
      in Some ((lat, aux1 = aux2), m))"

text \<open>A negative median is sign extended when it is stored.\<close>

definition init_dram_lat :: "'m hw \<Rightarrow> nat \<Rightarrow> CacheLats \<Rightarrow> 'm \<Rightarrow> (CacheLats \<times> 'm) option" where
  "init_dram_lat h reps lats m =
     (let (target, m) = os_calloc h 8 m; (p, m) = os_calloc h (reps * 4) m
      in case target of None \<Rightarrow> Some (lats, m)
         | Some target \<Rightarrow>
             if p = None then Some (lats, m)
             else do {
               ((lats_arr, lat_cnt), m) \<leftarrow> collect (dram_sample h target) [0..<reps] (replicate reps 0) 0 m;
               median \<leftarrow> (if lat_cnt > reps div 2 then map_option fst (calc_median lats_arr reps) else Some (- 1));
               Some (lats\<lparr>dram_lat := of_int median\<rparr>, m)
             })"

definition l1d_sample :: "'m hw \<Rightarrow> addr \<Rightarrow> nat \<Rightarrow> 'm \<Rightarrow> ((u64 \<times> bool) \<times> 'm) option" where
  "l1d_sample h target i m =
     (let m = mwrite h target 1 m; (lat, m) = time_maccess h target m in Some ((lat, True), m))"

definition init_l1d_lat :: "'m hw \<Rightarrow> nat \<Rightarrow> CacheLats \<Rightarrow> 'm \<Rightarrow> (CacheLats \<times> 'm) option" where
  "init_l1d_lat h reps lats m =
     (let (target, m) = os_calloc h 8 m; (p, m) = os_calloc h (reps * 4) m
      in case target of None \<Rightarrow> Some (lats, m)
         | Some target \<Rightarrow>
             if p = None then Some (lats, m)
             else do {
               ((measurements, lat_cnt), m) \<leftarrow> collect (l1d_sample h target) [0..<reps] (replicate reps 0) 0 m;
               median \<leftarrow> map_option fst (calc_median measurements reps);
               Some (lats\<lparr>l1d_lat := of_int median\<rparr>, m)
             })"

text \<open>
  The rounds of the L2 and L3 measurement: the target is written, lines at the same page
  offset in the following pages push it out of the level above, another line of its page
  brings back the translation, and the target is timed. Fewer than 16 repetitions divide by
  zero.
\<close>

definition probe_addrs :: "nat \<Rightarrow> addr \<Rightarrow> nat \<Rightarrow> (addr \<times> addr \<times> addr) option" where
  "probe_addrs reps page i =
     (if reps div 16 = 0 then None
      else (let offset_index = i div (reps div 16) mod 16;
                offset_step = unat PAGE_SIZE div 16;
                target_addr = page + of_nat (offset_index * offset_step);
                tlb_target = page + of_nat ((offset_index + 1) mod 16 * offset_step)
            in Some (target_addr, tlb_target, target_addr + PAGE_SIZE)))"

definition level_probe :: "'m hw \<Rightarrow> addr \<times> addr \<times> addr \<Rightarrow> u32 \<Rightarrow> 'm \<Rightarrow> u64 \<times> 'm" where
  "level_probe h = (\<lambda>(target_addr, tlb_target, ev_start) ev_sz m.
     let m = mwrite h target_addr 1 m;
         m = access_seq h (concat (replicate 5 (access_stride ev_start (ucast PAGE_SIZE) ev_sz))) m;
         m = maccess h tlb_target m
     in time_maccess h target_addr m)"

definition level_sample ::
    "'m hw \<Rightarrow> nat \<Rightarrow> addr \<Rightarrow> u32 \<Rightarrow> (u64 \<Rightarrow> bool) \<Rightarrow> nat \<Rightarrow> 'm \<Rightarrow> ((u64 \<times> bool) \<times> 'm) option" where
  "level_sample h reps page ev_sz plausible i m = do {
     addrs \<leftarrow> probe_addrs reps page i;
     let (aux1, m) = rdtscp_aux h m;
     let (lat, m) = level_probe h addrs ev_sz m;
     let (aux2, m) = rdtscp_aux h m;
     Some ((lat, aux1 = aux2 \<and> plausible lat), m)
   }"

text \<open>\<open>1 << unknown_sib\<close> is undefined outside of the width of an \<open>int\<close>.\<close>

definition l2_ev_size :: "globals \<Rightarrow> u32 option" where
  "l2_ev_size g =
     (let s = unknown_sib (l1_info g)
      in if 0 \<le> s \<and> s < 31 then Some (3 * n_ways (l1_info g) * push_bit (nat s) 1) else None)"

definition lat_buf_size :: "u32 \<Rightarrow> u32" where
  "lat_buf_size ev_sz = (ev_sz + 2) * ucast PAGE_SIZE"

definition init_l2_lat :: "'m hw \<Rightarrow> globals \<Rightarrow> nat \<Rightarrow> CacheLats \<Rightarrow> 'm \<Rightarrow> (CacheLats \<times> 'm) option" where
  "init_l2_lat h g reps lats m = do {
     ev_sz \<leftarrow> l2_ev_size g;
     let (ev_buf, m) = os_calloc h (unat (lat_buf_size ev_sz)) m;
     let (p, m) = os_calloc h (reps * 4) m;
     case ev_buf of None \<Rightarrow> Some (lats, m)
     | Some ev_buf \<Rightarrow>
         if p = None then Some (lats, m)
         else do {
           ((measurements, lat_cnt), m) \<leftarrow>
             collect (level_sample h reps (ALIGN_NEXT ev_buf PAGE_SHIFT) ev_sz (\<lambda>lat. lat < interrupt_thresh lats))
               [0..<reps] (replicate reps 0) 0 m;
           median \<leftarrow> (if lat_cnt < reps div 2 then Some (- 1) else map_option fst (calc_median measurements lat_cnt));
           Some (lats\<lparr>l2_lat := of_int median\<rparr>, m)
         }
   }"

text \<open>
  The bounds of the L3 measurement are \<open>u32\<close>, the eviction buffer has two and a half times
  the ways times the uncertain sets of the L2.
\<close>

definition l3_ev_size :: "globals \<Rightarrow> u32 option" where
  "l3_ev_size g =
     u32_of_dbl (fl (5 / 2 * of_nat (unat (n_ways (l2_info g))) * of_nat (unat (g_n_uncertain_l2_sets g))))"

definition l3_plausible :: "CacheLats \<Rightarrow> u64 \<Rightarrow> bool" where
  "l3_plausible lats lat \<longleftrightarrow>
     lat < ucast (ucast (interrupt_thresh lats) :: u32)
     \<and> lat < ucast ((ucast (dram_lat lats) :: u32) * 8 div 10)"

definition l3_lat_attempt :: "'m hw \<Rightarrow> globals \<Rightarrow> nat \<Rightarrow> CacheLats \<Rightarrow> 'm \<Rightarrow> (CacheLats option \<times> 'm) option" where
  "l3_lat_attempt h g reps lats m = do {
     ev_sz \<leftarrow> l3_ev_size g;
     let (ev_buf, m) = os_calloc h (unat (lat_buf_size ev_sz)) m;
     let (p, m) = os_calloc h (reps * 4) m;
     case ev_buf of None \<Rightarrow> Some (None, m)
     | Some ev_buf \<Rightarrow>
         if p = None then Some (None, m)
         else do {
           ((measurements, lat_cnt), m) \<leftarrow>
             collect (level_sample h reps (ALIGN_NEXT ev_buf PAGE_SHIFT) ev_sz (l3_plausible lats))
               [0..<reps] (replicate reps 0) 0 m;
           if lat_cnt < reps div 3 then Some (None, m)
           else do {
             median \<leftarrow> map_option fst (calc_median measurements lat_cnt);
             Some (Some (lats\<lparr>l3_lat := of_int median\<rparr>), m)
           }
         }
   }"

text \<open>Three attempts; after the last one the program exits, which is the inner \<open>None\<close>.\<close>

fun l3_lat_attempts :: "'m hw \<Rightarrow> globals \<Rightarrow> nat \<Rightarrow> nat \<Rightarrow> CacheLats \<Rightarrow> 'm \<Rightarrow> (CacheLats option \<times> 'm) option" where
  "l3_lat_attempts h g reps 0 lats m = Some (None, m)"
| "l3_lat_attempts h g reps (Suc n) lats m = do {
     (r, m) \<leftarrow> l3_lat_attempt h g reps lats m;
     case r of None \<Rightarrow> l3_lat_attempts h g reps n lats m | Some lats \<Rightarrow> Some (Some lats, m)
   }"

definition init_l3_lat :: "'m hw \<Rightarrow> globals \<Rightarrow> nat \<Rightarrow> CacheLats \<Rightarrow> 'm \<Rightarrow> (CacheLats option \<times> 'm) option" where
  "init_l3_lat h g reps lats m = l3_lat_attempts h g reps 3 lats m"

subsection \<open>Thresholds (lats.h, lats.c)\<close>

definition hit_thresh_zhao :: "u32 \<Rightarrow> u32 \<Rightarrow> u32 option" where
  "hit_thresh_zhao hit_lat miss_lat =
     u32_of_dbl (fl (of_nat (unat (3 * hit_lat + 2 * miss_lat)) / dbl_4_6))"

definition init_interrupt_thresh :: "CacheLats \<Rightarrow> CacheLats" where
  "init_interrupt_thresh lats = lats\<lparr>interrupt_thresh := dram_lat lats * 5\<rparr>"

text \<open>The repair of implausible latencies and the three thresholds.\<close>

definition repair_l2 :: "CacheLats \<Rightarrow> CacheLats option" where
  "repair_l2 lats =
     (if l2_lat lats \<le> l1d_lat lats
      then map_option (\<lambda>v. lats\<lparr>l2_lat := v\<rparr>) (u64_of_dbl (fl (dbl_of (l1d_lat lats) * dbl_1_2)))
      else Some lats)"

definition repair_l3 :: "CacheLats \<Rightarrow> CacheLats option" where
  "repair_l3 lats =
     (if dbl_of (l3_lat lats) \<le> fl (dbl_of (l2_lat lats) * dbl_1_15)
      then map_option (\<lambda>v. lats\<lparr>l3_lat := v\<rparr>) (u64_of_dbl (fl (dbl_of (l2_lat lats) * dbl_1_8)))
      else Some lats)"

definition set_thresholds :: "CacheLats \<Rightarrow> CacheLats option" where
  "set_thresholds lats = do {
     t1 \<leftarrow> hit_thresh_zhao (ucast (l1d_lat lats)) (ucast (l2_lat lats));
     t2 \<leftarrow> hit_thresh_zhao (ucast (l2_lat lats)) (ucast (l3_lat lats));
     t3 \<leftarrow> hit_thresh_zhao (ucast (l3_lat lats)) (ucast (dram_lat lats));
     let lats = lats\<lparr>l1d_thresh := ucast t1, l2_thresh := ucast t2, l3_thresh := ucast t3\<rparr>;
     Some (if dbl_of (l3_thresh lats) > of_nat (unat (ucast (l3_lat lats) :: u32)) * (5 / 2)
           then lats\<lparr>l3_thresh := l3_lat lats * 2\<rparr> else lats)
   }"

definition cache_thresholds :: "CacheLats \<Rightarrow> CacheLats option" where
  "cache_thresholds lats = do {
     lats \<leftarrow> repair_l2 lats;
     lats \<leftarrow> repair_l3 lats;
     set_thresholds lats
   }"

definition init_cache_lats_thresh :: "'m hw \<Rightarrow> nat \<Rightarrow> globals \<Rightarrow> 'm \<Rightarrow> (globals option \<times> 'm) option" where
  "init_cache_lats_thresh h reps g m = do {
     (lats, m) \<leftarrow> init_dram_lat h reps (g_lats g) m;
     let lats = init_interrupt_thresh lats;
     (lats, m) \<leftarrow> init_l1d_lat h reps lats m;
     (lats, m) \<leftarrow> init_l2_lat h g reps lats m;
     (r, m) \<leftarrow> init_l3_lat h g reps lats m;
     case r of None \<Rightarrow> Some (None, m)
     | Some lats \<Rightarrow> do {
         lats \<leftarrow> cache_thresholds lats;
         Some (Some (g\<lparr>g_lats := lats\<rparr>), m)
       }
   }"

subsection \<open>The median\<close>

lemma sorted_le_count:
  assumes "sorted s" "i < length s" "s ! i \<le> r"
  shows "i + 1 \<le> length (filter (\<lambda>x. x \<le> r) (s :: int list))"
proof -
  have "s ! j \<le> r" if "j \<le> i" for j
    using sorted_nth_mono [OF assms(1) that assms(2)] assms(3) by simp
  then have "filter (\<lambda>x. x \<le> r) (take (i + 1) s) = take (i + 1) s"
    using assms(2) by (auto simp: filter_id_conv in_set_conv_nth)
  moreover have "length (filter (\<lambda>x. x \<le> r) s) =
      length (filter (\<lambda>x. x \<le> r) (take (i + 1) s)) + length (filter (\<lambda>x. x \<le> r) (drop (i + 1) s))"
    by (subst append_take_drop_id [of "i + 1" s, symmetric], subst filter_append) simp
  ultimately show ?thesis
    using assms(2) by simp
qed

lemma sorted_ge_count:
  assumes "sorted s" "r \<le> s ! i"
  shows "length s - i \<le> length (filter (\<lambda>x. r \<le> x) (s :: int list))"
proof -
  have "r \<le> s ! (i + j)" if "i + j < length s" for j
    using sorted_nth_mono [OF assms(1) _ that, of i] assms(2) by simp
  then have "filter (\<lambda>x. r \<le> x) (drop i s) = drop i s"
    by (auto simp: filter_id_conv in_set_conv_nth)
  moreover have "length (filter (\<lambda>x. r \<le> x) s) =
      length (filter (\<lambda>x. r \<le> x) (take i s)) + length (filter (\<lambda>x. r \<le> x) (drop i s))"
    by (subst append_take_drop_id [of i s, symmetric], subst filter_append) simp
  ultimately show ?thesis
    by simp
qed

lemma filter_sort_length: "length (filter P (sort xs)) = length (filter P (xs :: int list))"
  by (metis mset_filter mset_sort size_mset)

lemma half_between:
  assumes "a \<le> (b :: int)"
  shows "a \<le> (a + b) sdiv 2" "(a + b) sdiv 2 \<le> b"
  using assms by (auto simp: signed_divide_int_def sgn_if abs_if; presburger)+

text \<open>
  What the median is: at least half of the numbers are at most \<open>r\<close> and at least half of
  them at least \<open>r\<close>; and it lies between two of the numbers.
\<close>

definition is_median :: "int \<Rightarrow> int list \<Rightarrow> bool" where
  "is_median r xs \<longleftrightarrow> length xs \<le> 2 * length (filter (\<lambda>x. x \<le> r) xs) \<and> length xs \<le> 2 * length (filter (\<lambda>x. r \<le> x) xs)"

lemma is_median_mid:
  assumes "sorted s" "0 < length s" "s ! ((length s - 1) div 2) \<le> r" "r \<le> s ! (length s div 2)"
  shows "is_median r s"
proof -
  have "(length s - 1) div 2 < length s" using assms(2) by linarith
  then show ?thesis
    using sorted_le_count [OF assms(1) _ assms(3)] sorted_ge_count [OF assms(1,4)] assms(2)
    unfolding is_median_def by linarith
qed

lemma is_median_sort [simp]: "is_median r (sort xs) \<longleftrightarrow> is_median r xs"
  by (simp add: is_median_def filter_sort_length)

lemma calc_median_correct:
  assumes "0 < cnt" "cnt \<le> length arr" "\<And>x. x \<in> set (take cnt arr) \<Longrightarrow> \<bar>x\<bar> < 2 ^ 30"
  shows "\<exists>r arr'. calc_median arr cnt = Some (r, arr') \<and> is_median r (take cnt arr)
    \<and> take cnt arr' = (if cnt = 1 then take 1 arr else sort (take cnt arr)) \<and> drop cnt arr' = drop cnt arr
    \<and> sort (take cnt arr) ! ((cnt - 1) div 2) \<le> r \<and> r \<le> sort (take cnt arr) ! (cnt div 2)"
proof (cases "cnt = 1")
  case True
  then have "take 1 arr = [arr ! 0]"
    using assms(2) by (cases arr) auto
  then show ?thesis
    using assms(1,2) True by (auto simp: calc_median_def is_median_def arr_get_def)
next
  case False
  define s where "s = sort (take cnt arr)"
  have s: "sorted s" "length s = cnt" "is_median r s = is_median r (take cnt arr)" for r
    using assms(2) by (simp_all add: s_def)
  have lt: "\<bar>s ! i\<bar> < 2 ^ 30" if "i < cnt" for i
    using assms(2,3) that nth_mem [of i s] by (auto simp: s_def)
  show ?thesis
  proof (cases "cnt mod 2 = 0")
    case True
    then have mid: "(cnt - 1) div 2 = cnt div 2 - 1" "cnt div 2 < cnt" "cnt div 2 - 1 < cnt"
      using assms(1) by presburger+
    have le: "s ! (cnt div 2 - 1) \<le> s ! (cnt div 2)"
      by (rule sorted_nth_mono [OF s(1)]) (use s mid in simp_all)
    have "i32_add (s ! (cnt div 2)) (s ! (cnt div 2 - 1)) = Some (s ! (cnt div 2 - 1) + s ! (cnt div 2))"
      using lt [OF mid(2)] lt [OF mid(3)] by (auto simp: i32_add_def i32_ok_def abs_less_iff)
    then have "calc_median arr cnt = Some ((s ! (cnt div 2 - 1) + s ! (cnt div 2)) sdiv 2, s @ drop cnt arr)"
      using assms(1,2) False True by (simp add: calc_median_def arr_simps flip: s_def)
    then show ?thesis
      using half_between [OF le] is_median_mid [OF s(1), of "(s ! (cnt div 2 - 1) + s ! (cnt div 2)) sdiv 2"]
        s(2,3) mid assms(1) False by (simp flip: s_def)
  next
    case odd: False
    then have mid: "(cnt - 1) div 2 = cnt div 2" by presburger
    have "calc_median arr cnt = Some (s ! (cnt div 2), s @ drop cnt arr)"
      using assms(1,2) False odd by (simp add: calc_median_def arr_simps flip: s_def)
    then show ?thesis
      using is_median_mid [OF s(1), of "s ! (cnt div 2)"] s(2,3) mid assms(1) False by (simp flip: s_def)
  qed
qed

subsection \<open>The minimal cluster\<close>

text \<open>The table after the values \<open>xs\<close>: each value once, with its frequency.\<close>

definition tab_ok :: "(int \<times> nat) list \<Rightarrow> int list \<Rightarrow> bool" where
  "tab_ok tab xs \<longleftrightarrow> distinct (map fst tab) \<and> set tab = (\<lambda>v. (v, count_list xs v)) ` set xs"

lemma tab_ok_keys: "tab_ok tab xs \<Longrightarrow> fst ` set tab = set xs"
  by (auto simp: tab_ok_def image_image)

lemma tab_ok_length: "tab_ok tab xs \<Longrightarrow> length tab = card (set xs)"
  using distinct_card [of "map fst tab"] tab_ok_keys [of tab xs] by (simp add: tab_ok_def)

lemma bump_None: "bump v tab = None \<longleftrightarrow> v \<notin> fst ` set tab"
  by (induction v tab rule: bump.induct) auto

lemma bump_Some:
  "bump v tab = Some tab' \<Longrightarrow> distinct (map fst tab) \<Longrightarrow>
     map fst tab' = map fst tab \<and> set tab' = (\<lambda>(w, f). if w = v then (w, f + 1) else (w, f)) ` set tab"
proof (induction v tab arbitrary: tab' rule: bump.induct)
  case (2 v w f tab)
  show ?case
  proof (cases "w = v")
    case True
    then have "tab' = (v, f + 1) # tab" "\<forall>p \<in> set tab. fst p \<noteq> v"
      using 2(2,3) by auto
    then show ?thesis
      using True by (force simp: image_def)
  next
    case False
    then obtain t where "bump v tab = Some t" "tab' = (w, f) # t"
      using 2(2) by auto
    then show ?thesis
      using 2(1) [OF False] 2(3) False by simp
  qed
qed simp

lemma tab_ok_bump:
  assumes "tab_ok tab xs" "v \<in> set xs"
  shows "\<exists>tab'. bump v tab = Some tab' \<and> tab_ok tab' (xs @ [v])"
proof -
  obtain tab' where tab': "bump v tab = Some tab'"
    using assms bump_None [of v tab] tab_ok_keys [OF assms(1)] by blast
  have d: "distinct (map fst tab)" "set tab = (\<lambda>v. (v, count_list xs v)) ` set xs"
    using assms(1) by (simp_all add: tab_ok_def)
  have "set tab' = (\<lambda>w. (w, count_list (xs @ [v]) w)) ` set (xs @ [v])"
    using bump_Some [OF tab' d(1)] assms(2) by (auto simp: d(2) image_image insert_absorb intro!: image_cong)
  then have "tab_ok tab' (xs @ [v])"
    using bump_Some [OF tab' d(1)] d(1) by (simp add: tab_ok_def)
  then show ?thesis
    using tab' by blast
qed

lemma tab_ok_new:
  assumes "tab_ok tab xs" "v \<notin> set xs"
  shows "tab_ok (tab @ [(v, 1)]) (xs @ [v])"
proof -
  have "count_list xs v = 0" using assms(2) by (simp add: count_list_0_iff)
  moreover have "v \<notin> fst ` set tab" using tab_ok_keys [OF assms(1)] assms(2) by simp
  moreover have "(\<lambda>w. (w, count_list (xs @ [v]) w)) ` set xs = (\<lambda>w. (w, count_list xs w)) ` set xs"
    using assms(2) by (intro image_cong) auto
  ultimately show ?thesis
    using assms(1) by (auto simp: tab_ok_def)
qed

lemma tally_correct:
  "tab_ok tab xs \<Longrightarrow>
     (if card (set xs) \<le> 32 \<and> card (set (xs @ ys)) \<le> 32 then \<exists>tab'. tally tab ys = Some tab' \<and> tab_ok tab' (xs @ ys)
      else card (set xs) \<le> 32 \<longrightarrow> tally tab ys = None)"
proof (induction ys arbitrary: tab xs)
  case (Cons v vs)
  show ?case
  proof (cases "v \<in> set xs")
    case True
    then obtain tab' where "bump v tab = Some tab'" "tab_ok tab' (xs @ [v])"
      using tab_ok_bump [OF Cons.prems] by blast
    then show ?thesis
      using Cons.IH [of tab' "xs @ [v]"] True by (auto simp: insert_absorb split: if_splits)
  next
    case False
    then have b: "bump v tab = None"
      using bump_None tab_ok_keys [OF Cons.prems] by blast
    have c: "card (set (xs @ [v])) = card (set xs) + 1" "length tab = card (set xs)"
      using False tab_ok_length [OF Cons.prems] by simp_all
    have "card (set (xs @ [v])) \<le> card (set (xs @ v # vs))"
      by (intro card_mono) auto
    then show ?thesis
      using Cons.IH [OF tab_ok_new [OF Cons.prems False]] b c by (cases "card (set xs) < 32") auto
  qed
qed auto

lemma Min_insert_two: "finite T \<Longrightarrow> Min (insert b (insert v T)) = Min (insert (min v b) (T :: int set))"
  by (cases "T = {}") (auto simp: min.assoc min.left_commute min.commute)

lemma fold_best:
  assumes "\<And>p. p \<in> set tab \<Longrightarrow> fst p > 0" "b = - 1 \<or> b > 0"
  shows "fold (best_step mf) tab b =
    (let S = {v. \<exists>f. (v, f) \<in> set tab \<and> mf \<le> f} \<union> (if b = - 1 then {} else {b}) in if S = {} then - 1 else Min S)"
  using assms
proof (induction tab arbitrary: b)
  case (Cons p tab)
  obtain v f where p: "p = (v, f)" by fastforce
  let ?b = "best_step mf p b" and ?T = "{v. \<exists>f. (v, f) \<in> set tab \<and> mf \<le> f}"
  have fin: "finite ?T"
    by (rule finite_subset [of _ "fst ` set tab"]) force+
  have b: "?b = - 1 \<or> ?b > 0" "v > 0"
    using Cons.prems(1) [of p] Cons.prems(2) p by (auto simp: best_step_def)
  have S: "{v. \<exists>f. (v, f) \<in> set (p # tab) \<and> mf \<le> f} = (if mf \<le> f then insert v ?T else ?T)"
    using p by auto
  have tab: "fst p > 0" if "p \<in> set tab" for p
    using Cons.prems(1) [of p] that by simp
  have "fold (best_step mf) (p # tab) b =
      (let S = ?T \<union> (if ?b = - 1 then {} else {?b}) in if S = {} then - 1 else Min S)"
    using Cons.IH [OF tab b(1)] by simp
  moreover have "?b = (if \<not> mf \<le> f then b else if b = - 1 then v else min v b)"
    by (simp add: best_step_def p)
  moreover have "Min (insert b (insert v ?T)) = Min (insert (min v b) ?T)"
    by (rule Min_insert_two [OF fin])
  moreover have "min v b \<noteq> - 1" if "b \<noteq> - 1"
    using that b(2) Cons.prems(2) by (simp add: min_def)
  ultimately show ?case
    using b Cons.prems(2) unfolding S by (cases "mf \<le> f"; cases "b = - 1") (simp_all add: Let_def)
qed simp

text \<open>The values that make up at least five percent of a list.\<close>

definition frequent :: "int list \<Rightarrow> int set" where
  "frequent xs = {v \<in> set xs. 5 * length xs div 100 \<le> count_list xs v}"

lemma frequent_sort [simp]: "frequent (sort xs) = frequent xs"
proof -
  have "count_list (sort xs) v = count_list xs v" for v
    by (metis count_mset mset_sort)
  then show ?thesis by (simp add: frequent_def)
qed

text \<open>Twenty values cannot all stay below five percent.\<close>

lemma frequent_exists:
  assumes "card (set xs) \<le> 20" "xs \<noteq> []"
  shows "frequent xs \<noteq> {}"
proof
  assume "frequent xs = {}"
  then have "20 * (count_list xs v + 1) \<le> length xs" if "v \<in> set xs" for v
    using that by (auto simp: frequent_def not_le)
  then have "(\<Sum>v \<in> set xs. 20 * (count_list xs v + 1)) \<le> (\<Sum>v \<in> set xs. length xs)"
    by (rule sum_mono)
  then have "20 * length xs + 20 * card (set xs) \<le> card (set xs) * length xs"
    by (simp add: sum.distrib sum_count_set flip: sum_distrib_left)
  moreover have "card (set xs) * length xs \<le> 20 * length xs" "0 < card (set xs)"
    using assms by (simp_all add: card_gt_0_iff)
  ultimately show False by linarith
qed

lemma min_cluster_of_correct:
  assumes s: "sorted xs" and "xs \<noteq> []" and lim: "\<forall>v \<in> set xs. 0 < v \<and> v < 2 ^ 30" "length xs * 5 < 2 ^ 32"
  shows "if card (set xs) \<le> 32
    then \<exists>r. min_cluster_of xs = Some r \<and> (if frequent xs \<noteq> {} then r = Min (frequent xs) else is_median r xs)
    else min_cluster_of xs = None"
proof (cases "card (set xs) \<le> 32")
  case True
  then obtain tab where tab: "tally [] xs = Some tab" "tab_ok tab xs"
    using tally_correct [of "[]" "[]" xs] by (auto simp: tab_ok_def)
  let ?mf = "5 * length xs div 100" and ?n = "length xs"
  have mf: "length xs * 5 mod 2 ^ 32 div 100 = ?mf"
    using lim(2) by (simp add: mult.commute)
  have F: "{v. \<exists>f. (v, f) \<in> set tab \<and> ?mf \<le> f} = frequent xs"
    using tab(2) by (auto simp: tab_ok_def frequent_def)
  have pos: "fst p > 0" if "p \<in> set tab" for p
    using tab(2) lim(1) that by (auto simp: tab_ok_def)
  have best: "fold (best_step ?mf) tab (- 1) = (if frequent xs = {} then - 1 else Min (frequent xs))"
    using fold_best [of tab "- 1" ?mf, OF pos] unfolding F Let_def by simp
  have ne: "Min (frequent xs) \<noteq> - 1" if "frequent xs \<noteq> {}"
    using Min_in [OF _ that] lim(1) by (force simp: frequent_def)
  show ?thesis
  proof (cases "frequent xs = {}")
    case False
    then show ?thesis
      using True ne tab(1) best unfolding min_cluster_of_def Let_def mf by simp
  next
    case fr: True
    have r: "is_median r xs" if "xs ! ((?n - 1) div 2) \<le> r" "r \<le> xs ! (?n div 2)" for r
      using is_median_mid [OF s _ that] assms(2) by simp
    show ?thesis
    proof (cases "?n mod 2 = 0")
      case False
      then have "(?n - 1) div 2 = ?n div 2" by presburger
      then show ?thesis
        using True fr tab(1) best r False unfolding min_cluster_of_def Let_def mf by simp
    next
      case even: True
      have mid: "(?n - 1) div 2 = ?n div 2 - 1" "?n div 2 < ?n" "?n div 2 - 1 < ?n"
        using even assms(2) by (simp_all, presburger) (cases xs; simp)+
      have le: "xs ! (?n div 2 - 1) \<le> xs ! (?n div 2)"
        by (rule sorted_nth_mono [OF s]) (use mid in simp_all)
      have "i32_add (xs ! (?n div 2)) (xs ! (?n div 2 - 1)) = Some (xs ! (?n div 2 - 1) + xs ! (?n div 2))"
        using bspec [OF lim(1) nth_mem [OF mid(2)]] bspec [OF lim(1) nth_mem [OF mid(3)]] by (simp add: i32_add_def i32_ok_def)
      then show ?thesis
        using True fr tab(1) best r half_between [OF le] even mid unfolding min_cluster_of_def Let_def mf by simp
    qed
  qed
next
  case False
  then have "tally [] xs = None"
    using tally_correct [of "[]" "[]" xs] by (auto simp: tab_ok_def)
  then show ?thesis
    using False by (simp add: min_cluster_of_def)
qed



subsection \<open>Double arithmetic\<close>

lemma round_even_cases:
  obtains "round_even y = \<lfloor>y\<rfloor>" "y - of_int \<lfloor>y\<rfloor> \<le> 1 / 2" | "round_even y = \<lfloor>y\<rfloor> + 1" "1 / 2 \<le> y - of_int \<lfloor>y\<rfloor>"
  by (cases "y - of_int \<lfloor>y\<rfloor> < 1 / 2 \<or> (y - of_int \<lfloor>y\<rfloor> = 1 / 2 \<and> even \<lfloor>y\<rfloor>)") (force simp: round_even_def)+

lemma round_even_bounds: "\<lfloor>y\<rfloor> \<le> round_even y" "round_even y \<le> \<lceil>y\<rceil>"
proof -
  show "\<lfloor>y\<rfloor> \<le> round_even y"
    by (cases rule: round_even_cases [of y]) simp_all
  show "round_even y \<le> \<lceil>y\<rceil>"
  proof (cases rule: round_even_cases [of y])
    case 2
    then have "of_int \<lfloor>y\<rfloor> < y" by linarith
    then have "\<lfloor>y\<rfloor> < \<lceil>y\<rceil>" by (simp only: less_ceiling_iff)
    then show ?thesis using 2 by simp
  qed simp
qed

lemma round_even_near:
  assumes "of_int k - y < 1 / 2"
  shows "k \<le> round_even y"
proof (rule ccontr)
  assume less: "\<not> k \<le> round_even y"
  show False
  proof (cases rule: round_even_cases [of y])
    case 1
    then have "\<lfloor>y\<rfloor> + 1 \<le> k" using less by simp
    then have "(of_int (\<lfloor>y\<rfloor> + 1) :: rat) \<le> of_int k" by (simp only: of_int_le_iff)
    then show False using 1 assms by simp
  next
    case 2
    then have "\<lfloor>y\<rfloor> + 2 \<le> k" using less by simp
    then have "(of_int (\<lfloor>y\<rfloor> + 2) :: rat) \<le> of_int k" by (simp only: of_int_le_iff)
    then show False using floor_correct [of y] assms by simp
  qed
qed

text \<open>
  Numbers are scaled by a power of two to 53 bits in front of the point; below \<open>2 ^ (53 - j)\<close>
  the scale has at least \<open>j\<close> bits.
\<close>

lemma fl_scale_nat:
  assumes "0 \<le> x" "x < 2 ^ (53 - j)" "j \<le> 53"
  shows "\<exists>k \<ge> j. fl_scale x = of_nat (2 ^ k) \<and> x * fl_scale x < 2 ^ 53"
proof -
  define y n l where "y = x * 2 ^ 1000" and "n = nat \<lfloor>y\<rfloor>" and "l = floorlog 2 n"
  have "x * 2 ^ 1000 < 2 ^ (53 - j) * 2 ^ 1000"
    using assms(2) by (simp only: mult_strict_right_mono zero_less_power zero_less_numeral)
  then have "y < 2 ^ (1053 - j)"
    using assms(3) unfolding y_def by (simp only: power_add [symmetric]) (simp add: algebra_simps)
  moreover have "0 \<le> y" using assms(1) by (simp add: y_def)
  then have n: "of_nat n \<le> y" "y < of_nat (n + 1)"
    unfolding n_def using floor_correct [of y] by simp_all
  ultimately have "(of_nat n :: rat) < of_nat (2 ^ (1053 - j))" by (simp only: of_nat_power of_nat_numeral)
  then have lt: "n < 2 ^ (1053 - j)" by (simp only: of_nat_less_iff)
  have l: "n < 2 ^ l" "l \<le> 1053 - j"
    using floorlog_bounds [of n 2] floorlog_leI [of n 2 "1053 - j"] lt by (cases "n = 0"; simp add: l_def floorlog_def)+
  have "(of_nat (n + 1) :: rat) \<le> of_nat (2 ^ l)"
    using l(1) by (simp only: of_nat_le_iff)
  then have "x * 2 ^ 1000 < 2 ^ l" using n(2) unfolding y_def [symmetric] by simp
  moreover have s: "fl_scale x = 2 ^ (1053 - l)" "j \<le> 1053 - l"
    using l(2) assms(3) unfolding fl_scale_def y_def [symmetric] n_def [symmetric] l_def [symmetric] by (simp_all add: power_diff)
  ultimately have "x * 2 ^ 1000 * 2 ^ (1053 - l) < 2 ^ l * 2 ^ (1053 - l)"
    by (simp only: mult_strict_right_mono zero_less_power zero_less_numeral)
  also have "\<dots> = 2 ^ 1000 * (2 ^ 53 :: rat)"
    using l(2) by (simp only: power_add [symmetric]) simp
  finally have "x * 2 ^ (1053 - l) < 2 ^ 53"
    by (simp only: mult.commute [of x] mult.assoc mult_less_cancel_left_pos zero_less_power zero_less_numeral)
  then show ?thesis
    using s by (intro exI [of _ "1053 - l"]) simp
qed

lemma fl_cases:
  assumes "0 \<le> x" "x < 2 ^ (53 - j)" "j \<le> 53"
  obtains k where "j \<le> k" "fl x = of_int (round_even (x * of_nat (2 ^ k))) / of_nat (2 ^ k)" "x * of_nat (2 ^ k) < 2 ^ 53"
  using fl_scale_nat [OF assms] unfolding fl_def by metis

text \<open>Rounding does not cross a multiple of \<open>1 / 2 ^ j\<close>.\<close>

lemma dyadic_scale: "of_int n / 2 ^ j * of_nat (2 ^ (j + d)) = (of_int (n * 2 ^ d) :: rat)"
  by (simp add: power_add)

lemma fl_ge:
  assumes "of_int n / 2 ^ j \<le> x" "0 \<le> x" "x < 2 ^ (53 - j)" "j \<le> 53"
  shows "of_int n / 2 ^ j \<le> fl x"
proof -
  obtain k where "j \<le> k" and fl: "fl x = of_int (round_even (x * of_nat (2 ^ k))) / of_nat (2 ^ k)"
    by (rule fl_cases [OF assms(2-4)])
  then obtain d where k: "k = j + d" using le_Suc_ex by blast
  have "of_int (n * 2 ^ d) \<le> x * of_nat (2 ^ k)"
    using mult_right_mono [OF assms(1), of "of_nat (2 ^ k)"] unfolding k dyadic_scale by simp
  then have "n * 2 ^ d \<le> round_even (x * of_nat (2 ^ k))"
    using round_even_bounds(1) [of "x * of_nat (2 ^ k)"] by (meson le_floor_iff order_trans)
  then have "of_int n / 2 ^ j * of_nat (2 ^ k) \<le> fl x * of_nat (2 ^ k)"
    unfolding fl k dyadic_scale by (simp del: of_int_mult)
  then show ?thesis
    by (rule mult_right_le_imp_le) simp
qed

lemma fl_le:
  assumes "x \<le> of_int n / 2 ^ j" "0 \<le> x" "x < 2 ^ (53 - j)" "j \<le> 53"
  shows "fl x \<le> of_int n / 2 ^ j"
proof -
  obtain k where "j \<le> k" and fl: "fl x = of_int (round_even (x * of_nat (2 ^ k))) / of_nat (2 ^ k)"
    by (rule fl_cases [OF assms(2-4)])
  then obtain d where k: "k = j + d" using le_Suc_ex by blast
  have "x * of_nat (2 ^ k) \<le> of_int (n * 2 ^ d)"
    using mult_right_mono [OF assms(1), of "of_nat (2 ^ k)"] unfolding k dyadic_scale by simp
  then have "round_even (x * of_nat (2 ^ k)) \<le> n * 2 ^ d"
    using round_even_bounds(2) [of "x * of_nat (2 ^ k)"] by (meson ceiling_le_iff order_trans)
  then have "fl x * of_nat (2 ^ k) \<le> of_int n / 2 ^ j * of_nat (2 ^ k)"
    unfolding fl k dyadic_scale by (simp del: of_int_mult)
  then show ?thesis
    by (rule mult_right_le_imp_le) simp
qed

lemma fl_int: "0 \<le> n \<Longrightarrow> n < 2 ^ 53 \<Longrightarrow> fl (of_int n) = of_int n"
proof -
  assume "0 \<le> n" "n < 2 ^ 53"
  then have "(of_int n :: rat) < of_int (2 ^ 53)" "(0 :: rat) \<le> of_int n" by (simp_all only: of_int_less_iff of_int_0_le_iff)
  then show ?thesis
    using fl_ge [of n 0 "of_int n"] fl_le [of "of_int n" n 0] by simp
qed

text \<open>A number just below an integer rounds to it.\<close>

lemma fl_ge_near:
  assumes "of_int n \<le> x * (1 + 1 / 2 ^ 54)" "0 \<le> x" "x < 2 ^ 53"
  shows "of_int n \<le> fl x"
proof -
  obtain k where k: "fl x = of_int (round_even (x * of_nat (2 ^ k))) / of_nat (2 ^ k)" "x * of_nat (2 ^ k) < 2 ^ 53"
    by (rule fl_cases [of x 0]) (use assms(2,3) in simp_all)
  define y where "y = x * of_nat (2 ^ k)"
  have "of_int (n * 2 ^ k) \<le> x * (1 + 1 / 2 ^ 54) * of_nat (2 ^ k)"
    using mult_right_mono [OF assms(1), of "of_nat (2 ^ k)"] by simp
  also have "\<dots> = y + y / 2 ^ 54" by (simp add: y_def algebra_simps)
  finally have "of_int (n * 2 ^ k) - y < 1 / 2" using k(2) unfolding y_def [symmetric] by simp
  then have "n * 2 ^ k \<le> round_even y" by (rule round_even_near)
  then have "of_int n * of_nat (2 ^ k) \<le> fl x * of_nat (2 ^ k)"
    using of_int_le_iff [where ?'a = rat, of "n * 2 ^ k" "round_even y"] unfolding k(1) y_def by simp
  then show ?thesis
    by (rule mult_right_le_imp_le) simp
qed

end
