(* ===== verification/Latency_Thresh.thy ===== *)
theory Latency_Thresh
  imports Latency
begin

text \<open>
  The thresholds of src/lats.c: the double arithmetic computes exact integer formulas, which
  place each threshold between the latencies of a hit and of a miss; and what the measurements
  store lies in the range of the latencies they timed.
\<close>

subsection \<open>The double computations are exact\<close>

lemma floor_fl_eq:
  assumes "of_int k \<le> fl x" "x \<le> of_int (k + 1) - 1 / 2 ^ 10" "0 \<le> x" "x < 2 ^ 43"
  shows "\<lfloor>fl x\<rfloor> = k"
proof -
  have "x \<le> of_int ((k + 1) * 2 ^ 10 - 1) / 2 ^ 10"
    using assms(2) by simp
  then have "fl x \<le> of_int ((k + 1) * 2 ^ 10 - 1) / 2 ^ 10"
    by (rule fl_le) (use assms(3,4) in simp_all)
  then show ?thesis
    using assms(1) by (simp add: floor_eq_iff)
qed

lemma div_fraction:
  assumes "0 < b"
  shows "of_nat (a div b) \<le> (of_nat a / of_nat b :: rat)" "(of_nat a / of_nat b :: rat) \<le> of_nat (a div b) + (of_nat b - 1) / of_nat b"
proof -
  have "a = a div b * b + a mod b" by simp
  then have a: "(of_nat a :: rat) = of_nat (a div b) * of_nat b + of_nat (a mod b)"
    by (metis of_nat_add of_nat_mult)
  have "a mod b \<le> b - 1" using assms by (simp add: less_Suc_eq_le [symmetric])
  then have "(of_nat (a mod b) :: rat) \<le> of_nat (b - 1)" by (simp only: of_nat_le_iff)
  then have m: "(of_nat (a mod b) :: rat) \<le> of_nat b - 1" using assms by (simp add: of_nat_diff)
  have b: "(0 :: rat) < of_nat b" using assms by simp
  show "of_nat (a div b) \<le> (of_nat a / of_nat b :: rat)"
    using b by (simp add: a pos_le_divide_eq)
  show "(of_nat a / of_nat b :: rat) \<le> of_nat (a div b) + (of_nat b - 1) / of_nat b"
    using b m by (simp add: a add_divide_distrib) (simp add: divide_right_mono)
qed

lemma dbl_products_nonneg [simp]:
  "0 \<le> of_nat n / dbl_4_6" "0 \<le> of_nat n * dbl_1_2" "0 \<le> of_nat n * dbl_1_8" "0 \<le> of_nat n * dbl_1_15"
  by (simp_all add: dbl_4_6_def dbl_1_2_def dbl_1_8_def dbl_1_15_def)

text \<open>\<open>n / 4.6\<close>\<close>

lemma thresh_quotient:
  assumes "n < 2 ^ 32"
  shows "\<lfloor>fl (of_nat n / dbl_4_6)\<rfloor> = int (5 * n div 23)"
proof (rule floor_fl_eq)
  have n: "(of_nat n :: rat) < 2 ^ 32"
    using assms of_nat_less_iff [where ?'a = rat, of n "2 ^ 32"] by simp
  show lt: "of_nat n / dbl_4_6 < (2 ^ 43 :: rat)"
    using n by (simp add: dbl_4_6_def)
  have d: "of_nat (5 * n div 23) \<le> (of_nat (5 * n) / of_nat 23 :: rat)"
      "(of_nat (5 * n) / of_nat 23 :: rat) \<le> of_nat (5 * n div 23) + (of_nat 23 - 1) / of_nat 23"
    by (rule div_fraction; simp)+
  have "of_int (int (5 * n div 23)) / 2 ^ 0 \<le> fl (of_nat n / dbl_4_6)"
  proof (rule fl_ge)
    have "of_nat (5 * n) / of_nat 23 \<le> (of_nat n / dbl_4_6 :: rat)"
      by (simp add: dbl_4_6_def)
    from order_trans [OF d(1) this] show "of_int (int (5 * n div 23)) / 2 ^ 0 \<le> (of_nat n / dbl_4_6 :: rat)"
      by simp
  qed (use lt in simp_all)
  then show "of_int (int (5 * n div 23)) \<le> fl (of_nat n / dbl_4_6)" by simp
  have "of_nat n / dbl_4_6 \<le> (of_nat (5 * n) / of_nat 23 + 1 / 1000 :: rat)"
    using n by (simp add: dbl_4_6_def)
  then show "of_nat n / dbl_4_6 \<le> of_int (int (5 * n div 23) + 1) - (1 / 2 ^ 10 :: rat)"
    using d(2) by simp
qed simp

lemma floor_1_2:
  assumes "n < 2 ^ 40"
  shows "\<lfloor>fl (of_nat n * dbl_1_2)\<rfloor> = int (6 * n div 5)"
proof (cases "n = 0")
  case False
  show ?thesis
  proof (rule floor_fl_eq)
    have n: "(of_nat n :: rat) < 2 ^ 40" "1 \<le> (of_nat n :: rat)"
      using assms of_nat_less_iff [where ?'a = rat, of n "2 ^ 40"] False by simp_all
    show lt: "of_nat n * dbl_1_2 < (2 ^ 43 :: rat)"
      using n by (simp add: dbl_1_2_def)
    have d: "of_nat (6 * n div 5) \<le> (of_nat (6 * n) / of_nat 5 :: rat)"
        "(of_nat (6 * n) / of_nat 5 :: rat) \<le> of_nat (6 * n div 5) + (of_nat 5 - 1) / of_nat 5"
      by (rule div_fraction; simp)+
    have "of_nat (6 * n) / of_nat 5 \<le> of_nat n * dbl_1_2 * (1 + 1 / 2 ^ 54 :: rat)"
      using n by (simp add: dbl_1_2_def)
    then show "of_int (int (6 * n div 5)) \<le> fl (of_nat n * dbl_1_2)"
      by (intro fl_ge_near) (use d lt n in \<open>simp_all add: dbl_1_2_def\<close>)
    have "of_nat n * dbl_1_2 \<le> (of_nat (6 * n) / of_nat 5 :: rat)"
      using n by (simp add: dbl_1_2_def)
    then show "of_nat n * dbl_1_2 \<le> of_int (int (6 * n div 5) + 1) - (1 / 2 ^ 10 :: rat)"
      using d(2) by simp
  qed simp
qed (simp add: fl_def round_even_def)

lemma floor_1_8:
  assumes "n < 2 ^ 40"
  shows "\<lfloor>fl (of_nat n * dbl_1_8)\<rfloor> = int (9 * n div 5)"
proof (rule floor_fl_eq)
  have n: "(of_nat n :: rat) < 2 ^ 40"
    using assms of_nat_less_iff [where ?'a = rat, of n "2 ^ 40"] by simp
  show lt: "of_nat n * dbl_1_8 < (2 ^ 43 :: rat)"
    using n by (simp add: dbl_1_8_def)
  have d: "of_nat (9 * n div 5) \<le> (of_nat (9 * n) / of_nat 5 :: rat)"
      "(of_nat (9 * n) / of_nat 5 :: rat) \<le> of_nat (9 * n div 5) + (of_nat 5 - 1) / of_nat 5"
    by (rule div_fraction; simp)+
  have "of_int (int (9 * n div 5)) / 2 ^ 0 \<le> fl (of_nat n * dbl_1_8)"
  proof (rule fl_ge)
    have "of_nat (9 * n) / of_nat 5 \<le> (of_nat n * dbl_1_8 :: rat)"
      by (simp add: dbl_1_8_def)
    then show "of_int (int (9 * n div 5)) / 2 ^ 0 \<le> (of_nat n * dbl_1_8 :: rat)"
      using d by simp
  qed (use lt in simp_all)
  then show "of_int (int (9 * n div 5)) \<le> fl (of_nat n * dbl_1_8)" by simp
  have "of_nat n * dbl_1_8 \<le> (of_nat (9 * n) / of_nat 5 + 1 / 1000 :: rat)"
    using n by (simp add: dbl_1_8_def)
  then show "of_nat n * dbl_1_8 \<le> of_int (int (9 * n div 5) + 1) - (1 / 2 ^ 10 :: rat)"
    using d(2) by simp
qed simp

text \<open>The comparison with \<open>1.15\<close>: what is not above it is repaired.\<close>

lemma above_1_15:
  assumes "n < 2 ^ 40" "fl (of_nat n * dbl_1_15) < of_nat k"
  shows "23 * n \<le> 20 * k"
proof (rule ccontr)
  assume "\<not> 23 * n \<le> 20 * k"
  then have "20 * k + 1 \<le> 23 * n" by simp
  then have "(of_nat (20 * k + 1) :: rat) \<le> of_nat (23 * n)" by (simp only: of_nat_le_iff)
  then have kn: "(of_nat k + 1 / 20 :: rat) \<le> of_nat n * 23 / 20" by simp
  have n: "(of_nat n :: rat) < 2 ^ 40"
    using assms(1) of_nat_less_iff [where ?'a = rat, of n "2 ^ 40"] by simp
  have "of_int (int k) / 2 ^ 0 \<le> fl (of_nat n * dbl_1_15)"
    by (rule fl_ge) (use kn n in \<open>simp_all add: dbl_1_15_def\<close>)
  then show False
    using assms(2) by simp
qed

subsection \<open>Where the thresholds lie\<close>

definition thresh_of :: "nat \<Rightarrow> nat \<Rightarrow> nat" where
  "thresh_of hit_lat miss_lat = 5 * (3 * hit_lat + 2 * miss_lat) div 23"

lemma thresh_of_less: "3 * h + 2 * m < 2 ^ 32 \<Longrightarrow> thresh_of h m < 2 ^ 32"
  by (simp add: thresh_of_def div_less_iff_less_mult)

lemma hit_thresh_exact:
  assumes "3 * unat hit + 2 * unat miss < 2 ^ 32"
  shows "hit_thresh_zhao hit miss = Some (of_nat (thresh_of (unat hit) (unat miss)))"
proof -
  let ?n = "3 * unat hit + 2 * unat miss"
  have "unat (3 * hit + 2 * miss) = ?n"
    using assms by (simp add: unat_word_ariths)
  then show ?thesis
    using thresh_quotient [OF assms] thresh_of_less [OF assms]
    unfolding hit_thresh_zhao_def u32_of_dbl_def thresh_of_def [symmetric] by simp
qed

text \<open>The threshold is at least the latency of a hit, and below that of a miss if the two are apart.\<close>

lemma hit_thresh_between:
  assumes "h < (m :: nat)"
  shows "h \<le> thresh_of h m" "thresh_of h m < m \<longleftrightarrow> 15 * h < 13 * m"
  using assms by (auto simp: thresh_of_def less_eq_div_iff_mult_less_eq div_less_iff_less_mult)

lemma dbl_of_small:
  assumes "unat w = n" "n < 2 ^ 53"
  shows "dbl_of w = of_nat n"
  using fl_int [of "int n"] assms(2) unfolding dbl_of_def assms(1) by simp

lemma u64_of_dbl_nat: "\<lfloor>x\<rfloor> = int k \<Longrightarrow> k < 2 ^ 64 \<Longrightarrow> u64_of_dbl x = Some (of_nat k)"
  by (simp add: u64_of_dbl_def)

lemma unat_of_nat_64: "k < 2 ^ 64 \<Longrightarrow> unat (of_nat k :: u64) = k"
  by (simp add: unat_of_nat take_bit_nat_eq_self)

lemma repair_l2_correct:
  assumes n: "unat (l1d_lat lats) = n" "n < 2 ^ 27" "5 \<le> n" and "unat (l2_lat lats) < 2 ^ 27"
  shows "\<exists>v. repair_l2 lats = Some (lats\<lparr>l2_lat := v\<rparr>) \<and> n < unat v \<and> unat v < 2 ^ 28
    \<and> (l1d_lat lats < l2_lat lats \<longrightarrow> v = l2_lat lats)"
proof (cases "l2_lat lats \<le> l1d_lat lats")
  case True
  define k where "k = 6 * n div 5"
  have k: "k < 2 ^ 28" "n < k"
    using n(2,3) by (simp_all add: k_def)
  have "dbl_of (l1d_lat lats) = of_nat n"
    by (rule dbl_of_small [OF n(1)]) (use n in simp)
  moreover have "u64_of_dbl (fl (of_nat n * dbl_1_2)) = Some (of_nat k)"
    by (rule u64_of_dbl_nat) (use floor_1_2 [of n] n(2) k in \<open>simp_all add: k_def\<close>)
  ultimately have "repair_l2 lats = Some (lats\<lparr>l2_lat := of_nat k\<rparr>)"
    using True by (simp add: repair_l2_def)
  moreover have "unat (of_nat k :: u64) = k"
    by (rule unat_of_nat_64) (use k in simp)
  ultimately show ?thesis
    using k True by (intro exI [of _ "of_nat k"]) (simp add: leD)
next
  case False
  then have "n < unat (l2_lat lats)" "repair_l2 lats = Some lats"
    using n(1) by (simp_all add: repair_l2_def word_le_nat_alt)
  then show ?thesis
    using assms by (intro exI [of _ "l2_lat lats"]) simp
qed

text \<open>An L3 latency that is clearly above that of the L2 is left alone.\<close>

lemma below_1_15:
  assumes "n < 2 ^ 28" "3 * n < 2 * k"
  shows "fl (of_nat n * dbl_1_15) < of_nat k"
proof -
  have n: "(of_nat n :: rat) < 2 ^ 28"
    using assms(1) of_nat_less_iff [where ?'a = rat, of n "2 ^ 28"] by simp
  have "(of_nat (3 * n + 1) :: rat) \<le> of_nat (2 * k)"
    using assms(2) by (simp only: of_nat_le_iff)
  then have "(of_nat n * dbl_1_15 :: rat) \<le> of_int (int k * 2 ^ 10 - 1) / 2 ^ 10"
    by (simp add: dbl_1_15_def)
  then have "fl (of_nat n * dbl_1_15) \<le> of_int (int k * 2 ^ 10 - 1) / 2 ^ 10"
    by (rule fl_le) (use n in \<open>simp_all add: dbl_1_15_def\<close>)
  then show ?thesis by simp
qed

lemma repair_l3_correct:
  assumes n: "unat (l2_lat lats) = n" "n < 2 ^ 28" "6 \<le> n" and m: "unat (l3_lat lats) = m" "m < 2 ^ 28"
  shows "\<exists>v. repair_l3 lats = Some (lats\<lparr>l3_lat := v\<rparr>) \<and> 23 * n \<le> 20 * unat v \<and> unat v < 2 ^ 29
    \<and> (3 * n < 2 * m \<longrightarrow> v = l3_lat lats)"
proof -
  have d: "dbl_of (l2_lat lats) = of_nat n" "dbl_of (l3_lat lats) = of_nat m"
    by (rule dbl_of_small [OF n(1)], use n in simp) (rule dbl_of_small [OF m(1)], use m in simp)
  show ?thesis
  proof (cases "of_nat m \<le> fl (of_nat n * dbl_1_15)")
    case True
    define k where "k = 9 * n div 5"
    have k: "k < 2 ^ 29" "23 * n \<le> 20 * k"
      using n(2,3) by (simp_all add: k_def)
    have "u64_of_dbl (fl (of_nat n * dbl_1_8)) = Some (of_nat k)"
      by (rule u64_of_dbl_nat) (use floor_1_8 [of n] n(2) k in \<open>simp_all add: k_def\<close>)
    then have "repair_l3 lats = Some (lats\<lparr>l3_lat := of_nat k\<rparr>)"
      using True by (simp add: repair_l3_def d)
    moreover have "unat (of_nat k :: u64) = k"
      by (rule unat_of_nat_64) (use k in simp)
    moreover have "\<not> 3 * n < 2 * m"
      using below_1_15 [OF n(2), of m] True by (meson leD)
    ultimately show ?thesis
      using k by (intro exI [of _ "of_nat k"]) simp
  next
    case False
    then have "23 * n \<le> 20 * m"
      using above_1_15 [of n m] n(2) by simp
    then show ?thesis
      using False m by (intro exI [of _ "l3_lat lats"]) (simp add: repair_l3_def d)
  qed
qed

lemma above_2_5: "(of_nat a * (5 / 2) < (of_nat b :: rat)) \<longleftrightarrow> 5 * a < 2 * b"
proof -
  have "(of_nat a * (5 / 2) < (of_nat b :: rat)) \<longleftrightarrow> (of_nat (5 * a) :: rat) < of_nat (2 * b)"
    by (simp add: mult.commute)
  then show ?thesis by (simp only: of_nat_less_iff)
qed

lemma set_thresholds_correct:
  assumes n: "unat (l1d_lat lats) = n1" "unat (l2_lat lats) = n2" "unat (l3_lat lats) = n3" "unat (dram_lat lats) = n4"
    and lim: "n1 < 2 ^ 27" "n2 < 2 ^ 28" "n3 < 2 ^ 29" "n4 < 2 ^ 28"
  shows "\<exists>t. set_thresholds lats = Some (lats\<lparr>l1d_thresh := of_nat (thresh_of n1 n2),
      l2_thresh := of_nat (thresh_of n2 n3), l3_thresh := of_nat t\<rparr>)
    \<and> t = (let q = thresh_of n3 n4 in if 5 * n3 < 2 * q then 2 * n3 else q)"
proof -
  have u: "unat (ucast (l1d_lat lats) :: u32) = n1" "unat (ucast (l2_lat lats) :: u32) = n2"
      "unat (ucast (l3_lat lats) :: u32) = n3" "unat (ucast (dram_lat lats) :: u32) = n4"
    using n lim by (simp_all add: unat_ucast_small)
  let ?q1 = "thresh_of n1 n2" and ?q2 = "thresh_of n2 n3" and ?q3 = "thresh_of n3 n4"
  have h: "hit_thresh_zhao (ucast (l1d_lat lats)) (ucast (l2_lat lats)) = Some (of_nat ?q1)"
      "hit_thresh_zhao (ucast (l2_lat lats)) (ucast (l3_lat lats)) = Some (of_nat ?q2)"
      "hit_thresh_zhao (ucast (l3_lat lats)) (ucast (dram_lat lats)) = Some (of_nat ?q3)"
    using hit_thresh_exact [of "ucast (l1d_lat lats)" "ucast (l2_lat lats)"]
      hit_thresh_exact [of "ucast (l2_lat lats)" "ucast (l3_lat lats)"]
      hit_thresh_exact [of "ucast (l3_lat lats)" "ucast (dram_lat lats)"] lim unfolding u by simp_all
  have q: "?q1 < 2 ^ 32" "?q2 < 2 ^ 32" "?q3 < 2 ^ 32"
    by (rule thresh_of_less; use lim in simp)+
  have c: "ucast (of_nat k :: u32) = (of_nat k :: u64)" if "k < 2 ^ 32" for k
    using that by (intro word_unat_eq_iff [THEN iffD2]) (simp add: unat_ucast_up unat_of_nat take_bit_nat_eq_self)
  have d: "dbl_of (of_nat ?q3 :: u64) = of_nat ?q3"
    by (rule dbl_of_small [OF unat_of_nat_64]) (use q in simp_all)
  have l3: "l3_lat lats * 2 = of_nat (2 * n3)"
    by (simp flip: n(3))
  show ?thesis
    unfolding set_thresholds_def h Let_def by (simp add: c [OF q(1)] c [OF q(2)] c [OF q(3)] d u above_2_5 l3)
qed

definition l3_thresh_of :: "nat \<Rightarrow> nat \<Rightarrow> nat" where
  "l3_thresh_of n3 n4 = (let q = thresh_of n3 n4 in if 5 * n3 < 2 * q then 2 * n3 else q)"

lemma l3_thresh_between:
  "2 * l3_thresh_of n3 n4 \<le> 5 * n3" "n3 < n4 \<Longrightarrow> n3 \<le> l3_thresh_of n3 n4"
  "n3 < n4 \<Longrightarrow> l3_thresh_of n3 n4 < n4 \<longleftrightarrow> 15 * n3 < 13 * n4"
  using hit_thresh_between [of n3 n4] by (auto simp: l3_thresh_of_def Let_def thresh_of_def)

text \<open>The latencies and thresholds in numbers.\<close>

lemma cache_thresholds_value:
  assumes n: "unat (l1d_lat lats) = n1" "5 \<le> n1" "n1 < 2 ^ 27" "unat (l2_lat lats) < 2 ^ 27"
    "unat (l3_lat lats) < 2 ^ 27" "unat (dram_lat lats) = n4" "n4 < 2 ^ 27"
  obtains v2 v3 t1 t2 t3 where
    "cache_thresholds lats = Some (lats\<lparr>l2_lat := v2, l3_lat := v3, l1d_thresh := t1, l2_thresh := t2, l3_thresh := t3\<rparr>)"
    "n1 < unat v2" "l1d_lat lats < l2_lat lats \<longrightarrow> v2 = l2_lat lats" "23 * unat v2 \<le> 20 * unat v3"
    "3 * unat v2 < 2 * unat (l3_lat lats) \<longrightarrow> v3 = l3_lat lats" "unat t1 = thresh_of n1 (unat v2)"
    "unat t2 = thresh_of (unat v2) (unat v3)" "unat t3 = l3_thresh_of (unat v3) n4"
proof -
  obtain v2 where v2: "repair_l2 lats = Some (lats\<lparr>l2_lat := v2\<rparr>)" "n1 < unat v2" "unat v2 < 2 ^ 28"
      "l1d_lat lats < l2_lat lats \<longrightarrow> v2 = l2_lat lats"
    using repair_l2_correct [OF n(1,3,2,4)] by blast
  obtain n2 where n2: "unat v2 = n2" by simp
  obtain v3 where v3: "repair_l3 (lats\<lparr>l2_lat := v2\<rparr>) = Some (lats\<lparr>l2_lat := v2, l3_lat := v3\<rparr>)"
      "23 * n2 \<le> 20 * unat v3" "unat v3 < 2 ^ 29" "3 * n2 < 2 * unat (l3_lat lats) \<longrightarrow> v3 = l3_lat lats"
    using repair_l3_correct [of "lats\<lparr>l2_lat := v2\<rparr>" n2 "unat (l3_lat lats)"] n v2 n2 by auto
  obtain n3 where n3: "unat v3 = n3" by simp
  have lim: "n2 < 2 ^ 28" "n3 < 2 ^ 29" using v2 v3 n2 n3 by simp_all
  have "set_thresholds (lats\<lparr>l2_lat := v2, l3_lat := v3\<rparr>) = Some (lats\<lparr>l2_lat := v2, l3_lat := v3,
      l1d_thresh := of_nat (thresh_of n1 n2), l2_thresh := of_nat (thresh_of n2 n3), l3_thresh := of_nat (l3_thresh_of n3 n4)\<rparr>)"
    using set_thresholds_correct [of "lats\<lparr>l2_lat := v2, l3_lat := v3\<rparr>" n1 n2 n3 n4] n lim n2 n3
    by (simp add: l3_thresh_of_def)
  then have r: "cache_thresholds lats = Some (lats\<lparr>l2_lat := v2, l3_lat := v3,
      l1d_thresh := of_nat (thresh_of n1 n2), l2_thresh := of_nat (thresh_of n2 n3), l3_thresh := of_nat (l3_thresh_of n3 n4)\<rparr>)"
    by (simp add: cache_thresholds_def v2(1) v3(1))
  have "thresh_of n1 n2 < 2 ^ 32" "thresh_of n2 n3 < 2 ^ 32" "2 * l3_thresh_of n3 n4 \<le> 5 * n3"
    by (rule thresh_of_less l3_thresh_between(1); use n lim in simp)+
  then have u: "unat (of_nat (thresh_of n1 n2) :: u64) = thresh_of n1 n2"
      "unat (of_nat (thresh_of n2 n3) :: u64) = thresh_of n2 n3"
      "unat (of_nat (l3_thresh_of n3 n4) :: u64) = l3_thresh_of n3 n4"
    using lim by (intro unat_of_nat_64; simp)+
  show ?thesis
    by (rule that [OF r]) (use v2 v3 n2 n3 u in simp_all)
qed



subsection \<open>What the measurements store\<close>

text \<open>
  The loop fills the array from the front with kept latencies; the rest stays zero.
\<close>

lemma collect_range:
  assumes "\<And>i m lat m'. i \<in> set is' \<Longrightarrow> sample i m = Some ((lat, True), m') \<Longrightarrow> P (i32_of lat)"
    and "\<And>i m. i \<in> set is' \<Longrightarrow> \<exists>r. sample i m = Some r"
    and "k + length is' \<le> n" "\<And>x. x \<in> set xs \<Longrightarrow> P x" "length xs = k"
  shows "\<exists>ys m'. collect sample is' (xs @ replicate (n - k) 0) k m = Some ((ys @ replicate (n - length ys) 0, length ys), m')
    \<and> k \<le> length ys \<and> length ys \<le> k + length is' \<and> (\<forall>y \<in> set ys. P y)"
  using assms
proof (induction is' arbitrary: xs k m)
  case (Cons i is')
  obtain lat keep m1 where s: "sample i m = Some ((lat, keep), m1)"
    using Cons.prems(2) [of i m] by auto
  show ?case
  proof (cases keep)
    case True
    have "n - k = Suc (n - (k + 1))" using Cons.prems(3) by simp
    then have arr: "arr_set (xs @ replicate (n - k) 0) k (i32_of lat) = Some ((xs @ [i32_of lat]) @ replicate (n - (k + 1)) 0)"
      using Cons.prems(5) by (simp add: arr_set_def list_update_append)
    have "P (i32_of lat)" using Cons.prems(1) [of i m] s True by simp
    then have "\<exists>ys m'. collect sample is' ((xs @ [i32_of lat]) @ replicate (n - (k + 1)) 0) (k + 1) m1 =
          Some ((ys @ replicate (n - length ys) 0, length ys), m')
        \<and> k + 1 \<le> length ys \<and> length ys \<le> k + 1 + length is' \<and> (\<forall>y \<in> set ys. P y)"
      using Cons.prems by (intro Cons.IH) auto
    then show ?thesis
      using s True arr by fastforce
  next
    case False
    have "\<exists>ys m'. collect sample is' (xs @ replicate (n - k) 0) k m1 = Some ((ys @ replicate (n - length ys) 0, length ys), m')
        \<and> k \<le> length ys \<and> length ys \<le> k + length is' \<and> (\<forall>y \<in> set ys. P y)"
      using Cons.prems by (intro Cons.IH) auto
    then show ?thesis
      using s False by fastforce
  qed
qed auto

lemma collect_all:
  assumes "\<And>i m lat m'. i < reps \<Longrightarrow> sample i m = Some ((lat, True), m') \<Longrightarrow> P (i32_of lat)"
    and "\<And>i m. i < reps \<Longrightarrow> \<exists>r. sample i m = Some r"
  obtains ys m' where "collect sample [0..<reps] (replicate reps 0) 0 m = Some ((ys @ replicate (reps - length ys) 0, length ys), m')"
    "length ys \<le> reps" "\<And>y. y \<in> set ys \<Longrightarrow> P y"
  using collect_range [of "[0..<reps]" sample P 0 reps "[]" m] assms by auto

text \<open>A median of numbers in a range is in the range, also with fewer zeros than half in front.\<close>

lemma calc_median_range:
  assumes "0 < length ys" "\<And>y. y \<in> set ys \<Longrightarrow> lo \<le> y \<and> y \<le> hi" "0 \<le> lo" "hi < 2 ^ 30" "2 * z < length ys + z"
  shows "\<exists>r arr. calc_median (ys @ replicate z 0) (length ys + z) = Some (r, arr) \<and> lo \<le> r \<and> r \<le> hi"
proof -
  let ?xs = "ys @ replicate z 0" and ?n = "length ys + z"
  have lim: "0 \<le> x \<and> x \<le> hi" if "x \<in> set ?xs" for x
    using that assms(1,2,3) by (cases ys) fastforce+
  then obtain r arr where r: "calc_median ?xs ?n = Some (r, arr)" "sort ?xs ! ((?n - 1) div 2) \<le> r" "r \<le> sort ?xs ! (?n div 2)"
    using calc_median_correct [of ?n ?xs] assms(1,4) by fastforce
  have "sort ?xs = replicate z 0 @ sort ys"
  proof (rule properties_for_sort)
    show "sorted (replicate z 0 @ sort ys)"
      using assms(2,3) by (fastforce simp: sorted_append)
    show "mset (replicate z 0 @ sort ys) = mset ?xs"
      by simp
  qed
  moreover have "z \<le> (?n - 1) div 2" using assms(5) by linarith
  ultimately have "sort ?xs ! ((?n - 1) div 2) = sort ys ! ((?n - 1) div 2 - z)"
    by (simp add: nth_append)
  moreover have "(?n - 1) div 2 - z < length (sort ys)"
    using assms(1) unfolding length_sort by linarith
  ultimately have "sort ?xs ! ((?n - 1) div 2) \<in> set ys"
    using nth_mem [of "(?n - 1) div 2 - z" "sort ys"] by (simp only: set_sort)
  then have "lo \<le> r" using r(2) assms(2) by (meson order_trans)
  have "?n div 2 < length (sort ?xs)"
    using assms(1) unfolding length_sort length_append length_replicate by linarith
  then have "sort ?xs ! (?n div 2) \<in> set ?xs"
    using nth_mem [of "?n div 2" "sort ?xs"] by (simp only: set_sort)
  then have "r \<le> hi" using r(3) lim by (meson order_trans)
  then show ?thesis using r(1) \<open>lo \<le> r\<close> by blast
qed

lemma i32_of_small:
  assumes "unat (w :: u64) = n" "n < 2 ^ 31"
  shows "i32_of w = int n"
proof -
  have "unat (ucast w :: 32 word) = n"
    using assms by (simp add: unat_ucast_small)
  then have "uint (ucast w :: 32 word) = int n"
    by (metis int_nat_eq uint_nat of_nat_unat)
  then show ?thesis
    using assms(2) signed_take_bit_int_eq_self [of 31 "int n"] by (simp add: i32_of_def sint_uint)
qed

lemma unat_of_int_64: "0 \<le> r \<Longrightarrow> r < 2 ^ 64 \<Longrightarrow> unat (of_int r :: u64) = nat r"
  using unat_of_nat_64 [of "nat r"] by (simp add: nat_less_iff)

lemma collect_count:
  "collect sample is' arr k m = Some ((arr', k'), m') \<Longrightarrow>
     \<forall>i \<in> set is'. \<forall>m lat keep m'. sample i m = Some ((lat, keep), m') \<longrightarrow> keep \<Longrightarrow> k' = k + length is'"
proof (induction is' arbitrary: arr k m)
  case (Cons i is')
  then obtain lat keep m1 where s: "sample i m = Some ((lat, keep), m1)"
    by (cases "sample i m") auto
  moreover have keep
    using Cons.prems(2) s by auto
  ultimately obtain arr1 where "collect sample is' arr1 (k + 1) m1 = Some ((arr', k'), m')"
    using Cons.prems(1) by (cases "arr_set arr k (i32_of lat)") auto
  then show ?case
    using Cons.IH [of arr1 "k + 1" m1] Cons.prems(2) by auto
qed auto

text \<open>A measurement whose rounds are all kept stores a latency in the range of the rounds.\<close>

lemma measure_range:
  assumes s: "\<And>i m. i < reps \<Longrightarrow> \<exists>lat m'. sample i m = Some ((lat, True), m') \<and> lo \<le> unat lat \<and> unat lat \<le> hi"
    and "hi < 2 ^ 27" "0 < reps"
  obtains arr m' r arr' where "collect sample [0..<reps] (replicate reps 0) 0 m = Some ((arr, reps), m')"
    "calc_median arr reps = Some (r, arr')" "lo \<le> unat (of_int r :: u64)" "unat (of_int r :: u64) \<le> hi"
proof -
  have P: "int lo \<le> i32_of lat \<and> i32_of lat \<le> int hi" 
      if i: "i < reps" and e: "sample i m = Some ((lat, True), m')" for i m lat m'
  proof -
    obtain n where "unat lat = n" "lo \<le> n" "n \<le> hi" using s [OF i, of m] e by auto
    then show ?thesis
      using assms(2) i32_of_small [of lat n] by simp
  qed
  obtain ys m' where ys: "collect sample [0..<reps] (replicate reps 0) 0 m = Some ((ys @ replicate (reps - length ys) 0, length ys), m')"
      "length ys \<le> reps" "\<And>y. y \<in> set ys \<Longrightarrow> int lo \<le> y \<and> y \<le> int hi"
    by (rule collect_all [of reps sample "\<lambda>x. int lo \<le> x \<and> x \<le> int hi" m, OF P]) (use s in blast)+
  have "keep" if "i < reps" "sample i m = Some ((lat, keep), m')" for i m lat keep m'
    using s [OF that(1), of m] that(2) by auto
  then have "\<forall>i \<in> set [0..<reps]. \<forall>m lat keep m'. sample i m = Some ((lat, keep), m') \<longrightarrow> keep"
    by (metis atLeastLessThan_iff set_upt)
  from collect_count [OF ys(1) this] have n: "length ys = reps" by simp
  obtain r arr' where "calc_median ys reps = Some (r, arr')" "int lo \<le> r" "r \<le> int hi"
    using calc_median_range [of ys "int lo" "int hi" 0, OF _ ys(3)] assms(2,3) n by auto
  then show ?thesis
    using that [of ys m' r arr'] ys(1) n assms(2) by (simp add: unat_of_int_64 le_nat_iff nat_le_iff)
qed

subsection \<open>The thresholds tell a hit from a miss\<close>

text \<open>
  A machine on which the levels of the hierarchy can be told apart by the measurements: the
  thread stays on its core, allocations succeed, and each kind of round takes a time in a
  range of its own.
\<close>

locale measured_machine =
  fixes h :: "'m hw" and g :: globals and reps :: nat and s2 s3 :: u32
    and a1 a2 b1 b2 c1 c2 d1 d2 :: nat
  assumes pinned: "fst (rdtscp_aux h m) = fst (rdtscp_aux h m')"
    and lat_calloc: "fst (os_calloc h n m) \<noteq> None"
    and enough_reps: "16 \<le> reps"
    and ev_sizes: "l2_ev_size g = Some s2" "l3_ev_size g = Some s3"
    and dram_time: "d1 \<le> unat (fst (time_maccess h t (clflush h t m)))" "unat (fst (time_maccess h t (clflush h t m))) \<le> d2"
    and l1_time: "a1 \<le> unat (fst (time_maccess h t (mwrite h t 1 m)))" "unat (fst (time_maccess h t (mwrite h t 1 m))) \<le> a2"
    and l2_time: "probe_addrs reps page i = Some ts \<Longrightarrow> b1 \<le> unat (fst (level_probe h ts s2 m))"
      "probe_addrs reps page i = Some ts \<Longrightarrow> unat (fst (level_probe h ts s2 m)) \<le> b2"
    and l3_time: "probe_addrs reps page i = Some ts \<Longrightarrow> c1 \<le> unat (fst (level_probe h ts s3 m))"
      "probe_addrs reps page i = Some ts \<Longrightarrow> unat (fst (level_probe h ts s3 m)) \<le> c2"
    and apart: "5 \<le> a1" "a2 < b1" "b2 < 5 * d1" "3 * b2 < 2 * c1" "5 * (c2 + 1) \<le> 4 * d1" "d2 < 2 ^ 27"
begin

lemma probes: "\<exists>ts. probe_addrs reps page i = Some ts"
proof -
  have "reps div 16 \<noteq> 0" using enough_reps by simp
  then show ?thesis unfolding probe_addrs_def Let_def by simp
qed

lemma ranges: "a1 \<le> a2" "b1 \<le> b2" "c1 \<le> c2" "d1 \<le> d2" "a2 < 2 ^ 27" "b2 < 2 ^ 27" "c2 < 2 ^ 27"
proof -
  obtain ts where ts: "probe_addrs reps 0 0 = Some ts"
    using probes [of 0 0] by blast
  show "a1 \<le> a2" using l1_time [of undefined undefined] by linarith
  show b: "b1 \<le> b2" using l2_time [OF ts, of undefined] by linarith
  show c: "c1 \<le> c2" using l3_time [OF ts, of undefined] by linarith
  show d: "d1 \<le> d2" using dram_time [of undefined undefined] by linarith
  show "c2 < 2 ^ 27" "b2 < 2 ^ 27" "a2 < 2 ^ 27"
    using b c d apart by simp_all
qed

lemma alloc_Some: obtains p m' where "os_calloc h n m = (Some p, m')"
  using lat_calloc [of n m] by (cases "os_calloc h n m") auto

lemma dram_stored:
  "\<exists>v m'. init_dram_lat h reps lats m = Some (lats\<lparr>dram_lat := v\<rparr>, m') \<and> d1 \<le> unat v \<and> unat v \<le> d2"
proof -
  obtain t m1 p m2 where p: "os_calloc h 8 m = (Some t, m1)" "os_calloc h (reps * 4) m1 = (Some p, m2)"
    by (metis alloc_Some)
  have "\<exists>lat m'. dram_sample h t i m = Some ((lat, True), m') \<and> d1 \<le> unat lat \<and> unat lat \<le> d2" for i m
    using dram_time [of t] pinned
    by (auto simp: dram_sample_def Let_def split: prod.splits) (metis fst_conv)+
  then obtain arr m' r arr' where "collect (dram_sample h t) [0..<reps] (replicate reps 0) 0 m2 = Some ((arr, reps), m')"
      "calc_median arr reps = Some (r, arr')" "d1 \<le> unat (of_int r :: u64)" "unat (of_int r :: u64) \<le> d2"
    by (rule measure_range [where reps = reps and m = m2]) (use apart enough_reps in simp_all)
  then show ?thesis
    using enough_reps by (auto simp: init_dram_lat_def p)
qed

lemma l1d_stored:
  "\<exists>v m'. init_l1d_lat h reps lats m = Some (lats\<lparr>l1d_lat := v\<rparr>, m') \<and> a1 \<le> unat v \<and> unat v \<le> a2"
proof -
  obtain t m1 p m2 where p: "os_calloc h 8 m = (Some t, m1)" "os_calloc h (reps * 4) m1 = (Some p, m2)"
    by (metis alloc_Some)
  have "\<exists>lat m'. l1d_sample h t i m = Some ((lat, True), m') \<and> a1 \<le> unat lat \<and> unat lat \<le> a2" for i m
    using l1_time [of t m] by (cases "time_maccess h t (mwrite h t 1 m)") (simp add: l1d_sample_def)
  then obtain arr m' r arr' where "collect (l1d_sample h t) [0..<reps] (replicate reps 0) 0 m2 = Some ((arr, reps), m')"
      "calc_median arr reps = Some (r, arr')" "a1 \<le> unat (of_int r :: u64)" "unat (of_int r :: u64) \<le> a2"
    by (rule measure_range [where reps = reps and m = m2]) (use ranges enough_reps in simp_all)
  then show ?thesis
    by (auto simp: init_l1d_lat_def p)
qed

lemma level_sample_kept:
  assumes "\<And>i ts m. probe_addrs reps page i = Some ts \<Longrightarrow> lo \<le> unat (fst (level_probe h ts sz m)) \<and> unat (fst (level_probe h ts sz m)) \<le> hi"
    and "\<And>lat. unat lat \<le> hi \<Longrightarrow> plausible lat"
  shows "\<exists>lat m'. level_sample h reps page sz plausible i m = Some ((lat, True), m') \<and> lo \<le> unat lat \<and> unat lat \<le> hi"
proof -
  obtain ts where ts: "probe_addrs reps page i = Some ts" using probes by blast
  obtain aux m1 where m1: "rdtscp_aux h m = (aux, m1)" by fastforce
  obtain lat m2 where m2: "level_probe h ts sz m1 = (lat, m2)" by fastforce
  obtain aux' m3 where m3: "rdtscp_aux h m2 = (aux', m3)" by fastforce
  have "aux = aux'" using pinned [of m m2] m1 m3 by simp
  then show ?thesis
    using assms(1) [OF ts, of m1] assms(2) [of lat] by (simp add: level_sample_def ts m1 m2 m3)
qed

lemma l2_stored:
  assumes "interrupt_thresh lats = v * 5" "d1 \<le> unat v" "unat v \<le> d2"
  shows "\<exists>v m'. init_l2_lat h g reps lats m = Some (lats\<lparr>l2_lat := v\<rparr>, m') \<and> b1 \<le> unat v \<and> unat v \<le> b2"
proof -
  obtain t m1 p m2 where p: "os_calloc h (unat (lat_buf_size s2)) m = (Some t, m1)" "os_calloc h (reps * 4) m1 = (Some p, m2)"
    by (metis alloc_Some)
  let ?sample = "level_sample h reps (ALIGN_NEXT t PAGE_SHIFT) s2 (\<lambda>lat. lat < interrupt_thresh lats)"
  have v: "unat (v * 5) = 5 * unat v"
    using assms(3) apart(6) by (simp add: unat_word_ariths)
  have "lat < interrupt_thresh lats" if "unat lat \<le> b2" for lat
    using that assms(2) apart(3) by (simp add: assms(1) word_less_nat_alt v)
  then have "\<exists>lat m'. ?sample i m = Some ((lat, True), m') \<and> b1 \<le> unat lat \<and> unat lat \<le> b2" for i m
    by (intro level_sample_kept) (use l2_time in blast)+
  then obtain arr m' r arr' where "collect ?sample [0..<reps] (replicate reps 0) 0 m2 = Some ((arr, reps), m')"
      "calc_median arr reps = Some (r, arr')" "b1 \<le> unat (of_int r :: u64)" "unat (of_int r :: u64) \<le> b2"
    by (rule measure_range [where reps = reps and m = m2]) (use ranges enough_reps in simp_all)
  then show ?thesis
    using enough_reps by (auto simp: init_l2_lat_def ev_sizes p)
qed

lemma l3_stored:
  assumes "interrupt_thresh lats = v * 5" "dram_lat lats = v" "d1 \<le> unat v" "unat v \<le> d2"
  shows "\<exists>v m'. init_l3_lat h g reps lats m = Some (Some (lats\<lparr>l3_lat := v\<rparr>), m') \<and> c1 \<le> unat v \<and> unat v \<le> c2"
proof -
  obtain t m1 p m2 where p: "os_calloc h (unat (lat_buf_size s3)) m = (Some t, m1)" "os_calloc h (reps * 4) m1 = (Some p, m2)"
    by (metis alloc_Some)
  let ?sample = "level_sample h reps (ALIGN_NEXT t PAGE_SHIFT) s3 (l3_plausible lats)"
  have v: "unat (ucast (v * 5) :: u32) = 5 * unat v" "unat (ucast v :: u32) = unat v"
    using assms(4) apart(6) by (simp_all add: unat_ucast_small unat_word_ariths)
  have "unat ((ucast v :: u32) * 8) = 8 * unat v"
    using assms(4) apart(6) v(2) by (simp add: unat_word_ariths)
  then have w: "unat ((ucast v :: u32) * 8 div 10) = 8 * unat v div 10"
    by (simp add: unat_div_distrib)
  have c: "c2 < 8 * d1 div 10" "8 * d1 div 10 \<le> 8 * unat v div 10" "c2 < 5 * unat v"
    using apart(5) assms(3) by (simp_all add: div_le_mono)
  have "l3_plausible lats lat" if "unat lat \<le> c2" for lat
    using that c by (simp add: l3_plausible_def assms(1,2) word_less_nat_alt unat_ucast_up v w)
  then have "\<exists>lat m'. ?sample i m = Some ((lat, True), m') \<and> c1 \<le> unat lat \<and> unat lat \<le> c2" for i m
    by (intro level_sample_kept) (use l3_time in blast)+
  then obtain arr m' r arr' where "collect ?sample [0..<reps] (replicate reps 0) 0 m2 = Some ((arr, reps), m')"
      "calc_median arr reps = Some (r, arr')" "c1 \<le> unat (of_int r :: u64)" "unat (of_int r :: u64) \<le> c2"
    by (rule measure_range [where reps = reps and m = m2]) (use ranges enough_reps in simp_all)
  then have "\<exists>v m'. l3_lat_attempt h g reps lats m = Some (Some (lats\<lparr>l3_lat := v\<rparr>), m') \<and> c1 \<le> unat v \<and> unat v \<le> c2"
    using enough_reps by (auto simp: l3_lat_attempt_def ev_sizes p)
  then show ?thesis
    by (auto simp: init_l3_lat_def numeral_3_eq_3)
qed

lemma init_ok:
  "\<exists>r m'. init_cache_lats_thresh h reps g m = Some (Some (g\<lparr>g_lats := r\<rparr>), m')
    \<and> (\<exists>n2 n3 n4. unat (l2_thresh r) = thresh_of n2 n3 \<and> unat (l3_thresh r) = l3_thresh_of n3 n4
         \<and> b1 \<le> n2 \<and> n2 \<le> b2 \<and> c1 \<le> n3 \<and> n3 \<le> c2 \<and> d1 \<le> n4 \<and> n4 \<le> d2)"
proof -
  obtain v m1 where v: "init_dram_lat h reps (g_lats g) m = Some ((g_lats g)\<lparr>dram_lat := v\<rparr>, m1)" "d1 \<le> unat v" "unat v \<le> d2"
    using dram_stored by blast
  let ?l0 = "init_interrupt_thresh ((g_lats g)\<lparr>dram_lat := v\<rparr>)"
  obtain v1 m2 where v1: "init_l1d_lat h reps ?l0 m1 = Some (?l0\<lparr>l1d_lat := v1\<rparr>, m2)" "a1 \<le> unat v1" "unat v1 \<le> a2"
    using l1d_stored by blast
  let ?l1 = "?l0\<lparr>l1d_lat := v1\<rparr>"
  obtain v2 m3 where v2: "init_l2_lat h g reps ?l1 m2 = Some (?l1\<lparr>l2_lat := v2\<rparr>, m3)" "b1 \<le> unat v2" "unat v2 \<le> b2"
    using l2_stored [of ?l1 v m2] v by (auto simp: init_interrupt_thresh_def)
  let ?l2 = "?l1\<lparr>l2_lat := v2\<rparr>"
  obtain v3 m4 where v3: "init_l3_lat h g reps ?l2 m3 = Some (Some (?l2\<lparr>l3_lat := v3\<rparr>), m4)" "c1 \<le> unat v3" "unat v3 \<le> c2"
    using l3_stored [of ?l2 v m3] v by (auto simp: init_interrupt_thresh_def)
  let ?l3 = "?l2\<lparr>l3_lat := v3\<rparr>"
  have lats: "l1d_lat ?l3 = v1" "l2_lat ?l3 = v2" "l3_lat ?l3 = v3" "dram_lat ?l3 = v"
    by (simp_all add: init_interrupt_thresh_def)
  obtain w2 w3 t1 t2 t3 where r:
    "cache_thresholds ?l3 = Some (?l3\<lparr>l2_lat := w2, l3_lat := w3, l1d_thresh := t1, l2_thresh := t2, l3_thresh := t3\<rparr>)"
    "l1d_lat ?l3 < l2_lat ?l3 \<longrightarrow> w2 = l2_lat ?l3" "3 * unat w2 < 2 * unat (l3_lat ?l3) \<longrightarrow> w3 = l3_lat ?l3"
    "unat t2 = thresh_of (unat w2) (unat w3)" "unat t3 = l3_thresh_of (unat w3) (unat v)"
    by (rule cache_thresholds_value [of ?l3 "unat v1" "unat v"]) (use v v1 v2 v3 ranges apart in \<open>simp_all add: lats\<close>)
  have w2: "w2 = v2" using r(2) v1 v2 apart by (simp add: lats word_less_nat_alt)
  have w3: "w3 = v3" using r(3) v2 v3 apart unfolding w2 lats by simp
  show ?thesis
    using v v1 v2 v3 r(1,4,5) unfolding w2 w3
    by (intro exI [of _ "?l3\<lparr>l2_lat := w2, l3_lat := w3, l1d_thresh := t1, l2_thresh := t2, l3_thresh := t3\<rparr>"] exI [of _ m4])
      (auto simp: init_cache_lats_thresh_def w2 w3)
qed

end

text \<open>
  A machine that counts: a read after a flush takes 200 cycles, and a read takes 5, 14 or 70
  cycles by the number of lines read since the last write.
\<close>

definition level_cost :: "bool \<Rightarrow> nat \<Rightarrow> u64" where
  "level_cost flushed n = (if flushed then 200 else if n = 0 then 5 else if n < 1000 then 14 else 70)"

definition level_hw :: "(u64 \<times> bool \<times> nat) hw" where
  "level_hw = \<lparr>hw_flush = (\<lambda>a (c, f, n). (c, True, n)), hw_read = (\<lambda>a (c, f, n). (c + level_cost f n, f, n + 1)),
     hw_write = (\<lambda>a v (c, f, n). (c, False, 0)), hw_tsc = (\<lambda>(c, f, n). (c, (c, f, n))),
     hw_tscp = (\<lambda>(c, f, n). ((c, 3), (c, f, n))), hw_helper_read = (\<lambda>a m. m), hw_both = (\<lambda>xs ys m. m),
     os_time_us = (\<lambda>m. (0, m)), os_calloc = (\<lambda>n m. (Some 0x10000, m)), os_mmap = (\<lambda>n m. (Some 0x10000, m)),
     os_thread = (\<lambda>m. (True, m))\<rparr>"

definition level_globals :: globals where
  "level_globals = flat_globals\<lparr>l1_info := skx_l2\<lparr>level := L1, n_sets := 64, n_set_idx_bits := 6, n_ways := 8,
     c_size := 32768, unknown_sib := 0\<rparr>\<rparr>"

lemma level_time: "fst (time_maccess level_hw t (c, f, n)) = level_cost f n"
  by (simp add: time_maccess_def timer_warmup_def timer_start_def timer_stop_def maccess_def level_hw_def)

lemma level_steps:
  "clflush level_hw t (c, f, n) = (c, True, n)" "mwrite level_hw t v (c, f, n) = (c, False, 0)"
  "fst (rdtscp_aux level_hw (c, f, n)) = 3" "fst (os_calloc level_hw k m) = Some 0x10000"
  by (simp_all add: clflush_def mwrite_def rdtscp_aux_def level_hw_def)

lemma level_reads: "\<exists>c'. access_seq level_hw xs (c, f, n) = (c', f, n + length xs)"
proof (induction xs arbitrary: c n)
  case (Cons x xs)
  have "access_seq level_hw (x # xs) (c, f, n) = access_seq level_hw xs (c + level_cost f n, f, n + 1)"
    by (simp add: access_seq_def maccess_def level_hw_def)
  then show ?case
    using Cons.IH [of "c + level_cost f n" "n + 1"] by auto
qed (simp add: access_seq_def)

lemma level_probe_cost: "fst (level_probe level_hw ts sz m) = level_cost False (Suc (5 * unat sz))"
proof -
  obtain t tlb ev where ts: "ts = (t, tlb, ev)" by (metis prod_cases3)
  obtain c f n where m: "m = (c, f, n)" by (metis prod_cases3)
  let ?xs = "concat (replicate 5 (access_stride ev (ucast PAGE_SIZE) sz))"
  have len: "length ?xs = 5 * unat sz"
    by (simp add: length_concat sum_list_replicate access_stride_def)
  obtain c' where c': "access_seq level_hw ?xs (c, False, 0) = (c', False, 5 * unat sz)"
    using level_reads [of ?xs c False 0] unfolding len by auto
  have "maccess level_hw tlb (c', False, 5 * unat sz) =
      (c' + level_cost False (5 * unat sz), False, Suc (5 * unat sz))"
    by (simp add: maccess_def level_hw_def)
  then show ?thesis
    by (simp add: level_probe_def ts m c' level_time level_steps)
qed

lemma level_sizes: "l2_ev_size level_globals = Some 24" "l3_ev_size level_globals = Some 640"
  using fl_int [of 640] by (simp_all add: l2_ev_size_def l3_ev_size_def u32_of_dbl_def level_globals_def flat_globals_def skx_l2_def)

interpretation level_machine: measured_machine level_hw level_globals 350 24 640 5 5 14 14 70 70 200 200
  by unfold_locales
    (simp_all add: level_sizes level_probe_cost split_paired_all level_time level_steps level_cost_def)



subsection \<open>The buffers of the measurements\<close>

lemma align_next_page:
  assumes "unat b + 4096 < 2 ^ 64"
  shows "unat b < unat (ALIGN_NEXT b PAGE_SHIFT)" "unat (ALIGN_NEXT b PAGE_SHIFT) \<le> unat b + 4096"
proof -
  let ?n = "unat b"
  have d: "unat (drop_bit 12 b) = ?n div 4096"
    by (simp add: drop_bit_eq_div unat_div_distrib)
  have "unat (drop_bit 12 b + 1) = ?n div 4096 + 1"
    by (subst unat_add_small) (use assms d in simp_all)
  moreover have "(?n div 4096 + 1) * 4096 < 2 ^ 64"
    using assms by simp
  ultimately have "unat ((drop_bit 12 b + 1) * 4096) = (?n div 4096 + 1) * 4096"
    by (subst unat_word_ariths(2)) simp
  then have "unat (ALIGN_NEXT b PAGE_SHIFT) = (?n div 4096 + 1) * 4096"
    by (simp only: ALIGN_NEXT_def PAGE_SHIFT_def push_bit_eq_mult) simp
  moreover have "?n div 4096 * 4096 + ?n mod 4096 = ?n" "?n mod 4096 < 4096" by simp_all
  ultimately show "?n < unat (ALIGN_NEXT b PAGE_SHIFT)" "unat (ALIGN_NEXT b PAGE_SHIFT) \<le> ?n + 4096"
    by simp_all
qed

text \<open>
  The lines a round of the L2 or L3 latency measurement touches, the target, the line for
  the translation and the eviction lines in the following pages, are inside of the buffer
  that was allocated for the measurement, for every repetition and wherever the buffer lies.
\<close>

theorem probe_in_buffer:
  assumes "(unat ev_sz + 2) * 4096 < 2 ^ 32" "unat b + unat (lat_buf_size ev_sz) < 2 ^ 64"
    and "probe_addrs reps (ALIGN_NEXT b PAGE_SHIFT) i = Some (t, tlb, ev)"
    and "a \<in> {t, tlb} \<union> set (access_stride ev (ucast PAGE_SIZE) ev_sz)"
  shows "unat b \<le> unat a \<and> unat a < unat b + unat (lat_buf_size ev_sz)"
proof -
  let ?n = "unat b" and ?s = "unat ev_sz" and ?page = "ALIGN_NEXT b PAGE_SHIFT"
  have "unat (ev_sz + 2) = ?s + 2"
    by (subst unat_add_small) (use assms(1) in simp_all)
  then have size: "unat (lat_buf_size ev_sz) = (?s + 2) * 4096"
    using assms(1) by (simp add: lat_buf_size_def PAGE_SIZE_def unat_word_ariths)
  have lim: "?n + (?s + 2) * 4096 < 2 ^ 64" using assms(2) unfolding size .
  have page: "?n < unat ?page" "unat ?page \<le> ?n + 4096"
    using align_next_page [of b] lim by simp_all
  have at: "unat (?page + of_nat k) = unat ?page + k" if "k \<le> 3840 + ?s * 4096" for k
  proof -
    have "k < 2 ^ 64" using that lim by simp
    then have "unat (of_nat k :: u64) = k" by (rule unat_of_nat_64)
    then show ?thesis
      by (subst unat_add_small) (use that lim page in simp_all)
  qed
  obtain o1 o2 where o: "o1 \<le> 3840" "o2 \<le> 3840" "t = ?page + of_nat o1" "tlb = ?page + of_nat o2" "ev = t + 4096"
  proof -
    let ?i = "i div (reps div 16) mod 16"
    have "?i * 256 \<le> 3840" "(?i + 1) mod 16 * 256 \<le> 3840" by simp_all
    then show ?thesis
      using assms(3) that [of "?i * 256" "(?i + 1) mod 16 * 256"]
      by (auto simp: probe_addrs_def Let_def PAGE_SIZE_def split: if_splits)
  qed
  have "\<exists>k \<le> 3840 + ?s * 4096. a = ?page + of_nat k"
  proof (cases "a \<in> {t, tlb}")
    case True
    then show ?thesis using o by (auto intro: exI [of _ o1] exI [of _ o2])
  next
    case False
    then obtain j where j: "j < ?s" "a = ev + ucast (of_nat j * (ucast PAGE_SIZE :: u32))"
      using assms(4) by (auto simp: access_stride_def)
    have "j * 4096 < 2 ^ 32" using j(1) assms(1) by simp
    then have "ucast (of_nat j * (ucast PAGE_SIZE :: u32)) = (of_nat (j * 4096) :: u64)"
      by (intro word_unat_eq_iff [THEN iffD2])
        (simp add: PAGE_SIZE_def unat_ucast_up unat_word_ariths unat_of_nat take_bit_nat_eq_self)
    then have "a = ?page + of_nat (o1 + 4096 + j * 4096)"
      by (simp add: j(2) o(3,5))
    then show ?thesis
      using o(1) j(1) by (intro exI [of _ "o1 + 4096 + j * 4096"]) simp
  qed
  then show ?thesis
    using at page unfolding size by fastforce
qed

theorem probe_in_buffer_witness:
  "unat (0x10020 :: u64) \<le> unat (0x11F00 :: u64) \<and> unat (0x11F00 :: u64) < unat (0x10020 :: u64) + unat (lat_buf_size 2)"
  by (rule probe_in_buffer [where reps = 16 and i = 15 and t = "0x11F00" and tlb = "0x11000" and ev = "0x12F00"])
    (simp_all add: lat_buf_size_def probe_addrs_def PAGE_SIZE_def PAGE_SHIFT_def ALIGN_NEXT_def)

end
