(* ===== verification/Helper_Thread.thy ===== *)
theory Helper_Thread
  imports Evset_Test
begin

text \<open>
  The helper thread (include/helper_thread.h, src/helper_thread.c) and the requests the main
  thread makes of it, also those of src/cache_ops.c and src/evset.c that write to its control
  block themselves. The two threads are a step relation: a step is one write to the control
  block, one read of it that ends a waiting loop, or one memory access, in any interleaving
  of the threads. A waiting loop is a step that is not enabled until its condition holds.

  The writes are seen in program order, which is what the compiler barriers ask of the
  compiler and what the processor guarantees for stores.
\<close>

subsection \<open>The control block\<close>

datatype helper_thread_action = HELPER_STOP | READ_SINGLE | TIME_SINGLE | READ_ARRAY | TRAVERSE_CANDS

text \<open>What \<open>payload\<close> points to: a line, a \<open>helper_thread_read_array\<close> or a \<open>helper_thread_traverse_cands\<close>.\<close>

datatype payload =
    P_single addr
  | P_array "addr list" nat nat nat nat
  | P_cands "addr list" nat EvBuildConf

record helper_thread_ctrl =
  c_running :: bool
  c_waiting :: bool
  c_action :: helper_thread_action
  c_payload :: payload
  c_lat :: u64
  c_core :: int

subsection \<open>The threads\<close>

text \<open>An access of the main thread, and a read or a timed read of the helper.\<close>

datatype event = E_main addr | E_read addr | E_time addr

definition exec_event :: "'m hw \<Rightarrow> (addr \<Rightarrow> 'm \<Rightarrow> u64 \<times> 'm) \<Rightarrow> event \<Rightarrow> u64 list \<times> 'm \<Rightarrow> u64 list \<times> 'm" where
  "exec_event h htime e = (\<lambda>(lats, m). case e of
       E_main a \<Rightarrow> (lats, hw_read h a m)
     | E_read a \<Rightarrow> (lats, hw_helper_read h a m)
     | E_time a \<Rightarrow> (let (l, m) = htime a m in (lats @ [l], m)))"

text \<open>
  The accesses of the worker for a request. A traversal by \<open>traverse_cands_mt\<close> would make the
  helper wait for itself, and the helper gets no further.
\<close>

fun helper_events :: "helper_thread_action \<Rightarrow> payload \<Rightarrow> event list option" where
  "helper_events READ_SINGLE (P_single a) = Some [E_read a]"
| "helper_events TIME_SINGLE (P_single a) = Some [E_time a]"
| "helper_events READ_ARRAY (P_array addrs cnt rep strd blk) =
     map_option (map E_read) (prime_cands_daniel addrs cnt rep strd blk)"
| "helper_events TRAVERSE_CANDS (P_cands cands cnt tconf) =
     (case cand_traverse tconf of
        Addrs_traverse \<Rightarrow> map_option (map E_read) (addrs_traverse cands cnt tconf)
      | Traverse_cands_mt \<Rightarrow> None)"
| "helper_events _ _ = None"

text \<open>
  The calls of the main thread: starting the helper (\<open>start_helper_thread_pinned\<close> with a core,
  \<open>start_helper_thread\<close> without), which has to succeed, stopping it, the requests of
  \<open>helper_thread_read_single\<close>, \<open>helper_thread_time_single\<close> and \<open>helper_thread_traverse_cands\<close>,
  and that of \<open>traverse_cands_mt\<close>, during which the main thread reads lines of its own.
\<close>

datatype call =
    C_start "int option"
  | C_read addr
  | C_time addr
  | C_array "addr list" nat nat nat nat "addr list"
  | C_cands "addr list" nat EvBuildConf
  | C_stop

fun action_of :: "call \<Rightarrow> helper_thread_action" where
  "action_of (C_read a) = READ_SINGLE"
| "action_of (C_time a) = TIME_SINGLE"
| "action_of (C_array xs cnt rep strd blk ys) = READ_ARRAY"
| "action_of (C_cands xs cnt tconf) = TRAVERSE_CANDS"
| "action_of _ = HELPER_STOP"

fun payload_of :: "call \<Rightarrow> payload option" where
  "payload_of (C_read a) = Some (P_single a)"
| "payload_of (C_time a) = Some (P_single a)"
| "payload_of (C_array xs cnt rep strd blk ys) = Some (P_array xs cnt rep strd blk)"
| "payload_of (C_cands xs cnt tconf) = Some (P_cands xs cnt tconf)"
| "payload_of _ = None"

fun main_accesses :: "call \<Rightarrow> addr list" where
  "main_accesses (C_array xs cnt rep strd blk ys) = ys"
| "main_accesses _ = []"

fun is_request :: "call \<Rightarrow> bool" where
  "is_request (C_start n) = False"
| "is_request C_stop = False"
| "is_request _ = True"

text \<open>Only two of the requests check that the helper is running; the others would wait forever.\<close>

fun checks_running :: "call \<Rightarrow> bool" where
  "checks_running (C_read a) = True"
| "checks_running (C_time a) = True"
| "checks_running _ = False"

text \<open>Where the threads are.\<close>

datatype helper_pc = H_absent | H_top | H_spin | H_switch | H_work "event list" | H_ended

datatype main_pc = M_next | M_payload | M_release | M_work "addr list" | M_wait | M_join | M_abort

text \<open>
  The state: the control block, the threads, the calls still to make and those that have
  returned with the latencies they gave, and the machine; and the accesses so far, those of
  the running call apart, which the program does not keep.
\<close>

record 'm hstate =
  ctrl :: helper_thread_ctrl
  helper :: helper_pc
  main :: main_pc
  prog :: "call list"
  returned :: "call list"
  lats :: "u64 list"
  mach :: 'm
  past :: "event list list"
  recent :: "event list"

definition perform :: "'m hw \<Rightarrow> (addr \<Rightarrow> 'm \<Rightarrow> u64 \<times> 'm) \<Rightarrow> event \<Rightarrow> 'm hstate \<Rightarrow> 'm hstate" where
  "perform h htime e s =
     (let (ls, m) = exec_event h htime e ([], mach s)
      in s\<lparr>mach := m, recent := recent s @ [e],
           ctrl := (ctrl s)\<lparr>c_lat := (if ls = [] then c_lat (ctrl s) else last ls)\<rparr>\<rparr>)"

definition finish_call :: "u64 list \<Rightarrow> 'm hstate \<Rightarrow> 'm hstate" where
  "finish_call ls s = s\<lparr>main := M_next, prog := tl (prog s), returned := returned s @ [hd (prog s)],
     lats := lats s @ ls, past := past s @ [recent s], recent := []\<rparr>"

inductive helper_step :: "'m hw \<Rightarrow> (addr \<Rightarrow> 'm \<Rightarrow> u64 \<times> 'm) \<Rightarrow> 'm hstate \<Rightarrow> 'm hstate \<Rightarrow> bool" for h htime where
  start: "main s = M_next \<Longrightarrow> prog s = C_start core # cs \<Longrightarrow> helper s \<in> {H_absent, H_ended} \<Longrightarrow>
    helper_step h htime s (s\<lparr>main := M_wait, helper := H_top, ctrl := (ctrl s)\<lparr>c_waiting := False, c_core := (case core of None \<Rightarrow> c_core (ctrl s) | Some core \<Rightarrow> core)\<rparr>\<rparr>)"
| started: "main s = M_wait \<Longrightarrow> prog s = C_start core # cs \<Longrightarrow> c_waiting (ctrl s) \<Longrightarrow>
    helper_step h htime s (finish_call [] (s\<lparr>ctrl := (ctrl s)\<lparr>c_running := True\<rparr>\<rparr>))"
| not_running: "main s = M_next \<Longrightarrow> prog s = c # cs \<Longrightarrow> checks_running c \<Longrightarrow> \<not> c_running (ctrl s) \<Longrightarrow>
    helper_step h htime s (s\<lparr>main := M_abort\<rparr>)"
| set_action: "main s = M_next \<Longrightarrow> prog s = c # cs \<Longrightarrow> is_request c \<Longrightarrow> (checks_running c \<longrightarrow> c_running (ctrl s)) \<Longrightarrow>
    helper_step h htime s (s\<lparr>main := M_payload, ctrl := (ctrl s)\<lparr>c_action := action_of c\<rparr>\<rparr>)"
| set_payload: "main s = M_payload \<Longrightarrow> prog s = c # cs \<Longrightarrow> payload_of c = Some p \<Longrightarrow>
    helper_step h htime s (s\<lparr>main := M_release, ctrl := (ctrl s)\<lparr>c_payload := p\<rparr>\<rparr>)"
| release: "main s = M_release \<Longrightarrow> prog s = c # cs \<Longrightarrow> is_request c \<Longrightarrow>
    helper_step h htime s (s\<lparr>main := M_work (main_accesses c), ctrl := (ctrl s)\<lparr>c_waiting := False\<rparr>\<rparr>)"
| main_access: "main s = M_work (a # xs) \<Longrightarrow>
    helper_step h htime s ((perform h htime (E_main a) s)\<lparr>main := M_work xs\<rparr>)"
| main_done: "main s = M_work [] \<Longrightarrow> helper_step h htime s (s\<lparr>main := M_wait\<rparr>)"
| main_return: "main s = M_wait \<Longrightarrow> prog s = c # cs \<Longrightarrow> is_request c \<Longrightarrow> c_waiting (ctrl s) \<Longrightarrow>
    helper_step h htime s (finish_call (if action_of c = TIME_SINGLE then [c_lat (ctrl s)] else []) s)"
| stop: "main s = M_next \<Longrightarrow> prog s = C_stop # cs \<Longrightarrow> c_running (ctrl s) \<Longrightarrow>
    helper_step h htime s (s\<lparr>main := M_release, ctrl := (ctrl s)\<lparr>c_action := HELPER_STOP\<rparr>\<rparr>)"
| not_started: "main s = M_next \<Longrightarrow> prog s = C_stop # cs \<Longrightarrow> \<not> c_running (ctrl s) \<Longrightarrow>
    helper_step h htime s (finish_call [] s)"
| release_stop: "main s = M_release \<Longrightarrow> prog s = C_stop # cs \<Longrightarrow>
    helper_step h htime s (s\<lparr>main := M_join, ctrl := (ctrl s)\<lparr>c_waiting := False\<rparr>\<rparr>)"
| joined: "main s = M_join \<Longrightarrow> helper s = H_ended \<Longrightarrow>
    helper_step h htime s (finish_call [] (s\<lparr>ctrl := (ctrl s)\<lparr>c_running := False\<rparr>\<rparr>))"
| ready: "helper s = H_top \<Longrightarrow>
    helper_step h htime s (s\<lparr>helper := H_spin, ctrl := (ctrl s)\<lparr>c_waiting := True\<rparr>\<rparr>)"
| wake: "helper s = H_spin \<Longrightarrow> \<not> c_waiting (ctrl s) \<Longrightarrow> helper_step h htime s (s\<lparr>helper := H_switch\<rparr>)"
| end_helper: "helper s = H_switch \<Longrightarrow> c_action (ctrl s) = HELPER_STOP \<Longrightarrow>
    helper_step h htime s (s\<lparr>helper := H_ended\<rparr>)"
| dispatch: "helper s = H_switch \<Longrightarrow> helper_events (c_action (ctrl s)) (c_payload (ctrl s)) = Some es \<Longrightarrow>
    helper_step h htime s (s\<lparr>helper := H_work es\<rparr>)"
| helper_access: "helper s = H_work (e # es) \<Longrightarrow>
    helper_step h htime s ((perform h htime e s)\<lparr>helper := H_work es\<rparr>)"
| helper_done: "helper s = H_work [] \<Longrightarrow> helper_step h htime s (s\<lparr>helper := H_top\<rparr>)"

definition helper_init :: "call list \<Rightarrow> 'm \<Rightarrow> 'm hstate" where
  "helper_init cs m = \<lparr>ctrl = \<lparr>c_running = False, c_waiting = False, c_action = HELPER_STOP, c_payload = P_single 0,
     c_lat = 0, c_core = - 1\<rparr>, helper = H_absent, main = M_next, prog = cs, returned = [], lats = [], mach = m,
     past = [], recent = []\<rparr>"

definition helper_runs :: "'m hw \<Rightarrow> (addr \<Rightarrow> 'm \<Rightarrow> u64 \<times> 'm) \<Rightarrow> 'm hstate \<Rightarrow> 'm hstate \<Rightarrow> bool" where
  "helper_runs h htime = (helper_step h htime)\<^sup>*\<^sup>*"

subsection \<open>Calls as atomic operations\<close>

text \<open>
  What the main thread relies on: a call is an operation of its own, which performs the
  accesses of the helper, interleaved with those the main thread makes during the call.
\<close>

definition call_block :: "call \<Rightarrow> event list \<Rightarrow> bool" where
  "call_block c t \<longleftrightarrow> (case payload_of c of None \<Rightarrow> t = []
     | Some p \<Rightarrow> (case helper_events (action_of c) p of None \<Rightarrow> False
         | Some es \<Rightarrow> t \<in> shuffles (map E_main (main_accesses c)) es))"

fun atomic_calls :: "'m hw \<Rightarrow> (addr \<Rightarrow> 'm \<Rightarrow> u64 \<times> 'm) \<Rightarrow> call list \<Rightarrow> u64 list \<times> 'm \<Rightarrow> u64 list \<times> 'm \<Rightarrow> bool" where
  "atomic_calls h htime [] st st' \<longleftrightarrow> st' = st"
| "atomic_calls h htime (c # cs) st st' \<longleftrightarrow>
     (\<exists>t. call_block c t \<and> atomic_calls h htime cs (fold (exec_event h htime) t st) st')"

text \<open>A program that starts the helper before it uses it, and whose requests are in bounds.\<close>

fun prog_ok :: "bool \<Rightarrow> call list \<Rightarrow> bool" where
  "prog_ok r [] = True"
| "prog_ok r (C_start core # cs) = (\<not> r \<and> prog_ok True cs)"
| "prog_ok r (C_stop # cs) = prog_ok False cs"
| "prog_ok r (c # cs) = (r \<and> (case payload_of c of None \<Rightarrow> False | Some p \<Rightarrow> helper_events (action_of c) p \<noteq> None) \<and> prog_ok r cs)"

subsection \<open>The invariant\<close>

lemma shuffles_snoc:
  "xs \<in> shuffles ys zs \<Longrightarrow> xs @ [a] \<in> shuffles (ys @ [a]) zs"
  "xs \<in> shuffles ys zs \<Longrightarrow> xs @ [a] \<in> shuffles ys (zs @ [a])"
proof -
  have *: "xs \<in> shuffles ys zs \<Longrightarrow> xs @ [a] \<in> shuffles (ys @ [a]) zs" for xs ys zs :: "'a list"
  proof (induction xs arbitrary: ys zs)
    case (Cons x xs)
    then have "ys \<noteq> [] \<and> hd ys = x \<and> xs \<in> shuffles (tl ys) zs \<or> zs \<noteq> [] \<and> hd zs = x \<and> xs \<in> shuffles ys (tl zs)"
      by (simp add: Cons_in_shuffles_iff)
    then show ?case
      using Cons.IH [of "tl ys" zs] Cons.IH [of ys "tl zs"] by (auto simp: Cons_in_shuffles_iff)
  qed (auto simp: Nil_in_shuffles)
  show "xs \<in> shuffles ys zs \<Longrightarrow> xs @ [a] \<in> shuffles (ys @ [a]) zs" by (rule *)
  show "xs \<in> shuffles ys zs \<Longrightarrow> xs @ [a] \<in> shuffles ys (zs @ [a])"
    using * [of xs zs ys] by (simp add: shuffles_commutes)
qed

text \<open>How far the helper is with a request whose accesses are \<open>es\<close> when it has made the accesses \<open>d\<close>.\<close>

fun phase_ok :: "bool \<Rightarrow> event list option \<Rightarrow> helper_pc \<Rightarrow> event list \<Rightarrow> bool" where
  "phase_ok w es H_spin d = (if w then es = Some d else d = [])"
| "phase_ok w es H_switch d = (\<not> w \<and> d = [])"
| "phase_ok w es (H_work r) d = (\<not> w \<and> es = Some (d @ r))"
| "phase_ok w es H_top d = (\<not> w \<and> es = Some d)"
| "phase_ok w es _ d = False"

text \<open>A request whose control block is set up; the main thread has the accesses \<open>xs\<close> still to make.\<close>

definition request_open :: "addr list \<Rightarrow> 'm hstate \<Rightarrow> bool" where
  "request_open xs s \<longleftrightarrow> (\<exists>c cs p es md d. prog s = c # cs \<and> payload_of c = Some p \<and> prog_ok True cs \<and> c_running (ctrl s)
     \<and> c_action (ctrl s) = action_of c \<and> c_payload (ctrl s) = p \<and> helper_events (action_of c) p = Some es
     \<and> recent s \<in> shuffles md d \<and> md @ map E_main xs = map E_main (main_accesses c)
     \<and> phase_ok (c_waiting (ctrl s)) (Some es) (helper s) d)"

definition helper_idle :: "'m hstate \<Rightarrow> bool" where
  "helper_idle s \<longleftrightarrow> helper s = H_spin \<and> c_waiting (ctrl s) \<and> c_running (ctrl s) \<and> recent s = []"

fun control_ok :: "main_pc \<Rightarrow> 'm hstate \<Rightarrow> bool" where
  "control_ok M_next s \<longleftrightarrow> recent s = [] \<and> prog_ok (c_running (ctrl s)) (prog s) \<and>
     (if c_running (ctrl s) then helper_idle s else helper s \<in> {H_absent, H_ended})"
| "control_ok M_payload s \<longleftrightarrow> helper_idle s \<and> (\<exists>c cs p es. prog s = c # cs \<and> payload_of c = Some p \<and> prog_ok True cs
     \<and> helper_events (action_of c) p = Some es \<and> c_action (ctrl s) = action_of c)"
| "control_ok M_release s \<longleftrightarrow> helper_idle s \<and>
     ((\<exists>c cs p es. prog s = c # cs \<and> payload_of c = Some p \<and> prog_ok True cs
        \<and> helper_events (action_of c) p = Some es \<and> c_action (ctrl s) = action_of c \<and> c_payload (ctrl s) = p)
      \<or> (\<exists>cs. prog s = C_stop # cs \<and> prog_ok False cs \<and> c_action (ctrl s) = HELPER_STOP))"
| "control_ok (M_work xs) s \<longleftrightarrow> request_open xs s"
| "control_ok M_wait s \<longleftrightarrow> request_open [] s \<or>
     (recent s = [] \<and> (\<exists>core cs. prog s = C_start core # cs \<and> prog_ok True cs) \<and> \<not> c_running (ctrl s)
      \<and> (helper s = H_top \<and> \<not> c_waiting (ctrl s) \<or> helper s = H_spin \<and> c_waiting (ctrl s)))"
| "control_ok M_join s \<longleftrightarrow> recent s = [] \<and> (\<exists>cs. prog s = C_stop # cs \<and> prog_ok False cs) \<and> c_running (ctrl s)
     \<and> c_action (ctrl s) = HELPER_STOP \<and> \<not> c_waiting (ctrl s) \<and> helper s \<in> {H_spin, H_switch, H_ended}"
| "control_ok M_abort s \<longleftrightarrow> False"

lemma is_request_payload: "is_request c \<longleftrightarrow> payload_of c \<noteq> None"
  by (cases c) auto

lemma prog_ok_request:
  "payload_of c = Some p \<Longrightarrow> prog_ok r (c # cs) \<longleftrightarrow> r \<and> helper_events (action_of c) p \<noteq> None \<and> prog_ok r cs"
  by (cases c) auto

lemma checks_running_request: "checks_running c \<Longrightarrow> payload_of c \<noteq> None"
  by (cases c) auto

lemma action_of_request: "payload_of c = Some p \<Longrightarrow> action_of c \<noteq> HELPER_STOP"
  by (cases c) auto

lemma perform_simps [simp]:
  "prog (perform h htime e s) = prog s" "helper (perform h htime e s) = helper s" "main (perform h htime e s) = main s"
  "returned (perform h htime e s) = returned s" "lats (perform h htime e s) = lats s" "past (perform h htime e s) = past s"
  "recent (perform h htime e s) = recent s @ [e]" "c_running (ctrl (perform h htime e s)) = c_running (ctrl s)"
  "c_waiting (ctrl (perform h htime e s)) = c_waiting (ctrl s)" "c_action (ctrl (perform h htime e s)) = c_action (ctrl s)"
  "c_payload (ctrl (perform h htime e s)) = c_payload (ctrl s)"
  by (simp_all add: perform_def Let_def split: prod.splits)

lemma request_open_main:
  assumes "request_open (a # xs) s"
  shows "request_open xs ((perform h htime (E_main a) s)\<lparr>main := M\<rparr>)"
proof -
  obtain c cs p es md d where "prog s = c # cs" "payload_of c = Some p" "prog_ok True cs" "c_running (ctrl s)"
      "c_action (ctrl s) = action_of c" "c_payload (ctrl s) = p" "helper_events (action_of c) p = Some es"
      "recent s \<in> shuffles md d" "md @ map E_main (a # xs) = map E_main (main_accesses c)"
      "phase_ok (c_waiting (ctrl s)) (Some es) (helper s) d"
    using assms unfolding request_open_def by blast
  then show ?thesis
    unfolding request_open_def
    by (intro exI [of _ c] exI [of _ cs] exI [of _ p] exI [of _ es] exI [of _ "md @ [E_main a]"] exI [of _ d])
      (simp add: shuffles_snoc)
qed

lemma request_open_helper:
  assumes "request_open xs s" "helper s = H_work (e # es)"
  shows "request_open xs ((perform h htime e s)\<lparr>helper := H_work es\<rparr>)"
proof -
  obtain c cs p es' md d where "prog s = c # cs" "payload_of c = Some p" "prog_ok True cs" "c_running (ctrl s)"
      "c_action (ctrl s) = action_of c" "c_payload (ctrl s) = p" "helper_events (action_of c) p = Some es'"
      "recent s \<in> shuffles md d" "md @ map E_main xs = map E_main (main_accesses c)"
      "phase_ok (c_waiting (ctrl s)) (Some es') (helper s) d"
    using assms(1) unfolding request_open_def by blast
  then show ?thesis
    unfolding request_open_def using assms(2)
    by (intro exI [of _ c] exI [of _ cs] exI [of _ p] exI [of _ es'] exI [of _ md] exI [of _ "d @ [e]"])
      (simp add: shuffles_snoc)
qed

text \<open>Steps of the helper that make no access.\<close>

lemma request_open_silent:
  assumes "request_open xs s" "prog s' = prog s" "recent s' = recent s" "c_running (ctrl s') = c_running (ctrl s)"
    "c_action (ctrl s') = c_action (ctrl s)" "c_payload (ctrl s') = c_payload (ctrl s)"
    and ph: "\<And>es d. helper_events (c_action (ctrl s)) (c_payload (ctrl s)) = Some es \<Longrightarrow>
       phase_ok (c_waiting (ctrl s)) (Some es) (helper s) d \<Longrightarrow> phase_ok (c_waiting (ctrl s')) (Some es) (helper s') d"
  shows "request_open xs s'"
proof -
  obtain c cs p es md d where c: "prog s = c # cs" "payload_of c = Some p" "prog_ok True cs" "c_running (ctrl s)"
      "c_action (ctrl s) = action_of c" "c_payload (ctrl s) = p" "helper_events (action_of c) p = Some es"
      "recent s \<in> shuffles md d" "md @ map E_main xs = map E_main (main_accesses c)"
      "phase_ok (c_waiting (ctrl s)) (Some es) (helper s) d"
    using assms(1) unfolding request_open_def by blast
  show ?thesis
    unfolding request_open_def using c ph [of es d] assms(2-6)
    by (intro exI [of _ c] exI [of _ cs] exI [of _ p] exI [of _ es] exI [of _ md] exI [of _ d]) simp
qed

lemma finish_call_simps [simp]:
  "main (finish_call ls s) = M_next" "prog (finish_call ls s) = tl (prog s)" "recent (finish_call ls s) = []"
  "helper (finish_call ls s) = helper s" "ctrl (finish_call ls s) = ctrl s" "mach (finish_call ls s) = mach s"
  "returned (finish_call ls s) = returned s @ [hd (prog s)]" "lats (finish_call ls s) = lats s @ ls"
  "past (finish_call ls s) = past s @ [recent s]"
  by (simp_all add: finish_call_def)

text \<open>When a request is open and the helper waits again, the helper has done its work.\<close>

lemma request_open_waiting:
  assumes "request_open [] s" "c_waiting (ctrl s)"
  shows "\<exists>c cs p. prog s = c # cs \<and> payload_of c = Some p \<and> prog_ok True cs \<and> c_running (ctrl s) \<and> helper s = H_spin \<and> call_block c (recent s)"
proof -
  obtain c cs p es md d where c: "prog s = c # cs" "payload_of c = Some p" "prog_ok True cs" "c_running (ctrl s)"
      "helper_events (action_of c) p = Some es" "recent s \<in> shuffles md d" "md = map E_main (main_accesses c)"
      "phase_ok (c_waiting (ctrl s)) (Some es) (helper s) d"
    using assms(1) unfolding request_open_def by auto
  moreover have "helper s = H_spin \<and> es = d"
    using c(8) assms(2) by (cases "helper s") auto
  ultimately show ?thesis
    by (auto simp: call_block_def)
qed

lemma control_ready:
  assumes "helper s = H_top" "control_ok (main s) s"
  shows "control_ok (main s) (s\<lparr>helper := H_spin, ctrl := (ctrl s)\<lparr>c_waiting := True\<rparr>\<rparr>)"
proof -
  have "request_open xs (s\<lparr>helper := H_spin, ctrl := (ctrl s)\<lparr>c_waiting := True\<rparr>\<rparr>)" if "request_open xs s" for xs
    by (rule request_open_silent [OF that]) (use assms(1) in simp_all)
  then show ?thesis
    using assms by (cases "main s") (auto simp: helper_idle_def split: if_splits)
qed

lemma control_wake:
  assumes "helper s = H_spin" "\<not> c_waiting (ctrl s)" "control_ok (main s) s"
  shows "control_ok (main s) (s\<lparr>helper := H_switch\<rparr>)"
proof -
  have "request_open xs (s\<lparr>helper := H_switch\<rparr>)" if "request_open xs s" for xs
    by (rule request_open_silent [OF that]) (use assms in simp_all)
  then show ?thesis
    using assms by (cases "main s") (auto simp: helper_idle_def split: if_splits)
qed

lemma request_open_action: "request_open xs s \<Longrightarrow> c_action (ctrl s) \<noteq> HELPER_STOP"
  using action_of_request by (auto simp: request_open_def)

lemma control_end:
  assumes "helper s = H_switch" "c_action (ctrl s) = HELPER_STOP" "control_ok (main s) s"
  shows "control_ok (main s) (s\<lparr>helper := H_ended\<rparr>)"
  using assms request_open_action [of _ s] by (cases "main s") (auto simp: helper_idle_def split: if_splits)

lemma control_dispatch:
  assumes "helper s = H_switch" "helper_events (c_action (ctrl s)) (c_payload (ctrl s)) = Some es" "control_ok (main s) s"
  shows "control_ok (main s) (s\<lparr>helper := H_work es\<rparr>)"
proof -
  have "request_open xs (s\<lparr>helper := H_work es\<rparr>)" if "request_open xs s" for xs
    by (rule request_open_silent [OF that]) (use assms in simp_all)
  then show ?thesis
    using assms by (cases "main s") (auto simp: helper_idle_def split: if_splits)
qed

lemma control_access:
  assumes "helper s = H_work (e # es)" "control_ok (main s) s"
  shows "control_ok (main s) ((perform h htime e s)\<lparr>helper := H_work es\<rparr>)"
  using assms request_open_helper [of _ s e es h htime] by (cases "main s") (auto simp: helper_idle_def split: if_splits)

lemma control_done:
  assumes "helper s = H_work []" "control_ok (main s) s"
  shows "control_ok (main s) (s\<lparr>helper := H_top\<rparr>)"
proof -
  have "request_open xs (s\<lparr>helper := H_top\<rparr>)" if "request_open xs s" for xs
    by (rule request_open_silent [OF that]) (use assms in simp_all)
  then show ?thesis
    using assms by (cases "main s") (auto simp: helper_idle_def split: if_splits)
qed

lemmas control_helper = control_ready control_wake control_end control_dispatch control_access control_done

lemma request_open_release:
  assumes "helper_idle s" "prog s = c # cs" "payload_of c = Some p" "prog_ok True cs" "helper_events (action_of c) p = Some es"
    "c_action (ctrl s) = action_of c" "c_payload (ctrl s) = p"
  shows "request_open (main_accesses c) (s\<lparr>main := M, ctrl := (ctrl s)\<lparr>c_waiting := False\<rparr>\<rparr>)"
  unfolding request_open_def using assms
  by (intro exI [of _ c] exI [of _ cs] exI [of _ p] exI [of _ es] exI [of _ "[]"]) (simp add: helper_idle_def)

lemma control_step:
  assumes "helper_step h htime s s'" "control_ok (main s) s"
  shows "control_ok (main s') s'"
  using assms(1)
proof (cases rule: helper_step.cases)
  case (set_action c cs)
  then obtain p where p: "payload_of c = Some p" by (auto simp: is_request_payload)
  then have "c_running (ctrl s) \<and> helper_events (action_of c) p \<noteq> None \<and> prog_ok True cs"
    using assms(2) set_action by (auto simp: prog_ok_request)
  then show ?thesis
    using assms(2) set_action p by (auto simp: helper_idle_def)
next
  case (not_running c cs)
  then obtain p where "payload_of c = Some p" using checks_running_request by blast
  then show ?thesis
    using assms(2) not_running by (auto simp: prog_ok_request)
next
  case (release c cs)
  then obtain p es where "helper_idle s" "payload_of c = Some p" "prog_ok True cs" "helper_events (action_of c) p = Some es"
      "c_action (ctrl s) = action_of c" "c_payload (ctrl s) = p"
    using assms(2) by auto
  from request_open_release [OF this(1) release(3) this(2-)] show ?thesis
    using release by simp
next
  case (main_return c cs)
  then have "request_open [] s"
    using assms(2) by (cases c) auto
  from request_open_waiting [OF this] show ?thesis
    using main_return by (auto simp: helper_idle_def)
next
  case (main_access a xs)
  then show ?thesis
    using assms(2) request_open_main by auto
next
  case main_done
  then show ?thesis
    using assms(2) request_open_silent [of "[]" s s'] by auto
qed (use assms(2) control_helper [of s] in \<open>auto simp: helper_idle_def request_open_def split: if_splits option.splits\<close>)

subsection \<open>The history\<close>

definition timed :: "event list \<Rightarrow> bool" where
  "timed t \<longleftrightarrow> (\<exists>a. E_time a \<in> set t)"

definition history_ok :: "'m hw \<Rightarrow> (addr \<Rightarrow> 'm \<Rightarrow> u64 \<times> 'm) \<Rightarrow> call list \<Rightarrow> 'm \<Rightarrow> 'm hstate \<Rightarrow> bool" where
  "history_ok h htime cs m0 s \<longleftrightarrow> list_all2 call_block (returned s) (past s) \<and> returned s @ prog s = cs
     \<and> fold (exec_event h htime) (concat (past s) @ recent s) ([], m0) =
         (lats s @ (if timed (recent s) then [c_lat (ctrl s)] else []), mach s)"

lemma exec_event_append: "exec_event h htime e (L, m) = (let (ls, m') = exec_event h htime e ([], m) in (L @ ls, m'))"
  by (cases e) (simp_all add: exec_event_def split: prod.splits)

lemma exec_event_untimed: "\<not> timed [e] \<Longrightarrow> fst (exec_event h htime e ([], m)) = []"
  by (cases e) (auto simp: exec_event_def timed_def)

lemma exec_event_timed: "timed [e] \<Longrightarrow> \<exists>l m'. exec_event h htime e ([], m) = ([l], m')"
  by (cases e) (auto simp: exec_event_def timed_def split: prod.splits)

lemma history_perform:
  assumes "history_ok h htime cs m0 s" "timed [e] \<Longrightarrow> \<not> timed (recent s)"
    and "s' = perform h htime e s\<lparr>main := M\<rparr> \<or> s' = perform h htime e s\<lparr>helper := H\<rparr>"
  shows "history_ok h htime cs m0 s'"
proof -
  have app: "timed (recent s @ [e]) \<longleftrightarrow> timed (recent s) \<or> timed [e]"
    by (auto simp: timed_def)
  obtain ls m' where e: "exec_event h htime e ([], mach s) = (ls, m')" by fastforce
  have run: "exec_event h htime e (L, mach s) = (L @ ls, m')" for L
    by (subst exec_event_append) (simp add: e)
  have "timed [e] \<Longrightarrow> \<exists>l. ls = [l]" "\<not> timed [e] \<Longrightarrow> ls = []"
    using exec_event_timed [of e h htime "mach s"] exec_event_untimed [of e h htime "mach s"] e by auto
  then have "history_ok h htime cs m0 (perform h htime e s)"
    using assms(1,2) by (cases "timed [e]") (auto simp: history_ok_def perform_def app e run)
  then show ?thesis
    using assms(3) by (auto simp: history_ok_def)
qed

lemma history_silent:
  assumes "history_ok h htime cs m0 s" "returned s' = returned s" "past s' = past s" "prog s' = prog s" "recent s' = recent s"
    "lats s' = lats s" "mach s' = mach s" "c_lat (ctrl s') = c_lat (ctrl s)"
  shows "history_ok h htime cs m0 s'"
  using assms by (simp add: history_ok_def)

lemma helper_events_timed:
  "helper_events act p = Some es \<Longrightarrow> timed es \<longleftrightarrow> act = TIME_SINGLE"
  "helper_events act p = Some es \<Longrightarrow> act = TIME_SINGLE \<Longrightarrow> length es = 1"
  by (cases "(act, p)" rule: helper_events.cases; auto simp: timed_def split: traverse_fn.splits)+

lemma timed_shuffles: "t \<in> shuffles (map E_main xs) es \<Longrightarrow> timed t \<longleftrightarrow> timed es"
  using set_shuffles [of t "map E_main xs" es] by (auto simp: timed_def)

lemma call_block_timed: "call_block c t \<Longrightarrow> timed t \<longleftrightarrow> action_of c = TIME_SINGLE"
proof (cases "payload_of c")
  case None
  moreover assume "call_block c t"
  ultimately show ?thesis by (cases c) (auto simp: call_block_def timed_def)
next
  case (Some p)
  moreover assume "call_block c t"
  ultimately show ?thesis
    using timed_shuffles helper_events_timed(1) by (auto simp: call_block_def split: option.splits)
qed

lemma history_helper_access:
  assumes "control_ok (main s) s" "helper s = H_work (e # es)" "timed [e]"
  shows "\<not> timed (recent s)"
proof -
  obtain xs where "request_open xs s"
    using assms(1,2) by (cases "main s") (auto simp: helper_idle_def split: if_splits)
  then obtain c p md d where c: "helper_events (action_of c) p = Some (d @ e # es)" "recent s \<in> shuffles md d"
      "md @ map E_main xs = map E_main (main_accesses c)"
    using assms(2) by (auto simp: request_open_def)
  have "timed (d @ e # es)" using assms(3) by (auto simp: timed_def)
  then have "d = []"
    using helper_events_timed [OF c(1)] by simp
  then have "set (recent s) \<subseteq> set (map E_main (main_accesses c))"
    using c(2) by (simp flip: c(3))
  then show ?thesis
    by (auto simp: timed_def)
qed

lemma history_step:
  assumes "helper_step h htime s s'" "control_ok (main s) s" "history_ok h htime cs m0 s"
  shows "history_ok h htime cs m0 s'"
  using assms(1)
proof (cases rule: helper_step.cases)
  case (main_return c cs')
  then have "request_open [] s"
    using assms(2) by (cases c) auto
  from request_open_waiting [OF this] have "call_block c (recent s)"
    using main_return by auto
  then show ?thesis
    using assms(3) main_return call_block_timed by (auto simp: history_ok_def list_all2_appendI timed_def)
next
  case (main_access a xs)
  moreover have "\<not> timed [E_main a]" by (simp add: timed_def)
  ultimately show ?thesis
    using history_perform [OF assms(3)] by blast
next
  case (helper_access e es)
  then show ?thesis
    using history_perform [OF assms(3) history_helper_access [OF assms(2)]] by blast
next
  case (started core cs')
  then have "recent s = []" using assms(2) by (auto simp: request_open_def)
  then show ?thesis
    using assms(3) started by (auto simp: history_ok_def list_all2_appendI call_block_def timed_def)
next
  case (not_started cs')
  then show ?thesis
    using assms(2,3) by (auto simp: history_ok_def list_all2_appendI call_block_def timed_def)
next
  case joined
  then obtain cs' where "prog s = C_stop # cs'" "recent s = []" using assms(2) by auto
  then show ?thesis
    using assms(3) joined by (auto simp: history_ok_def list_all2_appendI call_block_def timed_def)
qed (use history_silent [OF assms(3)] in auto)

lemma helper_runs_ok:
  assumes "helper_runs h htime (helper_init cs m0) s" "prog_ok False cs"
  shows "control_ok (main s) s \<and> history_ok h htime cs m0 s"
  using assms(1) unfolding helper_runs_def
proof (induction rule: rtranclp_induct)
  case base
  show ?case
    using assms(2) by (simp add: helper_init_def history_ok_def timed_def)
next
  case (step s s')
  then show ?case
    using control_step [OF step(2)] history_step [OF step(2), of cs m0] by simp
qed

lemma atomic_blocks:
  "list_all2 call_block cs ts \<Longrightarrow> atomic_calls h htime cs st (fold (exec_event h htime) (concat ts) st)"
proof (induction cs ts arbitrary: st rule: list_all2_induct)
  case (Cons c cs t ts)
  then show ?case
    by (simp only: atomic_calls.simps concat.simps fold_append comp_apply) blast
qed simp

text \<open>
  C4: whatever the interleaving of the two threads, when the main thread is between two calls,
  the calls that have returned have had the effect of atomic operations performed one after
  the other, each of which makes the accesses of its request once and completely, and the
  latencies they returned are those of these operations; the helper is then waiting and makes
  no access.
\<close>

theorem helper_calls_atomic:
  assumes "prog_ok False cs" "helper_runs h htime (helper_init cs m) s" "main s = M_next"
  shows "atomic_calls h htime (returned s) ([], m) (lats s, mach s) \<and> returned s @ prog s = cs
    \<and> (if c_running (ctrl s) then helper s = H_spin \<and> c_waiting (ctrl s) else helper s \<in> {H_absent, H_ended})"
proof -
  have ok: "control_ok M_next s" "history_ok h htime cs m s"
    using helper_runs_ok [OF assms(2,1)] unfolding assms(3) by blast+
  then have "fold (exec_event h htime) (concat (past s)) ([], m) = (lats s, mach s)"
    by (simp add: history_ok_def timed_def)
  then show ?thesis
    using ok atomic_blocks [of "returned s" "past s" h htime "([], m)"]
    by (auto simp: history_ok_def helper_idle_def split: if_splits)
qed

text \<open>
  The atomic operations are those the sequential model of the eviction test uses for the
  helper: a read by the helper, and a traversal by the helper.
\<close>

lemma atomic_read_single:
  assumes "hctrl tconf"
  shows "atomic_calls h htime [C_read a] (ls, m) (ls', m') \<longleftrightarrow> ls' = ls \<and> helper_thread_read_single h a tconf m = Some m'"
  using assms by (auto simp: call_block_def helper_thread_read_single_def exec_event_def)

lemma fold_reads: "fold (exec_event h htime) (map E_read xs) (ls, m) = (ls, fold (hw_helper_read h) xs m)"
  by (induction xs arbitrary: m) (auto simp: exec_event_def)

lemma atomic_traverse_cands:
  assumes "hctrl tconf" "os_calloc h 32 m0 = (Some p, m)"
  shows "atomic_calls h htime [C_cands xs cnt tconf] (ls, m) (ls', m') \<longleftrightarrow>
    ls' = ls \<and> helper_thread_traverse_cands h xs cnt tconf m0 = Some m'"
  using assms by (cases "addrs_traverse xs cnt tconf")
    (auto simp: call_block_def helper_thread_traverse_cands_def fold_reads split: traverse_fn.splits)

subsection \<open>The calls return\<close>

text \<open>The steps a call can still take.\<close>

definition helper_len :: "call \<Rightarrow> nat" where
  "helper_len c = (case payload_of c of None \<Rightarrow> 0
     | Some p \<Rightarrow> (case helper_events (action_of c) p of None \<Rightarrow> 0 | Some es \<Rightarrow> length es))"

definition call_weight :: "call \<Rightarrow> nat" where
  "call_weight c = 20 + length (main_accesses c) + helper_len c"

fun helper_weight :: "call \<Rightarrow> bool \<Rightarrow> helper_pc \<Rightarrow> nat" where
  "helper_weight c w H_spin = (if w then 2 else helper_len c + 7)"
| "helper_weight c w H_switch = helper_len c + 6"
| "helper_weight c w (H_work es) = length es + 5"
| "helper_weight c w H_top = 3"
| "helper_weight c w _ = 0"

fun main_weight :: "call \<Rightarrow> main_pc \<Rightarrow> nat" where
  "main_weight c M_next = 0"
| "main_weight c M_payload = call_weight c - 4"
| "main_weight c M_release = call_weight c - 5"
| "main_weight c (M_work xs) = length xs + 3"
| "main_weight c M_wait = 2"
| "main_weight c M_join = 1"
| "main_weight c M_abort = 0"

definition weight :: "'m hstate \<Rightarrow> nat" where
  "weight s = (if main s = M_next then sum_list (map call_weight (prog s))
     else main_weight (hd (prog s)) (main s) + sum_list (map call_weight (tl (prog s)))
       + (if main s \<in> {M_payload, M_release, M_abort} then 0
          else helper_weight (hd (prog s)) (c_waiting (ctrl s)) (helper s)))"

lemma request_open_len:
  assumes "request_open xs s" "helper_events (c_action (ctrl s)) (c_payload (ctrl s)) = Some es"
  shows "helper_len (hd (prog s)) = length es"
  using assms by (auto simp: request_open_def helper_len_def)

text \<open>Every step takes the calls closer to their end.\<close>

lemma weight_helper:
  assumes "control_ok (main s) s" "main s' = main s" "prog s' = prog s"
    and "helper s \<in> {H_top, H_switch} \<or> (\<exists>es. helper s = H_work es) \<or> helper s = H_spin \<and> \<not> c_waiting (ctrl s)"
    and "\<And>xs. request_open xs s \<or> main s = M_join \<or> (main s = M_wait \<and> helper s = H_top) \<Longrightarrow>
      helper_weight (hd (prog s)) (c_waiting (ctrl s')) (helper s') < helper_weight (hd (prog s)) (c_waiting (ctrl s)) (helper s)"
  shows "weight s' < weight s"
  using assms by (cases "main s") (auto simp: weight_def helper_idle_def split: if_splits)

lemma weight_step:
  assumes "helper_step h htime s s'" "control_ok (main s) s"
  shows "weight s' < weight s"
  using assms(1)
proof (cases rule: helper_step.cases)
  case (dispatch es)
  have "\<not> (main s = M_join \<and> control_ok M_join s)" using dispatch by auto
  then show ?thesis
    using dispatch assms(2) request_open_len [of _ s es] by (intro weight_helper [OF assms(2)]) auto
next
  case (started core cs)
  then show ?thesis using assms(2) by (auto simp: weight_def request_open_def)
next
  case (main_return c cs)
  then have "request_open [] s" using assms(2) by (cases c) auto
  from request_open_waiting [OF this] show ?thesis
    using main_return by (auto simp: weight_def)
next
  case (release c cs)
  then show ?thesis
    using assms(2) by (auto simp: weight_def helper_idle_def call_weight_def)
next
  case joined
  then show ?thesis using assms(2) by (auto simp: weight_def)
qed (use assms(2) in \<open>auto simp: weight_def call_weight_def helper_idle_def intro!: weight_helper [OF assms(2)] split: if_splits\<close>)

lemma helper_progress:
  assumes "helper s = H_top \<or> helper s = H_switch \<or> (\<exists>es. helper s = H_work es) \<or> helper s = H_spin \<and> \<not> c_waiting (ctrl s)"
    "c_action (ctrl s) = HELPER_STOP \<or> helper_events (c_action (ctrl s)) (c_payload (ctrl s)) \<noteq> None"
  shows "\<exists>s'. helper_step h htime s s'"
proof (cases "helper s")
  case (H_work es)
  then show ?thesis by (cases es) (blast intro: helper_step.helper_access helper_step.helper_done)+
qed (use assms helper_step.ready [of s h htime] helper_step.wake [of s h htime] helper_step.end_helper [of s h htime]
      helper_step.dispatch [of s _ h htime] in auto)

lemma open_progress:
  assumes "request_open xs s" "main s = M_wait \<and> xs = []"
  shows "\<exists>s'. helper_step h htime s s'"
proof (cases "c_waiting (ctrl s)")
  case True
  then obtain c cs p where "prog s = c # cs" "payload_of c = Some p"
    using request_open_waiting [of s] assms by auto
  then show ?thesis
    using helper_step.main_return [of s c cs h htime] True assms by (auto simp: is_request_payload)
next
  case False
  from assms obtain es d where "helper_events (c_action (ctrl s)) (c_payload (ctrl s)) = Some es"
      "phase_ok (c_waiting (ctrl s)) (Some es) (helper s) d"
    by (auto simp: request_open_def)
  then show ?thesis
    by (intro helper_progress) (use False in \<open>cases "helper s"; auto\<close>)+
qed

lemma helper_step_possible:
  assumes "control_ok (main s) s" "\<not> (main s = M_next \<and> prog s = [])"
  shows "\<exists>s'. helper_step h htime s s'"
proof (cases "main s")
  case M_next
  then obtain c cs where c: "prog s = c # cs" using assms(2) by (cases "prog s") auto
  show ?thesis
  proof (cases "is_request c")
    case True
    then show ?thesis
      using helper_step.set_action [of s c cs h htime] helper_step.not_running [of s c cs h htime] M_next c by blast
  next
    case False
    then consider core where "c = C_start core" | "c = C_stop" by (cases c) auto
    then show ?thesis
      using assms(1) M_next c helper_step.start [of s _ cs h htime] helper_step.stop [of s cs h htime]
        helper_step.not_started [of s cs h htime] by cases (fastforce split: if_splits)+
  qed
next
  case M_payload
  then show ?thesis using assms(1) helper_step.set_payload [of s _ _ _ h htime] by fastforce
next
  case M_release
  then show ?thesis
    using assms(1) helper_step.release [of s _ _ h htime] helper_step.release_stop [of s _ h htime]
    by (fastforce simp: is_request_payload)
next
  case (M_work xs)
  then show ?thesis
    using helper_step.main_access [of s _ _ h htime] helper_step.main_done [of s h htime] by (cases xs) blast+
next
  case M_wait
  then consider "request_open [] s"
    | core cs where "prog s = C_start core # cs" "helper s = H_top \<or> c_waiting (ctrl s)"
    using assms(1) by auto
  then show ?thesis
    using open_progress [of "[]" s h htime] M_wait helper_step.started [of s _ _ h htime] helper_step.ready [of s h htime]
    by cases blast+
next
  case M_join
  then show ?thesis
    using assms(1) helper_step.joined [of s h htime] helper_step.wake [of s h htime] helper_step.end_helper [of s h htime] by auto
qed (use assms(1) in simp)

text \<open>
  C18: a program that starts the helper before it uses it and whose requests are in bounds
  cannot be blocked: as long as calls are left, one of the threads can make a step; no
  schedule runs forever; and where it ends, all calls have returned in order.
\<close>

theorem helper_calls_return:
  assumes "prog_ok False cs" "helper_runs h htime (helper_init cs m) s"
  shows "((\<nexists>s'. helper_step h htime s s') \<longrightarrow> main s = M_next \<and> returned s = cs)
    \<and> (\<nexists>f. f 0 = s \<and> (\<forall>i. helper_step h htime (f i) (f (Suc i))))"
proof (rule conjI)
  have ok: "control_ok (main s) s" "history_ok h htime cs m s"
    using helper_runs_ok [OF assms(2,1)] by blast+
  show "(\<nexists>s'. helper_step h htime s s') \<longrightarrow> main s = M_next \<and> returned s = cs"
  proof
    assume "\<nexists>s'. helper_step h htime s s'"
    then have "main s = M_next \<and> prog s = []"
      using helper_step_possible [OF ok(1), of h htime] by blast
    then show "main s = M_next \<and> returned s = cs"
      using ok(2) by (simp add: history_ok_def)
  qed
  show "\<nexists>f. f 0 = s \<and> (\<forall>i. helper_step h htime (f i) (f (Suc i)))"
  proof
    assume "\<exists>f. f 0 = s \<and> (\<forall>i. helper_step h htime (f i) (f (Suc i)))"
    then obtain f where f: "f 0 = s" "\<And>i. helper_step h htime (f i) (f (Suc i))" by blast
    have c: "control_ok (main (f i)) (f i)" for i
      by (induction i) (simp_all add: f(1) ok(1) control_step [OF f(2)])
    have "weight (f i) + i \<le> weight (f 0)" for i
    proof (induction i)
      case (Suc i)
      then show ?case using weight_step [OF f(2) c, of i] by simp
    qed simp
    from this [of "Suc (weight (f 0))"] show False by simp
  qed
qed

text \<open>A program that starts the helper, has it read a line, and stops it.\<close>

definition demo_calls :: "call list" where
  "demo_calls = [C_start (Some 2), C_read 0x1000, C_stop]"

theorem helper_calls_return_witness:
  "\<exists>s'. helper_step flat_hw (\<lambda>a m. (7, m)) (helper_init demo_calls (\<lambda>a. 0, 0)) s'"
  using helper_calls_return [of demo_calls flat_hw "\<lambda>a m. (7, m)" "(\<lambda>a. 0, 0)" "helper_init demo_calls (\<lambda>a. 0, 0)"]
  by (auto simp: demo_calls_def helper_runs_def helper_init_def)

theorem helper_calls_atomic_witness:
  "\<exists>s :: ((addr \<Rightarrow> u8) \<times> nat) hstate. main s = M_next \<and> returned s = [C_start (Some 2)]
    \<and> atomic_calls flat_hw (\<lambda>a m. (7, m)) (returned s) ([], (\<lambda>a. 0, 0)) (lats s, mach s)"
proof -
  let ?i = "helper_init demo_calls (\<lambda>a. 0, 0) :: ((addr \<Rightarrow> u8) \<times> nat) hstate"
  let ?s1 = "?i\<lparr>main := M_wait, helper := H_top, ctrl := (ctrl ?i)\<lparr>c_waiting := False, c_core := 2\<rparr>\<rparr>"
  let ?s2 = "?s1\<lparr>helper := H_spin, ctrl := (ctrl ?s1)\<lparr>c_waiting := True\<rparr>\<rparr>"
  let ?s3 = "finish_call [] (?s2\<lparr>ctrl := (ctrl ?s2)\<lparr>c_running := True\<rparr>\<rparr>)"
  have "helper_step flat_hw (\<lambda>a m. (7, m)) ?i ?s1"
    using helper_step.start [of ?i "Some 2" "[C_read 0x1000, C_stop]"] by (simp add: helper_init_def demo_calls_def)
  moreover have "helper_step flat_hw (\<lambda>a m. (7, m)) ?s1 ?s2"
    by (rule helper_step.ready) simp
  moreover have "helper_step flat_hw (\<lambda>a m. (7, m)) ?s2 ?s3"
    by (rule helper_step.started [of _ "Some 2" "[C_read 0x1000, C_stop]"]) (simp_all add: helper_init_def demo_calls_def)
  ultimately have "helper_runs flat_hw (\<lambda>a m. (7, m)) ?i ?s3"
    unfolding helper_runs_def by (meson converse_rtranclp_into_rtranclp rtranclp.rtrancl_refl)
  then have "atomic_calls flat_hw (\<lambda>a m. (7, m)) (returned ?s3) ([], (\<lambda>a. 0, 0)) (lats ?s3, mach ?s3)"
    using helper_calls_atomic [of demo_calls flat_hw "\<lambda>a m. (7, m)" "(\<lambda>a. 0, 0)" ?s3] by (simp add: demo_calls_def)
  then show ?thesis
    by (intro exI [of _ ?s3]) (simp add: helper_init_def demo_calls_def)
qed

subsection \<open>Attaching the helper to eviction sets (helper_thread.c)\<close>

text \<open>The sets of a range of colours, and the sets of the level below they refer to, get the helper.\<close>

definition attach_set :: "bool \<Rightarrow> EvBuildConf EvSet option \<Rightarrow> EvBuildConf EvSet option" where
  "attach_set hc = map_option (\<lambda>ev. if ev_size ev = 0 then ev
     else ev\<lparr>build_conf := (build_conf ev)\<lparr>hctrl := hc,
            lower_ev := map_option (\<lambda>l. l\<lparr>build_conf := (build_conf l)\<lparr>hctrl := hc\<rparr>\<rparr>) (lower_ev (build_conf ev))\<rparr>\<rparr>)"

fun attach_colors ::
    "EvBuildConf EvSet option list list \<Rightarrow> nat list \<Rightarrow> nat list \<Rightarrow> bool \<Rightarrow> EvBuildConf EvSet option list list option" where
  "attach_colors color_sets color_counts [] hc = Some color_sets"
| "attach_colors color_sets color_counts (color # cs) hc = do {
     set_cnt \<leftarrow> arr_get color_counts color;
     if set_cnt = 0 then attach_colors color_sets color_counts cs hc
     else do {
       row \<leftarrow> arr_get color_sets color;
       evs \<leftarrow> arr_range row 0 set_cnt;
       attach_colors (color_sets[color := map (attach_set hc) evs @ drop set_cnt row]) color_counts cs hc
     }
   }"

definition attach_helper_to_evsets ::
    "EvBuildConf EvSet option list list \<Rightarrow> nat list \<Rightarrow> nat \<Rightarrow> nat \<Rightarrow> bool \<Rightarrow> EvBuildConf EvSet option list list option" where
  "attach_helper_to_evsets color_sets color_counts start_color num_colors hc =
     attach_colors color_sets color_counts [start_color..<start_color + num_colors] hc"

end
