(* ===== verification/Vtop.thy ===== *)
theory Vtop
  imports Topo_Utils Latency
begin

text \<open>
  The detection of the vCPU topology (vm_tools/vtop.c): the latency of a cache line that two
  vCPUs pass to and fro is measured for some pairs, classified, and propagated to the other
  pairs; the classes give the sockets and cores of the vCPUs.

  The round of two threads that pass the line is a parameter: it returns the time stamps of
  the first thread and the loop limit it leaves behind. The arrays have \<open>LAST_CPU_ID\<close> entries
  in each direction and all indices are below it, so they are functions here. The arrays
  \<open>numa_to_pair_arr\<close>, \<open>pair_to_thread_arr\<close> and \<open>thread_to_cpu_arr\<close> and the lists of first members are
  written and never read. A failed allocation while groups are formed ends the program.
\<close>

subsection \<open>Latency classes\<close>

definition MAX_CPUS :: nat where "MAX_CPUS = 192"

definition LAST_CPU_ID :: "nat \<Rightarrow> nat" where
  "LAST_CPU_ID nprocs = (if nprocs < MAX_CPUS then nprocs else MAX_CPUS)"

definition get_latency_class :: "int \<Rightarrow> int" where
  "get_latency_class latency =
     (if latency < 0 \<or> latency > 90000 then 1 else if latency < 2000 then 2 else if latency < 8500 then 3 else 4)"

text \<open>\<open>SAMPLE_US\<close> and \<open>first_measurement\<close>; \<open>latency_valid\<close> is never changed from -1.\<close>

record sampling =
  sample_us :: int
  first_measurement :: bool

text \<open>The shortest time of a sample, in nanoseconds per pass; there are 300 passes in a sample.\<close>

definition sample_time :: "u64 \<Rightarrow> rat" where
  "sample_time d = fl (fl (of_nat (unat d)) / 300)"

fun best_sample :: "u64 list \<Rightarrow> rat option" where
  "best_sample (t # u # ts) =
     (let s = sample_time (u - t)
      in case best_sample (u # ts) of None \<Rightarrow> Some s | Some b \<Rightarrow> Some (if s < b then s else b))"
| "best_sample _ = None"

definition i32_of_dbl :: "rat \<Rightarrow> int option" where
  "i32_of_dbl x = (if i32_ok \<lfloor>x\<rfloor> then Some \<lfloor>x\<rfloor> else None)"

definition longer_samples :: "int \<Rightarrow> int option" where
  "longer_samples us = (if us > 100000 then i32_add us 100000 else i32_add us us)"

text \<open>A round that gives a single time stamp is repeated without being counted.\<close>

partial_function (option) measure_loop ::
    "(nat \<Rightarrow> nat \<Rightarrow> int \<Rightarrow> 'm \<Rightarrow> (u64 list \<times> int) \<times> 'm) \<Rightarrow> nat \<Rightarrow> nat \<Rightarrow> int \<Rightarrow> int \<Rightarrow> int \<Rightarrow> 'm
       \<Rightarrow> ((int \<times> int) \<times> 'm) option" where
  "measure_loop run i j tries max_loops us m =
     (let ((ts, max_loops), m) = run i j max_loops m
      in if length ts = 1 then measure_loop run i j tries max_loops us m
         else if length ts < 3 then
           (if tries < 10 then measure_loop run i j (tries + 1) max_loops us m else Some ((- 1, us), m))
         else do {
           us \<leftarrow> (if length ts < 8 \<and> length ts > 3 then longer_samples us else Some us);
           best \<leftarrow> best_sample ts;
           latency \<leftarrow> i32_of_dbl (fl (best * 100));
           Some ((latency, us), m)
         })"

definition measure_latency_pair ::
    "(nat \<Rightarrow> nat \<Rightarrow> int \<Rightarrow> 'm \<Rightarrow> (u64 list \<times> int) \<times> 'm) \<Rightarrow> nat \<Rightarrow> nat \<Rightarrow> sampling \<Rightarrow> 'm
       \<Rightarrow> ((int \<times> sampling) \<times> 'm) option" where
  "measure_latency_pair run i j sp m = do {
     let tries = (if first_measurement sp then - 2 else 0);
     let max_loops = (if first_measurement sp then sample_us sp * 10 else sample_us sp);
     ((latency, us), m) \<leftarrow> measure_loop run i j tries max_loops (sample_us sp) m;
     Some ((latency, \<lparr>sample_us = us, first_measurement = False\<rparr>), m)
   }"

subsection \<open>The matrix of classes\<close>

type_synonym matrix = "nat \<Rightarrow> nat \<Rightarrow> int"

definition set_latency_pair :: "nat \<Rightarrow> nat \<Rightarrow> int \<Rightarrow> matrix \<Rightarrow> matrix" where
  "set_latency_pair x y c T = (let T = T(x := (T x)(y := c)) in T(y := (T y)(x := c)))"

definition relax :: "nat \<Rightarrow> nat \<Rightarrow> nat \<Rightarrow> matrix \<Rightarrow> matrix" where
  "relax k i j T =
     (if T k j = 0 then T
      else (let via = (if T i k > T k j then T i k else T k j)
            in if T i j = 0 \<or> T i j > via then set_latency_pair i j via T else T))"

definition relax_row :: "nat \<Rightarrow> nat \<Rightarrow> nat \<Rightarrow> matrix \<Rightarrow> matrix" where
  "relax_row n k i T = (if T i k = 0 then T else fold (relax k i) [0..<n] T)"

definition relax_via :: "nat \<Rightarrow> nat \<Rightarrow> matrix \<Rightarrow> matrix" where
  "relax_via n k T = fold (relax_row n k) [0..<n] T"

definition apply_optimization :: "nat \<Rightarrow> matrix \<Rightarrow> matrix" where
  "apply_optimization n T = fold (relax_via n) [0..<n] T"

subsection \<open>Sockets\<close>

record vtop =
  top_stack :: matrix
  cpu_group_id :: "nat \<Rightarrow> int"
  nr_numa_groups :: nat
  failed_test :: bool
  samp :: sampling

text \<open>A pair is measured unless its class is known.\<close>

definition classify ::
    "(nat \<Rightarrow> nat \<Rightarrow> int \<Rightarrow> 'm \<Rightarrow> (u64 list \<times> int) \<times> 'm) \<Rightarrow> nat \<Rightarrow> nat \<Rightarrow> vtop \<Rightarrow> 'm \<Rightarrow> (vtop \<times> 'm) option" where
  "classify run i j v m =
     (if top_stack v i j = 0 then do {
        ((latency, sp), m) \<leftarrow> measure_latency_pair run i j (samp v) m;
        Some (v\<lparr>top_stack := set_latency_pair i j (get_latency_class latency) (top_stack v), samp := sp\<rparr>, m)
      } else Some (v, m))"

fun group_members ::
    "(nat \<Rightarrow> nat \<Rightarrow> int \<Rightarrow> 'm \<Rightarrow> (u64 list \<times> int) \<times> 'm) \<Rightarrow> nat \<Rightarrow> nat list \<Rightarrow> vtop \<Rightarrow> 'm \<Rightarrow> (vtop \<times> 'm) option" where
  "group_members run i [] v m = Some (v, m)"
| "group_members run i (j # js) v m =
     (if cpu_group_id v j \<noteq> - 1 then group_members run i js v m
      else do {
        (v, m) \<leftarrow> classify run i j v m;
        let v = (if top_stack v i j < 4
                 then v\<lparr>cpu_group_id := (cpu_group_id v)(j := int (nr_numa_groups v))\<rparr> else v);
        group_members run i js v m
      })"

fun group_leaders ::
    "(nat \<Rightarrow> nat \<Rightarrow> int \<Rightarrow> 'm \<Rightarrow> (u64 list \<times> int) \<times> 'm) \<Rightarrow> nat \<Rightarrow> nat list \<Rightarrow> vtop \<Rightarrow> 'm \<Rightarrow> (vtop \<times> 'm) option" where
  "group_leaders run n [] v m = Some (v, m)"
| "group_leaders run n (i # is') v m =
     (if cpu_group_id v i \<noteq> - 1 then group_leaders run n is' v m
      else do {
        let v = v\<lparr>cpu_group_id := (cpu_group_id v)(i := int (nr_numa_groups v))\<rparr>;
        (v, m) \<leftarrow> group_members run i [0..<n] v m;
        group_leaders run n is' (v\<lparr>nr_numa_groups := nr_numa_groups v + 1\<rparr>) m
      })"

definition find_numa_groups ::
    "(nat \<Rightarrow> nat \<Rightarrow> int \<Rightarrow> 'm \<Rightarrow> (u64 list \<times> int) \<times> 'm) \<Rightarrow> nat \<Rightarrow> vtop \<Rightarrow> 'm \<Rightarrow> (vtop \<times> 'm) option" where
  "find_numa_groups run n v m = do {
     (v, m) \<leftarrow> group_leaders run n [0..<n]
        (v\<lparr>nr_numa_groups := 0, cpu_group_id := (\<lambda>_. - 1), samp := (samp v)\<lparr>first_measurement := True\<rparr>\<rparr>) m;
     Some (v\<lparr>top_stack := apply_optimization n (top_stack v)\<rparr>, m)
   }"

subsection \<open>Probing the pairs that are left\<close>

text \<open>\<open>ST_find_topology\<close>: the numbers encode pairs.\<close>

fun ST_find_topology ::
    "(nat \<Rightarrow> nat \<Rightarrow> int \<Rightarrow> 'm \<Rightarrow> (u64 list \<times> int) \<times> 'm) \<Rightarrow> nat \<Rightarrow> nat list \<Rightarrow> vtop \<Rightarrow> 'm \<Rightarrow> (vtop \<times> 'm) option" where
  "ST_find_topology run n [] v m = Some (v, m)"
| "ST_find_topology run n (x # xs) v m = do {
     let j = x mod n;
     let i = (x - x mod n) div n;
     (v, m) \<leftarrow> (if top_stack v i j = 0 then do {
                  (v, m) \<leftarrow> classify run i j v m;
                  Some (v\<lparr>top_stack := apply_optimization n (top_stack v)\<rparr>, m)
                } else Some (v, m));
     if failed_test v then Some (v, m) else ST_find_topology run n xs v m
   }"

text \<open>The pairs of a group whose class is not known.\<close>

definition pairs_to_test :: "nat \<Rightarrow> vtop \<Rightarrow> nat \<Rightarrow> nat list" where
  "pairs_to_test n v grp =
     [i * n + j. i \<leftarrow> [0..<n], j \<leftarrow> [i + 1..<n],
        top_stack v i j = 0 \<and> cpu_group_id v i = int grp \<and> cpu_group_id v j = int grp]"

text \<open>
  \<open>MT_find_topology\<close> runs \<open>ST_find_topology\<close> for each group that has such pairs, in a thread of its
  own; here in the order of the groups.
\<close>

fun MT_find_topology ::
    "(nat \<Rightarrow> nat \<Rightarrow> int \<Rightarrow> 'm \<Rightarrow> (u64 list \<times> int) \<times> 'm) \<Rightarrow> nat \<Rightarrow> nat list list \<Rightarrow> vtop \<Rightarrow> 'm \<Rightarrow> (vtop \<times> 'm) option" where
  "MT_find_topology run n [] v m = Some (v, m)"
| "MT_find_topology run n (ps # pss) v m = do {
     (v, m) \<leftarrow> ST_find_topology run n ps v m;
     MT_find_topology run n pss v m
   }"

definition perform_probing ::
    "(nat \<Rightarrow> nat \<Rightarrow> int \<Rightarrow> 'm \<Rightarrow> (u64 list \<times> int) \<times> 'm) \<Rightarrow> nat \<Rightarrow> vtop \<Rightarrow> 'm \<Rightarrow> (vtop \<times> 'm) option" where
  "perform_probing run n v m = do {
     (v, m) \<leftarrow> find_numa_groups run n (v\<lparr>failed_test := False\<rparr>) m;
     let v = v\<lparr>top_stack := apply_optimization n (top_stack v)\<rparr>;
     if nr_numa_groups v = 0 then Some (v, m)
     else MT_find_topology run n (map (pairs_to_test n v) [0..<nr_numa_groups v]) v m
   }"

subsection \<open>Cores\<close>

record core_ids =
  cpu_pair_id :: "nat \<Rightarrow> int"
  cpu_tt_id :: "nat \<Rightarrow> int"
  nr_pair_groups :: nat
  nr_tt_groups :: nat

definition new_ids :: "nat \<Rightarrow> core_ids \<Rightarrow> core_ids" where
  "new_ids i c =
     (let c = (if cpu_pair_id c i = - 1
               then c\<lparr>cpu_pair_id := (cpu_pair_id c)(i := int (nr_pair_groups c)), nr_pair_groups := nr_pair_groups c + 1\<rparr> else c)
      in if cpu_tt_id c i = - 1
         then c\<lparr>cpu_tt_id := (cpu_tt_id c)(i := int (nr_tt_groups c)), nr_tt_groups := nr_tt_groups c + 1\<rparr> else c)"

definition spread_ids :: "matrix \<Rightarrow> nat \<Rightarrow> nat \<Rightarrow> core_ids \<Rightarrow> core_ids" where
  "spread_ids T i j c =
     (let c = (if T i j < 3 \<and> cpu_pair_id c i \<noteq> - 1 then c\<lparr>cpu_pair_id := (cpu_pair_id c)(j := cpu_pair_id c i)\<rparr> else c)
      in if T i j < 2 \<and> cpu_tt_id c i \<noteq> - 1 then c\<lparr>cpu_tt_id := (cpu_tt_id c)(j := cpu_tt_id c i)\<rparr> else c)"

definition parse_topology :: "nat \<Rightarrow> matrix \<Rightarrow> core_ids" where
  "parse_topology n T =
     fold (\<lambda>i c. fold (spread_ids T i) [0..<n] (new_ids i c)) [0..<n]
       \<lparr>cpu_pair_id = (\<lambda>_. - 1), cpu_tt_id = (\<lambda>_. - 1), nr_pair_groups = 0, nr_tt_groups = 0\<rparr>"

subsection \<open>The topology\<close>

definition relation_of :: "vtop \<Rightarrow> core_ids \<Rightarrow> nat \<Rightarrow> nat \<Rightarrow> cpu_relation" where
  "relation_of v c i j =
     (if cpu_tt_id c i = cpu_tt_id c j then CPU_RELATION_SMT
      else if cpu_group_id v i = cpu_group_id v j then CPU_RELATION_SOCKET else CPU_RELATION_REMOTE)"

definition topology_of :: "nat \<Rightarrow> vtop \<Rightarrow> core_ids \<Rightarrow> cpu_topology" where
  "topology_of nprocs v c =
     (let n = LAST_CPU_ID nprocs
      in \<lparr>nr_cpus = nprocs, nr_sockets = int (nr_numa_groups v), nr_cores = int (nr_tt_groups c),
          cpu_to_socket = map (cpu_group_id v) [0..<n], cpu_to_core = map (cpu_tt_id c) [0..<n],
          relation_matrix = map (\<lambda>i. map (relation_of v c i) [0..<n]) [0..<n]\<rparr>)"

fun alloc_all :: "'m hw \<Rightarrow> nat list \<Rightarrow> 'm \<Rightarrow> bool \<times> 'm" where
  "alloc_all h [] m = (True, m)"
| "alloc_all h (n # ns) m = (let (p, m) = os_calloc h n m in if p = None then (False, m) else alloc_all h ns m)"

text \<open>\<open>sp\<close> is the value of \<open>SAMPLE_US\<close>, which is kept from one call to the next.\<close>

definition detect_vcpu_topology ::
    "'m hw \<Rightarrow> (nat \<Rightarrow> nat \<Rightarrow> int \<Rightarrow> 'm \<Rightarrow> (u64 list \<times> int) \<times> 'm) \<Rightarrow> nat \<Rightarrow> sampling \<Rightarrow> 'm
       \<Rightarrow> ((cpu_topology option \<times> sampling) \<times> 'm) option" where
  "detect_vcpu_topology h run nprocs sp m =
     (let n = LAST_CPU_ID nprocs; (ok, m) = alloc_all h (148244 # n * 8 # replicate n (n * 4)) m
      in if \<not> ok then Some ((None, sp), m)
         else do {
           (v, m) \<leftarrow> perform_probing run n
             \<lparr>top_stack = (\<lambda>i j. if i = j then 1 else 0), cpu_group_id = (\<lambda>_. 0), nr_numa_groups = 0,
              failed_test = False, samp = sp\<rparr> m;
           if failed_test v then Some ((None, samp v), m)
           else Some ((Some (topology_of nprocs v (parse_topology n (top_stack v))), samp v), m)
         })"

end
