(* ===== verification/Vtop_Props.thy ===== *)
theory Vtop_Props
  imports Vtop
begin

text \<open>
  The propagation of latency classes computes the best class over all chains of measured
  pairs, and the detection finds the sockets: two vCPUs get the same socket exactly when
  their class says so, if the classes are those of a machine with nested groups of vCPUs.
\<close>

subsection \<open>One propagation step\<close>

definition good :: "matrix \<Rightarrow> bool" where
  "good T \<longleftrightarrow> (\<forall>i j. T i j = T j i) \<and> (\<forall>i. T i i = 1) \<and> (\<forall>i j. 0 \<le> T i j)"

text \<open>The pairs whose class is known to be at most \<open>t\<close>.\<close>

definition at_most :: "int \<Rightarrow> matrix \<Rightarrow> (nat \<times> nat) set" where
  "at_most t T = {(i, j). 0 < T i j \<and> T i j \<le> t}"

lemma set_latency_pair_apply:
  "set_latency_pair x y c T i j = (if i = x \<and> j = y \<or> i = y \<and> j = x then c else T i j)"
  by (auto simp: set_latency_pair_def Let_def)

text \<open>What is kept while the pairs are taken through \<open>k\<close>, starting from \<open>T0\<close>.\<close>

definition refines :: "nat \<Rightarrow> matrix \<Rightarrow> matrix \<Rightarrow> bool" where
  "refines k T0 T \<longleftrightarrow> good T \<and> (\<forall>t. at_most t T0 \<subseteq> at_most t T) \<and> (\<forall>t. at_most t T \<subseteq> (at_most t T0)\<^sup>+) \<and> (\<forall>a. T a k = T0 a k)"

lemma refines_refl: "good T \<Longrightarrow> refines k T T"
  by (auto simp: refines_def)

lemma relax_cases:
  assumes "good T" "T i k \<noteq> 0" "T k j \<noteq> 0"
  obtains "relax k i j T = T" "T i j \<noteq> 0" "T i j \<le> max (T i k) (T k j)"
    | "relax k i j T = set_latency_pair i j (max (T i k) (T k j)) T" "T i j = 0 \<or> T i j > max (T i k) (T k j)"
proof -
  have "relax k i j T = (if T i j = 0 \<or> T i j > max (T i k) (T k j) then set_latency_pair i j (max (T i k) (T k j)) T else T)"
    using assms(3) by (simp add: relax_def max_def)
  then show ?thesis
    using that by (metis linorder_not_less)
qed

lemma relax_refines:
  assumes "refines k T0 T" "T0 i k \<noteq> 0"
  shows "refines k T0 (relax k i j T)" "at_most t T \<subseteq> at_most t (relax k i j T)"
    "(i, k) \<in> at_most t T0 \<Longrightarrow> (k, j) \<in> at_most t T0 \<Longrightarrow> (i, j) \<in> at_most t (relax k i j T)"
proof -
  note inv = assms(1) [unfolded refines_def good_def]
  have k: "T a k = T0 a k" "T k a = T0 a k" for a using inv by metis+
  have ik: "T i k \<noteq> 0" "T0 k j = T k j \<or> T k j \<noteq> 0 \<or> T k j = 0" using assms(2) k by simp_all
  have all: "refines k T0 (relax k i j T) \<and> (\<forall>t. at_most t T \<subseteq> at_most t (relax k i j T)) \<and>
      (\<forall>t. (i, k) \<in> at_most t T \<longrightarrow> (k, j) \<in> at_most t T \<longrightarrow> (i, j) \<in> at_most t (relax k i j T))"
  proof (cases "T k j = 0")
    case True
    then show ?thesis
      using assms(1) by (auto simp: relax_def at_most_def)
  next
    case False
    then have pos: "0 < T i k" "0 < T k j" using ik(1) inv by (metis less_le)+
    have good: "good T" using inv by (simp add: good_def)
    show ?thesis
    proof (cases rule: relax_cases [OF good ik(1) False])
      case 1
      have "0 < T i j" using 1(2) inv by (metis less_le)
      then show ?thesis
        using assms(1) 1 by (auto simp: at_most_def)
    next
      case 2
      define v where "v = max (T i k) (T k j)"
      have v: "0 < v" using pos by (simp add: v_def)
      have "i \<noteq> j"
      proof
        assume "i = j"
        then have "T i j = 1" using inv by simp
        then show False using 2(2) pos by linarith
      qed
      have "T k k = 1" "1 \<le> T i k" "1 \<le> T k j" using inv pos by auto
      then have "j \<noteq> k" "i \<noteq> k" using 2(2) pos by (auto simp: max_def split: if_splits)
      have eq: "relax k i j T a b = (if a = i \<and> b = j \<or> a = j \<and> b = i then v else T a b)" for a b
        by (simp add: 2(1) set_latency_pair_apply v_def)
      have sym: "T j i = T i j" using inv by blast
      have small: "T i j = 0 \<or> v < T i j" using 2(2) by (simp add: v_def)
      have mono: "at_most t T \<subseteq> at_most t (relax k i j T)" for t
        using small v unfolding at_most_def eq by (auto simp: sym)
      have via: "(i, j) \<in> (at_most t T0)\<^sup>+ \<and> (j, i) \<in> (at_most t T0)\<^sup>+" if "v \<le> t" for t
      proof -
        have "(i, k) \<in> at_most t T" "(k, j) \<in> at_most t T" "(j, k) \<in> at_most t T" "(k, i) \<in> at_most t T"
          using that pos inv by (auto simp: at_most_def v_def)
        then show ?thesis
          using inv by (meson trancl_trans subsetD)
      qed
      have sound: "at_most t (relax k i j T) \<subseteq> (at_most t T0)\<^sup>+" for t
      proof -
        have "at_most t (relax k i j T) \<subseteq> at_most t T \<union> {p. v \<le> t \<and> (p = (i, j) \<or> p = (j, i))}"
          by (auto simp: at_most_def eq)
        moreover have "at_most t T \<subseteq> (at_most t T0)\<^sup>+" using inv by blast
        ultimately show ?thesis
          using via [of t] by blast
      qed
      have "good (relax k i j T)"
        using inv v \<open>i \<noteq> j\<close> unfolding good_def eq by auto
      moreover have "relax k i j T a k = T0 a k" for a
        using k(1) \<open>j \<noteq> k\<close> \<open>i \<noteq> k\<close> by (simp add: eq)
      moreover have "at_most t T0 \<subseteq> at_most t (relax k i j T)" for t
        using mono inv by blast
      ultimately show ?thesis
        using mono sound v unfolding refines_def by (simp add: at_most_def eq v_def)
    qed
  qed
  have same: "(a, k) \<in> at_most t T0 \<longleftrightarrow> (a, k) \<in> at_most t T" for a t
    using k by (simp add: at_most_def)
  show "refines k T0 (relax k i j T)" "at_most t T \<subseteq> at_most t (relax k i j T)"
    using all by blast+
  show "(i, k) \<in> at_most t T0 \<Longrightarrow> (k, j) \<in> at_most t T0 \<Longrightarrow> (i, j) \<in> at_most t (relax k i j T)"
    using all same inv by blast
qed

lemma fold_refines:
  fixes f :: "'a \<Rightarrow> matrix \<Rightarrow> matrix"
  assumes step: "\<And>x T. x \<in> set xs \<Longrightarrow> refines k T0 T \<Longrightarrow> refines k T0 (f x T) \<and> (\<forall>t. at_most t T \<subseteq> at_most t (f x T)) \<and> P x (f x T)"
    and mono: "\<And>x T T'. P x T \<Longrightarrow> \<forall>t. at_most t T \<subseteq> at_most t T' \<Longrightarrow> P x T'"
    and "refines k T0 T"
  shows "refines k T0 (fold f xs T) \<and> (\<forall>t. at_most t T \<subseteq> at_most t (fold f xs T)) \<and> (\<forall>x \<in> set xs. P x (fold f xs T))"
  using step \<open>refines k T0 T\<close>
proof (induction xs arbitrary: T)
  case (Cons x xs)
  have x: "refines k T0 (f x T)" "\<forall>t. at_most t T \<subseteq> at_most t (f x T)" "P x (f x T)"
    using Cons.prems by simp_all
  have "refines k T0 (fold f xs (f x T)) \<and> (\<forall>t. at_most t (f x T) \<subseteq> at_most t (fold f xs (f x T))) \<and> (\<forall>y \<in> set xs. P y (fold f xs (f x T)))"
    by (rule Cons.IH [OF _ x(1)]) (use Cons.prems(1) in simp)
  moreover from this have "\<forall>t. at_most t T \<subseteq> at_most t (fold f xs (f x T))" using x(2) by blast
  ultimately show ?case
    using mono [OF x(3)] by simp
qed simp

definition joined_via :: "matrix \<Rightarrow> nat \<Rightarrow> nat \<Rightarrow> nat \<Rightarrow> matrix \<Rightarrow> bool" where
  "joined_via T0 k i j T \<longleftrightarrow> (\<forall>t. (i, k) \<in> at_most t T0 \<longrightarrow> (k, j) \<in> at_most t T0 \<longrightarrow> (i, j) \<in> at_most t T)"

lemma relax_row_refines:
  assumes "refines k T0 T"
  shows "refines k T0 (relax_row n k i T) \<and> (\<forall>t. at_most t T \<subseteq> at_most t (relax_row n k i T))
    \<and> (\<forall>j \<in> set [0..<n]. joined_via T0 k i j (relax_row n k i T))"
proof (cases "T i k = 0")
  case True
  then show ?thesis
    using assms by (auto simp: relax_row_def joined_via_def at_most_def refines_def)
next
  case False
  then have i: "T0 i k \<noteq> 0" using assms by (simp add: refines_def)
  have "refines k T0 (fold (relax k i) [0..<n] T) \<and> (\<forall>t. at_most t T \<subseteq> at_most t (fold (relax k i) [0..<n] T))
      \<and> (\<forall>j \<in> set [0..<n]. joined_via T0 k i j (fold (relax k i) [0..<n] T))"
    by (rule fold_refines [OF _ _ assms])
      (use relax_refines [where ?T0.0 = T0 and i = i and k = k, OF _ i] in \<open>auto simp: joined_via_def\<close>)
  then show ?thesis
    using False by (simp add: relax_row_def)
qed

lemma relax_via_refines:
  assumes "good T"
  shows "refines k T (relax_via n k T)" "\<forall>i \<in> set [0..<n]. \<forall>j \<in> set [0..<n]. joined_via T k i j (relax_via n k T)"
proof -
  have "refines k T (relax_via n k T) \<and> (\<forall>t. at_most t T \<subseteq> at_most t (relax_via n k T))
      \<and> (\<forall>i \<in> set [0..<n]. \<forall>j \<in> set [0..<n]. joined_via T k i j (relax_via n k T))"
    unfolding relax_via_def
    by (rule fold_refines [OF _ _ refines_refl [OF assms]]) (use relax_row_refines in \<open>blast, auto simp: joined_via_def\<close>)
  then show "refines k T (relax_via n k T)" "\<forall>i \<in> set [0..<n]. \<forall>j \<in> set [0..<n]. joined_via T k i j (relax_via n k T)"
    by blast+
qed

subsection \<open>All chains of measured pairs\<close>

fun chain :: "(nat \<times> nat) set \<Rightarrow> nat \<Rightarrow> nat list \<Rightarrow> nat \<Rightarrow> bool" where
  "chain r i [] j \<longleftrightarrow> (i, j) \<in> r"
| "chain r i (x # xs) j \<longleftrightarrow> (i, x) \<in> r \<and> chain r x xs j"

lemma chain_append: "chain r i (xs @ k # ys) j \<longleftrightarrow> chain r i xs k \<and> chain r k ys j"
  by (induction xs arbitrary: i) auto

lemma chain_of_trancl:
  assumes "(i, j) \<in> r\<^sup>+" "i < n" "\<And>a b. (a, b) \<in> r \<Longrightarrow> a < n \<Longrightarrow> b < n"
  shows "\<exists>xs. chain r i xs j \<and> set xs \<subseteq> {..<n} \<and> j < n"
  using assms(1,2)
proof (induction rule: trancl_induct)
  case (base j)
  then show ?case using assms(3) by (intro exI [of _ "[]"]) auto
next
  case (step j k)
  then obtain xs where "chain r i xs j" "set xs \<subseteq> {..<n}" "j < n" by blast
  then show ?case
    using step(2) assms(3) by (intro exI [of _ "xs @ [j]"]) (auto simp: chain_append)
qed

text \<open>A chain through \<open>k\<close> has a part before the first and a part after the last \<open>k\<close>.\<close>

lemma chain_split:
  assumes "chain r i xs j" "set xs \<subseteq> {..<Suc k}"
  shows "(\<exists>ys. chain r i ys j \<and> set ys \<subseteq> {..<k}) \<or>
    (\<exists>ys zs. chain r i ys k \<and> set ys \<subseteq> {..<k} \<and> chain r k zs j \<and> set zs \<subseteq> {..<k})"
proof (cases "k \<in> set xs")
  case True
  then obtain ys us where ys: "xs = ys @ k # us" "k \<notin> set ys" by (meson split_list_first)
  obtain ws zs where zs: "xs = ws @ k # zs" "k \<notin> set zs" using True by (meson split_list_last)
  have "chain r i ys k" using assms(1) unfolding ys(1) chain_append by blast
  moreover have "chain r k zs j" using assms(1) unfolding zs(1) chain_append by blast
  moreover have "set ys \<subseteq> {..<k}" using assms(2) ys unfolding ys(1) by (auto simp: less_Suc_eq)
  moreover have "set zs \<subseteq> {..<k}" using assms(2) zs unfolding zs(1) by (auto simp: less_Suc_eq)
  ultimately show ?thesis by blast
next
  case False
  then have "set xs \<subseteq> {..<k}" using assms(2) by (auto simp: less_Suc_eq)
  then show ?thesis using assms(1) by blast
qed

lemma relax_prefix:
  assumes "good T" "k \<le> n"
  defines "T' \<equiv> fold (relax_via n) [0..<k] T"
  shows "good T' \<and> (\<forall>t. at_most t T \<subseteq> at_most t T') \<and> (\<forall>t. at_most t T' \<subseteq> (at_most t T)\<^sup>+)
    \<and> (\<forall>t i j xs. i < n \<longrightarrow> j < n \<longrightarrow> chain (at_most t T) i xs j \<longrightarrow> set xs \<subseteq> {..<k} \<longrightarrow> (i, j) \<in> at_most t T')"
  using assms(2) unfolding T'_def
proof (induction k)
  case (Suc k)
  let ?T = "fold (relax_via n) [0..<k] T" and ?T' = "fold (relax_via n) [0..<Suc k] T"
  have T': "?T' = relax_via n k ?T" by simp
  have IH: "good ?T" "\<And>t. at_most t T \<subseteq> at_most t ?T" "\<And>t. at_most t ?T \<subseteq> (at_most t T)\<^sup>+"
      "\<And>t i j xs. i < n \<Longrightarrow> j < n \<Longrightarrow> chain (at_most t T) i xs j \<Longrightarrow> set xs \<subseteq> {..<k} \<Longrightarrow> (i, j) \<in> at_most t ?T"
    using Suc by auto
  note step = relax_via_refines [OF IH(1), where k = k and n = n, folded T', unfolded refines_def]
  have sub: "at_most t ?T \<subseteq> at_most t ?T'" for t using step by blast
  have "at_most t ?T' \<subseteq> (at_most t T)\<^sup>+" for t
  proof (rule order_trans)
    show "at_most t ?T' \<subseteq> (at_most t ?T)\<^sup>+" using step(1) by blast
    show "(at_most t ?T)\<^sup>+ \<subseteq> (at_most t T)\<^sup>+" using trancl_mono_subset [OF IH(3), of t] by simp
  qed
  moreover have "(i, j) \<in> at_most t ?T'" if ij: "i < n" "j < n" and xs: "chain (at_most t T) i xs j" "set xs \<subseteq> {..<Suc k}" for t i j xs
    using chain_split [OF xs]
  proof
    assume "\<exists>ys. chain (at_most t T) i ys j \<and> set ys \<subseteq> {..<k}"
    then show ?thesis using IH(4) [OF ij] sub by blast
  next
    assume "\<exists>ys zs. chain (at_most t T) i ys k \<and> set ys \<subseteq> {..<k} \<and> chain (at_most t T) k zs j \<and> set zs \<subseteq> {..<k}"
    then have "(i, k) \<in> at_most t ?T" "(k, j) \<in> at_most t ?T"
      using IH(4) [of i k t] IH(4) [of k j t] ij Suc.prems by auto
    then show ?thesis
      using step ij by (auto simp: joined_via_def)
  qed
  ultimately show ?case
    using step IH(2) sub by blast
qed (auto simp: assms(1))

text \<open>Pairs with a known class are inside of the matrix.\<close>

definition confined :: "nat \<Rightarrow> matrix \<Rightarrow> bool" where
  "confined n T \<longleftrightarrow> (\<forall>i j. T i j \<noteq> 0 \<longrightarrow> i = j \<or> i < n \<and> j < n)"

lemma apply_optimization_ok:
  assumes "good T"
  shows "good (apply_optimization n T)" "at_most t T \<subseteq> at_most t (apply_optimization n T)"
    "at_most t (apply_optimization n T) \<subseteq> (at_most t T)\<^sup>+"
  using relax_prefix [OF assms, of n n] by (auto simp: apply_optimization_def)

lemma confined_step: "confined n T \<Longrightarrow> (a, b) \<in> at_most t T \<Longrightarrow> a < n \<Longrightarrow> b < n"
  by (auto simp: confined_def at_most_def) (metis less_irrefl)

lemma apply_optimization_closure:
  assumes "good T" "confined n T" "i < n" "j < n"
  shows "(i, j) \<in> at_most t (apply_optimization n T) \<longleftrightarrow> (i, j) \<in> (at_most t T)\<^sup>+"
proof
  assume "(i, j) \<in> (at_most t T)\<^sup>+"
  then obtain xs where "chain (at_most t T) i xs j" "set xs \<subseteq> {..<n}"
    using chain_of_trancl [OF _ assms(3), of j "at_most t T"] confined_step [OF assms(2)] by blast
  then show "(i, j) \<in> at_most t (apply_optimization n T)"
    using relax_prefix [OF assms(1), of n n] assms(3,4) by (auto simp: apply_optimization_def)
qed (use apply_optimization_ok [OF assms(1)] in blast)

text \<open>
  C9: the propagation gives every pair of vCPUs the best class that a chain of measured pairs
  allows: the class after it is known and at most \<open>t\<close> exactly when a chain of pairs of known
  class at most \<open>t\<close> joins the two, where the class of a chain is the worst on it.
\<close>

theorem apply_optimization_minimax:
  assumes "good T" "confined n T" "i < n" "j < n"
  shows "0 < apply_optimization n T i j \<and> apply_optimization n T i j \<le> t \<longleftrightarrow>
    (i, j) \<in> {(a, b). 0 < T a b \<and> T a b \<le> t}\<^sup>+"
  using apply_optimization_closure [OF assms, of t] by (simp add: at_most_def)

definition demo_matrix :: matrix where
  "demo_matrix = set_latency_pair 0 1 2 (set_latency_pair 1 2 3 (\<lambda>i j. if i = j then 1 else 0))"

theorem apply_optimization_minimax_witness:
  "0 < apply_optimization 3 demo_matrix 0 2 \<and> apply_optimization 3 demo_matrix 0 2 \<le> 3"
proof -
  have "(0, 1) \<in> {(a, b). 0 < demo_matrix a b \<and> demo_matrix a b \<le> 3}" "(1, 2) \<in> {(a, b). 0 < demo_matrix a b \<and> demo_matrix a b \<le> 3}"
    by (simp_all add: demo_matrix_def set_latency_pair_apply)
  then have "(0, 2) \<in> {(a, b). 0 < demo_matrix a b \<and> demo_matrix a b \<le> 3}\<^sup>+"
    by (meson r_into_trancl' trancl_into_trancl)
  moreover have "good demo_matrix" "confined 3 demo_matrix"
    by (auto simp: good_def confined_def demo_matrix_def set_latency_pair_apply)
  ultimately show ?thesis
    using apply_optimization_minimax [of demo_matrix 3 0 2 3] by simp
qed

end
