(* ===== verification/Vtop_Sockets.thy ===== *)
theory Vtop_Sockets
  imports Vtop_Props
begin

text \<open>
  The detection on a machine whose vCPUs form nested groups: the classes of the pairs are an
  ultrametric \<open>D\<close>, as hardware threads of a core, cores of a cluster and sockets give it, and
  each measurement returns a latency of the class of its pair.
\<close>

lemma alloc_all_ok: "(\<And>sz m. fst (os_calloc h sz m) \<noteq> None) \<Longrightarrow> fst (alloc_all h ns m)"
proof (induction ns arbitrary: m)
  case (Cons k ns)
  then show ?case using Cons.prems [of k m] by (cases "os_calloc h k m") simp
qed simp

locale nested_groups =
  fixes run :: "nat \<Rightarrow> nat \<Rightarrow> int \<Rightarrow> 'm \<Rightarrow> (u64 list \<times> int) \<times> 'm" and D :: matrix and n :: nat
  assumes measured: "i < n \<Longrightarrow> j < n \<Longrightarrow> i \<noteq> j \<Longrightarrow>
      \<exists>lat sp' m'. measure_latency_pair run i j sp m = Some ((lat, sp'), m') \<and> get_latency_class lat = D i j"
    and D_refl: "D i i = 1" and D_sym: "D i j = D j i" and D_range: "1 \<le> D i j \<and> D i j \<le> 4"
    and D_ultra: "D i k \<le> max (D i j) (D j k)"
begin

lemma same_socket_trans: "D i j < 4 \<Longrightarrow> D j k < 4 \<Longrightarrow> D i k < 4"
  using D_ultra [of i k j] by linarith

text \<open>Known classes are right.\<close>

definition known_ok :: "matrix \<Rightarrow> bool" where
  "known_ok T \<longleftrightarrow> good T \<and> confined n T \<and> (\<forall>i j. T i j \<noteq> 0 \<longrightarrow> T i j = D i j)"

lemma known_ok_set:
  assumes "known_ok T" "i < n" "j < n" "i \<noteq> j"
  shows "known_ok (set_latency_pair i j (D i j) T)"
proof -
  have "0 \<le> D i j" using D_range [of i j] by simp
  then show ?thesis
    using assms D_sym unfolding known_ok_def good_def confined_def set_latency_pair_apply by (auto; metis)
qed

lemma classify_ok:
  assumes "known_ok (top_stack v)" "i < n" "j < n"
  obtains v' m' where "classify run i j v m = Some (v', m')" "known_ok (top_stack v')" "top_stack v' i j = D i j"
    "cpu_group_id v' = cpu_group_id v" "nr_numa_groups v' = nr_numa_groups v" "failed_test v' = failed_test v"
    "\<And>a b. top_stack v a b \<noteq> 0 \<Longrightarrow> top_stack v' a b \<noteq> 0"
    "\<And>a b. top_stack v' a b \<noteq> 0 \<Longrightarrow> top_stack v a b \<noteq> 0 \<or> a = i \<or> b = i"
proof (cases "top_stack v i j = 0")
  case True
  then have ij: "i \<noteq> j" using assms(1) by (auto simp: known_ok_def good_def)
  obtain lat sp' m' where lat: "measure_latency_pair run i j (samp v) m = Some ((lat, sp'), m')" "get_latency_class lat = D i j"
    using measured [OF assms(2,3) ij] by blast
  let ?v = "v\<lparr>top_stack := set_latency_pair i j (D i j) (top_stack v), samp := sp'\<rparr>"
  have "D i j \<noteq> 0" using D_range [of i j] by simp
  then have "top_stack v a b \<noteq> 0 \<Longrightarrow> top_stack ?v a b \<noteq> 0" for a b
    by (simp add: set_latency_pair_apply)
  moreover have "top_stack ?v a b \<noteq> 0 \<Longrightarrow> top_stack v a b \<noteq> 0 \<or> a = i \<or> b = i" for a b
    by (auto simp: set_latency_pair_apply split: if_splits)
  ultimately show ?thesis
    using that [of ?v m'] known_ok_set [OF assms(1-3) ij] True lat by (simp add: classify_def set_latency_pair_apply)
next
  case False
  then show ?thesis
    using that [of v m] assms(1) by (simp add: classify_def known_ok_def)
qed

lemma group_members_ok:
  assumes "known_ok (top_stack v)" "i < n" "set js \<subseteq> {..<n}"
  shows "\<exists>v' m'. group_members run i js v m = Some (v', m') \<and> known_ok (top_stack v')
    \<and> cpu_group_id v' = (\<lambda>j. if j \<in> set js \<and> cpu_group_id v j = - 1 \<and> D i j < 4 then int (nr_numa_groups v) else cpu_group_id v j)
    \<and> nr_numa_groups v' = nr_numa_groups v \<and> failed_test v' = failed_test v
    \<and> (\<forall>j \<in> set js. cpu_group_id v j = - 1 \<longrightarrow> top_stack v' i j \<noteq> 0)
    \<and> (\<forall>a b. top_stack v a b \<noteq> 0 \<longrightarrow> top_stack v' a b \<noteq> 0)
    \<and> (\<forall>a b. top_stack v' a b \<noteq> 0 \<longrightarrow> top_stack v a b \<noteq> 0 \<or> a = i \<or> b = i)"
  using assms
proof (induction js arbitrary: v m)
  case (Cons j js)
  show ?case
  proof (cases "cpu_group_id v j = - 1")
    case False
    obtain v' m' where "group_members run i js v m = Some (v', m')" "known_ok (top_stack v')"
      "cpu_group_id v' = (\<lambda>j. if j \<in> set js \<and> cpu_group_id v j = - 1 \<and> D i j < 4 then int (nr_numa_groups v) else cpu_group_id v j)"
      "nr_numa_groups v' = nr_numa_groups v" "failed_test v' = failed_test v"
      "\<forall>j \<in> set js. cpu_group_id v j = - 1 \<longrightarrow> top_stack v' i j \<noteq> 0" "\<forall>a b. top_stack v a b \<noteq> 0 \<longrightarrow> top_stack v' a b \<noteq> 0"
      "\<forall>a b. top_stack v' a b \<noteq> 0 \<longrightarrow> top_stack v a b \<noteq> 0 \<or> a = i \<or> b = i"
      using Cons.IH [of v m] Cons.prems by auto
    then show ?thesis
      using False by (intro exI [of _ v'] exI [of _ m']) auto
  next
    case True
    obtain v1 m1 where v1: "classify run i j v m = Some (v1, m1)" "known_ok (top_stack v1)" "top_stack v1 i j = D i j"
        "cpu_group_id v1 = cpu_group_id v" "nr_numa_groups v1 = nr_numa_groups v" "failed_test v1 = failed_test v"
        "\<And>a b. top_stack v a b \<noteq> 0 \<Longrightarrow> top_stack v1 a b \<noteq> 0"
        "\<And>a b. top_stack v1 a b \<noteq> 0 \<Longrightarrow> top_stack v a b \<noteq> 0 \<or> a = i \<or> b = i"
      using classify_ok [of v i j m] Cons.prems by auto
    define v2 where "v2 = (if top_stack v1 i j < 4 then v1\<lparr>cpu_group_id := (cpu_group_id v1)(j := int (nr_numa_groups v1))\<rparr> else v1)"
    have v2: "known_ok (top_stack v2)" "top_stack v2 = top_stack v1" "nr_numa_groups v2 = nr_numa_groups v" "failed_test v2 = failed_test v"
        "cpu_group_id v2 = (cpu_group_id v)(j := if D i j < 4 then int (nr_numa_groups v) else - 1)"
      using v1 True by (auto simp: v2_def)
    obtain v' m' where v': "group_members run i js v2 m1 = Some (v', m')" "known_ok (top_stack v')"
      "cpu_group_id v' = (\<lambda>j. if j \<in> set js \<and> cpu_group_id v2 j = - 1 \<and> D i j < 4 then int (nr_numa_groups v2) else cpu_group_id v2 j)"
      "nr_numa_groups v' = nr_numa_groups v2" "failed_test v' = failed_test v2"
      "\<forall>j \<in> set js. cpu_group_id v2 j = - 1 \<longrightarrow> top_stack v' i j \<noteq> 0" "\<forall>a b. top_stack v2 a b \<noteq> 0 \<longrightarrow> top_stack v' a b \<noteq> 0"
      "\<forall>a b. top_stack v' a b \<noteq> 0 \<longrightarrow> top_stack v2 a b \<noteq> 0 \<or> a = i \<or> b = i"
      using Cons.IH [of v2 m1] Cons.prems v2 by auto
    have "group_members run i (j # js) v m = Some (v', m')"
      using True v1 v'(1) by (simp add: v2_def)
    moreover have "top_stack v' i j \<noteq> 0"
      using v'(7) v2(2) v1(3) D_range [of i j] by auto
    then have "\<forall>b \<in> set (j # js). cpu_group_id v b = - 1 \<longrightarrow> top_stack v' i b \<noteq> 0"
      using v'(6) unfolding v2(5) by (metis fun_upd_apply set_ConsD)
    moreover have "\<forall>a b. top_stack v a b \<noteq> 0 \<longrightarrow> top_stack v' a b \<noteq> 0"
      using v'(7) v1(7) v2(2) by simp
    moreover have "\<forall>a b. top_stack v' a b \<noteq> 0 \<longrightarrow> top_stack v a b \<noteq> 0 \<or> a = i \<or> b = i"
      using v'(8) v1(8) v2(2) by metis
    moreover have "cpu_group_id v' = (\<lambda>b. if b \<in> set (j # js) \<and> cpu_group_id v b = - 1 \<and> D i b < 4
        then int (nr_numa_groups v) else cpu_group_id v b)"
      unfolding v'(3) v2(3,5) using True by (auto simp: fun_eq_iff)
    moreover have "nr_numa_groups v' = nr_numa_groups v" "failed_test v' = failed_test v"
      using v' v2 by simp_all
    ultimately show ?thesis
      using v'(2) by blast
  qed
qed simp

text \<open>
  The groups so far: \<open>ls\<close> are their first members, and a group holds the vCPUs of the socket
  of its first member. The first vCPU has been measured against all; only pairs with a first
  member have been measured.
\<close>

definition groups_ok :: "nat list \<Rightarrow> vtop \<Rightarrow> bool" where
  "groups_ok ls v \<longleftrightarrow> known_ok (top_stack v) \<and> nr_numa_groups v = length ls \<and> (\<forall>l \<in> set ls. l < n)
     \<and> (\<forall>j < n. \<forall>k < length ls. cpu_group_id v j = int k \<longleftrightarrow> D (ls ! k) j < 4)
     \<and> (\<forall>j < n. cpu_group_id v j = - 1 \<or> (\<exists>k < length ls. cpu_group_id v j = int k))
     \<and> (ls \<noteq> [] \<longrightarrow> ls ! 0 = 0 \<and> (\<forall>j < n. top_stack v 0 j \<noteq> 0))
     \<and> (\<forall>a b. top_stack v a b \<noteq> 0 \<longrightarrow> a = b \<or> a \<in> set ls \<or> b \<in> set ls) \<and> \<not> failed_test v"

lemma new_group:
  assumes "groups_ok ls v" "i < n" "cpu_group_id v i = - 1" "ls = [] \<Longrightarrow> i = 0"
  shows "\<exists>v' m'. group_members run i [0..<n] (v\<lparr>cpu_group_id := (cpu_group_id v)(i := int (nr_numa_groups v))\<rparr>) m = Some (v', m')
    \<and> groups_ok (ls @ [i]) (v'\<lparr>nr_numa_groups := nr_numa_groups v' + 1\<rparr>)
    \<and> (\<forall>j < n. cpu_group_id v j \<noteq> - 1 \<longrightarrow> cpu_group_id v' j \<noteq> - 1) \<and> cpu_group_id v' i \<noteq> - 1"
proof -
  note inv = assms(1) [unfolded groups_ok_def]
  have g1: "cpu_group_id v j = int k \<longleftrightarrow> D (ls ! k) j < 4" if "j < n" "k < length ls" for j k
    using inv that by simp
  have g2: "cpu_group_id v j = - 1 \<or> (\<exists>k < length ls. cpu_group_id v j = int k)" if "j < n" for j
    using inv that by simp
  let ?v = "v\<lparr>cpu_group_id := (cpu_group_id v)(i := int (nr_numa_groups v))\<rparr>"
  obtain v' m' where v': "group_members run i [0..<n] ?v m = Some (v', m')" "known_ok (top_stack v')"
      "cpu_group_id v' = (\<lambda>j. if j \<in> set [0..<n] \<and> cpu_group_id ?v j = - 1 \<and> D i j < 4 then int (nr_numa_groups ?v) else cpu_group_id ?v j)"
      "nr_numa_groups v' = nr_numa_groups ?v" "failed_test v' = failed_test ?v"
      "\<forall>j \<in> set [0..<n]. cpu_group_id ?v j = - 1 \<longrightarrow> top_stack v' i j \<noteq> 0" "\<forall>a b. top_stack ?v a b \<noteq> 0 \<longrightarrow> top_stack v' a b \<noteq> 0"
      "\<forall>a b. top_stack v' a b \<noteq> 0 \<longrightarrow> top_stack ?v a b \<noteq> 0 \<or> a = i \<or> b = i"
    using group_members_ok [of ?v i "[0..<n]" m] inv assms(2) by (auto simp: subset_iff)
  have grp: "cpu_group_id v' j = (if j = i \<or> cpu_group_id v j = - 1 \<and> D i j < 4 then int (length ls) else cpu_group_id v j)" if "j < n" for j
    using that inv by (auto simp: v'(3))
  have far: "\<not> D (ls ! k) i < 4" if "k < length ls" for k
    using g1 [OF assms(2) that] assms(3) by simp
  have old: "\<not> D i j < 4" if j: "j < n" "cpu_group_id v j \<noteq> - 1" for j
  proof
    assume "D i j < 4"
    moreover obtain k where k: "k < length ls" "D (ls ! k) j < 4"
      using g2 [OF j(1)] g1 [OF j(1)] j(2) by auto
    ultimately show False
      using far [OF k(1)] same_socket_trans [OF k(2), of i] D_sym [of i j] by simp
  qed
  have "\<forall>j < n. \<forall>k < length (ls @ [i]). cpu_group_id v' j = int k \<longleftrightarrow> D ((ls @ [i]) ! k) j < 4"
  proof (intro allI impI)
    fix j k assume j: "j < n" and k: "k < length (ls @ [i])"
    show "cpu_group_id v' j = int k \<longleftrightarrow> D ((ls @ [i]) ! k) j < 4"
    proof (cases "k < length ls")
      case True
      have "\<not> D (ls ! k) j < 4" if "D i j < 4"
        using far [OF True] same_socket_trans [of "ls ! k" j i] that D_sym [of j i] by auto
      then show ?thesis
        using g1 [OF j True] True j far [OF True] by (auto simp: grp nth_append)
    next
      case False
      then have "k = length ls" using k by simp
      moreover have "cpu_group_id v j \<noteq> int (length ls)" using g2 [OF j] by auto
      ultimately show ?thesis
        using old [OF j] D_refl [of i] by (auto simp: grp j)
    qed
  qed
  moreover have "\<forall>j < n. cpu_group_id v' j = - 1 \<or> (\<exists>k < length (ls @ [i]). cpu_group_id v' j = int k)"
    using g2 by (auto simp: grp less_Suc_eq)
  moreover have "top_stack v' 0 j \<noteq> 0" if "j < n" for j
  proof (cases "ls = []")
    case True
    then have "i = 0" "cpu_group_id v j = - 1" using assms(4) g2 [OF that] by auto
    moreover have "top_stack v' 0 0 \<noteq> 0" using v'(2) by (simp add: known_ok_def good_def)
    ultimately show ?thesis using v'(6) that by (cases "j = 0") auto
  next
    case False
    then show ?thesis using v'(7) inv that by simp
  qed
  moreover have "\<forall>a b. top_stack v' a b \<noteq> 0 \<longrightarrow> a = b \<or> a \<in> set (ls @ [i]) \<or> b \<in> set (ls @ [i])"
  proof (intro allI impI)
    fix a b assume "top_stack v' a b \<noteq> 0"
    then have "top_stack v a b \<noteq> 0 \<or> a = i \<or> b = i" using v'(8) by simp
    moreover have "top_stack v a b \<noteq> 0 \<Longrightarrow> a = b \<or> a \<in> set ls \<or> b \<in> set ls" using inv by blast
    ultimately show "a = b \<or> a \<in> set (ls @ [i]) \<or> b \<in> set (ls @ [i])" by auto
  qed
  moreover have "(ls @ [i]) ! 0 = 0" using inv assms(4) by (cases ls) auto
  moreover have "\<forall>l \<in> set (ls @ [i]). l < n" using inv assms(2) by auto
  ultimately have "groups_ok (ls @ [i]) (v'\<lparr>nr_numa_groups := nr_numa_groups v' + 1\<rparr>)"
    using v'(2,4,5) inv by (simp add: groups_ok_def)
  then show ?thesis
    using v'(1) grp assms(2) by (intro exI [of _ v'] exI [of _ m']) auto
qed

lemma group_leaders_ok:
  assumes "groups_ok ls v" "set is' \<subseteq> {..<n}" "ls = [] \<Longrightarrow> is' = [] \<or> hd is' = 0"
  shows "\<exists>ls' v' m'. group_leaders run n is' v m = Some (v', m') \<and> groups_ok ls' v'
    \<and> (\<forall>j < n. cpu_group_id v j \<noteq> - 1 \<longrightarrow> cpu_group_id v' j \<noteq> - 1) \<and> (\<forall>i \<in> set is'. cpu_group_id v' i \<noteq> - 1)"
  using assms
proof (induction is' arbitrary: ls v m)
  case (Cons i is')
  show ?case
  proof (cases "cpu_group_id v i = - 1")
    case True
    have i: "i < n" "ls = [] \<Longrightarrow> i = 0" using Cons.prems by auto
    obtain v1 m1 where v1: "group_members run i [0..<n] (v\<lparr>cpu_group_id := (cpu_group_id v)(i := int (nr_numa_groups v))\<rparr>) m = Some (v1, m1)"
        "groups_ok (ls @ [i]) (v1\<lparr>nr_numa_groups := nr_numa_groups v1 + 1\<rparr>)"
        "\<forall>j < n. cpu_group_id v j \<noteq> - 1 \<longrightarrow> cpu_group_id v1 j \<noteq> - 1" "cpu_group_id v1 i \<noteq> - 1"
      using new_group [OF Cons.prems(1) i(1) True i(2)] by blast
    obtain ls' v' m' where "group_leaders run n is' (v1\<lparr>nr_numa_groups := nr_numa_groups v1 + 1\<rparr>) m1 = Some (v', m')" "groups_ok ls' v'"
        "\<forall>j < n. cpu_group_id v1 j \<noteq> - 1 \<longrightarrow> cpu_group_id v' j \<noteq> - 1" "\<forall>i \<in> set is'. cpu_group_id v' i \<noteq> - 1"
      using Cons.IH [OF v1(2), of m1] Cons.prems(2) by auto
    then show ?thesis
      using True v1 i(1) by (intro exI [of _ ls'] exI [of _ v'] exI [of _ m']) simp
  next
    case False
    then have "ls \<noteq> []" using Cons.prems by (auto simp: groups_ok_def)
    then obtain ls' v' m' where "group_leaders run n is' v m = Some (v', m')" "groups_ok ls' v'"
        "\<forall>j < n. cpu_group_id v j \<noteq> - 1 \<longrightarrow> cpu_group_id v' j \<noteq> - 1" "\<forall>i \<in> set is'. cpu_group_id v' i \<noteq> - 1"
      using Cons.IH [OF Cons.prems(1), of m] Cons.prems(2) by auto
    then show ?thesis
      using False Cons.prems(2) by (intro exI [of _ ls'] exI [of _ v'] exI [of _ m']) simp
  qed
qed auto

text \<open>The classes after the propagation: all known, none better than the real one.\<close>

definition classes_ok :: "matrix \<Rightarrow> bool" where
  "classes_ok T \<longleftrightarrow> good T \<and> (\<forall>i < n. \<forall>j < n. T i j \<noteq> 0 \<and> D i j \<le> T i j)
     \<and> (\<forall>i < n. \<forall>j < n. \<forall>k < n. \<forall>t. T i j \<le> t \<longrightarrow> T j k \<le> t \<longrightarrow> T i k \<le> t)"

lemma chain_class: "(i, j) \<in> (at_most t T)\<^sup>+ \<Longrightarrow> \<forall>a b. T a b \<noteq> 0 \<longrightarrow> D a b \<le> T a b \<Longrightarrow> D i j \<le> t"
proof (induction rule: trancl_induct)
  case (base j)
  then show ?case by (auto simp: at_most_def) (metis less_irrefl order_trans)
next
  case (step j k)
  then have "D j k \<le> t" by (auto simp: at_most_def) (metis less_irrefl order_trans)
  then show ?case using step D_ultra [of i k j] by simp
qed

lemma propagated:
  assumes "known_ok T" "\<And>j. j < n \<Longrightarrow> T 0 j \<noteq> 0" "0 < n"
  shows "classes_ok (apply_optimization n (apply_optimization n T))"
    "i < n \<Longrightarrow> j < n \<Longrightarrow> apply_optimization n (apply_optimization n T) i j \<le> t \<Longrightarrow> (i, j) \<in> (at_most t T)\<^sup>+"
proof -
  let ?T = "apply_optimization n T" and ?T' = "apply_optimization n (apply_optimization n T)"
  have T: "good T" "confined n T" "\<forall>a b. T a b \<noteq> 0 \<longrightarrow> D a b \<le> T a b"
    using assms(1) by (auto simp: known_ok_def)
  have pos: "(a, b) \<in> at_most (T' a b) T' \<longleftrightarrow> T' a b \<noteq> 0" if "good T'" for T' and a b
    using that by (auto simp: at_most_def good_def) (metis less_le)
  note one = apply_optimization_ok [OF T(1), where n = n]
  note two = apply_optimization_ok [OF one(1), where n = n]
  have same: "(i, j) \<in> at_most t ?T' \<longleftrightarrow> (i, j) \<in> (at_most t T)\<^sup>+" if "i < n" "j < n" for i j t
  proof
    assume "(i, j) \<in> at_most t ?T'"
    then have "(i, j) \<in> (at_most t ?T)\<^sup>+" using two(3) [of t] by blast
    then show "(i, j) \<in> (at_most t T)\<^sup>+" using trancl_mono_subset [OF one(3), of t] by auto
  next
    assume "(i, j) \<in> (at_most t T)\<^sup>+"
    then have "(i, j) \<in> at_most t ?T" using apply_optimization_closure [OF T(1,2) that] by blast
    then show "(i, j) \<in> at_most t ?T'" using two(2) by blast
  qed
  have known: "?T' i j \<noteq> 0" if "i < n" "j < n" for i j
  proof -
    have "T i 0 \<noteq> 0" "T 0 j \<noteq> 0" using assms(2) [OF that(1)] assms(2) [OF that(2)] T(1) by (auto simp: good_def)
    then have "(i, 0) \<in> at_most (max (T i 0) (T 0 j)) T" "(0, j) \<in> at_most (max (T i 0) (T 0 j)) T"
      using T(1) by (auto simp: at_most_def good_def) (metis less_le)+
    then have "(i, j) \<in> (at_most (max (T i 0) (T 0 j)) T)\<^sup>+" by auto
    then show ?thesis
      using same [OF that] by (auto simp: at_most_def)
  qed
  have "D i j \<le> ?T' i j" if "i < n" "j < n" for i j
    using chain_class [OF _ T(3)] same [OF that] pos [OF two(1), of i j] known [OF that] by blast
  moreover have "?T' i k \<le> t" if "i < n" "j < n" "k < n" "?T' i j \<le> t" "?T' j k \<le> t" for i j k t
  proof -
    have "(i, j) \<in> at_most t ?T'" "(j, k) \<in> at_most t ?T'"
      using that known two(1) by (auto simp: at_most_def good_def) (metis less_le)+
    then have "(i, k) \<in> (at_most t T)\<^sup>+" using same that by (meson trancl_trans)
    then show ?thesis using same that by (auto simp: at_most_def)
  qed
  ultimately show "classes_ok ?T'"
    unfolding classes_ok_def using two(1) known by blast
  show "(i, j) \<in> (at_most t T)\<^sup>+" if "i < n" "j < n" "?T' i j \<le> t"
    using same [OF that(1,2)] pos [OF two(1), of i j] known [OF that(1,2)] that(3)
    by (auto simp: at_most_def)
qed

text \<open>A vCPU of the first group that is not on the core of the first vCPU stays alone.\<close>

lemma measured_apart:
  assumes "groups_ok ls v" "ls \<noteq> []" "i < n" "1 < D 0 i" "D 0 i < 4" "k \<noteq> i" "top_stack v i k \<noteq> 0"
  shows "1 < top_stack v i k"
proof -
  note inv = assms(1) [unfolded groups_ok_def]
  have k: "k < n" using inv assms(6,7) by (auto simp: known_ok_def confined_def)
  have grp: "cpu_group_id v j = int q \<longleftrightarrow> D (ls ! q) j < 4" if "j < n" "q < length ls" for j q
    using inv that by blast
  have zero: "ls ! 0 = 0" "cpu_group_id v i = 0"
    using inv assms(2) grp [OF assms(3), of 0] assms(5) by auto
  have leader: "cpu_group_id v (ls ! q) = int q" if "q < length ls" for q
    using grp [of "ls ! q" q] D_refl inv that by auto
  have "i \<notin> set ls"
    using leader zero assms(4) D_refl [of 0] by (auto simp: in_set_conv_nth)
  then have "k \<in> set ls" using inv assms(6,7) by metis
  then obtain q where q: "q < length ls" "k = ls ! q" by (auto simp: in_set_conv_nth)
  have "1 < D k i"
    using grp [OF assms(3) q(1)] zero assms(4) q(2) by (cases q) auto
  then show ?thesis
    using inv assms(7) D_sym [of i k] by (auto simp: known_ok_def)
qed

lemma stays_alone:
  assumes "(i, j) \<in> (at_most 1 T)\<^sup>+" "\<And>k. k \<noteq> i \<Longrightarrow> T i k \<noteq> 0 \<Longrightarrow> 1 < T i k"
  shows "j = i"
  using assms(1)
proof (induction rule: trancl_induct)
  case (base j)
  then show ?case using assms(2) [of j] by (force simp: at_most_def)
next
  case (step j k)
  then show ?case using assms(2) [of k] by (force simp: at_most_def)
qed

lemma no_pairs_left:
  assumes "classes_ok (top_stack v)"
  shows "pairs_to_test n v grp = []"
proof -
  have "top_stack v i j \<noteq> 0" if "i < n" "j < n" for i j
    using assms that by (simp add: classes_ok_def)
  then show ?thesis
    by (simp add: pairs_to_test_def)
qed

lemma nothing_to_probe: "MT_find_topology run n (map (\<lambda>_. []) ks) v m = Some (v, m)"
  by (induction ks) simp_all

lemma perform_probing_ok:
  assumes "known_ok (top_stack v)" "0 < n" "\<forall>i j. top_stack v i j \<noteq> 0 \<longrightarrow> i = j"
  shows "\<exists>ls v' m'. perform_probing run n v m = Some (v', m') \<and> \<not> failed_test v' \<and> classes_ok (top_stack v')
    \<and> nr_numa_groups v' = length ls \<and> (\<forall>j < n. \<exists>k < length ls. cpu_group_id v' j = int k)
    \<and> (\<forall>j < n. \<forall>k < length ls. cpu_group_id v' j = int k \<longleftrightarrow> D (ls ! k) j < 4)
    \<and> (\<forall>i < n. \<forall>j < n. 1 < D 0 i \<longrightarrow> D 0 i < 4 \<longrightarrow> i \<noteq> j \<longrightarrow> 2 \<le> top_stack v' i j)"
proof -
  let ?v = "v\<lparr>failed_test := False, nr_numa_groups := 0, cpu_group_id := (\<lambda>_. - 1), samp := (samp v)\<lparr>first_measurement := True\<rparr>\<rparr>"
  have "groups_ok [] ?v" using assms(1,3) by (simp add: groups_ok_def)
  then obtain ls v1 m1 where v1: "group_leaders run n [0..<n] ?v m = Some (v1, m1)" "groups_ok ls v1"
      "\<forall>i \<in> set [0..<n]. cpu_group_id v1 i \<noteq> - 1"
    using group_leaders_ok [of "[]" ?v "[0..<n]" m] assms(2) by (auto simp: subset_iff hd_upt)
  have inv: "known_ok (top_stack v1)" "nr_numa_groups v1 = length ls" "\<not> failed_test v1"
      "\<forall>j < n. \<exists>k < length ls. cpu_group_id v1 j = int k"
      "\<forall>j < n. \<forall>k < length ls. cpu_group_id v1 j = int k \<longleftrightarrow> D (ls ! k) j < 4" "ls \<noteq> [] \<longrightarrow> (\<forall>j < n. top_stack v1 0 j \<noteq> 0)"
    using v1(2,3) by (auto simp: groups_ok_def)
  have "ls \<noteq> []" using inv(4) assms(2) by auto
  then have ok: "classes_ok (apply_optimization n (apply_optimization n (top_stack v1)))"
    using propagated(1) [OF inv(1) _ assms(2)] inv(6) by blast
  have alone: "2 \<le> apply_optimization n (apply_optimization n (top_stack v1)) i j" (is "2 \<le> ?T i j")
    if "i < n" "j < n" "1 < D 0 i" "D 0 i < 4" "i \<noteq> j" for i j
  proof (rule ccontr)
    assume "\<not> 2 \<le> ?T i j"
    then have "(i, j) \<in> (at_most 1 (top_stack v1))\<^sup>+"
      using propagated(2) [OF inv(1) _ assms(2) that(1,2)] inv(6) \<open>ls \<noteq> []\<close> by simp
    then show False
      using stays_alone [of i j "top_stack v1"] measured_apart [OF v1(2) \<open>ls \<noteq> []\<close> that(1,3,4)] that(5) by blast
  qed
  let ?v2 = "v1\<lparr>top_stack := apply_optimization n (apply_optimization n (top_stack v1))\<rparr>"
  have "perform_probing run n v m = Some (?v2, m1)"
    using v1(1) \<open>ls \<noteq> []\<close> inv(2) ext [of "pairs_to_test n ?v2" "\<lambda>_. []", OF no_pairs_left] ok
    by (simp add: perform_probing_def find_numa_groups_def nothing_to_probe Let_def)
  then show ?thesis
    using ok inv(2-5) alone by (intro exI [of _ ls] exI [of _ ?v2] exI [of _ m1]) simp
qed

subsection \<open>Cores\<close>

definition stacked :: "matrix \<Rightarrow> nat \<Rightarrow> nat \<Rightarrow> bool" where
  "stacked T i j \<longleftrightarrow> T i j < 2"

lemma stacked_equiv:
  assumes "classes_ok T"
  shows "stacked T i i" "stacked T i j \<longleftrightarrow> stacked T j i"
    "i < n \<Longrightarrow> j < n \<Longrightarrow> k < n \<Longrightarrow> stacked T i j \<Longrightarrow> stacked T j k \<Longrightarrow> stacked T i k"
proof -
  show "stacked T i i" using assms by (simp add: classes_ok_def good_def stacked_def)
  show "stacked T i j \<longleftrightarrow> stacked T j i" using assms unfolding classes_ok_def good_def stacked_def by metis
  assume ijk: "i < n" "j < n" "k < n" "stacked T i j" "stacked T j k"
  then have "T i j \<le> 1" "T j k \<le> 1" by (simp_all add: stacked_def)
  then have "T i k \<le> 1" using assms ijk unfolding classes_ok_def by blast
  then show "stacked T i k" by (simp add: stacked_def)
qed

text \<open>The core numbers after the first \<open>k\<close> vCPUs.\<close>

definition cores_ok :: "matrix \<Rightarrow> nat \<Rightarrow> core_ids \<Rightarrow> bool" where
  "cores_ok T k c \<longleftrightarrow> (\<forall>j < n. cpu_tt_id c j = - 1 \<longleftrightarrow> (\<forall>i < k. \<not> stacked T i j))
     \<and> (\<forall>j < n. cpu_tt_id c j < int (nr_tt_groups c) \<and> - 1 \<le> cpu_tt_id c j)
     \<and> (\<forall>i < n. \<forall>j < n. cpu_tt_id c i \<noteq> - 1 \<longrightarrow> cpu_tt_id c j \<noteq> - 1 \<longrightarrow> (cpu_tt_id c i = cpu_tt_id c j \<longleftrightarrow> stacked T i j))"

lemma spread_ids_tt:
  assumes "cpu_tt_id c i \<noteq> - 1" "stacked T i i"
  shows "cpu_tt_id (fold (spread_ids T i) js c) = (\<lambda>j. if j \<in> set js \<and> stacked T i j then cpu_tt_id c i else cpu_tt_id c j)
    \<and> nr_tt_groups (fold (spread_ids T i) js c) = nr_tt_groups c"
  using assms(1)
proof (induction js arbitrary: c)
  case (Cons j js)
  let ?c = "spread_ids T i j c"
  have c: "cpu_tt_id ?c = (if stacked T i j then (cpu_tt_id c)(j := cpu_tt_id c i) else cpu_tt_id c)" "nr_tt_groups ?c = nr_tt_groups c"
    using Cons.prems by (auto simp: spread_ids_def Let_def stacked_def)
  then have "cpu_tt_id ?c i = cpu_tt_id c i" by auto
  then show ?case
    using Cons.IH [of ?c] Cons.prems c by (auto simp: fun_eq_iff)
qed simp

lemma new_ids_tt:
  "cpu_tt_id (new_ids i c) = (if cpu_tt_id c i = - 1 then (cpu_tt_id c)(i := int (nr_tt_groups c)) else cpu_tt_id c)"
  "nr_tt_groups (new_ids i c) = (if cpu_tt_id c i = - 1 then nr_tt_groups c + 1 else nr_tt_groups c)"
  by (simp_all add: new_ids_def Let_def)

lemma cores_ok_step:
  assumes T: "classes_ok T" and c: "cores_ok T k c" and k: "k < n"
  shows "cores_ok T (Suc k) (fold (spread_ids T k) [0..<n] (new_ids k c))"
proof -
  let ?c = "fold (spread_ids T k) [0..<n] (new_ids k c)"
  note eq = stacked_equiv [OF T]
  let ?id = "cpu_tt_id (new_ids k c) k"
  have new: "?id \<noteq> - 1" by (simp add: new_ids_tt)
  have ids: "cpu_tt_id ?c j = (if stacked T k j then ?id else cpu_tt_id c j)" if "j < n" for j
    using spread_ids_tt [OF new eq(1), of "[0..<n]"] that eq(1) [of k] by (auto simp: new_ids_tt)
  have nr: "nr_tt_groups ?c = nr_tt_groups (new_ids k c)"
    using spread_ids_tt [OF new eq(1)] by simp
  have unset: "cpu_tt_id ?c j = - 1 \<longleftrightarrow> (\<forall>i < Suc k. \<not> stacked T i j)" if "j < n" for j
    using ids [OF that] new c that by (auto simp: cores_ok_def less_Suc_eq)
  have range: "cpu_tt_id ?c j < int (nr_tt_groups ?c) \<and> - 1 \<le> cpu_tt_id ?c j" if "j < n" for j
  proof -
    have "cpu_tt_id c j < int (nr_tt_groups c)" "- 1 \<le> cpu_tt_id c j" "cpu_tt_id c k < int (nr_tt_groups c)" "- 1 \<le> cpu_tt_id c k"
      using c that k by (simp_all add: cores_ok_def)
    then show ?thesis using ids [OF that] by (simp add: nr new_ids_tt)
  qed
  have mixed: "?id = cpu_tt_id c j \<longleftrightarrow> stacked T k j" if "j < n" "cpu_tt_id c j \<noteq> - 1" for j
  proof (cases "cpu_tt_id c k = - 1")
    case True
    then have "\<not> stacked T i k" if "i < k" for i using c k that by (simp add: cores_ok_def)
    moreover have "\<exists>i < k. stacked T i j" using c that unfolding cores_ok_def by blast
    then obtain i where "i < k" "stacked T i j" by blast
    ultimately have "\<not> stacked T k j" using eq(2,3) that k by (meson less_trans)
    moreover have "cpu_tt_id c j < int (nr_tt_groups c)" using c that by (simp add: cores_ok_def)
    ultimately show ?thesis using True by (simp add: new_ids_tt)
  next
    case False
    moreover have "cpu_tt_id c k = cpu_tt_id c j \<longleftrightarrow> stacked T k j"
      using c k that False unfolding cores_ok_def by blast
    ultimately show ?thesis by (simp add: new_ids_tt)
  qed
  have same: "cpu_tt_id ?c i = cpu_tt_id ?c j \<longleftrightarrow> stacked T i j"
    if ij: "i < n" "j < n" and set: "cpu_tt_id ?c i \<noteq> - 1" "cpu_tt_id ?c j \<noteq> - 1" for i j
  proof (cases "stacked T k i"; cases "stacked T k j")
    assume a: "stacked T k i" "stacked T k j"
    then have "stacked T i j" using eq(2,3) ij k by blast
    then show ?thesis using a ids ij by simp
  next
    assume a: "stacked T k i" "\<not> stacked T k j"
    then have "\<not> stacked T i j" using eq(3) ij k by blast
    then show ?thesis using a ids ij set mixed [of j] by simp
  next
    assume a: "\<not> stacked T k i" "stacked T k j"
    then have "\<not> stacked T i j" using eq(2,3) ij k by blast
    then show ?thesis using a ids ij set mixed [of i] by auto
  next
    assume a: "\<not> stacked T k i" "\<not> stacked T k j"
    then show ?thesis using c ids ij set by (simp add: cores_ok_def)
  qed
  show ?thesis
    unfolding cores_ok_def using unset range same by blast
qed

lemma parse_topology_ok:
  assumes "classes_ok T"
  shows "cores_ok T n (parse_topology n T)"
proof -
  let ?c0 = "\<lparr>cpu_pair_id = (\<lambda>_. - 1), cpu_tt_id = (\<lambda>_. - 1), nr_pair_groups = 0, nr_tt_groups = 0\<rparr>"
  have "cores_ok T k (fold (\<lambda>i c. fold (spread_ids T i) [0..<n] (new_ids i c)) [0..<k] ?c0)" if "k \<le> n" for k
    using that
  proof (induction k)
    case 0
    show ?case by (simp add: cores_ok_def)
  next
    case (Suc k)
    then show ?case using cores_ok_step [OF assms, of k] by simp
  qed
  then show ?thesis by (simp add: parse_topology_def)
qed

lemma core_numbers:
  assumes "classes_ok T" "i < n" "j < n"
  shows "cpu_tt_id (parse_topology n T) i = cpu_tt_id (parse_topology n T) j \<longleftrightarrow> T i j < 2"
    "0 \<le> cpu_tt_id (parse_topology n T) i \<and> cpu_tt_id (parse_topology n T) i < int (nr_tt_groups (parse_topology n T))"
proof -
  have set: "cpu_tt_id (parse_topology n T) j \<noteq> - 1" if "j < n" for j
    using parse_topology_ok [OF assms(1)] stacked_equiv(1) [OF assms(1)] that by (auto simp: cores_ok_def)
  show "cpu_tt_id (parse_topology n T) i = cpu_tt_id (parse_topology n T) j \<longleftrightarrow> T i j < 2"
    using parse_topology_ok [OF assms(1)] assms set by (simp add: cores_ok_def stacked_def)
  have "- 1 \<le> cpu_tt_id (parse_topology n T) i \<and> cpu_tt_id (parse_topology n T) i < int (nr_tt_groups (parse_topology n T))"
    using parse_topology_ok [OF assms(1)] assms(2) by (simp add: cores_ok_def)
  then show "0 \<le> cpu_tt_id (parse_topology n T) i \<and> cpu_tt_id (parse_topology n T) i < int (nr_tt_groups (parse_topology n T))"
    using set [OF assms(2)] by simp
qed

text \<open>Equal group numbers, for groups that hold the vCPUs of a socket each.\<close>

lemma same_group:
  assumes "\<And>j. j < n \<Longrightarrow> \<exists>k < length ls. g j = int k"
    and "\<And>j k. j < n \<Longrightarrow> k < length ls \<Longrightarrow> g j = int k \<longleftrightarrow> D (ls ! k) j < 4" and "i < n" "j < n"
  shows "g i = g j \<longleftrightarrow> D i j < 4"
proof -
  obtain k where k: "k < length ls" "g i = int k" using assms(1,3) by blast
  then have i: "D (ls ! k) i < 4" using assms(2,3) by blast
  have "g j = int k \<longleftrightarrow> D (ls ! k) j < 4" using assms(2,4) k(1) by blast
  also have "\<dots> \<longleftrightarrow> D i j < 4"
    using same_socket_trans [OF i, of j] same_socket_trans [of i "ls ! k" j] i D_sym [of i "ls ! k"] by auto
  finally show ?thesis using k(2) by auto
qed

text \<open>The topology that the detection returns.\<close>

lemma detect_ok:
  assumes "0 < n" "n \<le> MAX_CPUS" "\<And>sz m. fst (os_calloc h sz m) \<noteq> None"
  shows "\<exists>topo sp' m'. detect_vcpu_topology h run n sp m = Some ((Some topo, sp'), m') \<and> topo_wf topo \<and> nr_cpus topo = n
    \<and> (\<forall>i < n. 0 \<le> cpu_to_socket topo ! i \<and> cpu_to_socket topo ! i < nr_sockets topo
         \<and> 0 \<le> cpu_to_core topo ! i \<and> cpu_to_core topo ! i < nr_cores topo)
    \<and> (\<forall>i < n. \<forall>j < n. (cpu_to_socket topo ! i = cpu_to_socket topo ! j \<longleftrightarrow> D i j < 4)
         \<and> (related topo i j = CPU_RELATION_REMOTE \<longleftrightarrow> D i j = 4)
         \<and> (related topo i j = CPU_RELATION_SMT \<longleftrightarrow> cpu_to_core topo ! i = cpu_to_core topo ! j)
         \<and> (related topo i j = CPU_RELATION_SMT \<longrightarrow> D i j = 1) \<and> related topo i j \<noteq> CPU_RELATION_CORE
         \<and> (1 < D 0 i \<longrightarrow> D 0 i < 4 \<longrightarrow> i \<noteq> j \<longrightarrow> related topo i j \<noteq> CPU_RELATION_SMT))"
proof -
  define m0 where "m0 = snd (alloc_all h (148244 # n * 8 # replicate n (n * 4)) m)"
  have m0: "alloc_all h (148244 # n * 8 # replicate n (n * 4)) m = (True, m0)"
    using alloc_all_ok [OF assms(3), where ns = "148244 # n * 8 # replicate n (n * 4)" and m = m]
    by (simp only: m0_def prod_eq_iff) simp
  have last: "LAST_CPU_ID n = n" using assms(2) by (simp add: LAST_CPU_ID_def)
  let ?v = "\<lparr>top_stack = (\<lambda>i j. if i = j then 1 else 0), cpu_group_id = (\<lambda>_. 0), nr_numa_groups = 0,
              failed_test = False, samp = sp\<rparr>"
  have start: "known_ok (top_stack ?v)" "\<forall>i j. top_stack ?v i j \<noteq> 0 \<longrightarrow> i = j"
    using D_refl by (auto simp: known_ok_def good_def confined_def)
  obtain ls v m1 where v: "perform_probing run n ?v m0 = Some (v, m1)" "\<not> failed_test v" "classes_ok (top_stack v)"
      "nr_numa_groups v = length ls" "\<forall>j < n. \<exists>k < length ls. cpu_group_id v j = int k"
      "\<forall>j < n. \<forall>k < length ls. cpu_group_id v j = int k \<longleftrightarrow> D (ls ! k) j < 4"
      "\<forall>i < n. \<forall>j < n. 1 < D 0 i \<longrightarrow> D 0 i < 4 \<longrightarrow> i \<noteq> j \<longrightarrow> 2 \<le> top_stack v i j"
    using perform_probing_ok [OF start(1) assms(1) start(2), of m0] by (elim exE conjE) (rule that)
  let ?c = "parse_topology n (top_stack v)"
  define topo where "topo = topology_of n v ?c"
  have topo: "nr_cpus topo = n" "nr_sockets topo = int (length ls)" "nr_cores topo = int (nr_tt_groups ?c)" "topo_wf topo"
    using v(4) by (auto simp: topo_def topology_of_def topo_wf_def last Let_def)
  have ids: "cpu_to_socket topo ! i = cpu_group_id v i" "cpu_to_core topo ! i = cpu_tt_id ?c i" if "i < n" for i
    using that by (simp_all add: topo_def topology_of_def last)
  have rel: "related topo i j = relation_of v ?c i j" if "i < n" "j < n" for i j
    using that by (simp add: topo_def topology_of_def related_def last)
  have sock: "cpu_group_id v i = cpu_group_id v j \<longleftrightarrow> D i j < 4" if "i < n" "j < n" for i j
    using same_group [of ls "cpu_group_id v"] v(5,6) that by blast
  have core: "cpu_tt_id ?c i = cpu_tt_id ?c j \<longleftrightarrow> top_stack v i j < 2" if "i < n" "j < n" for i j
    using core_numbers(1) [OF v(3)] that by simp
  have less: "D i j \<le> top_stack v i j" if "i < n" "j < n" for i j
    using v(3) that by (simp add: classes_ok_def)
  have "detect_vcpu_topology h run n sp m = Some ((Some topo, samp v), m1)"
    using v(1,2) unfolding detect_vcpu_topology_def last Let_def m0 by (simp add: topo_def)
  moreover have "0 \<le> cpu_group_id v i \<and> cpu_group_id v i < int (length ls)" if "i < n" for i
    using v(5) that by force
  moreover have "relation_of v ?c i j = CPU_RELATION_REMOTE \<longleftrightarrow> D i j = 4" if "i < n" "j < n" for i j
    using sock [OF that] core [OF that] less [OF that] D_range [of i j] by (auto simp: relation_of_def)
  moreover have "relation_of v ?c i j \<noteq> CPU_RELATION_CORE" for i j
    by (simp add: relation_of_def)
  moreover have smt: "relation_of v ?c i j = CPU_RELATION_SMT \<longleftrightarrow> top_stack v i j < 2" if "i < n" "j < n" for i j
    using core [OF that] by (simp add: relation_of_def)
  moreover have "D i j = 1" if "i < n" "j < n" "top_stack v i j < 2" for i j
    using less [OF that(1,2)] D_range [of i j] that(3) by linarith
  moreover have "\<not> top_stack v i j < 2" if "i < n" "j < n" "1 < D 0 i" "D 0 i < 4" "i \<noteq> j" for i j
    using v(7) that by force
  ultimately show ?thesis
    using topo ids rel sock core core_numbers(2) [OF v(3)]
    by (intro exI [of _ topo] exI [of _ "samp v"] exI [of _ m1]) simp
qed

end

subsection \<open>Machines with sockets, cores and threads\<close>

text \<open>
  A placement of the vCPUs on hardware threads, threads on cores and cores on sockets, and
  rounds on such a machine: a line passes in 10, 50 or 200 nanoseconds within a core, a socket
  and between sockets, and not at all between vCPUs that share a thread.
\<close>

definition placed_class :: "(nat \<Rightarrow> nat) \<Rightarrow> (nat \<Rightarrow> nat) \<Rightarrow> (nat \<Rightarrow> nat) \<Rightarrow> matrix" where
  "placed_class thr core sock i j =
     (if thr i = thr j then 1 else if core (thr i) = core (thr j) then 2
      else if sock (core (thr i)) = sock (core (thr j)) then 3 else 4)"

definition placed_run :: "matrix \<Rightarrow> nat \<Rightarrow> nat \<Rightarrow> int \<Rightarrow> 'm \<Rightarrow> (u64 list \<times> int) \<times> 'm" where
  "placed_run D i j limit m =
     ((if D i j = 1 then [] else let d = (if D i j = 2 then 3000 else if D i j = 3 then 15000 else 60000) in [0, d, d + d], limit), m)"

lemma placed_silent:
  assumes "D i j = 1"
  shows "tries \<le> 10 \<Longrightarrow> measure_loop (placed_run D) i j tries limit us m = Some ((- 1, us), m)"
proof (induction "nat (10 - tries)" arbitrary: tries)
  case 0
  then show ?case using assms by (subst measure_loop.simps) (simp add: placed_run_def)
next
  case (Suc k)
  then have "measure_loop (placed_run D) i j (tries + 1) limit us m = Some ((- 1, us), m)" by simp
  then show ?case using Suc assms by (subst measure_loop.simps) (simp add: placed_run_def)
qed

lemmas fl_placed = fl_int [of 3000, simplified] fl_int [of 15000, simplified] fl_int [of 60000, simplified]
  fl_int [of 10, simplified] fl_int [of 50, simplified] fl_int [of 200, simplified]
  fl_int [of 1000, simplified] fl_int [of 5000, simplified] fl_int [of 20000, simplified]

lemma placed_measured:
  assumes "1 \<le> D i j" "D i j \<le> 4"
  shows "\<exists>lat sp' m'. measure_latency_pair (placed_run D) i j sp m = Some ((lat, sp'), m') \<and> get_latency_class lat = D i j"
proof -
  consider "D i j = 1" | "D i j = 2" | "D i j = 3" | "D i j = 4" using assms by linarith
  then show ?thesis
  proof cases
    case 1
    then show ?thesis by (simp add: measure_latency_pair_def placed_silent get_latency_class_def)
  next
    case 2
    then show ?thesis
      by (simp add: measure_latency_pair_def measure_loop.simps placed_run_def get_latency_class_def sample_time_def i32_of_dbl_def i32_ok_def fl_placed)
  next
    case 3
    then show ?thesis
      by (simp add: measure_latency_pair_def measure_loop.simps placed_run_def get_latency_class_def sample_time_def i32_of_dbl_def i32_ok_def fl_placed)
  next
    case 4
    then show ?thesis
      by (simp add: measure_latency_pair_def measure_loop.simps placed_run_def get_latency_class_def sample_time_def i32_of_dbl_def i32_ok_def fl_placed)
  qed
qed

interpretation placed: nested_groups "placed_run (placed_class thr core sock)" "placed_class thr core sock" n
  for thr core sock n
proof unfold_locales
  let ?D = "placed_class thr core sock"
  show range: "1 \<le> ?D i j \<and> ?D i j \<le> 4" for i j by (simp add: placed_class_def)
  show "\<exists>lat sp' m'. measure_latency_pair (placed_run ?D) i j sp m = Some ((lat, sp'), m') \<and> get_latency_class lat = ?D i j" for i j sp m
    by (rule placed_measured [OF conjunct1 [OF range] conjunct2 [OF range]])
qed (auto simp: placed_class_def)

text \<open>
  C10: on a machine with nested groups of vCPUs the detection returns a topology in which two
  vCPUs have the same socket exactly when their class says so, are remote exactly when it is
  4, and are siblings only when no latency was seen between them; socket and core numbers are
  below their counts.
\<close>

theorem detect_sockets_correct:
  assumes "nested_groups run D n" "0 < n" "n \<le> MAX_CPUS" "\<And>sz m. fst (os_calloc h sz m) \<noteq> None"
  shows "\<exists>topo sp' m'. detect_vcpu_topology h run n sp m = Some ((Some topo, sp'), m') \<and> topo_wf topo \<and> nr_cpus topo = n
    \<and> (\<forall>i < n. 0 \<le> cpu_to_socket topo ! i \<and> cpu_to_socket topo ! i < nr_sockets topo
         \<and> 0 \<le> cpu_to_core topo ! i \<and> cpu_to_core topo ! i < nr_cores topo)
    \<and> (\<forall>i < n. \<forall>j < n. (cpu_to_socket topo ! i = cpu_to_socket topo ! j \<longleftrightarrow> D i j < 4)
         \<and> (related topo i j = CPU_RELATION_REMOTE \<longleftrightarrow> D i j = 4)
         \<and> (related topo i j = CPU_RELATION_SMT \<longrightarrow> D i j = 1))"
  using nested_groups.detect_ok [OF assms, of sp m] by blast

text \<open>Five vCPUs: 0 and 1 on one core, 2 and 3 on one hardware thread, 4 on the other socket.\<close>

definition demo_placement :: matrix where
  "demo_placement = placed_class (\<lambda>i. if i = 3 then 2 else i) (\<lambda>t. if t = 1 then 0 else t) (\<lambda>c. if c < 4 then 0 else c)"

lemma demo_placement_groups: "nested_groups (placed_run demo_placement) demo_placement 5"
  unfolding demo_placement_def by (rule placed.nested_groups_axioms)

lemma flat_calloc: "fst (os_calloc flat_hw sz m) \<noteq> None"
  by (simp add: flat_hw_def split: prod.splits)

theorem detect_sockets_correct_witness:
  "\<exists>topo sp' m'. detect_vcpu_topology flat_hw (placed_run demo_placement) 5 \<lparr>sample_us = 10000, first_measurement = True\<rparr> (\<lambda>_. 0, 0)
       = Some ((Some topo, sp'), m')
     \<and> cpu_to_socket topo ! 0 = cpu_to_socket topo ! 3 \<and> cpu_to_socket topo ! 0 \<noteq> cpu_to_socket topo ! 4
     \<and> related topo 1 4 = CPU_RELATION_REMOTE \<and> related topo 0 1 \<noteq> CPU_RELATION_SMT"
proof -
  obtain topo sp' m' where t: "detect_vcpu_topology flat_hw (placed_run demo_placement) 5 \<lparr>sample_us = 10000, first_measurement = True\<rparr> (\<lambda>_. 0, 0)
        = Some ((Some topo, sp'), m')"
      "\<forall>i < 5. \<forall>j < 5. (cpu_to_socket topo ! i = cpu_to_socket topo ! j \<longleftrightarrow> demo_placement i j < 4)
         \<and> (related topo i j = CPU_RELATION_REMOTE \<longleftrightarrow> demo_placement i j = 4)
         \<and> (related topo i j = CPU_RELATION_SMT \<longrightarrow> demo_placement i j = 1)"
    using detect_sockets_correct [OF demo_placement_groups _ _ flat_calloc, of "\<lparr>sample_us = 10000, first_measurement = True\<rparr>" "(\<lambda>_. 0, 0)"]
    by (auto simp: MAX_CPUS_def)
  have "demo_placement 0 3 = 3" "demo_placement 0 4 = 4" "demo_placement 1 4 = 4" "demo_placement 0 1 = 2"
    by (simp_all add: demo_placement_def placed_class_def)
  moreover from this have "related topo 0 1 \<noteq> CPU_RELATION_SMT"
    using t(2) [rule_format, of 0 1] by simp
  ultimately show ?thesis
    using t by (intro exI [of _ topo] exI [of _ sp'] exI [of _ m']) simp
qed



end
