(* ===== verification/Vcolor_Pool.thy ===== *)
theory Vcolor_Pool
  imports Ev_Prelude
begin

text \<open>
  The pool of coloured pages that the kernel patch (kern_mods/vcolor_km/vcolor.diff, mm/vcolor.c
  there) adds to the page allocator. A page is its frame number. Spin locks are not modelled:
  an operation is one step. \<open>page_count\<close> is the reference count of a page and \<open>page_buddy\<close> whether it is
  on a free list of the kernel; the rest of the kernel enters as the outcome of
  \<open>free_pages_prepare\<close> (\<open>prep\<close>) and of \<open>kmalloc\<close> (\<open>mem\<close>) for a page.
\<close>

subsection \<open>State\<close>

definition VCOLOR_MAX_COLORS :: nat where "VCOLOR_MAX_COLORS = 16"

definition VCOLOR_NONE :: u8 where "VCOLOR_NONE = 0xff"

record vcolor_state =
  page_vcolor :: "nat \<Rightarrow> u8"
  page_count :: "nat \<Rightarrow> nat"
  page_buddy :: "nat \<Rightarrow> bool"
  tagged_frames :: "nat list"
  colored_page_list :: "nat list list"
  colored_count :: "u64 list"
  allocated_count :: "u64 list"
  vcolor_enabled :: bool
  vcolor_bypass :: bool
  any_alloc :: bool
  last_alloc_comm :: string
  writer_comm :: string
  vcolor_order :: "u8 list"
  vcolor_hottest :: u8

text \<open>The state after \<open>vcolor_core_init\<close>, with no page tagged.\<close>

definition vcolor_core_init :: "(nat \<Rightarrow> nat) \<Rightarrow> (nat \<Rightarrow> bool) \<Rightarrow> vcolor_state" where
  "vcolor_core_init refs buddy =
     \<lparr>page_vcolor = (\<lambda>_. VCOLOR_NONE), page_count = refs, page_buddy = buddy, tagged_frames = [],
      colored_page_list = replicate VCOLOR_MAX_COLORS [], colored_count = replicate VCOLOR_MAX_COLORS 0,
      allocated_count = replicate VCOLOR_MAX_COLORS 0, vcolor_enabled = False, vcolor_bypass = False,
      any_alloc = False, last_alloc_comm = ''none'', writer_comm = ''none'',
      vcolor_order = map of_nat [0..<VCOLOR_MAX_COLORS], vcolor_hottest = 0\<rparr>"

text \<open>A loop whose body may leave the bounds of an array.\<close>

fun each :: "('a \<Rightarrow> 's \<Rightarrow> 's option) \<Rightarrow> 'a list \<Rightarrow> 's \<Rightarrow> 's option" where
  "each f [] s = Some s"
| "each f (x # xs) s = do { s \<leftarrow> f x s; each f xs s }"

text \<open>\<open>if (a[c]) a[c]--\<close> and \<open>a[c] += d\<close>\<close>

definition count_down :: "u64 list \<Rightarrow> nat \<Rightarrow> u64 list option" where
  "count_down a c = do { n \<leftarrow> arr_get a c; if n = 0 then Some a else arr_set a c (n - 1) }"

definition count_add :: "u64 list \<Rightarrow> nat \<Rightarrow> u64 \<Rightarrow> u64 list option" where
  "count_add a c d = do { n \<leftarrow> arr_get a c; arr_set a c (n + d) }"

subsection \<open>Tags\<close>

definition vcolor_check_frame_tagged :: "nat \<Rightarrow> vcolor_state \<Rightarrow> bool" where
  "vcolor_check_frame_tagged p s \<longleftrightarrow> page_vcolor s p \<noteq> VCOLOR_NONE"

definition vcolor_untag_frame :: "nat \<Rightarrow> vcolor_state \<Rightarrow> vcolor_state option" where
  "vcolor_untag_frame p s =
     (let color = page_vcolor s p
      in if color = VCOLOR_NONE then Some s
         else do {
           let s = s\<lparr>tagged_frames := remove1 p (tagged_frames s), page_vcolor := (page_vcolor s)(p := VCOLOR_NONE)\<rparr>;
           if \<not> vcolor_bypass s \<and> unat color < VCOLOR_MAX_COLORS then do {
             a \<leftarrow> count_down (allocated_count s) (unat color);
             Some (s\<lparr>allocated_count := a\<rparr>)
           } else Some s
         })"

definition vcolor_tag_frame :: "(nat \<Rightarrow> bool) \<Rightarrow> nat \<Rightarrow> u8 \<Rightarrow> vcolor_state \<Rightarrow> vcolor_state" where
  "vcolor_tag_frame mem p color s =
     (if page_vcolor s p \<noteq> VCOLOR_NONE then s
      else if \<not> mem p then s
      else s\<lparr>page_vcolor := (page_vcolor s)(p := color), tagged_frames := p # tagged_frames s\<rparr>)"

subsection \<open>Allocation\<close>

fun alloc_scan :: "string \<Rightarrow> u8 list \<Rightarrow> vcolor_state \<Rightarrow> (nat option \<times> vcolor_state) option" where
  "alloc_scan comm [] s = Some (None, s)"
| "alloc_scan comm (idx # order) s = do {
     pages \<leftarrow> arr_get (colored_page_list s) (unat idx);
     case pages of [] \<Rightarrow> alloc_scan comm order s
     | p # ps \<Rightarrow> do {
         lists \<leftarrow> arr_set (colored_page_list s) (unat idx) ps;
         counts \<leftarrow> count_add (colored_count s) (unat idx) (- 1);
         allocs \<leftarrow> count_add (allocated_count s) (unat idx) 1;
         Some (Some p, s\<lparr>colored_page_list := lists, colored_count := counts, allocated_count := allocs,
           any_alloc := True, last_alloc_comm := take 15 comm\<rparr>)
       }
   }"

definition vcolor_alloc_page :: "string \<Rightarrow> vcolor_state \<Rightarrow> (nat option \<times> vcolor_state) option" where
  "vcolor_alloc_page comm s =
     (if \<not> vcolor_enabled s then Some (None, s)
      else do {
        order \<leftarrow> arr_range (vcolor_order s) 0 VCOLOR_MAX_COLORS;
        (p, s) \<leftarrow> alloc_scan comm order s;
        Some (p, case p of None \<Rightarrow> s | Some p \<Rightarrow> s\<lparr>page_count := (page_count s)(p := 1)\<rparr>)
      })"

subsection \<open>Freeing\<close>

definition vcolor_free_page :: "(nat \<Rightarrow> bool) \<Rightarrow> nat \<Rightarrow> vcolor_state \<Rightarrow> vcolor_state option" where
  "vcolor_free_page mem p s =
     (let color = page_vcolor s p
      in if color = VCOLOR_NONE then Some s
         else if \<not> mem p then Some s
         else do {
           pages \<leftarrow> arr_get (colored_page_list s) (unat color);
           lists \<leftarrow> arr_set (colored_page_list s) (unat color) (p # pages);
           counts \<leftarrow> count_add (colored_count s) (unat color) 1;
           allocs \<leftarrow> count_down (allocated_count s) (unat color);
           Some (s\<lparr>colored_page_list := lists, colored_count := counts, allocated_count := allocs\<rparr>)
         })"

text \<open>
  \<open>__free_frozen_pages\<close> for the block of \<open>2 ^ order\<close> pages at \<open>p\<close>: a tagged block goes to the pool page by
  page, and any other block to the free lists of the kernel.
\<close>

definition free_frozen_pages :: "(nat \<Rightarrow> bool) \<Rightarrow> (nat \<Rightarrow> bool) \<Rightarrow> nat \<Rightarrow> nat \<Rightarrow> vcolor_state \<Rightarrow> vcolor_state option" where
  "free_frozen_pages prep mem p order s =
     (if vcolor_check_frame_tagged p s \<and> vcolor_enabled s \<and> \<not> vcolor_bypass s then
        (if \<not> prep p then Some s else each (vcolor_free_page mem) [p..<p + 2 ^ order] s)
      else do {
        s \<leftarrow> (if vcolor_check_frame_tagged p s \<and> \<not> vcolor_enabled s then vcolor_untag_frame p s else Some s);
        Some (if prep p then s\<lparr>page_buddy := (\<lambda>q. page_buddy s q \<or> p \<le> q \<and> q < p + 2 ^ order)\<rparr> else s)
      })"

text \<open>\<open>__free_pages(page, 0)\<close>: the page is freed with its last reference.\<close>

definition free_pages :: "(nat \<Rightarrow> bool) \<Rightarrow> (nat \<Rightarrow> bool) \<Rightarrow> nat \<Rightarrow> vcolor_state \<Rightarrow> vcolor_state option" where
  "free_pages prep mem p s =
     (let s = s\<lparr>page_count := (page_count s)(p := page_count s p - 1)\<rparr>
      in if page_count s p = 0 then free_frozen_pages prep mem p 0 s else Some s)"

subsection \<open>Emptying the pool\<close>

text \<open>The body of the loop over the pages of a colour; \<open>bypass\<close> is the value of \<open>vcolor_bypass\<close> meanwhile.\<close>

definition drop_page :: "(nat \<Rightarrow> bool) \<Rightarrow> (nat \<Rightarrow> bool) \<Rightarrow> bool \<Rightarrow> nat \<Rightarrow> nat \<Rightarrow> vcolor_state \<Rightarrow> vcolor_state option" where
  "drop_page prep mem bypass color p s = do {
     pages \<leftarrow> arr_get (colored_page_list s) color;
     lists \<leftarrow> arr_set (colored_page_list s) color (remove1 p pages);
     counts \<leftarrow> count_add (colored_count s) color (- 1);
     let s = s\<lparr>colored_page_list := lists, colored_count := counts, page_vcolor := (page_vcolor s)(p := VCOLOR_NONE),
               page_count := (page_count s)(p := 1), vcolor_bypass := bypass \<or> vcolor_bypass s\<rparr>;
     s \<leftarrow> free_pages prep mem p s;
     s \<leftarrow> vcolor_untag_frame p s;
     Some (s\<lparr>vcolor_bypass := (if bypass then False else vcolor_bypass s)\<rparr>)
   }"

definition drop_color :: "(nat \<Rightarrow> bool) \<Rightarrow> (nat \<Rightarrow> bool) \<Rightarrow> bool \<Rightarrow> nat \<Rightarrow> vcolor_state \<Rightarrow> vcolor_state option" where
  "drop_color prep mem bypass color s = do {
     pages \<leftarrow> arr_get (colored_page_list s) color;
     s \<leftarrow> each (drop_page prep mem bypass color) pages s;
     counts \<leftarrow> arr_set (colored_count s) color 0;
     allocs \<leftarrow> arr_set (allocated_count s) color 0;
     Some (s\<lparr>colored_count := counts, allocated_count := allocs\<rparr>)
   }"

definition vcolor_release_color :: "(nat \<Rightarrow> bool) \<Rightarrow> (nat \<Rightarrow> bool) \<Rightarrow> nat \<Rightarrow> vcolor_state \<Rightarrow> vcolor_state option" where
  "vcolor_release_color prep mem color s =
     (if color \<ge> VCOLOR_MAX_COLORS then Some s
      else do {
        s \<leftarrow> drop_color prep mem True color s;
        Some (s\<lparr>tagged_frames := filter (\<lambda>p. page_count s p \<noteq> 0) (tagged_frames s)\<rparr>)
      })"

definition vcolor_flush :: "(nat \<Rightarrow> bool) \<Rightarrow> (nat \<Rightarrow> bool) \<Rightarrow> vcolor_state \<Rightarrow> vcolor_state option" where
  "vcolor_flush prep mem s = do {
     s \<leftarrow> each (drop_color prep mem False) [0..<VCOLOR_MAX_COLORS] (s\<lparr>vcolor_enabled := False\<rparr>);
     Some (s\<lparr>page_vcolor := (\<lambda>p. if p \<in> set (tagged_frames s) \<and> page_count s p = 0 then VCOLOR_NONE else page_vcolor s p),
             tagged_frames := filter (\<lambda>p. page_count s p \<noteq> 0) (tagged_frames s),
             any_alloc := False, last_alloc_comm := ''none'', writer_comm := ''none''\<rparr>)
   }"

subsection \<open>The invariant\<close>

text \<open>
  Every list holds pages of its colour, each once; they are neither in use nor on a free list
  of the kernel, and the counts are the lengths of the lists.
\<close>

definition vpool_ok :: "vcolor_state \<Rightarrow> bool" where
  "vpool_ok s \<longleftrightarrow> length (colored_page_list s) = VCOLOR_MAX_COLORS
     \<and> colored_count s = map (\<lambda>ps. of_nat (length ps)) (colored_page_list s)
     \<and> length (allocated_count s) = VCOLOR_MAX_COLORS \<and> \<not> vcolor_bypass s
     \<and> (\<forall>c < VCOLOR_MAX_COLORS. distinct (colored_page_list s ! c) \<and> (\<forall>p \<in> set (colored_page_list s ! c).
          page_vcolor s p = of_nat c \<and> page_count s p = 0 \<and> \<not> page_buddy s p))
     \<and> (\<forall>p. page_vcolor s p = VCOLOR_NONE \<or> unat (page_vcolor s p) < VCOLOR_MAX_COLORS)
     \<and> (\<forall>p. page_buddy s p \<longrightarrow> page_count s p = 0)"

definition in_pool :: "nat \<Rightarrow> vcolor_state \<Rightarrow> bool" where
  "in_pool p s \<longleftrightarrow> (\<exists>c < VCOLOR_MAX_COLORS. p \<in> set (colored_page_list s ! c))"

text \<open>What an operation on pages leaves alone.\<close>

definition same_order :: "vcolor_state \<Rightarrow> vcolor_state \<Rightarrow> bool" where
  "same_order s s' \<longleftrightarrow> vcolor_order s' = vcolor_order s \<and> vcolor_hottest s' = vcolor_hottest s"

definition order_ok :: "vcolor_state \<Rightarrow> bool" where
  "order_ok s \<longleftrightarrow> mset (vcolor_order s) = mset (map of_nat [0..<VCOLOR_MAX_COLORS]) \<and> vcolor_hottest s = hd (vcolor_order s)"

subsection \<open>Lemmas\<close>

lemma unat_color: "c < VCOLOR_MAX_COLORS \<Longrightarrow> unat (of_nat c :: u8) = c"
  by (simp add: VCOLOR_MAX_COLORS_def unat_of_nat take_bit_nat_eq_self)

lemma color_not_none: "c < VCOLOR_MAX_COLORS \<Longrightarrow> (of_nat c :: u8) \<noteq> VCOLOR_NONE"
  using unat_color [of c] by (auto simp: VCOLOR_MAX_COLORS_def VCOLOR_NONE_def)

lemma color_inject: "c < VCOLOR_MAX_COLORS \<Longrightarrow> d < VCOLOR_MAX_COLORS \<Longrightarrow> (of_nat c :: u8) = of_nat d \<longleftrightarrow> c = d"
  using unat_color by metis

lemma vpool_okD:
  assumes "vpool_ok s"
  shows "length (colored_page_list s) = VCOLOR_MAX_COLORS" "length (colored_count s) = VCOLOR_MAX_COLORS"
    "length (allocated_count s) = VCOLOR_MAX_COLORS" "\<not> vcolor_bypass s"
    "c < VCOLOR_MAX_COLORS \<Longrightarrow> colored_count s ! c = of_nat (length (colored_page_list s ! c))"
    "c < VCOLOR_MAX_COLORS \<Longrightarrow> distinct (colored_page_list s ! c)"
    "c < VCOLOR_MAX_COLORS \<Longrightarrow> p \<in> set (colored_page_list s ! c) \<Longrightarrow> page_vcolor s p = of_nat c"
    "c < VCOLOR_MAX_COLORS \<Longrightarrow> p \<in> set (colored_page_list s ! c) \<Longrightarrow> page_count s p = 0"
    "c < VCOLOR_MAX_COLORS \<Longrightarrow> p \<in> set (colored_page_list s ! c) \<Longrightarrow> \<not> page_buddy s p"
    "page_vcolor s p = VCOLOR_NONE \<or> unat (page_vcolor s p) < VCOLOR_MAX_COLORS"
    "page_buddy s p \<Longrightarrow> page_count s p = 0"
  using assms unfolding vpool_ok_def by auto

lemma vpool_okI:
  assumes "length (colored_page_list s) = VCOLOR_MAX_COLORS"
    "colored_count s = map (\<lambda>ps. of_nat (length ps)) (colored_page_list s)"
    "length (allocated_count s) = VCOLOR_MAX_COLORS" "\<not> vcolor_bypass s"
    "\<And>c. c < VCOLOR_MAX_COLORS \<Longrightarrow> distinct (colored_page_list s ! c)"
    "\<And>c p. c < VCOLOR_MAX_COLORS \<Longrightarrow> p \<in> set (colored_page_list s ! c) \<Longrightarrow>
      page_vcolor s p = of_nat c \<and> page_count s p = 0 \<and> \<not> page_buddy s p"
    "\<And>p. page_vcolor s p = VCOLOR_NONE \<or> unat (page_vcolor s p) < VCOLOR_MAX_COLORS"
    "\<And>p. page_buddy s p \<Longrightarrow> page_count s p = 0"
  shows "vpool_ok s"
  using assms unfolding vpool_ok_def by blast

lemma vpool_counts: "vpool_ok s \<Longrightarrow> colored_count s = map (\<lambda>ps. of_nat (length ps)) (colored_page_list s)"
  by (simp add: vpool_ok_def)

text \<open>A change of other fields, and of pages outside the pool, keeps the invariant.\<close>

lemma vpool_ok_frame:
  assumes "vpool_ok s" "colored_page_list s' = colored_page_list s" "colored_count s' = colored_count s"
    "length (allocated_count s') = VCOLOR_MAX_COLORS" "\<not> vcolor_bypass s'"
    "\<And>p. in_pool p s \<Longrightarrow> page_vcolor s' p = page_vcolor s p \<and> page_count s' p = 0 \<and> \<not> page_buddy s' p"
    "\<And>p. page_vcolor s' p = VCOLOR_NONE \<or> unat (page_vcolor s' p) < VCOLOR_MAX_COLORS"
    "\<And>p. page_buddy s' p \<Longrightarrow> page_count s' p = 0"
  shows "vpool_ok s'"
proof (rule vpool_okI)
  show "page_vcolor s' p = of_nat c \<and> page_count s' p = 0 \<and> \<not> page_buddy s' p"
    if "c < VCOLOR_MAX_COLORS" "p \<in> set (colored_page_list s' ! c)" for c p
  proof -
    have "in_pool p s" "page_vcolor s p = of_nat c"
      using that assms(2) vpool_okD(7) [OF assms(1)] by (auto simp: in_pool_def)
    then show ?thesis using assms(6) by simp
  qed
  show "distinct (colored_page_list s' ! c)" if "c < VCOLOR_MAX_COLORS" for c
    using that assms(2) vpool_okD(6) [OF assms(1)] by simp
qed (use assms vpool_okD(1) [OF assms(1)] vpool_counts [OF assms(1)] in auto)

lemma in_poolD:
  assumes "vpool_ok s" "in_pool p s"
  shows "page_vcolor s p \<noteq> VCOLOR_NONE" "page_count s p = 0" "\<not> page_buddy s p"
  using vpool_okD(7-9) [OF assms(1)] assms(2) color_not_none by (auto simp: in_pool_def)

lemma each_append: "each f (xs @ ys) s = Option.bind (each f xs s) (each f ys)"
  by (induction xs arbitrary: s) (auto split: Option.bind_splits)

lemma count_down_Some: "c < length a \<Longrightarrow> \<exists>a'. count_down a c = Some a' \<and> length a' = length a"
  by (auto simp: count_down_def arr_simps)

lemma count_add_Some [arr_simps]: "c < length a \<Longrightarrow> count_add a c d = Some (a[c := a ! c + d])"
  by (simp add: count_add_def arr_simps)

text \<open>Tags of pages outside the pool.\<close>

lemma tag_frame_ok:
  assumes "vpool_ok s" "c < VCOLOR_MAX_COLORS"
  shows "vpool_ok (vcolor_tag_frame mem p (of_nat c) s)"
proof (cases "page_vcolor s p = VCOLOR_NONE \<and> mem p")
  case True
  then have "\<not> in_pool p s" using in_poolD(1) [OF assms(1)] by auto
  then show ?thesis
    using True vpool_okD(2,3,4,10,11) [OF assms(1)] in_poolD [OF assms(1)] unat_color [OF assms(2)] assms(2)
    by (intro vpool_ok_frame [OF assms(1)]) (auto simp: vcolor_tag_frame_def)
qed (use assms in \<open>auto simp: vcolor_tag_frame_def\<close>)

lemma untag_frame_ok:
  assumes "vpool_ok s" "\<not> in_pool p s"
  shows "\<exists>s'. vcolor_untag_frame p s = Some s' \<and> vpool_ok s' \<and> same_order s s' \<and> page_vcolor s' p = VCOLOR_NONE
    \<and> page_count s' = page_count s \<and> page_buddy s' = page_buddy s \<and> colored_page_list s' = colored_page_list s"
proof (cases "page_vcolor s p = VCOLOR_NONE")
  case False
  then have c: "unat (page_vcolor s p) < VCOLOR_MAX_COLORS" using vpool_okD(10) [OF assms(1), of p] by auto
  then obtain a where a: "count_down (allocated_count s) (unat (page_vcolor s p)) = Some a" "length a = VCOLOR_MAX_COLORS"
    using count_down_Some vpool_okD(3) [OF assms(1)] by metis
  let ?s = "s\<lparr>tagged_frames := remove1 p (tagged_frames s), page_vcolor := (page_vcolor s)(p := VCOLOR_NONE), allocated_count := a\<rparr>"
  have "vpool_ok ?s"
    using assms(2) a(2) vpool_okD(4,10,11) [OF assms(1)] in_poolD [OF assms(1)]
    by (intro vpool_ok_frame [OF assms(1)]) auto
  moreover have "vcolor_untag_frame p s = Some ?s"
    using False c a(1) vpool_okD(4) [OF assms(1)] by (simp add: vcolor_untag_frame_def Let_def)
  ultimately show ?thesis by (simp add: same_order_def)
qed (use assms in \<open>simp add: vcolor_untag_frame_def same_order_def\<close>)

lemma free_page_ok:
  assumes "vpool_ok s" "\<not> in_pool p s" "page_count s p = 0" "\<not> page_buddy s p"
  shows "\<exists>s'. vcolor_free_page mem p s = Some s' \<and> vpool_ok s' \<and> same_order s s'
    \<and> page_count s' = page_count s \<and> page_buddy s' = page_buddy s \<and> page_vcolor s' = page_vcolor s
    \<and> (\<forall>q. q \<noteq> p \<longrightarrow> in_pool q s' = in_pool q s)"
proof (cases "page_vcolor s p = VCOLOR_NONE \<or> \<not> mem p")
  case False
  define c where "c = unat (page_vcolor s p)"
  then have c: "c < VCOLOR_MAX_COLORS" "page_vcolor s p = of_nat c"
    using vpool_okD(10) [OF assms(1), of p] False by auto
  obtain a where a: "count_down (allocated_count s) c = Some a" "length a = VCOLOR_MAX_COLORS"
    using count_down_Some vpool_okD(3) [OF assms(1)] c(1) by metis
  let ?s = "s\<lparr>colored_page_list := (colored_page_list s)[c := p # colored_page_list s ! c],
      colored_count := (colored_count s)[c := colored_count s ! c + 1], allocated_count := a\<rparr>"
  have "vcolor_free_page mem p s = Some ?s"
    using False a(1) c(1) vpool_okD(1,2) [OF assms(1)]
    by (simp add: vcolor_free_page_def Let_def arr_simps flip: c_def)
  moreover have "vpool_ok ?s"
  proof (rule vpool_okI)
    show "colored_count ?s = map (\<lambda>ps. of_nat (length ps)) (colored_page_list ?s)"
      using c(1) vpool_okD(1) [OF assms(1)] by (simp add: vpool_counts [OF assms(1)] map_update add.commute)
    show "distinct (colored_page_list ?s ! d)" if "d < VCOLOR_MAX_COLORS" for d
      using that c(1) vpool_okD(1,6) [OF assms(1)] assms(2) by (cases "d = c") (auto simp: in_pool_def)
    show "page_vcolor ?s q = of_nat d \<and> page_count ?s q = 0 \<and> \<not> page_buddy ?s q"
      if "d < VCOLOR_MAX_COLORS" "q \<in> set (colored_page_list ?s ! d)" for d q
      using that c vpool_okD(1,7,8,9) [OF assms(1)] assms(3,4) by (cases "d = c"; cases "q = p") auto
  qed (use a(2) vpool_okD [OF assms(1)] in auto)
  moreover have "in_pool q ?s = in_pool q s" if "q \<noteq> p" for q
    using that c(1) vpool_okD(1) [OF assms(1)] by (auto simp: in_pool_def nth_list_update)
  ultimately show ?thesis by (intro exI [of _ ?s]) (simp add: same_order_def)
qed (use assms in \<open>auto simp: vcolor_free_page_def Let_def same_order_def\<close>)

text \<open>Blocks that are freed: the kernel frees blocks that are in use, so that none of their pages is free or pooled.\<close>

definition idle_block :: "nat \<Rightarrow> nat \<Rightarrow> vcolor_state \<Rightarrow> bool" where
  "idle_block p order s \<longleftrightarrow> (\<forall>q. p \<le> q \<and> q < p + 2 ^ order \<longrightarrow> page_count s q = 0 \<and> \<not> page_buddy s q \<and> \<not> in_pool q s)"

lemma each_free_ok:
  assumes "vpool_ok s" "distinct qs" "\<forall>q \<in> set qs. page_count s q = 0 \<and> \<not> page_buddy s q \<and> \<not> in_pool q s"
  shows "\<exists>s'. each (vcolor_free_page mem) qs s = Some s' \<and> vpool_ok s' \<and> same_order s s' \<and> page_count s' = page_count s
    \<and> page_buddy s' = page_buddy s \<and> page_vcolor s' = page_vcolor s"
  using assms
proof (induction qs arbitrary: s)
  case (Cons q qs)
  obtain s1 where s1: "vcolor_free_page mem q s = Some s1" "vpool_ok s1" "same_order s s1" "page_count s1 = page_count s"
      "page_buddy s1 = page_buddy s" "\<forall>r. r \<noteq> q \<longrightarrow> in_pool r s1 = in_pool r s" "page_vcolor s1 = page_vcolor s"
    using free_page_ok [of s q mem] Cons.prems by auto
  have "\<forall>r \<in> set qs. page_count s1 r = 0 \<and> \<not> page_buddy s1 r \<and> \<not> in_pool r s1"
    using Cons.prems(2,3) s1(4-6) by auto
  then obtain s' where "each (vcolor_free_page mem) qs s1 = Some s'" "vpool_ok s'" "same_order s1 s'" "page_count s' = page_count s1"
      "page_buddy s' = page_buddy s1" "page_vcolor s' = page_vcolor s1"
    using Cons.IH [OF s1(2)] Cons.prems(2) by auto
  then show ?case using s1(1,3-5,7) by (simp add: same_order_def)
qed (simp add: same_order_def)

lemma free_frozen_ok:
  assumes "vpool_ok s" "idle_block p order s"
  shows "\<exists>s'. free_frozen_pages prep mem p order s = Some s' \<and> vpool_ok s' \<and> same_order s s' \<and> page_count s' = page_count s"
proof (cases "vcolor_check_frame_tagged p s \<and> vcolor_enabled s \<and> \<not> vcolor_bypass s")
  case True
  then show ?thesis
    using each_free_ok [OF assms(1), of "[p..<p + 2 ^ order]" mem] assms
    by (auto simp: free_frozen_pages_def idle_block_def same_order_def)
next
  case False
  have p: "\<not> in_pool p s" using assms(2) by (simp add: idle_block_def)
  obtain s1 where s1: "(if vcolor_check_frame_tagged p s \<and> \<not> vcolor_enabled s then vcolor_untag_frame p s else Some s) = Some s1"
      "vpool_ok s1" "same_order s s1" "page_count s1 = page_count s" "page_buddy s1 = page_buddy s" "colored_page_list s1 = colored_page_list s"
    using untag_frame_ok [OF assms(1) p] assms(1)
    by (cases "vcolor_check_frame_tagged p s \<and> \<not> vcolor_enabled s") (auto simp: same_order_def)
  let ?s = "if prep p then s1\<lparr>page_buddy := (\<lambda>q. page_buddy s1 q \<or> p \<le> q \<and> q < p + 2 ^ order)\<rparr> else s1"
  have idle: "page_count s1 q = 0 \<and> \<not> in_pool q s1" if "p \<le> q" "q < p + 2 ^ order" for q
    using assms(2) s1(4,6) that by (simp add: idle_block_def in_pool_def)
  have "vpool_ok (s1\<lparr>page_buddy := (\<lambda>q. page_buddy s1 q \<or> p \<le> q \<and> q < p + 2 ^ order)\<rparr>)"
    by (rule vpool_ok_frame [OF s1(2)])
      (use vpool_okD(3,4,11) [OF s1(2)] in_poolD(2,3) [OF s1(2)] idle vpool_okD(10) [OF s1(2)] in auto)
  then have "vpool_ok ?s" using s1(2) by simp
  moreover have "free_frozen_pages prep mem p order s = Some ?s"
    using s1(1) unfolding free_frozen_pages_def if_not_P [OF False] by simp
  ultimately show ?thesis using s1(3,4) by (simp add: same_order_def)
qed

text \<open>Allocation takes the first page of the first colour of the order that has one.\<close>

definition take_page :: "string \<Rightarrow> nat \<Rightarrow> vcolor_state \<Rightarrow> vcolor_state" where
  "take_page comm c s = s\<lparr>colored_page_list := (colored_page_list s)[c := tl (colored_page_list s ! c)],
     colored_count := (colored_count s)[c := colored_count s ! c - 1],
     allocated_count := (allocated_count s)[c := allocated_count s ! c + 1],
     any_alloc := True, last_alloc_comm := take 15 comm, page_count := (page_count s)(hd (colored_page_list s ! c) := 1)\<rparr>"

lemma alloc_scan_find:
  assumes "vpool_ok s" "\<forall>idx \<in> set order. unat idx < VCOLOR_MAX_COLORS"
  shows "alloc_scan comm order s =
    (case find (\<lambda>idx. colored_page_list s ! unat idx \<noteq> []) order of None \<Rightarrow> Some (None, s)
     | Some idx \<Rightarrow> Some (Some (hd (colored_page_list s ! unat idx)), (take_page comm (unat idx) s)\<lparr>page_count := page_count s\<rparr>))"
  using assms(2)
proof (induction order)
  case (Cons idx order)
  then show ?case
    using vpool_okD(1-3) [OF assms(1)]
    by (cases "colored_page_list s ! unat idx") (auto simp: arr_simps take_page_def)
qed simp

lemma alloc_page_eq:
  assumes "vpool_ok s" "length (vcolor_order s) = VCOLOR_MAX_COLORS" "\<forall>idx \<in> set (vcolor_order s). unat idx < VCOLOR_MAX_COLORS"
  shows "vcolor_alloc_page comm s =
    (case find (\<lambda>idx. vcolor_enabled s \<and> colored_page_list s ! unat idx \<noteq> []) (vcolor_order s) of None \<Rightarrow> Some (None, s)
     | Some idx \<Rightarrow> Some (Some (hd (colored_page_list s ! unat idx)), take_page comm (unat idx) s))"
proof (cases "vcolor_enabled s")
  case True
  then show ?thesis
    using alloc_scan_find [OF assms(1,3), of comm] assms(2)
    by (auto simp: vcolor_alloc_page_def arr_simps take_page_def split: option.splits)
next
  case False
  then show ?thesis by (simp add: vcolor_alloc_page_def find_None_iff [THEN iffD2])
qed

lemma take_page_ok:
  assumes "vpool_ok s" "c < VCOLOR_MAX_COLORS" "colored_page_list s ! c = p # ps"
  shows "vpool_ok (take_page comm c s)" "\<not> in_pool p (take_page comm c s)" "same_order s (take_page comm c s)"
proof -
  let ?s = "take_page comm c s"
  have l: "colored_page_list ?s = (colored_page_list s)[c := ps]" using assms(3) by (simp add: take_page_def)
  have f: "page_vcolor ?s = page_vcolor s" "page_buddy ?s = page_buddy s" "page_count ?s = (page_count s)(p := 1)"
      "vcolor_bypass ?s = vcolor_bypass s" "length (allocated_count ?s) = length (allocated_count s)"
      "colored_count ?s = (colored_count s)[c := colored_count s ! c - 1]"
    using assms(3) by (simp_all add: take_page_def)
  have p: "p \<in> set (colored_page_list s ! c)" "p \<notin> set ps" "distinct ps"
    using assms(3) vpool_okD(6) [OF assms(1,2)] by auto
  have other: "d = c" if "d < VCOLOR_MAX_COLORS" "p \<in> set (colored_page_list s ! d)" for d
    using vpool_okD(7) [OF assms(1)] p(1) that assms(2) color_inject [of c d] by metis
  have sub: "q \<in> set (colored_page_list s ! d) \<and> q \<noteq> p"
    if d: "d < VCOLOR_MAX_COLORS" "q \<in> set (colored_page_list ?s ! d)" for d q
  proof (cases "d = c")
    case True
    then have "q \<in> set ps" using d assms(2) vpool_okD(1) [OF assms(1)] by (simp add: l)
    then show ?thesis using True p(2) assms(3) by auto
  next
    case False
    then have "q \<in> set (colored_page_list s ! d)" using d by (simp add: l)
    then show ?thesis using False other [OF d(1)] by auto
  qed
  show "vpool_ok ?s"
  proof (rule vpool_okI)
    show "colored_count ?s = map (\<lambda>ps. of_nat (length ps)) (colored_page_list ?s)"
      using assms(2,3) vpool_okD(1) [OF assms(1)] by (simp add: f(6) l vpool_counts [OF assms(1)] map_update)
    show "distinct (colored_page_list ?s ! d)" if "d < VCOLOR_MAX_COLORS" for d
      using that p(3) assms(2) vpool_okD(1,6) [OF assms(1)] by (cases "d = c") (auto simp: l)
    show "page_vcolor ?s q = of_nat d \<and> page_count ?s q = 0 \<and> \<not> page_buddy ?s q"
      if "d < VCOLOR_MAX_COLORS" "q \<in> set (colored_page_list ?s ! d)" for d q
      using sub [OF that] vpool_okD(7-9) [OF assms(1) that(1)] by (simp add: f)
    show "page_buddy ?s q \<Longrightarrow> page_count ?s q = 0" for q
      using vpool_okD(9) [OF assms(1,2) p(1)] vpool_okD(11) [OF assms(1)] by (auto simp: f)
  qed (use vpool_okD [OF assms(1)] in \<open>simp_all add: f l\<close>)
  show "\<not> in_pool p ?s" using sub by (auto simp: in_pool_def)
  show "same_order s ?s" by (simp add: same_order_def take_page_def)
qed

text \<open>Emptying a colour gives its pages back to the kernel and clears their tags.\<close>

definition drained :: "(nat \<Rightarrow> bool) \<Rightarrow> nat \<Rightarrow> vcolor_state \<Rightarrow> vcolor_state" where
  "drained prep c s =
     (let pages = set (colored_page_list s ! c)
      in s\<lparr>colored_page_list := (colored_page_list s)[c := []],
           colored_count := (colored_count s)[c := colored_count s ! c - of_nat (length (colored_page_list s ! c))],
           page_vcolor := (\<lambda>p. if p \<in> pages then VCOLOR_NONE else page_vcolor s p),
           page_count := (\<lambda>p. if p \<in> pages then 0 else page_count s p),
           page_buddy := (\<lambda>p. page_buddy s p \<or> p \<in> pages \<and> prep p)\<rparr>)"

lemma drop_page_eq:
  assumes "c < length (colored_page_list s)" "c < length (colored_count s)" "\<not> vcolor_bypass s"
  shows "drop_page prep mem bypass c p s = Some (s\<lparr>colored_page_list := (colored_page_list s)[c := remove1 p (colored_page_list s ! c)],
     colored_count := (colored_count s)[c := colored_count s ! c - 1], page_vcolor := (page_vcolor s)(p := VCOLOR_NONE),
     page_count := (page_count s)(p := 0), page_buddy := (\<lambda>q. page_buddy s q \<or> q = p \<and> prep p)\<rparr>)"
proof -
  have "p \<le> q \<and> q < Suc p \<longleftrightarrow> q = p" for q by auto
  then show ?thesis
    using assms
    by (auto simp: drop_page_def arr_simps free_pages_def free_frozen_pages_def vcolor_check_frame_tagged_def
        vcolor_untag_frame_def Let_def intro!: vcolor_state.equality)
qed

lemma each_drop_eq:
  assumes "c < length (colored_page_list s)" "c < length (colored_count s)" "\<not> vcolor_bypass s"
    "colored_page_list s ! c = pages"
  shows "each (drop_page prep mem bypass c) pages s = Some (drained prep c s)"
  using assms
proof (induction pages arbitrary: s)
  case Nil
  then have "(colored_page_list s)[c := []] = colored_page_list s" by (metis list_update_id)
  then show ?case using Nil by (simp add: drained_def)
next
  case (Cons p ps)
  let ?s = "s\<lparr>colored_page_list := (colored_page_list s)[c := ps], colored_count := (colored_count s)[c := colored_count s ! c - 1],
      page_vcolor := (page_vcolor s)(p := VCOLOR_NONE), page_count := (page_count s)(p := 0),
      page_buddy := (\<lambda>q. page_buddy s q \<or> q = p \<and> prep p)\<rparr>"
  have "drop_page prep mem bypass c p s = Some ?s"
    using drop_page_eq [OF Cons.prems(1-3)] Cons.prems(4) by simp
  moreover have "each (drop_page prep mem bypass c) ps ?s = Some (drained prep c ?s)"
    using Cons.IH [of ?s] Cons.prems by simp
  moreover have "drained prep c ?s = drained prep c s"
    using Cons.prems by (auto simp: drained_def Let_def fun_eq_iff diff_diff_eq intro!: vcolor_state.equality)
  ultimately show ?case by simp
qed

lemma drained_ok:
  assumes "vpool_ok s" "c < VCOLOR_MAX_COLORS"
  shows "vpool_ok (drained prep c s)" "same_order s (drained prep c s)"
    "colored_page_list (drained prep c s) = (colored_page_list s)[c := []]"
    "vcolor_enabled (drained prep c s) = vcolor_enabled s" "vcolor_bypass (drained prep c s) = vcolor_bypass s"
proof -
  let ?s = "drained prep c s"
  show l: "colored_page_list ?s = (colored_page_list s)[c := []]" by (simp add: drained_def Let_def)
  show "same_order s ?s" "vcolor_enabled ?s = vcolor_enabled s" "vcolor_bypass ?s = vcolor_bypass s"
    by (simp_all add: drained_def same_order_def Let_def)
  have sub: "q \<in> set (colored_page_list s ! d) \<and> q \<notin> set (colored_page_list s ! c)"
    if d: "d < VCOLOR_MAX_COLORS" "q \<in> set (colored_page_list ?s ! d)" for d q
  proof -
    have "d \<noteq> c" using d assms(2) vpool_okD(1) [OF assms(1)] by (auto simp: l)
    then have q: "q \<in> set (colored_page_list s ! d)" using d by (simp add: l)
    moreover have "q \<notin> set (colored_page_list s ! c)"
      using vpool_okD(7) [OF assms(1)] q d(1) assms(2) color_inject [of c d] \<open>d \<noteq> c\<close> by metis
    ultimately show ?thesis by simp
  qed
  show "vpool_ok ?s"
  proof (rule vpool_okI)
    show "colored_count ?s = map (\<lambda>ps. of_nat (length ps)) (colored_page_list ?s)"
      using vpool_okD(1) [OF assms(1)] assms(2)
      by (simp add: drained_def Let_def vpool_counts [OF assms(1)] map_update)
    show "distinct (colored_page_list ?s ! d)" if "d < VCOLOR_MAX_COLORS" for d
      using that assms(2) vpool_okD(1,6) [OF assms(1)] by (cases "d = c") (auto simp: l)
    show "page_vcolor ?s q = of_nat d \<and> page_count ?s q = 0 \<and> \<not> page_buddy ?s q"
      if "d < VCOLOR_MAX_COLORS" "q \<in> set (colored_page_list ?s ! d)" for d q
      using sub [OF that] vpool_okD(7-9) [OF assms(1) that(1)] by (simp add: drained_def Let_def)
    show "page_buddy ?s q \<Longrightarrow> page_count ?s q = 0" for q
      using vpool_okD(11) [OF assms(1)] by (auto simp: drained_def Let_def)
    show "page_vcolor ?s q = VCOLOR_NONE \<or> unat (page_vcolor ?s q) < VCOLOR_MAX_COLORS" for q
      using vpool_okD(10) [OF assms(1), of q] by (auto simp: drained_def Let_def)
  qed (use vpool_okD(1-4) [OF assms(1)] in \<open>simp_all add: drained_def Let_def\<close>)
qed

lemma drop_color_ok:
  assumes "vpool_ok s" "c < VCOLOR_MAX_COLORS"
  shows "\<exists>s'. drop_color prep mem bypass c s = Some s' \<and> vpool_ok s' \<and> same_order s s'
    \<and> colored_page_list s' = (colored_page_list s)[c := []] \<and> vcolor_enabled s' = vcolor_enabled s \<and> page_count s' = page_count s
    \<and> (\<forall>p. page_vcolor s p = VCOLOR_NONE \<longrightarrow> page_vcolor s' p = VCOLOR_NONE)"
proof -
  let ?d = "drained prep c s"
  note d = drained_ok [OF assms, of prep]
  let ?s = "?d\<lparr>colored_count := (colored_count ?d)[c := 0], allocated_count := (allocated_count ?d)[c := 0]\<rparr>"
  have "drop_color prep mem bypass c s = Some ?s"
    using each_drop_eq [of c s, OF _ _ _ refl] vpool_okD(1-4) [OF assms(1)] vpool_okD(2,3) [OF d(1)] assms(2)
    by (simp add: drop_color_def arr_simps)
  moreover have "colored_count ?s = colored_count ?d"
    using vpool_okD(1,2,5) [OF d(1)] assms(2) vpool_okD(1) [OF assms(1)] d(3) by (simp add: list_update_same_conv)
  then have "vpool_ok ?s"
    using vpool_okD(3,4,10,11) [OF d(1)] in_poolD [OF d(1)] by (intro vpool_ok_frame [OF d(1)]) auto
  moreover have "page_vcolor s p = VCOLOR_NONE \<Longrightarrow> page_vcolor ?s p = VCOLOR_NONE" for p
    by (simp add: drained_def Let_def)
  moreover have "page_count ?s = page_count s"
    using vpool_okD(8) [OF assms] by (auto simp: drained_def Let_def fun_eq_iff)
  ultimately show ?thesis using d(2-4) by (simp add: same_order_def)
qed

lemma drop_colors_ok:
  assumes "vpool_ok s" "k \<le> VCOLOR_MAX_COLORS"
  shows "\<exists>s'. each (drop_color prep mem bypass) [0..<k] s = Some s' \<and> vpool_ok s' \<and> same_order s s'
    \<and> (\<forall>c < k. colored_page_list s' ! c = []) \<and> vcolor_enabled s' = vcolor_enabled s \<and> page_count s' = page_count s
    \<and> (\<forall>p. page_vcolor s p = VCOLOR_NONE \<longrightarrow> page_vcolor s' p = VCOLOR_NONE)"
  using assms(2)
proof (induction k)
  case (Suc k)
  then obtain s1 where s1: "each (drop_color prep mem bypass) [0..<k] s = Some s1" "vpool_ok s1" "same_order s s1"
      "\<forall>c < k. colored_page_list s1 ! c = []" "vcolor_enabled s1 = vcolor_enabled s" "page_count s1 = page_count s"
      "\<forall>p. page_vcolor s p = VCOLOR_NONE \<longrightarrow> page_vcolor s1 p = VCOLOR_NONE" by auto
  obtain s' where s': "drop_color prep mem bypass k s1 = Some s'" "vpool_ok s'" "same_order s1 s'"
      "colored_page_list s' = (colored_page_list s1)[k := []]" "vcolor_enabled s' = vcolor_enabled s1" "page_count s' = page_count s1"
      "\<forall>p. page_vcolor s1 p = VCOLOR_NONE \<longrightarrow> page_vcolor s' p = VCOLOR_NONE"
    using drop_color_ok [OF s1(2), of k prep mem bypass] Suc.prems by auto
  have "\<forall>c < Suc k. colored_page_list s' ! c = []"
    using s1(4) s'(4) vpool_okD(1) [OF s1(2)] Suc.prems by (auto simp: less_Suc_eq)
  then show ?case using s1 s' by (simp add: each_append same_order_def)
qed (use assms(1) in \<open>simp add: same_order_def\<close>)

lemma release_color_ok:
  assumes "vpool_ok s"
  shows "\<exists>s'. vcolor_release_color prep mem c s = Some s' \<and> vpool_ok s' \<and> same_order s s'
    \<and> (c < VCOLOR_MAX_COLORS \<longrightarrow> colored_page_list s' ! c = [])"
proof (cases "c < VCOLOR_MAX_COLORS")
  case True
  then obtain s1 where s1: "drop_color prep mem True c s = Some s1" "vpool_ok s1" "same_order s s1"
      "colored_page_list s1 = (colored_page_list s)[c := []]"
    using drop_color_ok [OF assms True] by blast
  let ?s = "s1\<lparr>tagged_frames := filter (\<lambda>p. page_count s1 p \<noteq> 0) (tagged_frames s1)\<rparr>"
  have "vpool_ok ?s"
    using vpool_okD(3,4,10,11) [OF s1(2)] in_poolD [OF s1(2)] by (intro vpool_ok_frame [OF s1(2)]) auto
  then show ?thesis
    using True s1 vpool_okD(1) [OF assms] by (simp add: vcolor_release_color_def same_order_def)
qed (use assms in \<open>simp add: vcolor_release_color_def same_order_def\<close>)

lemma flush_ok:
  assumes "vpool_ok s"
  shows "\<exists>s'. vcolor_flush prep mem s = Some s' \<and> vpool_ok s' \<and> same_order s s' \<and> \<not> vcolor_enabled s' \<and> page_count s' = page_count s
    \<and> (\<forall>p. \<not> in_pool p s') \<and> (\<forall>p. page_vcolor s p = VCOLOR_NONE \<longrightarrow> page_vcolor s' p = VCOLOR_NONE)"
proof -
  have "vpool_ok (s\<lparr>vcolor_enabled := False\<rparr>)"
    using vpool_okD(3,4,10,11) [OF assms] in_poolD [OF assms] by (intro vpool_ok_frame [OF assms]) auto
  then obtain s1 where s1: "each (drop_color prep mem False) [0..<VCOLOR_MAX_COLORS] (s\<lparr>vcolor_enabled := False\<rparr>) = Some s1"
      "vpool_ok s1" "same_order s s1" "\<forall>c < VCOLOR_MAX_COLORS. colored_page_list s1 ! c = []" "\<not> vcolor_enabled s1" "page_count s1 = page_count s"
      "\<forall>p. page_vcolor s p = VCOLOR_NONE \<longrightarrow> page_vcolor s1 p = VCOLOR_NONE"
    using drop_colors_ok [of "s\<lparr>vcolor_enabled := False\<rparr>" VCOLOR_MAX_COLORS prep mem False] by (auto simp: same_order_def)
  have empty: "\<not> in_pool p s1" for p using s1(4) by (simp add: in_pool_def)
  let ?s = "s1\<lparr>page_vcolor := (\<lambda>p. if p \<in> set (tagged_frames s1) \<and> page_count s1 p = 0 then VCOLOR_NONE else page_vcolor s1 p),
      tagged_frames := filter (\<lambda>p. page_count s1 p \<noteq> 0) (tagged_frames s1),
      any_alloc := False, last_alloc_comm := ''none'', writer_comm := ''none''\<rparr>"
  have "vpool_ok ?s"
    using vpool_okD(3,4,10,11) [OF s1(2)] empty by (intro vpool_ok_frame [OF s1(2)]) auto
  moreover have "vcolor_flush prep mem s = Some ?s" using s1(1) by (simp add: vcolor_flush_def)
  ultimately show ?thesis using s1(3,5,6,7) empty by (simp add: same_order_def in_pool_def)
qed

text \<open>The last reference to a page of a colour brings it into the pool.\<close>

definition pooled :: "nat \<Rightarrow> vcolor_state \<Rightarrow> bool" where
  "pooled p s \<longleftrightarrow> page_vcolor s p = VCOLOR_NONE \<or> p \<in> set (colored_page_list s ! unat (page_vcolor s p))"

lemma free_page_pooled:
  assumes "vpool_ok s" "mem p" "vcolor_free_page mem p s = Some s'"
  shows "pooled p s' \<and> vcolor_enabled s' = vcolor_enabled s \<and> (\<forall>q. pooled q s \<longrightarrow> pooled q s')"
proof (cases "page_vcolor s p = VCOLOR_NONE")
  case False
  then have c: "unat (page_vcolor s p) < VCOLOR_MAX_COLORS" using vpool_okD(10) [OF assms(1), of p] by auto
  then show ?thesis
    using assms False vpool_okD(1,2,3) [OF assms(1)] vpool_okD(10) [OF assms(1)]
    by (auto simp: vcolor_free_page_def Let_def arr_simps pooled_def nth_list_update split: Option.bind_splits if_splits)
qed (use assms in \<open>auto simp: vcolor_free_page_def Let_def pooled_def\<close>)

lemma last_reference:
  assumes "vpool_ok s" "vcolor_enabled s" "page_count s p = 1" "prep p" "mem p"
  shows "\<exists>s'. free_pages prep mem p s = Some s' \<and> vpool_ok s' \<and> same_order s s' \<and> vcolor_enabled s'
    \<and> page_count s' = (page_count s)(p := 0) \<and> page_vcolor s' = page_vcolor s \<and> pooled p s' \<and> (\<forall>q. pooled q s \<longrightarrow> pooled q s')"
proof -
  let ?s = "s\<lparr>page_count := (page_count s)(p := 0)\<rparr>"
  have p: "\<not> in_pool p s" "\<not> page_buddy s p"
    using assms(3) in_poolD(2) [OF assms(1), of p] vpool_okD(11) [OF assms(1), of p] by auto
  have ok: "vpool_ok ?s"
    using vpool_okD(3,4,10,11) [OF assms(1)] in_poolD(2,3) [OF assms(1)] by (intro vpool_ok_frame [OF assms(1)]) auto
  have idle: "idle_block p 0 ?s" using p by (auto simp: idle_block_def in_pool_def less_Suc_eq_le dest: le_antisym)
  have same: "pooled q s = pooled q ?s" for q by (simp add: pooled_def)
  show ?thesis
  proof (cases "page_vcolor s p = VCOLOR_NONE")
    case True
    then have eq: "free_pages prep mem p s = Some (?s\<lparr>page_buddy := (\<lambda>q. page_buddy ?s q \<or> p \<le> q \<and> q < p + 2 ^ 0)\<rparr>)"
      using assms by (simp add: free_pages_def free_frozen_pages_def vcolor_check_frame_tagged_def)
    then have "free_frozen_pages prep mem p 0 ?s = Some (?s\<lparr>page_buddy := (\<lambda>q. page_buddy ?s q \<or> p \<le> q \<and> q < p + 2 ^ 0)\<rparr>)"
      using assms(3) by (simp add: free_pages_def)
    then have "vpool_ok (?s\<lparr>page_buddy := (\<lambda>q. page_buddy ?s q \<or> p \<le> q \<and> q < p + 2 ^ 0)\<rparr>)"
      using free_frozen_ok [OF ok idle, of prep mem] by auto
    then show ?thesis using eq True assms(2) by (simp add: same_order_def pooled_def)
  next
    case False
    then have eq: "free_pages prep mem p s = vcolor_free_page mem p ?s"
      using assms vpool_okD(4) [OF assms(1)]
      by (simp add: free_pages_def free_frozen_pages_def vcolor_check_frame_tagged_def split: Option.bind_split)
    obtain s' where "vcolor_free_page mem p ?s = Some s'" "vpool_ok s'" "same_order ?s s'" "page_count s' = page_count ?s"
        "page_vcolor s' = page_vcolor ?s"
      using free_page_ok [OF ok, of p mem] p by (auto simp: in_pool_def)
    then show ?thesis
      using eq same free_page_pooled [of ?s mem p s', OF ok assms(5)] assms(2) by (simp add: same_order_def)
  qed
qed

lemma last_references:
  assumes "vpool_ok s" "vcolor_enabled s" "distinct ps" "\<forall>p \<in> set ps. page_count s p = 1 \<and> prep p \<and> mem p"
  shows "\<exists>s'. each (free_pages prep mem) ps s = Some s' \<and> vpool_ok s' \<and> same_order s s' \<and> vcolor_enabled s'
    \<and> page_vcolor s' = page_vcolor s \<and> (\<forall>p \<in> set ps. pooled p s') \<and> (\<forall>q. pooled q s \<longrightarrow> pooled q s')"
  using assms
proof (induction ps arbitrary: s)
  case (Cons p ps)
  then obtain s1 where s1: "free_pages prep mem p s = Some s1" "vpool_ok s1" "same_order s s1" "vcolor_enabled s1"
      "page_count s1 = (page_count s)(p := 0)" "page_vcolor s1 = page_vcolor s" "pooled p s1" "\<forall>q. pooled q s \<longrightarrow> pooled q s1"
    using last_reference [of s p prep mem] by auto
  have "\<forall>q \<in> set ps. page_count s1 q = 1 \<and> prep q \<and> mem q" using s1(5) Cons.prems(3,4) by auto
  then obtain s' where "each (free_pages prep mem) ps s1 = Some s'" "vpool_ok s'" "same_order s1 s'" "vcolor_enabled s'"
      "page_vcolor s' = page_vcolor s1" "\<forall>p \<in> set ps. pooled p s'" "\<forall>q. pooled q s1 \<longrightarrow> pooled q s'"
    using Cons.IH [OF s1(2,4)] Cons.prems(3,4) by auto
  then show ?case using s1 by (simp add: same_order_def)
qed (simp add: same_order_def)

end
