(* ===== verification/Kernel_Text.thy ===== *)
theory Kernel_Text
  imports Ev_Prelude
begin

text \<open>
  The text functions that the kernel modules and their clients exchange requests with:
  \<open>isspace\<close>, \<open>sysfs_streq\<close>, \<open>kstrtoull\<close> and \<open>sscanf\<close> of the kernel, and the conversions \<open>%u\<close> and
  \<open>%lx\<close> of \<open>snprintf\<close>. A C string is the list of its characters before the terminating zero.
\<close>

subsection \<open>Characters\<close>

definition isspace :: "char \<Rightarrow> bool" where
  "isspace c \<longleftrightarrow> (of_char c :: nat) \<in> {9, 10, 11, 12, 13, 32, 160}"

definition c_string :: "string \<Rightarrow> string" where
  "c_string = takeWhile (\<lambda>c. c \<noteq> CHR 0x00)"

definition skip_spaces :: "string \<Rightarrow> string" where
  "skip_spaces = dropWhile isspace"

text \<open>The value of a digit, in either case for the letters.\<close>

definition digit_val :: "char \<Rightarrow> nat option" where
  "digit_val c =
     (let n = of_char c :: nat
      in if 48 \<le> n \<and> n \<le> 57 then Some (n - 48)
         else if 97 \<le> n \<and> n \<le> 102 then Some (n - 87)
         else if 65 \<le> n \<and> n \<le> 70 then Some (n - 55) else None)"

definition is_digit :: "nat \<Rightarrow> char \<Rightarrow> bool" where
  "is_digit base c = (case digit_val c of None \<Rightarrow> False | Some d \<Rightarrow> d < base)"

definition sysfs_streq :: "string \<Rightarrow> string \<Rightarrow> bool" where
  "sysfs_streq s t \<longleftrightarrow> s = t \<or> s = t @ [CHR 0x0A] \<or> t = s @ [CHR 0x0A]"

subsection \<open>Numbers\<close>

text \<open>The digits at the front of a string: their value, without a bound, and what follows.\<close>

fun parse_integer :: "nat \<Rightarrow> string \<Rightarrow> nat \<Rightarrow> nat \<times> string" where
  "parse_integer base [] n = (n, [])"
| "parse_integer base (c # cs) n =
     (if is_digit base c then parse_integer base cs (n * base + the (digit_val c)) else (n, c # cs))"

text \<open>A base of 0 is taken from the prefix of the number.\<close>

definition has_0x :: "string \<Rightarrow> bool" where
  "has_0x s = (case s of z # x # _ \<Rightarrow> z = CHR ''0'' \<and> (x = CHR ''x'' \<or> x = CHR ''X'') | _ \<Rightarrow> False)"

definition fixup_radix :: "string \<Rightarrow> nat \<Rightarrow> string \<times> nat" where
  "fixup_radix s base =
     (let base = (if base = 0
                  then if s \<noteq> [] \<and> hd s = CHR ''0''
                       then if has_0x s \<and> length s > 2 \<and> is_digit 16 (s ! 2) then 16 else 8
                       else 10
                  else base)
      in (if base = 16 \<and> has_0x s then drop 2 s else s, base))"

text \<open>\<open>kstrtoull\<close> accepts a whole string, up to one newline; \<open>None\<close> is an error.\<close>

definition kstrtoull :: "string \<Rightarrow> nat \<Rightarrow> nat option" where
  "kstrtoull s base =
     (let s = (if s \<noteq> [] \<and> hd s = CHR ''+'' then tl s else s);
          (s, base) = fixup_radix s base;
          (n, rest) = parse_integer base s 0
      in if int n \<ge> 2 ^ 64 \<or> rest = s then None
         else if rest = [] \<or> rest = [CHR 0x0A] then Some n else None)"

subsection \<open>Formats\<close>

text \<open>An element of a format: a character, white space, or a number in a base.\<close>

datatype fmt = Lit char | Blank | Num nat

definition scan_num :: "nat \<Rightarrow> string \<Rightarrow> (nat \<times> string) option" where
  "scan_num base s =
     (let s = skip_spaces s
      in if s = [] \<or> \<not> is_digit base (hd s) then None
         else (let (s, base) = fixup_radix s base; (n, rest) = parse_integer base s 0
               in Some (unat (of_nat n :: u64), rest)))"

fun sscanf :: "fmt list \<Rightarrow> string \<Rightarrow> nat list" where
  "sscanf [] s = []"
| "sscanf (Lit c # fs) s = (case s of [] \<Rightarrow> [] | x # s \<Rightarrow> if x = c then sscanf fs s else [])"
| "sscanf (Blank # fs) s = sscanf fs (skip_spaces s)"
| "sscanf (Num base # fs) s = (case scan_num base s of None \<Rightarrow> [] | Some (n, s) \<Rightarrow> n # sscanf fs s)"

text \<open>The digits that \<open>%u\<close> and \<open>%lx\<close> print.\<close>

definition digit_char :: "nat \<Rightarrow> char" where
  "digit_char d = (if d < 10 then char_of (48 + d) else char_of (87 + d))"

fun text_of :: "nat \<Rightarrow> nat \<Rightarrow> string" where
  "text_of base n =
     (if n < base \<or> base < 2 then [digit_char n] else text_of base (n div base) @ [digit_char (n mod base)])"

declare text_of.simps [simp del]

subsection \<open>Lemmas\<close>

lemma of_char_of: "n < 256 \<Longrightarrow> (of_char (char_of n) :: nat) = n"
  by simp

lemma digit_val_char: "d < 16 \<Longrightarrow> digit_val (digit_char d) = Some d"
  by (auto simp: digit_val_def digit_char_def Let_def)

lemma is_digit_char [simp]: "d < base \<Longrightarrow> base \<le> 16 \<Longrightarrow> is_digit base (digit_char d)"
  by (simp add: is_digit_def digit_val_char)

lemma parse_integer_append:
  assumes "list_all (is_digit base) ds"
  shows "parse_integer base (ds @ s) n = parse_integer base s (fst (parse_integer base ds n))"
  using assms by (induction ds arbitrary: n) auto

lemma text_of_digits: "2 \<le> base \<Longrightarrow> base \<le> 16 \<Longrightarrow> list_all (is_digit base) (text_of base n)"
proof (induction base n rule: text_of.induct)
  case (1 base n)
  then show ?case by (cases "n < base") (auto simp: text_of.simps [of base n])
qed

lemma text_of_nonempty [simp]: "text_of base n \<noteq> []"
  by (simp add: text_of.simps)

lemma parse_text_of: "2 \<le> base \<Longrightarrow> base \<le> 16 \<Longrightarrow> parse_integer base (text_of base n) 0 = (n, [])"
proof (induction base n rule: text_of.induct)
  case (1 base n)
  show ?case
  proof (cases "n < base")
    case True
    then show ?thesis using 1 by (simp add: text_of.simps [of base n] digit_val_char)
  next
    case False
    have "n mod base < base" using 1(2) by simp
    then have "digit_val (digit_char (n mod base)) = Some (n mod base)" "is_digit base (digit_char (n mod base))"
      using 1(3) by (simp_all add: digit_val_char)
    then show ?thesis
      using False 1 text_of_digits [of base "n div base"]
      by (simp add: text_of.simps [of base n] parse_integer_append)
  qed
qed

text \<open>A printed number is read back, and the reader stops after it.\<close>

lemma parse_text_rest:
  assumes "2 \<le> base" "base \<le> 16" "rest = [] \<or> \<not> is_digit base (hd rest)"
  shows "parse_integer base (text_of base n @ rest) 0 = (n, rest)"
  using parse_integer_append [OF text_of_digits, of base n rest 0] parse_text_of [of base n] assms
  by (cases rest) auto

lemma text_of_hd: "2 \<le> base \<Longrightarrow> base \<le> 16 \<Longrightarrow> is_digit base (hd (text_of base n))"
  using text_of_digits [of base n] by (cases "text_of base n") auto

lemma digit_no_space: "is_digit base c \<Longrightarrow> \<not> isspace c"
  by (auto simp: is_digit_def digit_val_def isspace_def Let_def split: if_splits)

lemma skip_text_of [simp]: "2 \<le> base \<Longrightarrow> base \<le> 16 \<Longrightarrow> skip_spaces (text_of base n @ s) = text_of base n @ s"
  using digit_no_space [OF text_of_hd [of base n]]
  by (cases "text_of base n") (auto simp: skip_spaces_def)

text \<open>What \<open>kstrtoull\<close> accepts has no white space inside.\<close>

lemma parse_integer_split: "parse_integer base s n = (m, rest) \<Longrightarrow> \<exists>ds. s = ds @ rest \<and> list_all (is_digit base) ds"
proof (induction s arbitrary: n)
  case (Cons c s)
  show ?case
  proof (cases "is_digit base c")
    case True
    then obtain ds where "s = ds @ rest" "list_all (is_digit base) ds" using Cons by auto
    then show ?thesis using True by (intro exI [of _ "c # ds"]) simp
  qed (use Cons.prems in auto)
qed auto

lemma fixup_radix_split:
  assumes "fixup_radix s base = (s', base')"
  shows "\<exists>pre. s = pre @ s' \<and> list_all (\<lambda>c. \<not> isspace c) pre"
proof -
  consider "s' = s" | "s' = drop 2 s" "has_0x s" using assms by (auto simp: fixup_radix_def Let_def split: if_splits)
  then show ?thesis
  proof cases
    case 2
    then show ?thesis
      by (intro exI [of _ "take 2 s"]) (auto simp: has_0x_def isspace_def split: list.splits)
  qed auto
qed

lemma kstrtoull_one_word:
  assumes "kstrtoull s base = Some n"
  shows "skip_spaces (dropWhile (\<lambda>c. \<not> isspace c) s) = []"
proof -
  define t where "t = (if s \<noteq> [] \<and> hd s = CHR ''+'' then tl s else s)"
  obtain u b where u: "fixup_radix t base = (u, b)" by fastforce
  obtain m rest where m: "parse_integer b u 0 = (m, rest)" by fastforce
  have rest: "rest = [] \<or> rest = [CHR 0x0A]"
    using assms u m by (auto simp: kstrtoull_def Let_def t_def split: if_splits)
  obtain ds where ds: "u = ds @ rest" "list_all (is_digit b) ds" using parse_integer_split [OF m] by blast
  obtain pre where pre: "t = pre @ u" "list_all (\<lambda>c. \<not> isspace c) pre" using fixup_radix_split [OF u] by blast
  have "list_all (\<lambda>c. \<not> isspace c) (pre @ ds)"
    using pre(2) ds(2) digit_no_space by (auto simp: list_all_iff)
  then have "dropWhile (\<lambda>c. \<not> isspace c) t = dropWhile (\<lambda>c. \<not> isspace c) rest"
    using pre(1) ds(1) by (simp add: dropWhile_append1 dropWhile_append2 list_all_iff)
  moreover have "dropWhile (\<lambda>c. \<not> isspace c) s = dropWhile (\<lambda>c. \<not> isspace c) t"
    by (cases s) (auto simp: t_def isspace_def)
  ultimately show ?thesis
    using rest by (auto simp: skip_spaces_def isspace_def)
qed

lemma c_string_id: "CHR 0x00 \<notin> set s \<Longrightarrow> c_string s = s"
  unfolding c_string_def by (rule takeWhile_eq_all_conv [THEN iffD2]) auto

lemma text_of_set:
  assumes "2 \<le> base" "base \<le> 16" "c \<in> set (text_of base n)"
  shows "is_digit base c"
  using text_of_digits [OF assms(1,2), of n] assms(3) by (simp add: list_all_iff)

lemma text_of_length:
  assumes "2 \<le> base" "n < base ^ k" "0 < k"
  shows "length (text_of base n) \<le> k"
  using assms
proof (induction k arbitrary: n)
  case (Suc k)
  show ?case
  proof (cases "n < base")
    case False
    then have "0 < k" using Suc.prems by (cases k) auto
    moreover have "n div base < base ^ k" using Suc.prems by (simp add: less_mult_imp_div_less mult.commute)
    ultimately show ?thesis using Suc False by (simp add: text_of.simps [of base n])
  qed (simp add: text_of.simps [of base n])
qed simp

lemma text_no_0x:
  assumes "base = 10 \<or> base = 16" "rest = [] \<or> hd rest \<noteq> CHR ''x'' \<and> hd rest \<noteq> CHR ''X''"
  shows "\<not> has_0x (text_of base n @ rest)"
proof
  assume h: "has_0x (text_of base n @ rest)"
  have b: "2 \<le> base" "base \<le> 16" using assms(1) by auto
  obtain d ds where t: "text_of base n = d # ds" by (cases "text_of base n") auto
  then have dig: "\<forall>c \<in> set ds. is_digit base c" using text_of_set [OF b, of _ n] by auto
  obtain x xs where "ds @ rest = x # xs" "x = CHR ''x'' \<or> x = CHR ''X''"
    using h unfolding t by (auto simp: has_0x_def split: list.splits)
  moreover have "\<not> is_digit base CHR ''x''" "\<not> is_digit base CHR ''X''" by (simp_all add: is_digit_def digit_val_def)
  ultimately show False using dig assms(2) by (cases ds) auto
qed

lemma scan_text:
  assumes "base = 10 \<or> base = 16" "n < 2 ^ 64" "rest = [] \<or> \<not> is_digit base (hd rest) \<and> hd rest \<noteq> CHR ''x'' \<and> hd rest \<noteq> CHR ''X''"
  shows "scan_num base (text_of base n @ rest) = Some (n, rest)"
proof -
  have b: "2 \<le> base" "base \<le> 16" using assms(1) by auto
  have "\<not> has_0x (text_of base n @ rest)" using assms(3) by (intro text_no_0x [OF assms(1)]) auto
  then have "fixup_radix (text_of base n @ rest) base = (text_of base n @ rest, base)"
    using assms(1) by (auto simp: fixup_radix_def)
  moreover have "parse_integer base (text_of base n @ rest) 0 = (n, rest)"
    using parse_text_rest [OF b] assms(3) by auto
  moreover have "unat (of_nat n :: u64) = n" using assms(2) by (simp add: unat_of_nat take_bit_nat_eq_self)
  ultimately show ?thesis
    using b text_of_hd [OF b, of n] by (simp add: scan_num_def Let_def)
qed

end
