(* ===== verification/Vcolor_Km.thy ===== *)
theory Vcolor_Km
  imports Vcolor_Pool Kernel_Text
begin

text \<open>
  The kernel module kern_mods/vcolor_km/vcolor_km.c: requests as text in /proc/vcolor_km. A write
  is handled to its end before the next one, and the page of a frame number is defined for the
  frames of \<open>valid\<close>. The steps of the kernel at the end are the handler, the hooks of the page
  allocator in vcolor.diff, and what else happens to pages.
\<close>

definition EINVAL :: int where "EINVAL = 22"

definition EFAULT :: int where "EFAULT = 14"

subsection \<open>The order command\<close>

text \<open>
  The loop over the numbers of the command: the result is whether it ended without an error,
  the number of colours read, those seen, and the order array.
\<close>

fun order_loop :: "nat \<Rightarrow> string \<Rightarrow> nat \<Rightarrow> bool list \<Rightarrow> u8 list \<Rightarrow> (bool \<times> nat \<times> bool list \<times> u8 list) option" where
  "order_loop 0 p idx used order = Some (True, idx, used, order)"
| "order_loop (Suc k) p idx used order =
     (let p = skip_spaces p
      in if p = [] then Some (True, idx, used, order)
         else case kstrtoull p 0 of None \<Rightarrow> Some (False, idx, used, order)
              | Some val \<Rightarrow>
                  if val \<ge> VCOLOR_MAX_COLORS then Some (False, idx, used, order)
                  else do {
                    order \<leftarrow> arr_set order idx (of_nat val);
                    used \<leftarrow> arr_set used val True;
                    order_loop k (dropWhile (\<lambda>c. \<not> isspace c) p) (idx + 1) used order
                  })"

text \<open>The colours that the command does not name follow.\<close>

fun order_fill :: "nat list \<Rightarrow> nat \<Rightarrow> bool list \<Rightarrow> u8 list \<Rightarrow> u8 list option" where
  "order_fill [] idx used order = Some order"
| "order_fill (i # is') idx used order =
     (if idx \<ge> VCOLOR_MAX_COLORS then Some order
      else do {
        u \<leftarrow> arr_get used i;
        if u then order_fill is' idx used order
        else do {
          order \<leftarrow> arr_set order idx (of_nat i);
          order_fill is' (idx + 1) used order
        }
      })"

definition order_command :: "string \<Rightarrow> vcolor_state \<Rightarrow> (bool \<times> vcolor_state) option" where
  "order_command p s = do {
     (ok, idx, used, order) \<leftarrow> order_loop VCOLOR_MAX_COLORS p 0 (replicate VCOLOR_MAX_COLORS False) (vcolor_order s);
     if \<not> ok then Some (False, s\<lparr>vcolor_order := order\<rparr>)
     else do {
       order \<leftarrow> order_fill [0..<VCOLOR_MAX_COLORS] idx used order;
       hottest \<leftarrow> arr_get order 0;
       Some (True, s\<lparr>vcolor_order := order, vcolor_hottest := hottest\<rparr>)
     }
   }"

subsection \<open>The hot command\<close>

fun color_pos :: "u8 list \<Rightarrow> nat \<Rightarrow> nat \<Rightarrow> nat \<Rightarrow> nat option option" where
  "color_pos order color i 0 = Some None"
| "color_pos order color i (Suc k) = do {
     c \<leftarrow> arr_get order i;
     if unat c = color then Some (Some i) else color_pos order color (i + 1) k
   }"

text \<open>\<open>memmove(&order[1], &order[0], n)\<close> and \<open>order[0] = color\<close>\<close>

definition move_front :: "u8 list \<Rightarrow> nat \<Rightarrow> u8 \<Rightarrow> u8 list option" where
  "move_front order n color =
     (if n < length order then Some (color # take n order @ drop (n + 1) order) else None)"

definition hot_command :: "nat \<Rightarrow> vcolor_state \<Rightarrow> vcolor_state option" where
  "hot_command color s =
     (if color < VCOLOR_MAX_COLORS then do {
        pos \<leftarrow> color_pos (vcolor_order s) color 0 VCOLOR_MAX_COLORS;
        order \<leftarrow> (case pos of
                    Some i \<Rightarrow> if i > 0 then move_front (vcolor_order s) i (of_nat color) else Some (vcolor_order s)
                  | None \<Rightarrow> move_front (vcolor_order s) (VCOLOR_MAX_COLORS - 1) (of_nat color));
        Some (s\<lparr>vcolor_order := order, vcolor_hottest := of_nat color\<rparr>)
      } else Some s)"

subsection \<open>The handler\<close>

definition hot_format :: "fmt list" where "hot_format = [Lit CHR ''h'', Lit CHR ''o'', Lit CHR ''t'', Blank, Num 10]"

definition free_format :: "fmt list" where
  "free_format = [Lit CHR ''f'', Lit CHR ''r'', Lit CHR ''e'', Lit CHR ''e'', Blank, Num 10]"

definition tag_format :: "fmt list" where "tag_format = [Num 16, Blank, Num 10]"

text \<open>\<open>%u\<close> stores an \<open>unsigned int\<close>.\<close>

definition to_uint :: "nat \<Rightarrow> nat" where "to_uint n = unat (of_nat n :: u32)"

definition vcolor_proc_write ::
    "(nat \<Rightarrow> bool) \<Rightarrow> (nat \<Rightarrow> bool) \<Rightarrow> (nat \<Rightarrow> bool) \<Rightarrow> string \<Rightarrow> bool \<Rightarrow> string \<Rightarrow> vcolor_state \<Rightarrow> (int \<times> vcolor_state) option" where
  "vcolor_proc_write prep mem valid comm fault input s =
     (if length input \<ge> 64 then Some (- EINVAL, s)
      else if fault then Some (- EFAULT, s)
      else (let kbuf = c_string input; cnt = int (length input); s = s\<lparr>writer_comm := take 15 comm\<rparr>
       in if sysfs_streq kbuf ''enable'' then Some (cnt, s\<lparr>vcolor_enabled := True\<rparr>)
          else if sysfs_streq kbuf ''disable'' then map_option (Pair cnt) (vcolor_flush prep mem s)
          else if sysfs_streq kbuf ''flush'' \<or> sysfs_streq kbuf ''clear''
            then map_option (\<lambda>s. (cnt, s\<lparr>vcolor_enabled := True\<rparr>)) (vcolor_flush prep mem s)
          else if take 5 kbuf = ''order''
            then map_option (\<lambda>(ok, s). (if ok then cnt else - EINVAL, s)) (order_command (drop 5 kbuf) s)
          else case sscanf hot_format kbuf of
            [color] \<Rightarrow> map_option (Pair cnt) (hot_command (to_uint color) s)
          | _ \<Rightarrow> (case sscanf free_format kbuf of
               [color] \<Rightarrow> map_option (Pair cnt)
                 (if to_uint color < VCOLOR_MAX_COLORS then vcolor_release_color prep mem (to_uint color) s else Some s)
             | _ \<Rightarrow> (case sscanf tag_format kbuf of
                  [pfn, color] \<Rightarrow>
                    if to_uint color < VCOLOR_MAX_COLORS
                    then if valid pfn then Some (cnt, vcolor_tag_frame mem pfn (of_nat (to_uint color)) s) else None
                    else Some (cnt, s)
                | _ \<Rightarrow> Some (- EINVAL, s)))))"

definition vcolor_init :: "vcolor_state \<Rightarrow> vcolor_state" where
  "vcolor_init s = s\<lparr>vcolor_enabled := False\<rparr>"

definition vcolor_exit :: "(nat \<Rightarrow> bool) \<Rightarrow> (nat \<Rightarrow> bool) \<Rightarrow> vcolor_state \<Rightarrow> vcolor_state option" where
  "vcolor_exit prep mem s = vcolor_flush prep mem s"

subsection \<open>The order stays a permutation\<close>

lemma order_okD:
  assumes "order_ok s"
  shows "length (vcolor_order s) = VCOLOR_MAX_COLORS" "set (vcolor_order s) = of_nat ` {..<VCOLOR_MAX_COLORS}"
    "distinct (vcolor_order s)"
proof -
  have m: "mset (vcolor_order s) = mset (map of_nat [0..<VCOLOR_MAX_COLORS])" using assms by (simp add: order_ok_def)
  show "length (vcolor_order s) = VCOLOR_MAX_COLORS" using mset_eq_length [OF m] by simp
  show "set (vcolor_order s) = of_nat ` {..<VCOLOR_MAX_COLORS}" using mset_eq_setD [OF m] by (auto simp: atLeast0LessThan)
  have "distinct (map (of_nat :: nat \<Rightarrow> u8) [0..<VCOLOR_MAX_COLORS])"
    using color_inject by (auto simp: distinct_map inj_on_def)
  then show "distinct (vcolor_order s)" using mset_eq_imp_distinct_iff [OF m] by simp
qed

lemma order_ok_small: "order_ok s \<Longrightarrow> \<forall>c \<in> set (vcolor_order s). unat c < VCOLOR_MAX_COLORS"
  using order_okD(2) unat_color by auto

lemma same_order_ok: "same_order s s' \<Longrightarrow> order_ok s' = order_ok s"
  by (simp add: same_order_def order_ok_def)

text \<open>The command is accepted with at most one number.\<close>

lemma order_loop_end: "skip_spaces p = [] \<Longrightarrow> order_loop k p idx used order = Some (True, idx, used, order)"
  by (cases k) simp_all

lemma order_loop_pos:
  assumes "k = Suc k'" "skip_spaces p \<noteq> []"
  shows "order_loop k p idx used order = (case kstrtoull (skip_spaces p) 0 of None \<Rightarrow> Some (False, idx, used, order)
    | Some val \<Rightarrow> if val \<ge> VCOLOR_MAX_COLORS then Some (False, idx, used, order)
        else do {
          order \<leftarrow> arr_set order idx (of_nat val);
          used \<leftarrow> arr_set used val True;
          order_loop k' (dropWhile (\<lambda>c. \<not> isspace c) (skip_spaces p)) (idx + 1) used order
        })"
  using assms(2) by (simp add: assms(1) Let_def)

lemma order_loop_cases:
  assumes "length order = VCOLOR_MAX_COLORS"
  obtains (bad) idx used where "order_loop VCOLOR_MAX_COLORS p 0 (replicate VCOLOR_MAX_COLORS False) order = Some (False, idx, used, order)"
  | (none) "order_loop VCOLOR_MAX_COLORS p 0 (replicate VCOLOR_MAX_COLORS False) order
      = Some (True, 0, replicate VCOLOR_MAX_COLORS False, order)"
  | (one) val where "val < VCOLOR_MAX_COLORS" "kstrtoull (skip_spaces p) 0 = Some val"
      "order_loop VCOLOR_MAX_COLORS p 0 (replicate VCOLOR_MAX_COLORS False) order
      = Some (True, 1, (replicate VCOLOR_MAX_COLORS False)[val := True], order[0 := of_nat val])"
proof (cases "skip_spaces p = []")
  case True
  then show ?thesis using none order_loop_end by blast
next
  case False
  have pos: "VCOLOR_MAX_COLORS = Suc 15" by (simp add: VCOLOR_MAX_COLORS_def)
  note loop = order_loop_pos [OF pos False, of 0 "replicate VCOLOR_MAX_COLORS False" order]
  show ?thesis
  proof (cases "kstrtoull (skip_spaces p) 0")
    case None
    then show ?thesis using bad loop by simp
  next
    case (Some val)
    show ?thesis
    proof (cases "val < VCOLOR_MAX_COLORS")
      case True
      show ?thesis
        using one [OF True Some] loop Some True order_loop_end [OF kstrtoull_one_word [OF Some]] assms pos
        by (simp add: arr_simps)
    next
      case False
      then show ?thesis using bad loop Some by simp
    qed
  qed
qed

lemma order_fill_eq:
  assumes "idx + length (filter (\<lambda>i. \<not> used ! i) is') = VCOLOR_MAX_COLORS" "length order = VCOLOR_MAX_COLORS"
    "\<forall>i \<in> set is'. i < length used"
  shows "order_fill is' idx used order = Some (take idx order @ map of_nat (filter (\<lambda>i. \<not> used ! i) is'))"
  using assms
proof (induction is' arbitrary: idx order)
  case (Cons i is')
  show ?case
  proof (cases "used ! i")
    case True
    show ?thesis
    proof (cases "idx < VCOLOR_MAX_COLORS")
      case full: False
      then have "filter (\<lambda>i. \<not> used ! i) is' = []" using Cons.prems(1) True by (cases "filter (\<lambda>i. \<not> used ! i) is'") auto
      then show ?thesis using full True Cons.prems by simp
    qed (use Cons True in \<open>simp add: arr_simps\<close>)
  next
    case False
    then have "idx < VCOLOR_MAX_COLORS" using Cons.prems(1) by simp
    then show ?thesis
      using False Cons.prems Cons.IH [of "idx + 1" "order[idx := of_nat i]"] by (simp add: arr_simps take_Suc_conv_app_nth)
  qed
qed simp

lemma order_command_ok:
  assumes "order_ok s"
  shows "\<exists>ok s'. order_command p s = Some (ok, s') \<and> order_ok s' \<and> (\<exists>order h. s' = s\<lparr>vcolor_order := order, vcolor_hottest := h\<rparr>)"
proof -
  have len: "length (vcolor_order s) = VCOLOR_MAX_COLORS" using order_okD(1) [OF assms] .
  show ?thesis
  proof (rule order_loop_cases [OF len, of p])
    fix idx used
    assume "order_loop VCOLOR_MAX_COLORS p 0 (replicate VCOLOR_MAX_COLORS False) (vcolor_order s) = Some (False, idx, used, vcolor_order s)"
    then show ?thesis
      using assms by (intro exI [of _ False] exI [of _ s] conjI exI [of _ "vcolor_order s"] exI [of _ "vcolor_hottest s"])
        (simp_all add: order_command_def)
  next
    let ?order = "map of_nat [0..<VCOLOR_MAX_COLORS] :: u8 list"
    assume "order_loop VCOLOR_MAX_COLORS p 0 (replicate VCOLOR_MAX_COLORS False) (vcolor_order s)
      = Some (True, 0, replicate VCOLOR_MAX_COLORS False, vcolor_order s)"
    moreover have "filter (\<lambda>i. \<not> replicate VCOLOR_MAX_COLORS False ! i) [0..<VCOLOR_MAX_COLORS] = [0..<VCOLOR_MAX_COLORS]"
      by (rule filter_True) simp
    then have "order_fill [0..<VCOLOR_MAX_COLORS] 0 (replicate VCOLOR_MAX_COLORS False) (vcolor_order s) = Some ?order"
      using order_fill_eq [of 0 "replicate VCOLOR_MAX_COLORS False" "[0..<VCOLOR_MAX_COLORS]" "vcolor_order s"] len by simp
    moreover have "arr_get ?order 0 = Some (hd ?order)" by (simp add: arr_get_def VCOLOR_MAX_COLORS_def hd_map upt_conv_Cons)
    ultimately show ?thesis by (simp add: order_command_def order_ok_def) blast
  next
    fix val
    let ?used = "(replicate VCOLOR_MAX_COLORS False)[val := True]"
    let ?order = "of_nat val # map of_nat (filter (\<lambda>i. \<not> ?used ! i) [0..<VCOLOR_MAX_COLORS]) :: u8 list"
    assume val: "val < VCOLOR_MAX_COLORS"
      and loop: "order_loop VCOLOR_MAX_COLORS p 0 (replicate VCOLOR_MAX_COLORS False) (vcolor_order s)
        = Some (True, 1, ?used, (vcolor_order s)[0 := of_nat val])"
    have m: "mset (val # filter (\<lambda>i. \<not> ?used ! i) [0..<VCOLOR_MAX_COLORS]) = mset [0..<VCOLOR_MAX_COLORS]"
      using val by (intro set_eq_iff_mset_eq_distinct [THEN iffD1]) (auto simp: nth_list_update)
    have "order_fill [0..<VCOLOR_MAX_COLORS] 1 ?used ((vcolor_order s)[0 := of_nat val]) = Some ?order"
      using order_fill_eq [of 1 ?used "[0..<VCOLOR_MAX_COLORS]" "(vcolor_order s)[0 := of_nat val]"] mset_eq_length [OF m] len
      by (cases "vcolor_order s") (auto simp: VCOLOR_MAX_COLORS_def)
    moreover have "mset ?order = mset (map of_nat [0..<VCOLOR_MAX_COLORS])"
      using arg_cong [OF m, of "image_mset (of_nat :: nat \<Rightarrow> u8)"] by simp
    ultimately show ?thesis
      using loop by (simp add: order_command_def order_ok_def arr_get_def) blast
  qed
qed

lemma color_pos_found:
  assumes "i + k = length order" "i \<le> j" "j < length order" "unat (order ! j) = color"
  shows "\<exists>j. color_pos order color i k = Some (Some j) \<and> j < length order \<and> unat (order ! j) = color"
  using assms
proof (induction k arbitrary: i)
  case (Suc k)
  show ?case
  proof (cases "unat (order ! i) = color")
    case False
    then have "Suc i \<le> j" using Suc.prems(2,4) by (cases "i = j") auto
    then show ?thesis using False Suc.prems Suc.IH [of "Suc i"] by (simp add: arr_simps)
  qed (use Suc.prems in \<open>simp add: arr_simps\<close>)
qed simp

lemma move_front_mset:
  assumes "n < length order" "order ! n = c"
  shows "\<exists>order'. move_front order n c = Some order' \<and> mset order' = mset order \<and> hd order' = c"
proof -
  have "order = take n order @ c # drop (Suc n) order" using id_take_nth_drop [OF assms(1)] assms(2) by simp
  then have "mset order = mset (c # take n order @ drop (n + 1) order)" by (metis mset_append add_mset_add_single Suc_eq_plus1 mset.simps(2) union_mset_add_mset_right)
  then show ?thesis using assms(1) by (simp add: move_front_def)
qed

text \<open>The hot colour moves to the front of the order.\<close>

lemma hot_command_ok:
  assumes "order_ok s"
  shows "\<exists>s'. hot_command color s = Some s' \<and> order_ok s' \<and> (\<exists>order h. s' = s\<lparr>vcolor_order := order, vcolor_hottest := h\<rparr>)
    \<and> (color < VCOLOR_MAX_COLORS \<longrightarrow> vcolor_hottest s' = of_nat color)"
proof (cases "color < VCOLOR_MAX_COLORS")
  case True
  have len: "length (vcolor_order s) = VCOLOR_MAX_COLORS" using order_okD(1) [OF assms] .
  have "of_nat color \<in> set (vcolor_order s)" using order_okD(2) [OF assms] True by blast
  then obtain i where "i < length (vcolor_order s)" "vcolor_order s ! i = of_nat color" by (auto simp: in_set_conv_nth)
  then obtain j where j: "color_pos (vcolor_order s) color 0 VCOLOR_MAX_COLORS = Some (Some j)" "j < length (vcolor_order s)"
      "unat (vcolor_order s ! j) = color"
    using color_pos_found [of 0 VCOLOR_MAX_COLORS "vcolor_order s" i color] len unat_color [OF True] by auto
  have col: "vcolor_order s ! j = of_nat color" using j(3) by auto
  obtain order where order: "(if j > 0 then move_front (vcolor_order s) j (of_nat color) else Some (vcolor_order s)) = Some order"
      "mset order = mset (vcolor_order s)" "hd order = of_nat color"
  proof (cases "j > 0")
    case True
    then show ?thesis using that move_front_mset [OF j(2) col] by auto
  next
    case False
    then show ?thesis using that [of "vcolor_order s"] col j(2) by (simp add: hd_conv_nth)
  qed
  show ?thesis
    using True j(1) order assms by (auto simp: hot_command_def order_ok_def)
next
  case False
  have "s = s\<lparr>vcolor_order := vcolor_order s, vcolor_hottest := vcolor_hottest s\<rparr>" by simp
  then have "\<exists>order h. s = s\<lparr>vcolor_order := order, vcolor_hottest := h\<rparr>" by blast
  then show ?thesis using False assms by (simp add: hot_command_def)
qed

lemma vpool_ok_fields [simp]:
  "vpool_ok (s\<lparr>vcolor_order := order, vcolor_hottest := h\<rparr>) = vpool_ok s" "vpool_ok (s\<lparr>writer_comm := w\<rparr>) = vpool_ok s"
  "vpool_ok (s\<lparr>vcolor_enabled := e\<rparr>) = vpool_ok s"
  by (simp_all add: vpool_ok_def)

lemma order_ok_fields [simp]:
  "order_ok (s\<lparr>writer_comm := w\<rparr>) = order_ok s" "order_ok (s\<lparr>vcolor_enabled := e\<rparr>) = order_ok s"
  by (simp_all add: order_ok_def)

definition vcolor_ok :: "vcolor_state \<Rightarrow> bool" where
  "vcolor_ok s \<longleftrightarrow> vpool_ok s \<and> order_ok s"

text \<open>What a branch of the handler returns; only a frame without a page stops it.\<close>

definition answers :: "(nat \<Rightarrow> bool) \<Rightarrow> (int \<times> vcolor_state) option \<Rightarrow> bool" where
  "answers valid r \<longleftrightarrow> (case r of None \<Rightarrow> \<exists>p. \<not> valid p | Some (n, s) \<Rightarrow> vcolor_ok s)"

lemma answers_state:
  "vcolor_ok s \<Longrightarrow> answers valid (Some (n, s))"
  "\<exists>s. r = Some s \<and> vpool_ok s \<and> order_ok s \<Longrightarrow> answers valid (map_option (Pair n) r)"
  by (auto simp: answers_def vcolor_ok_def)

lemma tag_same_order: "same_order s (vcolor_tag_frame mem p c s)"
  by (simp add: same_order_def vcolor_tag_frame_def)

lemma proc_write_ok:
  assumes "vcolor_ok s"
  shows "answers valid (vcolor_proc_write prep mem valid comm fault input s)"
proof -
  let ?s = "s\<lparr>writer_comm := take 15 comm\<rparr>"
  have ok: "vpool_ok ?s" "order_ok ?s" using assms by (simp_all add: vcolor_ok_def)
  have flush: "\<exists>s'. vcolor_flush prep mem ?s = Some s' \<and> vpool_ok s' \<and> order_ok s'"
    using flush_ok [OF ok(1)] same_order_ok ok(2) by blast
  have release: "\<exists>s'. vcolor_release_color prep mem c ?s = Some s' \<and> vpool_ok s' \<and> order_ok s'" for c
    using release_color_ok [OF ok(1)] same_order_ok ok(2) by blast
  have order: "\<exists>b s'. order_command p ?s = Some (b, s') \<and> vcolor_ok s'" for p
    using order_command_ok [OF ok(2), of p] ok(1) by (auto simp: vcolor_ok_def)
  have hot: "\<exists>s'. hot_command c ?s = Some s' \<and> vpool_ok s' \<and> order_ok s'" for c
    using hot_command_ok [OF ok(2), of c] ok(1) by auto
  have tag: "c < VCOLOR_MAX_COLORS \<Longrightarrow> vcolor_ok (vcolor_tag_frame mem p (of_nat c) ?s)" for c p
    using tag_frame_ok [OF ok(1)] same_order_ok [OF tag_same_order] ok(2) by (simp add: vcolor_ok_def)
  have flushed: "answers valid (map_option (\<lambda>s. (n, s\<lparr>vcolor_enabled := True\<rparr>)) (vcolor_flush prep mem ?s))" for n
    using flush by (auto simp: answers_def vcolor_ok_def)
  have ordered: "answers valid (map_option (\<lambda>(b, s). (if b then n else - EINVAL, s)) (order_command p ?s))" for n p
  proof -
    obtain b s' where "order_command p ?s = Some (b, s')" "vcolor_ok s'" using order by blast
    then show ?thesis by (simp add: answers_def)
  qed
  have enabled: "answers valid (Some (n, ?s\<lparr>vcolor_enabled := True\<rparr>))" for n
    using ok by (simp add: answers_def vcolor_ok_def)
  have same: "answers valid (Some (n, ?s))" "answers valid (Some (n, s))" for n
    using ok assms by (simp_all add: answers_def vcolor_ok_def)
  have released: "answers valid (map_option (Pair n) (if c < VCOLOR_MAX_COLORS then vcolor_release_color prep mem c ?s else Some ?s))" for n c
    using release ok by (intro answers_state(2)) auto
  have tagged: "answers valid (if c < VCOLOR_MAX_COLORS then if valid p then Some (n, vcolor_tag_frame mem p (of_nat c) ?s) else None else Some (n, ?s))" for n c p
    using tag same(1) by (auto simp: answers_def)
  show ?thesis
    unfolding vcolor_proc_write_def Let_def
    using enabled flushed ordered same released tagged answers_state(2) [OF flush] answers_state(2) [OF hot]
    by (simp only: if_split list.split) blast
qed

subsection \<open>The kernel\<close>

text \<open>A block that is freed is in use until then, so that its pages are neither free nor pooled.\<close>

definition block_in_use :: "nat \<Rightarrow> nat \<Rightarrow> vcolor_state \<Rightarrow> bool" where
  "block_in_use p order s \<longleftrightarrow> page_count s p = 1
     \<and> (\<forall>q. p < q \<and> q < p + 2 ^ order \<longrightarrow> page_count s q = 0 \<and> \<not> page_buddy s q \<and> \<not> in_pool q s)"

text \<open>What happens to pages, and the steps of the kernel with the module.\<close>

inductive page_step :: "vcolor_state \<Rightarrow> vcolor_state \<Rightarrow> bool" where
  allocated: "vcolor_alloc_page comm s = Some (p, s') \<Longrightarrow> page_step s s'"
| freed: "block_in_use p order s \<Longrightarrow> free_frozen_pages prep mem p order (s\<lparr>page_count := (page_count s)(p := 0)\<rparr>) = Some s'
    \<Longrightarrow> page_step s s'"
| referenced: "0 < page_count s p \<Longrightarrow> page_step s (s\<lparr>page_count := (page_count s)(p := page_count s p + 1)\<rparr>)"
| released: "1 < page_count s p \<Longrightarrow> page_step s (s\<lparr>page_count := (page_count s)(p := page_count s p - 1)\<rparr>)"
| taken: "page_buddy s p \<Longrightarrow> page_step s (s\<lparr>page_buddy := (page_buddy s)(p := False), page_count := (page_count s)(p := 1)\<rparr>)"

inductive kernel_step :: "vcolor_state \<Rightarrow> vcolor_state \<Rightarrow> bool" where
  written: "vcolor_proc_write prep mem valid comm fault input s = Some (n, s') \<Longrightarrow> kernel_step s s'"
| paged: "page_step s s' \<Longrightarrow> kernel_step s s'"
| loaded: "kernel_step s (vcolor_init s)"
| unloaded: "vcolor_exit prep mem s = Some s' \<Longrightarrow> kernel_step s s'"

lemma block_idle:
  assumes "vpool_ok s" "block_in_use p order s"
  shows "vpool_ok (s\<lparr>page_count := (page_count s)(p := 0)\<rparr>)" "idle_block p order (s\<lparr>page_count := (page_count s)(p := 0)\<rparr>)"
proof -
  let ?s = "s\<lparr>page_count := (page_count s)(p := 0)\<rparr>"
  have p: "\<not> in_pool p s" "\<not> page_buddy s p"
    using assms in_poolD(2) [OF assms(1), of p] vpool_okD(11) [OF assms(1), of p] by (auto simp: block_in_use_def)
  show "vpool_ok ?s"
    using vpool_okD(3,4,10,11) [OF assms(1)] in_poolD(2,3) [OF assms(1)] by (intro vpool_ok_frame [OF assms(1)]) auto
  show "idle_block p order ?s"
    unfolding idle_block_def
  proof (intro allI impI)
    fix q assume "p \<le> q \<and> q < p + 2 ^ order"
    then show "page_count ?s q = 0 \<and> \<not> page_buddy ?s q \<and> \<not> in_pool q ?s"
      using assms(2) p by (cases "q = p") (auto simp: block_in_use_def in_pool_def)
  qed
qed

lemma count_ok:
  assumes "vpool_ok s" "0 < page_count s p \<or> page_buddy s p"
  shows "vpool_ok (s\<lparr>page_buddy := (page_buddy s)(p := False), page_count := (page_count s)(p := n)\<rparr>)"
proof -
  have "\<not> in_pool p s" using in_poolD(2,3) [OF assms(1), of p] assms(2) by auto
  then show ?thesis
    using vpool_okD(3,4,10,11) [OF assms(1)] in_poolD(2,3) [OF assms(1)] by (intro vpool_ok_frame [OF assms(1)]) auto
qed

lemma alloc_step_ok:
  assumes "vcolor_ok s"
  shows "vcolor_alloc_page comm s =
    (case find (\<lambda>c. vcolor_enabled s \<and> colored_page_list s ! unat c \<noteq> []) (vcolor_order s) of None \<Rightarrow> Some (None, s)
     | Some c \<Rightarrow> Some (Some (hd (colored_page_list s ! unat c)), take_page comm (unat c) s))"
proof -
  have ok: "vpool_ok s" "order_ok s" using assms by (simp_all add: vcolor_ok_def)
  show ?thesis by (rule alloc_page_eq [OF ok(1) order_okD(1) [OF ok(2)] order_ok_small [OF ok(2)]])
qed

lemma preferred_color:
  assumes "vcolor_ok s" "find (\<lambda>c. vcolor_enabled s \<and> colored_page_list s ! unat c \<noteq> []) (vcolor_order s) = Some c"
  obtains p ps where "unat c < VCOLOR_MAX_COLORS" "colored_page_list s ! unat c = p # ps"
proof -
  have "c \<in> set (vcolor_order s)" "colored_page_list s ! unat c \<noteq> []"
    using assms(2) by (auto simp: find_Some_iff)
  then show ?thesis
    using that order_ok_small assms(1) by (cases "colored_page_list s ! unat c") (auto simp: vcolor_ok_def)
qed

lemma page_step_ok:
  assumes "page_step s s'" "vcolor_ok s"
  shows "vcolor_ok s' \<and> same_order s s'"
  using assms
proof cases
  case (allocated comm p)
  show ?thesis
  proof (cases "find (\<lambda>c. vcolor_enabled s \<and> colored_page_list s ! unat c \<noteq> []) (vcolor_order s)")
    case (Some c)
    obtain q ps where c: "unat c < VCOLOR_MAX_COLORS" "colored_page_list s ! unat c = q # ps"
      using preferred_color [OF assms(2) Some] .
    then show ?thesis
      using Some allocated alloc_step_ok [OF assms(2), of comm] take_page_ok(1,3) [OF _ c, of comm] same_order_ok assms(2)
      by (auto simp: vcolor_ok_def)
  qed (use allocated alloc_step_ok [OF assms(2), of comm] assms(2) in \<open>simp add: same_order_def\<close>)
next
  case (freed p order prep mem)
  then show ?thesis
    using block_idle [of s p order] free_frozen_ok [of "s\<lparr>page_count := (page_count s)(p := 0)\<rparr>" p order prep mem] assms(2)
    by (auto simp: vcolor_ok_def same_order_def order_ok_def)
next
  case (referenced p)
  have "\<not> page_buddy s p" using referenced vpool_okD(11) [of s p] assms(2) by (auto simp: vcolor_ok_def)
  then show ?thesis
    using referenced count_ok [of s p "page_count s p + 1"] assms(2) by (simp add: vcolor_ok_def same_order_def order_ok_def fun_upd_idem)
next
  case (released p)
  have "\<not> page_buddy s p" using released vpool_okD(11) [of s p] assms(2) by (auto simp: vcolor_ok_def)
  then show ?thesis
    using released count_ok [of s p "page_count s p - 1"] assms(2) by (simp add: vcolor_ok_def same_order_def order_ok_def fun_upd_idem)
next
  case (taken p)
  then show ?thesis using count_ok [of s p 1] assms(2) by (simp add: vcolor_ok_def same_order_def order_ok_def)
qed

lemma kernel_step_ok:
  assumes "kernel_step s s'" "vcolor_ok s"
  shows "vcolor_ok s'"
  using assms
proof cases
  case (written prep mem valid comm fault input n)
  then show ?thesis
    using proc_write_ok [OF assms(2), of valid prep mem comm fault input] by (simp add: answers_def)
next
  case paged
  then show ?thesis using page_step_ok assms(2) by blast
next
  case loaded
  then show ?thesis using assms(2) by (simp add: vcolor_init_def vcolor_ok_def)
next
  case (unloaded prep mem)
  then show ?thesis
    using flush_ok [of s prep mem] same_order_ok assms(2) by (auto simp: vcolor_exit_def vcolor_ok_def)
qed

lemma reachable_ok:
  assumes "kernel_step\<^sup>*\<^sup>* (vcolor_core_init refs buddy) s" "\<And>p. buddy p \<Longrightarrow> refs p = 0"
  shows "vcolor_ok s"
  using assms(1)
proof induction
  case base
  have "vpool_ok (vcolor_core_init refs buddy)"
    using assms(2) by (intro vpool_okI) (simp_all add: vcolor_core_init_def)
  then show ?case
    by (simp add: vcolor_ok_def order_ok_def vcolor_core_init_def VCOLOR_MAX_COLORS_def upt_conv_Cons)
qed (use kernel_step_ok in blast)


text \<open>
  C21: in a reachable state \<open>vcolor_alloc_page\<close> returns a page of the first colour of the order that
  has one, a page that nobody holds, and no page exactly when colouring is off or the pool is
  empty; the page is then in use and out of the pool.
\<close>

theorem alloc_follows_order:
  assumes "kernel_step\<^sup>*\<^sup>* (vcolor_core_init refs buddy) s" "\<And>p. buddy p \<Longrightarrow> refs p = 0"
  shows "case find (\<lambda>c. vcolor_enabled s \<and> colored_page_list s ! unat c \<noteq> []) (vcolor_order s) of
      None \<Rightarrow> vcolor_alloc_page comm s = Some (None, s)
    | Some c \<Rightarrow> \<exists>p s'. vcolor_alloc_page comm s = Some (Some p, s') \<and> page_vcolor s p = c
        \<and> page_count s p = 0 \<and> \<not> page_buddy s p \<and> page_count s' p = 1 \<and> \<not> in_pool p s'"
proof (cases "find (\<lambda>c. vcolor_enabled s \<and> colored_page_list s ! unat c \<noteq> []) (vcolor_order s)")
  case None
  then show ?thesis using alloc_step_ok [OF reachable_ok [OF assms], of comm] by simp
next
  case (Some c)
  have ok: "vcolor_ok s" "vpool_ok s" using reachable_ok [OF assms] by (simp_all add: vcolor_ok_def)
  obtain p ps where c: "unat c < VCOLOR_MAX_COLORS" "colored_page_list s ! unat c = p # ps"
    using preferred_color [OF ok(1) Some] .
  have "vcolor_alloc_page comm s = Some (Some p, take_page comm (unat c) s)"
    using alloc_step_ok [OF ok(1), of comm] Some c(2) by simp
  moreover have "page_vcolor s p = c \<and> page_count s p = 0 \<and> \<not> page_buddy s p"
    using vpool_okD(7-9) [OF ok(2) c(1), of p] c(2) by simp
  moreover have "page_count (take_page comm (unat c) s) p = 1" using c(2) by (simp add: take_page_def)
  ultimately show ?thesis using Some take_page_ok(2) [OF ok(2) c, of comm] by simp
qed


subsection \<open>A run\<close>

text \<open>Pages 5 and 6 are a block in use; page 5 is tagged with colour 3 and then freed into the pool.\<close>

definition demo_write :: "string \<Rightarrow> vcolor_state \<Rightarrow> vcolor_state" where
  "demo_write input s = snd (the (vcolor_proc_write (\<lambda>_. True) (\<lambda>_. True) (\<lambda>_. True) ''vcolor'' False input s))"

definition demo_boot :: vcolor_state where
  "demo_boot = vcolor_core_init (\<lambda>p. if p = 5 then 1 else 0) (\<lambda>p. p \<noteq> 5 \<and> p \<noteq> 6)"

definition demo_tagged :: vcolor_state where "demo_tagged = demo_write ''5 3'' (demo_write ''enable'' demo_boot)"

definition demo_pooled :: vcolor_state where
  "demo_pooled = the (free_frozen_pages (\<lambda>_. True) (\<lambda>_. True) 5 0 (demo_tagged\<lparr>page_count := (page_count demo_tagged)(5 := 0)\<rparr>))"

lemma demo_write_step:
  assumes "vcolor_ok s"
  shows "kernel_step s (demo_write input s)"
proof -
  obtain n s' where "vcolor_proc_write (\<lambda>_. True) (\<lambda>_. True) (\<lambda>_. True) ''vcolor'' False input s = Some (n, s')"
    using proc_write_ok [OF assms, of "\<lambda>_. True" "\<lambda>_. True" "\<lambda>_. True" "''vcolor''" False input]
    by (auto simp: answers_def split: option.splits)
  then show ?thesis using kernel_step.written by (simp add: demo_write_def)
qed

lemma demo_boot_refs: "(p \<noteq> 5 \<and> p \<noteq> 6) \<Longrightarrow> (if p = 5 then 1 else 0) = (0 :: nat)"
  by simp

lemma demo_reachable:
  "kernel_step\<^sup>*\<^sup>* demo_boot demo_tagged" "vcolor_ok demo_tagged" "kernel_step\<^sup>*\<^sup>* demo_boot demo_pooled"
proof -
  have boot: "vcolor_ok demo_boot"
    unfolding demo_boot_def by (rule reachable_ok [OF rtranclp.rtrancl_refl]) (rule demo_boot_refs)
  have one: "kernel_step demo_boot (demo_write ''enable'' demo_boot)" by (rule demo_write_step [OF boot])
  have two: "kernel_step (demo_write ''enable'' demo_boot) demo_tagged"
    unfolding demo_tagged_def by (rule demo_write_step [OF kernel_step_ok [OF one boot]])
  show tagged: "kernel_step\<^sup>*\<^sup>* demo_boot demo_tagged" using one two by auto
  show ok: "vcolor_ok demo_tagged" using kernel_step_ok one two boot by blast
  have "page_count demo_tagged 5 = 1" by code_simp
  then have use: "block_in_use 5 0 demo_tagged" by (auto simp: block_in_use_def)
  have "\<exists>s'. free_frozen_pages (\<lambda>_. True) (\<lambda>_. True) 5 0 (demo_tagged\<lparr>page_count := (page_count demo_tagged)(5 := 0)\<rparr>) = Some s'"
    using free_frozen_ok [OF block_idle [OF _ use]] ok by (auto simp: vcolor_ok_def)
  then have "kernel_step demo_tagged demo_pooled"
    using page_step.freed [OF use] kernel_step.paged by (auto simp: demo_pooled_def)
  then show "kernel_step\<^sup>*\<^sup>* demo_boot demo_pooled" using tagged by simp
qed


theorem alloc_follows_order_witness:
  "\<exists>s'. vcolor_alloc_page ''cat'' demo_pooled = Some (Some 5, s') \<and> page_count s' 5 = 1 \<and> \<not> in_pool 5 s'"
proof -
  have "find (\<lambda>c. vcolor_enabled demo_pooled \<and> colored_page_list demo_pooled ! unat c \<noteq> []) (vcolor_order demo_pooled) = Some 3"
    by code_simp
  moreover have "map_option fst (vcolor_alloc_page ''cat'' demo_pooled) = Some (Some 5)" by code_simp
  ultimately show ?thesis
    using alloc_follows_order [OF demo_reachable(3) [unfolded demo_boot_def] demo_boot_refs, of "''cat''"] by auto
qed


end
