(* ===== verification/F64.thy ===== *)
theory F64
  imports Latency
begin

text \<open>
  Arithmetic on doubles as the monitors use it. A double is a rational number, rounded after
  every operation, or \<open>None\<close> when it is not a number; its range is not modelled.
\<close>

type_synonym f64 = "rat option"

definition f_mul :: "f64 \<Rightarrow> f64 \<Rightarrow> f64" where
  "f_mul x y = do { x \<leftarrow> x; y \<leftarrow> y; Some (fl (x * y)) }"

definition f_add :: "f64 \<Rightarrow> f64 \<Rightarrow> f64" where
  "f_add x y = do { x \<leftarrow> x; y \<leftarrow> y; Some (fl (x + y)) }"

definition f_sub :: "f64 \<Rightarrow> f64 \<Rightarrow> f64" where
  "f_sub x y = do { x \<leftarrow> x; y \<leftarrow> y; Some (fl (x - y)) }"

text \<open>A comparison with something that is not a number is false.\<close>

definition f_less :: "f64 \<Rightarrow> f64 \<Rightarrow> bool" where
  "f_less x y = (case (x, y) of (Some x, Some y) \<Rightarrow> x < y | _ \<Rightarrow> False)"

end
