(* ===== verification/Vcolor.thy ===== *)
theory Vcolor
  imports Vcolor_Km Evset_L3 Topo_Utils F64
begin

text \<open>
  The tool src/vcolor.c: it sorts pages by colour with eviction sets of the L2 cache, hands them
  to the kernel module, and then tells the module which colour of the last-level cache is the
  hottest, so that the page cache is allocated there.

  Requests go through the handler of the module. Whether /proc/vcolor_km can be opened is a
  parameter, as is \<open>qsort\<close>.
\<close>

subsection \<open>Requests to the module\<close>

record kernel_env =
  env_prep :: "nat \<Rightarrow> bool"
  env_mem :: "nat \<Rightarrow> bool"
  env_valid :: "nat \<Rightarrow> bool"
  env_open :: bool

definition mod_write :: "kernel_env \<Rightarrow> string \<Rightarrow> vcolor_state \<Rightarrow> (int \<times> vcolor_state) option" where
  "mod_write env text s = vcolor_proc_write (env_prep env) (env_mem env) (env_valid env) ''vcolor'' False text s"

definition tag_text :: "nat \<Rightarrow> nat \<Rightarrow> string" where
  "tag_text pfn c = text_of 16 pfn @ '' '' @ text_of 10 c @ [CHR 0x0A]"

definition hot_text :: "nat \<Rightarrow> string" where
  "hot_text color = ''hot '' @ text_of 10 color @ [CHR 0x0A]"

definition order_text :: "nat list \<Rightarrow> string" where
  "order_text order = ''order'' @ concat (map (\<lambda>c. '' '' @ text_of 10 c) order)"

text \<open>The buffer of \<open>write_order\<close> has 128 bytes, and the newline is stored behind the text.\<close>

definition write_order :: "kernel_env \<Rightarrow> nat list \<Rightarrow> vcolor_state \<Rightarrow> (bool \<times> vcolor_state) option" where
  "write_order env order s =
     (if \<not> env_open env then Some (False, s)
      else if length (order_text order) \<ge> 128 then None
      else do {
        let text = order_text order @ [CHR 0x0A];
        (n, s) \<leftarrow> mod_write env text s;
        Some (n = int (length text), s)
      })"

definition write_hot :: "kernel_env \<Rightarrow> nat \<Rightarrow> vcolor_state \<Rightarrow> (bool \<times> vcolor_state) option" where
  "write_hot env color s =
     (if \<not> env_open env then Some (False, s)
      else do {
        (n, s) \<leftarrow> mod_write env (hot_text color) s;
        Some (n = int (length (hot_text color)), s)
      })"

subsection \<open>Filling the pools\<close>

text \<open>The pools of a range of colours; the frame of an address comes from \<open>va_to_pa\<close>.\<close>

fun write_addrs :: "kernel_env \<Rightarrow> (addr \<Rightarrow> u64) \<Rightarrow> nat \<Rightarrow> addr list \<Rightarrow> vcolor_state \<Rightarrow> vcolor_state option" where
  "write_addrs env pa c [] s = Some s"
| "write_addrs env pa c (a # as) s = do {
     (n, s) \<leftarrow> mod_write env (tag_text (unat (drop_bit 12 (pa a))) c) s;
     write_addrs env pa c as s
   }"

fun write_worker :: "kernel_env \<Rightarrow> (addr \<Rightarrow> u64) \<Rightarrow> EvCands option list \<Rightarrow> nat list \<Rightarrow> vcolor_state \<Rightarrow> vcolor_state option" where
  "write_worker env pa cands [] s = Some s"
| "write_worker env pa cands (c # cs) s = do {
     cand \<leftarrow> arr_get cands c;
     s \<leftarrow> (case cand of None \<Rightarrow> Some s
           | Some cand \<Rightarrow> do {
               addrs \<leftarrow> arr_range (cands_addrs cand) 0 (cands_count cand);
               write_addrs env pa c addrs s
             });
     write_worker env pa cands cs s
   }"

text \<open>The workers of the threads that could be started (\<open>started\<close> of them), one after the other.\<close>

definition write_threads :: "nat \<Rightarrow> nat \<Rightarrow> nat" where
  "write_threads n_threads n_colors = (if n_threads > n_colors then n_colors else n_threads)"

text \<open>
  The buffer of the pools is mapped with small pages. Unmapping it gives up the last reference
  to the frame of each page.
\<close>

definition buffer_frames :: "(addr \<Rightarrow> u64) \<Rightarrow> EvBuffer \<Rightarrow> nat list" where
  "buffer_frames pa e = map (\<lambda>i. unat (drop_bit 12 (pa (buf e + of_nat i * 4096)))) [0..<unat (n_pages e)]"

fun free_pools :: "kernel_env \<Rightarrow> (addr \<Rightarrow> u64) \<Rightarrow> EvCands option list \<Rightarrow> vcolor_state \<Rightarrow> vcolor_state option" where
  "free_pools env pa [] s = Some s"
| "free_pools env pa (None # cands) s = free_pools env pa cands s"
| "free_pools env pa (Some cand # cands) s =
     (case evcands_free cand ((evb cand)\<lparr>evb_ref_cnt := 0\<rparr>) of
        Some _ \<Rightarrow> Some s
      | None \<Rightarrow> each (free_pages (env_prep env) (env_mem env)) (buffer_frames pa (evb cand)) s)"

definition write_colors ::
    "kernel_env \<Rightarrow> (addr \<Rightarrow> u64) \<Rightarrow> nat \<Rightarrow> nat \<Rightarrow> EvCands option list \<Rightarrow> nat \<Rightarrow> bool \<Rightarrow> vcolor_state \<Rightarrow> (bool \<times> vcolor_state) option" where
  "write_colors env pa threads started cands n_colors do_clear s = do {
     (ok, s) \<leftarrow> (if do_clear then
                   if \<not> env_open env then Some (False, s)
                   else do { (n, s) \<leftarrow> mod_write env ''clear\<newline>'' s; Some (n = 6, s) }
                 else Some (True, s));
     if \<not> ok then Some (False, s)
     else if write_threads threads n_colors = 0 then None
     else do {
       s \<leftarrow> (if env_open env
             then each (\<lambda>(lo, hi). write_worker env pa cands [lo..<hi])
               (take started (block_ranges n_colors (write_threads threads n_colors))) s
             else Some s);
       s \<leftarrow> free_pools env pa (take n_colors cands) s;
       (n, s) \<leftarrow> (if env_open env then mod_write env ''enable\<newline>'' s else Some (0, s));
       Some (True, s)
     }
   }"

text \<open>The pool of a colour, filtered at the page offset and with the L2 set of its number.\<close>

definition build_single_color ::
    "'m hw \<Rightarrow> globals \<Rightarrow> EvBuildConf \<Rightarrow> EvBuildConf \<Rightarrow> l2_complex \<Rightarrow> nat \<Rightarrow> EvBuffer \<Rightarrow> 'm
       \<Rightarrow> ((EvCands option \<times> EvBuffer) \<times> 'm) option" where
  "build_single_color h g l2conf conf l2evsets idx e m = do {
     fev \<leftarrow> l2_filter l2conf l2evsets idx idx;
     let c = conf\<lparr>filter_ev := Some fev\<rparr>;
     (cand, m) \<leftarrow> evcands_new h g (l3_info g) c (Some e) m;
     case cand of None \<Rightarrow> Some ((None, e), m)
     | Some cand \<Rightarrow> do {
         ((err, cand), m) \<leftarrow> evcands_populate h (of_nat idx * ucast CL_SIZE) cand c l2conf m;
         Some ((if err then None else Some cand, evb cand), m)
       }
   }"

fun color_worker ::
    "'m hw \<Rightarrow> globals \<Rightarrow> EvBuildConf \<Rightarrow> EvBuildConf \<Rightarrow> l2_complex \<Rightarrow> nat list \<Rightarrow> EvBuffer \<Rightarrow> 'm
       \<Rightarrow> ((EvCands option list \<times> EvBuffer) \<times> 'm) option" where
  "color_worker h g l2conf conf l2evsets [] e m = Some (([], e), m)"
| "color_worker h g l2conf conf l2evsets (i # is') e m = do {
     ((c, e), m) \<leftarrow> build_single_color h g l2conf conf l2evsets i e m;
     ((cs, e), m) \<leftarrow> color_worker h g l2conf conf l2evsets is' e m;
     Some ((c # cs, e), m)
   }"

fun color_workers ::
    "'m hw \<Rightarrow> globals \<Rightarrow> EvBuildConf \<Rightarrow> EvBuildConf \<Rightarrow> l2_complex \<Rightarrow> nat \<Rightarrow> (nat \<times> nat) list \<Rightarrow> EvBuffer \<Rightarrow> 'm
       \<Rightarrow> ((EvCands option list \<times> EvBuffer) \<times> 'm) option" where
  "color_workers h g l2conf conf l2evsets n_colors [] e m = Some (([], e), m)"
| "color_workers h g l2conf conf l2evsets n_colors ((lo, hi) # rs) e m =
     (let (started, m) = os_thread h m
      in if \<not> started then Some ((replicate (n_colors - lo) None, e), m)
         else do {
           ((cs, e), m) \<leftarrow> color_worker h g l2conf conf l2evsets [lo..<hi] e m;
           ((cs', e), m) \<leftarrow> color_workers h g l2conf conf l2evsets n_colors rs e m;
           Some ((cs @ cs', e), m)
         })"

definition build_color_cands_para ::
    "'m hw \<Rightarrow> globals \<Rightarrow> EvBuildConf \<Rightarrow> EvBuildConf \<Rightarrow> l2_complex \<Rightarrow> 'm \<Rightarrow> (EvCands list option \<times> 'm) option" where
  "build_color_cands_para h g l2conf conf l2evsets m = do {
     (base, m) \<leftarrow> evcands_new h g (l3_info g) conf None (snd (os_time_us h m));
     case base of None \<Rightarrow> Some (None, m)
     | Some base \<Rightarrow>
         (let m = snd (os_time_us h m);
              n_colors = unat (g_n_uncertain_l2_sets g);
              n_threads = write_threads (if num_threads g \<noteq> 0 then num_threads g else nat (n_system_cores g)) n_colors;
              (results, m) = os_calloc h (n_colors * 8) m
          in if results = None then Some (None, m)
             else if n_threads = 0 then None
             else do {
               ((cs, e), m) \<leftarrow> color_workers h g l2conf conf l2evsets n_colors (block_ranges n_colors n_threads) (evb base)
                 (snd (os_time_us h m));
               let m = snd (os_time_us h m);
               Some (if None \<in> set cs then None else Some (map the cs), m)
             })
   }"

subsection \<open>Hotness of the colours\<close>

text \<open>The share of evicted lines of a colour in a scan; a colour without sets gives 0.0 / 0.0.\<close>

definition rate_of :: "nat \<Rightarrow> nat \<Rightarrow> nat \<Rightarrow> f64" where
  "rate_of ways sets evicted =
     (if ways * sets = 0 then None else Some (fl (of_nat evicted / fl (of_nat (ways * sets)))))"

definition scan_rates :: "nat \<Rightarrow> nat list \<Rightarrow> nat list \<Rightarrow> f64 list" where
  "scan_rates ways counts evicted = map2 (rate_of ways) counts evicted"

definition ewma_step :: "f64 \<Rightarrow> f64 \<Rightarrow> f64 \<Rightarrow> f64 \<Rightarrow> f64" where
  "ewma_step alpha_rise alpha_fall rate old =
     (let alpha = (if f_less old rate then alpha_rise else alpha_fall)
      in f_add (f_mul alpha old) (f_mul (f_sub (Some 1) alpha) rate))"

definition update_ewma :: "f64 \<Rightarrow> f64 \<Rightarrow> f64 list \<Rightarrow> f64 list \<Rightarrow> f64 list" where
  "update_ewma alpha_rise alpha_fall rates olds = map2 (ewma_step alpha_rise alpha_fall) rates olds"

definition hot_level :: "f64 \<Rightarrow> int" where
  "hot_level h =
     (let pct = f_mul h (Some 100)
      in if f_less pct (Some 40) then 0 else if f_less pct (Some 65) then 1 else if f_less pct (Some 85) then 2 else 3)"

type_synonym color_hot = "nat \<times> f64"

definition cmp_hot :: "color_hot \<Rightarrow> color_hot \<Rightarrow> int" where
  "cmp_hot a b = (if f_less (snd a) (snd b) then 1 else if f_less (snd b) (snd a) then - 1 else 0)"

text \<open>The colours by hotness, without the hottest: at most \<open>n - 1\<close> are stored.\<close>

fun sorted_rest :: "color_hot list \<Rightarrow> nat \<Rightarrow> nat \<Rightarrow> nat list" where
  "sorted_rest [] hot room = []"
| "sorted_rest ((c, _) # cs) hot room =
     (if room = 0 then [] else if c = hot then sorted_rest cs hot room else c # sorted_rest cs hot (room - 1))"

definition build_sorted_order :: "color_hot list \<Rightarrow> nat \<Rightarrow> nat \<Rightarrow> nat list" where
  "build_sorted_order tmp n_colors hot = hot # sorted_rest (take n_colors tmp) hot (n_colors - 1)"

subsection \<open>Monitoring\<close>

record monitor =
  ewma :: "f64 list"
  hottest :: nat
  prev_cand :: nat
  change_cnt :: int
  last_order :: "nat list"

text \<open>The arrays of the loop have \<open>VCOLOR_MAX_COLORS\<close> entries, and the first one is read.\<close>

definition by_hotness :: "(color_hot list \<Rightarrow> color_hot list) \<Rightarrow> f64 list \<Rightarrow> color_hot list option" where
  "by_hotness qsort hots =
     (if hots = [] \<or> length hots > VCOLOR_MAX_COLORS then None else Some (qsort (enumerate 0 hots)))"

definition monitor_start ::
    "(color_hot list \<Rightarrow> color_hot list) \<Rightarrow> kernel_env \<Rightarrow> f64 list \<Rightarrow> vcolor_state \<Rightarrow> (monitor \<times> vcolor_state) option" where
  "monitor_start qsort env rates s = do {
     tmp \<leftarrow> by_hotness qsort rates;
     let hot = fst (hd tmp);
     let order = build_sorted_order tmp (length rates) hot;
     (_, s) \<leftarrow> write_order env order s;
     (_, s) \<leftarrow> write_hot env hot s;
     Some (\<lparr>ewma = rates, hottest = hot, prev_cand = hot, change_cnt = 0, last_order = order\<rparr>, s)
   }"

text \<open>The decision of a round: the colour at the top has to be a level above the hottest three times in a row.\<close>

definition hotter :: "color_hot \<Rightarrow> f64 \<Rightarrow> monitor \<Rightarrow> bool" where
  "hotter best now mon \<longleftrightarrow> fst best \<noteq> hottest mon \<and> hot_level (snd best) - hot_level now \<ge> 1"

definition decide :: "color_hot \<Rightarrow> f64 \<Rightarrow> monitor \<Rightarrow> monitor" where
  "decide best now mon =
     (let cand = fst best
      in if hotter best now mon
         then if cand = prev_cand mon then mon\<lparr>change_cnt := change_cnt mon + 1\<rparr>
              else mon\<lparr>prev_cand := cand, change_cnt := 1\<rparr>
         else mon\<lparr>change_cnt := 0, prev_cand := cand\<rparr>)"

definition monitor_round ::
    "(color_hot list \<Rightarrow> color_hot list) \<Rightarrow> kernel_env \<Rightarrow> f64 \<Rightarrow> f64 \<Rightarrow> f64 list \<Rightarrow> monitor \<Rightarrow> vcolor_state \<Rightarrow> (monitor \<times> vcolor_state) option" where
  "monitor_round qsort env alpha_rise alpha_fall rates mon s = do {
     let mon = mon\<lparr>ewma := update_ewma alpha_rise alpha_fall rates (ewma mon)\<rparr>;
     tmp \<leftarrow> by_hotness qsort (ewma mon);
     let cand = fst (hd tmp);
     now \<leftarrow> arr_get (ewma mon) (hottest mon);
     let mon = decide (hd tmp) now mon;
     if change_cnt mon \<ge> 3 then do {
       let mon = mon\<lparr>hottest := cand, change_cnt := 0, prev_cand := cand\<rparr>;
       let order = build_sorted_order tmp (length (ewma mon)) (hottest mon);
       (_, s) \<leftarrow> write_order env order s;
       (_, s) \<leftarrow> write_hot env (hottest mon) s;
       Some (mon\<lparr>last_order := order\<rparr>, s)
     } else do {
       let order = build_sorted_order tmp (length (ewma mon)) (hottest mon);
       if order \<noteq> last_order mon then do {
         (_, s) \<leftarrow> write_order env order s;
         Some (mon\<lparr>last_order := order\<rparr>, s)
       } else Some (mon, s)
     }
   }"

subsection \<open>The texts of the requests\<close>

lemma hot_text_scan: "c < 2 ^ 64 \<Longrightarrow> sscanf hot_format (hot_text c) = [c]"
  using scan_text [of 10 c "[CHR 0x0A]"] skip_text_of [of 10 c "[CHR 0x0A]"]
  by (simp add: hot_format_def hot_text_def is_digit_def digit_val_def skip_spaces_def isspace_def)

lemma hot_text_plain:
  assumes "c < VCOLOR_MAX_COLORS"
  shows "c_string (hot_text c) = hot_text c" "length (hot_text c) < 64"
proof -
  have "CHR 0x00 \<notin> set (text_of 10 c)"
    using text_of_set [of 10 "CHR 0x00" c] by (auto simp: is_digit_def digit_val_def)
  then show "c_string (hot_text c) = hot_text c" by (intro c_string_id) (auto simp: hot_text_def)
  have "length (text_of 10 c) \<le> 2" using assms by (intro text_of_length) (simp_all add: VCOLOR_MAX_COLORS_def)
  then show "length (hot_text c) < 64" by (simp add: hot_text_def)
qed

lemma uint_small: "c < VCOLOR_MAX_COLORS \<Longrightarrow> to_uint c = c"
  by (simp add: to_uint_def VCOLOR_MAX_COLORS_def unat_of_nat take_bit_nat_eq_self)

lemma mod_write_hot:
  assumes "c < VCOLOR_MAX_COLORS"
  shows "mod_write env (hot_text c) s = map_option (Pair (int (length (hot_text c)))) (hot_command c (s\<lparr>writer_comm := ''vcolor''\<rparr>))"
proof -
  have no: "\<not> sysfs_streq (hot_text c) ''enable''" "\<not> sysfs_streq (hot_text c) ''disable''" "\<not> sysfs_streq (hot_text c) ''flush''"
      "\<not> sysfs_streq (hot_text c) ''clear''" "take 5 (hot_text c) \<noteq> ''order''"
    by (auto simp: sysfs_streq_def hot_text_def)
  have "sscanf hot_format (hot_text c) = [c]" using assms by (intro hot_text_scan) (simp add: VCOLOR_MAX_COLORS_def)
  then show ?thesis
    using hot_text_plain [OF assms] no uint_small [OF assms]
    by (simp add: mod_write_def vcolor_proc_write_def Let_def)
qed

text \<open>A tag request consists of hexadecimal digits and white space, so that it is no other command.\<close>

lemma tag_text_set: "x \<in> set (tag_text pfn c) \<Longrightarrow> is_digit 16 x \<or> x = CHR '' '' \<or> x = CHR 0x0A"
  using text_of_set [of 16 x pfn] text_of_set [of 10 x c] by (auto simp: tag_text_def is_digit_def split: option.splits)

lemma tag_text_not: "\<not> is_digit 16 x \<Longrightarrow> x \<noteq> CHR '' '' \<Longrightarrow> x \<noteq> CHR 0x0A \<Longrightarrow> x \<notin> set (tag_text pfn c)"
  using tag_text_set by blast

lemma tag_text_scan:
  assumes "pfn < 2 ^ 64" "c < 2 ^ 64"
  shows "sscanf tag_format (tag_text pfn c) = [pfn, c]"
proof -
  have "scan_num 16 (text_of 16 pfn @ '' '' @ text_of 10 c @ [CHR 0x0A]) = Some (pfn, '' '' @ text_of 10 c @ [CHR 0x0A])"
    using scan_text [of 16 pfn "'' '' @ text_of 10 c @ [CHR 0x0A]"] assms(1) by (simp add: is_digit_def digit_val_def)
  moreover have "skip_spaces ('' '' @ text_of 10 c @ [CHR 0x0A]) = text_of 10 c @ [CHR 0x0A]"
    using skip_text_of [of 10 c "[CHR 0x0A]"] by (simp add: skip_spaces_def isspace_def)
  moreover have "scan_num 10 (text_of 10 c @ [CHR 0x0A]) = Some (c, [CHR 0x0A])"
    using scan_text [of 10 c "[CHR 0x0A]"] assms(2) by (simp add: is_digit_def digit_val_def)
  ultimately show ?thesis by (simp add: tag_format_def tag_text_def)
qed

lemma lit_absent: "x \<notin> set s \<Longrightarrow> Lit x \<in> set (takeWhile (\<lambda>f. f \<noteq> Blank \<and> (\<forall>b. f \<noteq> Num b)) fs) \<Longrightarrow> sscanf fs s = []"
proof (induction fs arbitrary: s)
  case (Cons f fs)
  then show ?case by (cases f) (auto split: list.splits)
qed simp

lemma tag_text_other:
  "sscanf hot_format (tag_text pfn c) = []" "sscanf free_format (tag_text pfn c) = []"
  "\<not> sysfs_streq (tag_text pfn c) ''enable''" "\<not> sysfs_streq (tag_text pfn c) ''disable''"
  "\<not> sysfs_streq (tag_text pfn c) ''flush''" "\<not> sysfs_streq (tag_text pfn c) ''clear''"
  "take 5 (tag_text pfn c) \<noteq> ''order''"
proof -
  have no: "CHR ''h'' \<notin> set (tag_text pfn c)" "CHR ''r'' \<notin> set (tag_text pfn c)" "CHR ''n'' \<notin> set (tag_text pfn c)"
      "CHR ''i'' \<notin> set (tag_text pfn c)" "CHR ''l'' \<notin> set (tag_text pfn c)" "CHR ''o'' \<notin> set (tag_text pfn c)"
    by (intro tag_text_not; simp add: is_digit_def digit_val_def)+
  show "sscanf hot_format (tag_text pfn c) = []" using no(1) by (intro lit_absent [of "CHR ''h''"]) (simp_all add: hot_format_def)
  show "sscanf free_format (tag_text pfn c) = []" using no(2) by (intro lit_absent [of "CHR ''r''"]) (simp_all add: free_format_def)
  show "\<not> sysfs_streq (tag_text pfn c) ''enable''" using no(3) by (auto simp: sysfs_streq_def)
  show "\<not> sysfs_streq (tag_text pfn c) ''disable''" using no(4) by (auto simp: sysfs_streq_def)
  show "\<not> sysfs_streq (tag_text pfn c) ''flush''" using no(5) by (auto simp: sysfs_streq_def)
  show "\<not> sysfs_streq (tag_text pfn c) ''clear''" using no(5) by (auto simp: sysfs_streq_def)
  show "take 5 (tag_text pfn c) \<noteq> ''order''"
  proof
    assume "take 5 (tag_text pfn c) = ''order''"
    then have "CHR ''o'' \<in> set (take 5 (tag_text pfn c))" by simp
    then show False using no(6) by (meson in_set_takeD)
  qed
qed

lemma tag_text_plain:
  assumes "pfn < 2 ^ 64" "c < VCOLOR_MAX_COLORS"
  shows "c_string (tag_text pfn c) = tag_text pfn c" "length (tag_text pfn c) < 64"
proof -
  show "c_string (tag_text pfn c) = tag_text pfn c"
    by (intro c_string_id tag_text_not) (simp_all add: is_digit_def digit_val_def)
  have "length (text_of 16 pfn) \<le> 16" using assms(1) by (intro text_of_length) simp_all
  moreover have "length (text_of 10 c) \<le> 2" using assms(2) by (intro text_of_length) (simp_all add: VCOLOR_MAX_COLORS_def)
  ultimately show "length (tag_text pfn c) < 64" by (simp add: tag_text_def)
qed

lemma mod_write_tag:
  assumes "pfn < 2 ^ 64" "c < VCOLOR_MAX_COLORS" "env_valid env pfn"
  shows "mod_write env (tag_text pfn c) s =
    Some (int (length (tag_text pfn c)), vcolor_tag_frame (env_mem env) pfn (of_nat c) (s\<lparr>writer_comm := ''vcolor''\<rparr>))"
proof -
  have "c < 2 ^ 64" using assms(2) by (simp add: VCOLOR_MAX_COLORS_def)
  then show ?thesis
    using tag_text_plain [OF assms(1,2)] tag_text_other tag_text_scan [OF assms(1)] uint_small [OF assms(2)] assms(2,3)
    by (simp add: mod_write_def vcolor_proc_write_def Let_def)
qed

lemma mod_write_enable: "mod_write env ''enable\<newline>'' s = Some (7, s\<lparr>writer_comm := ''vcolor'', vcolor_enabled := True\<rparr>)"
  by (simp add: mod_write_def vcolor_proc_write_def c_string_def sysfs_streq_def Let_def)

lemma mod_write_clear:
  "mod_write env ''clear\<newline>'' s = map_option (\<lambda>s. (6, s\<lparr>vcolor_enabled := True\<rparr>)) (vcolor_flush (env_prep env) (env_mem env) (s\<lparr>writer_comm := ''vcolor''\<rparr>))"
  by (simp add: mod_write_def vcolor_proc_write_def c_string_def sysfs_streq_def Let_def)

text \<open>\<open>kstrtoul\<close> reads to the end of the text, so that a second number is an error.\<close>

lemma text_of_zero: "2 \<le> base \<Longrightarrow> base \<le> 16 \<Longrightarrow> hd (text_of base n) = CHR ''0'' \<Longrightarrow> n = 0"
proof (induction base n rule: text_of.induct)
  case (1 base n)
  show ?case
  proof (cases "n < base")
    case True
    then have "digit_val (digit_char n) = Some n" using 1 by (simp add: digit_val_char)
    moreover have "digit_char n = CHR ''0''" using 1 True by (simp add: text_of.simps [of base n])
    ultimately show ?thesis by (simp add: digit_val_def)
  next
    case False
    then have "hd (text_of base (n div base)) = CHR ''0''" using 1 by (simp add: text_of.simps [of base n])
    then have "n div base = 0" using False 1 by simp
    then show ?thesis using False 1(2) by (simp add: div_eq_0_iff)
  qed
qed

lemma two_numbers_rejected: "kstrtoull (text_of 10 a @ '' '' @ rest) 0 = None"
proof (cases "a = 0")
  case True
  moreover have "text_of 10 0 = ''0''" by code_simp
  ultimately have t: "text_of 10 a = ''0''" by simp
  then show ?thesis
    by (simp add: kstrtoull_def fixup_radix_def has_0x_def is_digit_def digit_val_def)
next
  case False
  then have z: "hd (text_of 10 a) \<noteq> CHR ''0''" using text_of_zero [of 10 a] by auto
  have "is_digit 10 (hd (text_of 10 a))" by (simp add: text_of_hd)
  then have "hd (text_of 10 a) \<noteq> CHR ''+''" by (auto simp: is_digit_def digit_val_def)
  moreover have "parse_integer 10 (text_of 10 a @ '' '' @ rest) 0 = (a, '' '' @ rest)"
    by (rule parse_text_rest) (simp_all add: is_digit_def digit_val_def)
  ultimately show ?thesis using z by (simp add: kstrtoull_def fixup_radix_def Let_def)
qed

lemma order_text_length:
  assumes "\<forall>c \<in> set cs. c < VCOLOR_MAX_COLORS" "length cs \<le> VCOLOR_MAX_COLORS"
  shows "length (order_text cs) < 63"
proof -
  have "length ('' '' @ text_of 10 c) \<le> 3" if "c \<in> set cs" for c
    using text_of_length [of 10 c 2] assms(1) that by (auto simp: VCOLOR_MAX_COLORS_def)
  then have "length (concat (map (\<lambda>c. '' '' @ text_of 10 c) cs)) \<le> 3 * length cs"
    by (induction cs) fastforce+
  then show ?thesis using assms(2) by (simp add: order_text_def VCOLOR_MAX_COLORS_def)
qed

lemma order_text_chars: "CHR 0x00 \<notin> set (order_text cs)"
proof
  assume "CHR 0x00 \<in> set (order_text cs)"
  then obtain c where "CHR 0x00 \<in> set (text_of 10 c)" by (auto simp: order_text_def split: if_splits)
  then show False using text_of_set [of 10 "CHR 0x00" c] by (simp add: is_digit_def digit_val_def)
qed

lemma order_command_rejects:
  assumes "order_ok s"
  shows "order_command ('' '' @ text_of 10 a @ '' '' @ rest) s = Some (False, s)"
proof -
  have skip: "skip_spaces ('' '' @ text_of 10 a @ '' '' @ rest) = text_of 10 a @ '' '' @ rest"
    using skip_text_of [of 10 a "'' '' @ rest"] by (simp add: skip_spaces_def isspace_def)
  have "VCOLOR_MAX_COLORS = Suc 15" by (simp add: VCOLOR_MAX_COLORS_def)
  then have "order_loop VCOLOR_MAX_COLORS ('' '' @ text_of 10 a @ '' '' @ rest) 0 (replicate VCOLOR_MAX_COLORS False) (vcolor_order s)
      = Some (False, 0, replicate VCOLOR_MAX_COLORS False, vcolor_order s)"
    using order_loop_pos [of VCOLOR_MAX_COLORS 15 "'' '' @ text_of 10 a @ '' '' @ rest"] skip two_numbers_rejected [of a rest] by simp
  then show ?thesis by (simp add: order_command_def)
qed

lemma order_refused:
  assumes "order_ok s" "env_open env" "\<forall>c \<in> set cs. c < VCOLOR_MAX_COLORS" "2 \<le> length cs" "length cs \<le> VCOLOR_MAX_COLORS"
  shows "write_order env cs s = Some (False, s\<lparr>writer_comm := ''vcolor''\<rparr>)"
proof -
  obtain a b ds where cs: "cs = a # b # ds" using assms(4) by (cases cs rule: remdups_adj.cases) auto
  define rest where "rest = text_of 10 b @ concat (map (\<lambda>c. '' '' @ text_of 10 c) ds) @ [CHR 0x0A]"
  let ?text = "order_text cs @ [CHR 0x0A]"
  have msg: "?text = ''order'' @ '' '' @ text_of 10 a @ '' '' @ rest" by (simp add: order_text_def cs rest_def)
  have len: "length (order_text cs) < 63" by (rule order_text_length [OF assms(3,5)])
  have "c_string ?text = ?text" using order_text_chars by (intro c_string_id) simp
  moreover have "\<not> sysfs_streq ?text ''enable''" "\<not> sysfs_streq ?text ''disable''" "\<not> sysfs_streq ?text ''flush''"
      "\<not> sysfs_streq ?text ''clear''" "take 5 ?text = ''order''" "drop 5 ?text = '' '' @ text_of 10 a @ '' '' @ rest"
    unfolding msg by (simp_all add: sysfs_streq_def)
  moreover have "order_command ('' '' @ text_of 10 a @ '' '' @ rest) (s\<lparr>writer_comm := ''vcolor''\<rparr>) = Some (False, s\<lparr>writer_comm := ''vcolor''\<rparr>)"
    by (rule order_command_rejects) (use assms(1) in simp)
  ultimately have "mod_write env ?text s = Some (- EINVAL, s\<lparr>writer_comm := ''vcolor''\<rparr>)"
    using len by (simp add: mod_write_def vcolor_proc_write_def Let_def)
  then show ?thesis using assms(2) len by (simp add: write_order_def EINVAL_def)
qed

lemma hot_accepted:
  assumes "vcolor_ok s" "env_open env" "c < VCOLOR_MAX_COLORS"
  shows "\<exists>s'. write_hot env c s = Some (True, s') \<and> vcolor_ok s' \<and> vcolor_hottest s' = of_nat c
    \<and> hd (vcolor_order s') = of_nat c \<and> colored_page_list s' = colored_page_list s \<and> vcolor_enabled s' = vcolor_enabled s"
proof -
  have ok: "order_ok (s\<lparr>writer_comm := ''vcolor''\<rparr>)" "vpool_ok s" using assms(1) by (simp_all add: vcolor_ok_def)
  obtain s' order h where s': "hot_command c (s\<lparr>writer_comm := ''vcolor''\<rparr>) = Some s'" "order_ok s'"
      "s' = s\<lparr>writer_comm := ''vcolor'', vcolor_order := order, vcolor_hottest := h\<rparr>" "vcolor_hottest s' = of_nat c"
    using hot_command_ok [OF ok(1), of c] assms(3) by auto
  then have "vcolor_ok s'" using ok(2) by (simp add: vcolor_ok_def vpool_ok_def)
  then show ?thesis
    using s' assms(2) mod_write_hot [OF assms(3), of env s] by (simp add: write_hot_def order_ok_def)
qed

subsection \<open>The order of the colours\<close>

text \<open>What the C standard promises of \<open>qsort\<close>: a permutation, sorted where the comparison orders all elements.\<close>

definition qsort_ok :: "(color_hot list \<Rightarrow> color_hot list) \<Rightarrow> bool" where
  "qsort_ok qsort \<longleftrightarrow> (\<forall>xs. mset (qsort xs) = mset xs
     \<and> ((\<forall>x \<in> set xs. snd x \<noteq> None) \<longrightarrow> sorted_wrt (\<lambda>a b. cmp_hot a b \<le> 0) (qsort xs)))"

lemma sorted_rest_filter: "sorted_rest tmp hot room = take room (filter (\<lambda>c. c \<noteq> hot) (map fst tmp))"
  by (induction tmp hot room rule: sorted_rest.induct) (auto simp: take_Cons')

lemma by_hotness_Some: "2 \<le> length hots \<Longrightarrow> length hots \<le> VCOLOR_MAX_COLORS \<Longrightarrow> \<exists>tmp. by_hotness qsort hots = Some tmp"
  by (cases hots) (auto simp: by_hotness_def)

lemma by_hotness_perm:
  assumes "qsort_ok qsort" "by_hotness qsort hots = Some tmp"
  shows "mset (map fst tmp) = mset [0..<length hots]" "length tmp = length hots" "tmp \<noteq> []"
    "hd tmp \<in> set (enumerate 0 hots)" "fst (hd tmp) < length hots" "0 < length hots" "length hots \<le> VCOLOR_MAX_COLORS"
proof -
  have tmp: "tmp = qsort (enumerate 0 hots)" "hots \<noteq> []" "length hots \<le> VCOLOR_MAX_COLORS"
    using assms(2) by (auto simp: by_hotness_def split: if_splits)
  then have m: "mset tmp = mset (enumerate 0 hots)" using assms(1) by (simp add: qsort_ok_def)
  show "mset (map fst tmp) = mset [0..<length hots]" using arg_cong [OF m, of "image_mset fst"] by (simp flip: mset_map)
  show len: "length tmp = length hots" using mset_eq_length [OF m] by simp
  show "0 < length hots" "length hots \<le> VCOLOR_MAX_COLORS" using tmp by simp_all
  then show ne: "tmp \<noteq> []" using len by auto
  then show hd: "hd tmp \<in> set (enumerate 0 hots)" using mset_eq_setD [OF m] by (metis hd_in_set)
  obtain i x where "hd tmp = (i, x)" by fastforce
  then show "fst (hd tmp) < length hots" using hd set_zip_leftD [of i x "[0..<length hots]" hots] by (simp add: enumerate_eq_zip)
qed

lemma sorted_order_perm:
  assumes "mset (map fst tmp) = mset [0..<n]" "hot < n"
  shows "mset (build_sorted_order tmp n hot) = mset [0..<n]"
proof -
  have len: "length tmp = n" using mset_eq_length [OF assms(1)] by simp
  have m: "mset (filter (\<lambda>c. c \<noteq> hot) (map fst tmp)) = mset (filter (\<lambda>c. c \<noteq> hot) [0..<n])"
    using assms(1) by (simp add: mset_filter)
  have r: "mset (remove1 hot [0..<n]) = mset (filter (\<lambda>c. c \<noteq> hot) [0..<n])"
    by (auto simp: distinct_remove1_removeAll removeAll_filter_not_eq intro: arg_cong [of _ _ mset] filter_cong)
  have "length (filter (\<lambda>c. c \<noteq> hot) (map fst tmp)) = n - 1"
    using mset_eq_length [OF m] mset_eq_length [OF r] assms(2) by (simp add: length_remove1)
  then have "build_sorted_order tmp n hot = hot # filter (\<lambda>c. c \<noteq> hot) (map fst tmp)"
    using len by (simp add: build_sorted_order_def sorted_rest_filter)
  moreover have "add_mset hot (mset (filter (\<lambda>c. c \<noteq> hot) [0..<n])) = mset [0..<n]"
    unfolding r [symmetric] mset_remove1 using assms(2) by (intro insert_DiffM) simp
  ultimately show ?thesis using m by simp
qed

subsection \<open>Slow changes\<close>

lemma round_decides:
  assumes "monitor_round qsort env ar af rates mon s = Some (mon', s')"
  obtains tmp where "by_hotness qsort (ewma mon') = Some tmp" "hottest mon < length (ewma mon')"
    "ewma mon' = update_ewma ar af rates (ewma mon)"
    "let d = decide (hd tmp) (ewma mon' ! hottest mon) mon
     in if change_cnt d \<ge> 3 then hottest mon' = fst (hd tmp) \<and> change_cnt mon' = 0
        else hottest mon' = hottest mon \<and> change_cnt mon' = change_cnt d \<and> prev_cand mon' = prev_cand d"
proof -
  let ?e = "update_ewma ar af rates (ewma mon)"
  obtain tmp where tmp: "by_hotness qsort ?e = Some tmp"
    using assms by (auto simp: monitor_round_def Let_def split: Option.bind_splits)
  have hot: "hottest mon < length ?e"
    using assms tmp by (auto simp: monitor_round_def Let_def arr_get_def split: Option.bind_splits if_splits)
  let ?d = "decide (hd tmp) (?e ! hottest mon) mon"
  have d: "decide (hd tmp) (?e ! hottest mon) (mon\<lparr>ewma := ?e\<rparr>) = ?d\<lparr>ewma := ?e\<rparr>"
    by (simp add: decide_def hotter_def Let_def)
  have "ewma mon' = ?e \<and> (if change_cnt ?d \<ge> 3 then hottest mon' = fst (hd tmp) \<and> change_cnt mon' = 0
      else hottest mon' = hottest ?d \<and> change_cnt mon' = change_cnt ?d \<and> prev_cand mon' = prev_cand ?d)"
    using assms tmp hot by (auto simp: monitor_round_def Let_def arr_simps d split: Option.bind_splits if_splits)
  moreover have "hottest ?d = hottest mon" by (simp add: decide_def Let_def)
  ultimately show ?thesis using that [of tmp] tmp hot by (auto simp: Let_def)
qed

text \<open>In the round that led to \<open>mon\<close> the colour \<open>c\<close> was at the top, a level or more above \<open>old\<close>.\<close>

definition leads :: "(color_hot list \<Rightarrow> color_hot list) \<Rightarrow> monitor \<Rightarrow> nat \<Rightarrow> nat \<Rightarrow> bool" where
  "leads qsort mon c old \<longleftrightarrow> (\<exists>tmp. by_hotness qsort (ewma mon) = Some tmp \<and> fst (hd tmp) = c
     \<and> hot_level (snd (hd tmp)) \<ge> hot_level (ewma mon ! old) + 1)"

lemma round_count:
  assumes "monitor_round qsort env ar af rates mon s = Some (mon', s')"
  shows "hottest mon' \<noteq> hottest mon \<Longrightarrow> change_cnt mon' = 0 \<and> 2 \<le> change_cnt mon \<and> hottest mon' = prev_cand mon
      \<and> leads qsort mon' (hottest mon') (hottest mon)"
    "0 < change_cnt mon' \<Longrightarrow> hottest mon' = hottest mon \<and> leads qsort mon' (prev_cand mon') (hottest mon)
      \<and> (change_cnt mon' = 1 \<or> change_cnt mon' = change_cnt mon + 1 \<and> prev_cand mon' = prev_cand mon)"
proof -
  obtain tmp where t: "by_hotness qsort (ewma mon') = Some tmp"
      "let d = decide (hd tmp) (ewma mon' ! hottest mon) mon
       in if change_cnt d \<ge> 3 then hottest mon' = fst (hd tmp) \<and> change_cnt mon' = 0
          else hottest mon' = hottest mon \<and> change_cnt mon' = change_cnt d \<and> prev_cand mon' = prev_cand d"
    using round_decides [OF assms] by metis
  show "hottest mon' \<noteq> hottest mon \<Longrightarrow> change_cnt mon' = 0 \<and> 2 \<le> change_cnt mon \<and> hottest mon' = prev_cand mon
      \<and> leads qsort mon' (hottest mon') (hottest mon)"
    using t by (auto simp: Let_def decide_def hotter_def leads_def split: if_splits)
  show "0 < change_cnt mon' \<Longrightarrow> hottest mon' = hottest mon \<and> leads qsort mon' (prev_cand mon') (hottest mon)
      \<and> (change_cnt mon' = 1 \<or> change_cnt mon' = change_cnt mon + 1 \<and> prev_cand mon' = prev_cand mon)"
    using t by (auto simp: Let_def decide_def hotter_def leads_def split: if_splits)
qed

text \<open>
  C33: the hottest colour changes only when the new one was at the top in this and the two
  rounds before, each time a level or more above the old one.
\<close>

theorem hottest_changes_slowly:
  assumes "monitor_round qsort env ar af r1 mon0 s0 = Some (mon1, t1)" "monitor_round qsort env ar af r2 mon1 s1 = Some (mon2, t2)"
    "monitor_round qsort env ar af r3 mon2 s2 = Some (mon3, t3)" "hottest mon3 \<noteq> hottest mon2"
  shows "hottest mon0 = hottest mon2 \<and> (\<forall>mon \<in> {mon1, mon2, mon3}. leads qsort mon (hottest mon3) (hottest mon2))"
proof -
  have three: "2 \<le> change_cnt mon2" "hottest mon3 = prev_cand mon2" "leads qsort mon3 (hottest mon3) (hottest mon2)"
    using round_count(1) [OF assms(3,4)] by auto
  have two: "hottest mon2 = hottest mon1" "leads qsort mon2 (prev_cand mon2) (hottest mon1)"
      "change_cnt mon2 = change_cnt mon1 + 1" "prev_cand mon2 = prev_cand mon1"
    using round_count(2) [OF assms(2)] three(1) by auto
  have "hottest mon1 = hottest mon0" "leads qsort mon1 (prev_cand mon1) (hottest mon0)"
    using round_count(2) [OF assms(1)] two(3) three(1) by auto
  then show ?thesis using two three by auto
qed

subsection \<open>Steering\<close>

lemma sent_order:
  assumes "qsort_ok qsort" "by_hotness qsort hots = Some tmp" "hot < length hots" "2 \<le> length hots"
    "vcolor_ok s" "env_open env"
  shows "write_order env (build_sorted_order tmp (length hots) hot) s = Some (False, s\<lparr>writer_comm := ''vcolor''\<rparr>)"
proof -
  note p = by_hotness_perm [OF assms(1,2)]
  have m: "mset (build_sorted_order tmp (length hots) hot) = mset [0..<length hots]" by (rule sorted_order_perm [OF p(1) assms(3)])
  show ?thesis
    using order_refused [of s env "build_sorted_order tmp (length hots) hot"] mset_eq_length [OF m] mset_eq_setD [OF m] p(7) assms(4-6)
    by (auto simp: vcolor_ok_def)
qed

lemma vcolor_ok_writer [simp]: "vcolor_ok (s\<lparr>writer_comm := w\<rparr>) = vcolor_ok s"
  by (simp add: vcolor_ok_def)

definition in_step :: "nat \<Rightarrow> monitor \<Rightarrow> vcolor_state \<Rightarrow> bool" where
  "in_step n mon s \<longleftrightarrow> vcolor_ok s \<and> vcolor_hottest s = of_nat (hottest mon) \<and> hottest mon < n \<and> length (ewma mon) = n"

lemma start_in_step:
  assumes "qsort_ok qsort" "env_open env" "2 \<le> n" "n \<le> VCOLOR_MAX_COLORS" "length rates = n" "vcolor_ok s"
  shows "\<exists>mon s'. monitor_start qsort env rates s = Some (mon, s') \<and> in_step n mon s'"
proof -
  obtain tmp where tmp: "by_hotness qsort rates = Some tmp" using assms(3-5) by_hotness_Some by metis
  note p = by_hotness_perm [OF assms(1) tmp]
  have o: "write_order env (build_sorted_order tmp n (fst (hd tmp))) s = Some (False, s\<lparr>writer_comm := ''vcolor''\<rparr>)"
    using sent_order [OF assms(1) tmp p(5)] assms by simp
  obtain s' where "write_hot env (fst (hd tmp)) (s\<lparr>writer_comm := ''vcolor''\<rparr>) = Some (True, s')" "vcolor_ok s'"
      "vcolor_hottest s' = of_nat (fst (hd tmp))"
    using hot_accepted [of "s\<lparr>writer_comm := ''vcolor''\<rparr>" env "fst (hd tmp)"] assms p(5) by auto
  then show ?thesis using tmp o p(5) assms(5) by (simp add: monitor_start_def Let_def in_step_def)
qed

lemma round_in_step:
  assumes "qsort_ok qsort" "env_open env" "2 \<le> n" "n \<le> VCOLOR_MAX_COLORS" "length rates = n" "in_step n mon s"
  shows "\<exists>mon' s'. monitor_round qsort env ar af rates mon s = Some (mon', s') \<and> in_step n mon' s'"
proof -
  let ?e = "update_ewma ar af rates (ewma mon)"
  have st: "vcolor_ok s" "vcolor_hottest s = of_nat (hottest mon)" "hottest mon < n" "length ?e = n"
    using assms(5,6) by (simp_all add: in_step_def update_ewma_def)
  obtain tmp where tmp: "by_hotness qsort ?e = Some tmp" using assms(3,4) st(4) by_hotness_Some by metis
  note p = by_hotness_perm [OF assms(1) tmp]
  have o: "write_order env (build_sorted_order tmp n hot) s = Some (False, s\<lparr>writer_comm := ''vcolor''\<rparr>)" if "hot < n" for hot
    using sent_order [OF assms(1) tmp] that assms(2,3) st(1,4) by simp
  let ?d = "decide (hd tmp) (?e ! hottest mon) (mon\<lparr>ewma := ?e\<rparr>)"
  have d: "hottest ?d = hottest mon" "ewma ?d = ?e" by (simp_all add: decide_def Let_def)
  obtain s' where hot: "write_hot env (fst (hd tmp)) (s\<lparr>writer_comm := ''vcolor''\<rparr>) = Some (True, s')" "vcolor_ok s'"
      "vcolor_hottest s' = of_nat (fst (hd tmp))"
    using hot_accepted [of "s\<lparr>writer_comm := ''vcolor''\<rparr>" env "fst (hd tmp)"] assms(2,4) p(5) st(1,4) by auto
  show ?thesis
  proof (cases "change_cnt ?d \<ge> 3")
    case True
    then show ?thesis
      using tmp st o hot d p(5) by (simp add: monitor_round_def Let_def arr_simps in_step_def)
  next
    case False
    then show ?thesis
      using tmp st o d by (simp add: monitor_round_def Let_def arr_simps in_step_def)
  qed
qed

text \<open>The runs of the tool, with pages allocated and freed meanwhile.\<close>

inductive monitored ::
    "(color_hot list \<Rightarrow> color_hot list) \<Rightarrow> kernel_env \<Rightarrow> f64 \<Rightarrow> f64 \<Rightarrow> nat \<Rightarrow> monitor \<Rightarrow> vcolor_state \<Rightarrow> bool"
  for qsort env ar af n where
  started: "vcolor_ok s \<Longrightarrow> length rates = n \<Longrightarrow> monitor_start qsort env rates s = Some (mon, s')
    \<Longrightarrow> monitored qsort env ar af n mon s'"
| scanned: "monitored qsort env ar af n mon s \<Longrightarrow> length rates = n \<Longrightarrow> monitor_round qsort env ar af rates mon s = Some (mon', s')
    \<Longrightarrow> monitored qsort env ar af n mon' s'"
| paged: "monitored qsort env ar af n mon s \<Longrightarrow> page_step s s' \<Longrightarrow> monitored qsort env ar af n mon s'"

lemma monitored_in_step:
  assumes "monitored qsort env ar af n mon s" "qsort_ok qsort" "env_open env" "2 \<le> n" "n \<le> VCOLOR_MAX_COLORS"
  shows "in_step n mon s"
  using assms(1)
proof induction
  case (started s rates mon s')
  then show ?case using start_in_step [OF assms(2-5), of rates s] by auto
next
  case (scanned mon s rates mon' s')
  then show ?case using round_in_step [OF assms(2-5), of rates mon s ar af] by auto
next
  case (paged mon s s')
  then show ?case using page_step_ok [of s s'] by (auto simp: in_step_def same_order_def)
qed

text \<open>
  C7: at any time of a run of the tool the hottest colour of the kernel is that of the tool, the
  next round ends, and as long as the pool has a page of the hottest colour, that is what the
  kernel allocates.
\<close>

theorem monitor_steers_allocation:
  assumes "monitored qsort env ar af n mon s" "qsort_ok qsort" "env_open env" "2 \<le> n" "n \<le> VCOLOR_MAX_COLORS"
    and "length rates = n"
  shows "vcolor_hottest s = of_nat (hottest mon) \<and> hottest mon < n
    \<and> (\<exists>mon' s'. monitor_round qsort env ar af rates mon s = Some (mon', s'))
    \<and> (vcolor_enabled s \<and> colored_page_list s ! hottest mon \<noteq> [] \<longrightarrow>
        (\<exists>p s'. vcolor_alloc_page comm s = Some (Some p, s') \<and> page_vcolor s p = of_nat (hottest mon)))"
proof -
  have st: "in_step n mon s" by (rule monitored_in_step [OF assms(1-5)])
  have ok: "vcolor_ok s" "vpool_ok s" "order_ok s" "vcolor_hottest s = of_nat (hottest mon)" "hottest mon < VCOLOR_MAX_COLORS"
    using st assms(5) by (simp_all add: in_step_def vcolor_ok_def)
  have "\<exists>p s'. vcolor_alloc_page comm s = Some (Some p, s') \<and> page_vcolor s p = of_nat (hottest mon)"
    if on: "vcolor_enabled s" "colored_page_list s ! hottest mon \<noteq> []"
  proof -
    have "vcolor_order s \<noteq> []" using order_okD(1) [OF ok(3)] by (auto simp: VCOLOR_MAX_COLORS_def)
    then obtain rest where "vcolor_order s = of_nat (hottest mon) # rest"
      using ok(3,4) by (cases "vcolor_order s") (auto simp: order_ok_def)
    then have "vcolor_alloc_page comm s = Some (Some (hd (colored_page_list s ! hottest mon)), take_page comm (hottest mon) s)"
      using alloc_step_ok [OF ok(1), of comm] on unat_color [OF ok(5)] by simp
    then show ?thesis using vpool_okD(7) [OF ok(2,5)] on(2) by auto
  qed
  then show ?thesis
    using round_in_step [OF assms(2-6) st, of ar af] st by (auto simp: in_step_def)
qed

subsection \<open>Tags\<close>

text \<open>
  \<open>col\<close> is the colour of a frame: the frames of a pool have its colour, so that no frame is in two
  pools. Their tags are those of \<open>col\<close> or not set.
\<close>

definition tags_ok :: "(nat \<Rightarrow> nat) \<Rightarrow> nat set \<Rightarrow> vcolor_state \<Rightarrow> bool" where
  "tags_ok col frames s \<longleftrightarrow> (\<forall>p \<in> frames. page_vcolor s p = VCOLOR_NONE \<or> page_vcolor s p = of_nat (col p))"

definition frame_of :: "(addr \<Rightarrow> u64) \<Rightarrow> addr \<Rightarrow> nat" where
  "frame_of pa a = unat (drop_bit 12 (pa a))"

definition kept :: "vcolor_state \<Rightarrow> vcolor_state \<Rightarrow> bool" where
  "kept s s' \<longleftrightarrow> page_count s' = page_count s \<and> vcolor_enabled s' = vcolor_enabled s \<and> (\<forall>p. page_vcolor s p \<noteq> VCOLOR_NONE \<longrightarrow> page_vcolor s' p = page_vcolor s p)"

lemma frame_small: "frame_of pa a < 2 ^ 64"
  using unsigned_less [of "drop_bit 12 (pa a)", where ?'a = nat] by (simp add: frame_of_def)

lemma write_addrs_tags:
  assumes "\<And>p. env_valid env p \<and> env_mem env p" "c < VCOLOR_MAX_COLORS"
    "\<forall>a \<in> set as. frame_of pa a \<in> frames \<and> col (frame_of pa a) = c" "tags_ok col frames s" "vcolor_ok s"
  shows "\<exists>s'. write_addrs env pa c as s = Some s' \<and> tags_ok col frames s' \<and> vcolor_ok s' \<and> kept s s'
    \<and> (\<forall>a \<in> set as. page_vcolor s' (frame_of pa a) = of_nat c)"
  using assms(3-5)
proof (induction as arbitrary: s)
  case Nil
  then show ?case by (simp add: kept_def)
next
  case (Cons a as)
  let ?p = "frame_of pa a" and ?w = "s\<lparr>writer_comm := ''vcolor''\<rparr>"
  let ?s = "vcolor_tag_frame (env_mem env) ?p (of_nat c) ?w"
  have m: "mod_write env (tag_text ?p c) s = Some (int (length (tag_text ?p c)), ?s)"
    using mod_write_tag [OF frame_small assms(2)] assms(1) by blast
  have ok: "vcolor_ok ?s"
    using tag_frame_ok [of ?w c "env_mem env" ?p] same_order_ok [OF tag_same_order] Cons.prems(3) assms(2) by (simp add: vcolor_ok_def)
  have t: "tags_ok col frames ?s" and tagged: "page_vcolor ?s ?p = of_nat c" and k: "kept s ?s"
    using Cons.prems(1,2) assms(1) by (auto simp: tags_ok_def vcolor_tag_frame_def kept_def)
  obtain s' where s': "write_addrs env pa c as ?s = Some s'" "tags_ok col frames s'" "vcolor_ok s'" "kept ?s s'"
      "\<forall>a \<in> set as. page_vcolor s' (frame_of pa a) = of_nat c"
    using Cons.IH [OF _ t ok] Cons.prems(1) by auto
  have "page_vcolor s' ?p = of_nat c" using s'(4) tagged color_not_none [OF assms(2)] by (simp add: kept_def)
  moreover have "kept s s'" using k s'(4) by (auto simp: kept_def)
  ultimately show ?case using m s' by (simp add: frame_of_def)
qed

text \<open>The addresses of a pool.\<close>

definition pool_addrs :: "EvCands option list \<Rightarrow> nat \<Rightarrow> addr list" where
  "pool_addrs cands c = (case cands ! c of None \<Rightarrow> [] | Some cand \<Rightarrow> take (cands_count cand) (cands_addrs cand))"

definition pools_ok :: "(addr \<Rightarrow> u64) \<Rightarrow> (nat \<Rightarrow> nat) \<Rightarrow> EvCands option list \<Rightarrow> bool" where
  "pools_ok pa col cands \<longleftrightarrow> (\<forall>c < length cands. (\<forall>cand. cands ! c = Some cand \<longrightarrow> cands_count cand \<le> length (cands_addrs cand))
     \<and> (\<forall>a \<in> set (pool_addrs cands c). col (frame_of pa a) = c))"

definition pool_frames :: "(addr \<Rightarrow> u64) \<Rightarrow> EvCands option list \<Rightarrow> nat set" where
  "pool_frames pa cands = (\<Union>c < length cands. frame_of pa ` set (pool_addrs cands c))"

lemma write_worker_step:
  assumes "pools_ok pa col cands" "c < length cands"
  shows "write_worker env pa cands (c # cs) s = do { s \<leftarrow> write_addrs env pa c (pool_addrs cands c) s; write_worker env pa cands cs s }"
  using assms by (auto simp: pools_ok_def pool_addrs_def arr_simps split: option.splits)

lemma write_worker_tags:
  assumes "\<And>p. env_valid env p \<and> env_mem env p" "length cands \<le> VCOLOR_MAX_COLORS" "pools_ok pa col cands"
    "set cs \<subseteq> {..<length cands}" "tags_ok col (pool_frames pa cands) s" "vcolor_ok s"
  shows "\<exists>s'. write_worker env pa cands cs s = Some s' \<and> tags_ok col (pool_frames pa cands) s' \<and> vcolor_ok s' \<and> kept s s'
    \<and> (\<forall>c \<in> set cs. \<forall>a \<in> set (pool_addrs cands c). page_vcolor s' (frame_of pa a) = of_nat c)"
  using assms(4-6)
proof (induction cs arbitrary: s)
  case Nil
  then show ?case by (simp add: kept_def)
next
  case (Cons c cs)
  have c: "c < length cands" "c < VCOLOR_MAX_COLORS" using Cons.prems(1) assms(2) by auto
  have "\<forall>a \<in> set (pool_addrs cands c). frame_of pa a \<in> pool_frames pa cands \<and> col (frame_of pa a) = c"
    using c(1) assms(3) by (auto simp: pool_frames_def pools_ok_def)
  then obtain s1 where s1: "write_addrs env pa c (pool_addrs cands c) s = Some s1" "tags_ok col (pool_frames pa cands) s1" "vcolor_ok s1"
      "kept s s1" "\<forall>a \<in> set (pool_addrs cands c). page_vcolor s1 (frame_of pa a) = of_nat c"
    using write_addrs_tags [OF assms(1) c(2) _ Cons.prems(2,3)] by blast
  obtain s' where s': "write_worker env pa cands cs s1 = Some s'" "tags_ok col (pool_frames pa cands) s'" "vcolor_ok s'" "kept s1 s'"
      "\<forall>c \<in> set cs. \<forall>a \<in> set (pool_addrs cands c). page_vcolor s' (frame_of pa a) = of_nat c"
    using Cons.IH [OF _ s1(2,3)] Cons.prems(1) by auto
  have "\<forall>a \<in> set (pool_addrs cands c). page_vcolor s' (frame_of pa a) = of_nat c"
    using s1(5) s'(4) color_not_none [OF c(2)] by (simp add: kept_def)
  moreover have "kept s s'" using s1(4) s'(4) by (auto simp: kept_def)
  ultimately show ?case
    using write_worker_step [OF assms(3) c(1)] s1(1) s' by simp
qed

lemma write_worker_append: "write_worker env pa cands (xs @ ys) s = do { s \<leftarrow> write_worker env pa cands xs s; write_worker env pa cands ys s }"
  by (induction xs arbitrary: s) (auto split: Option.bind_splits)

lemma each_worker: "each (\<lambda>(lo, hi). write_worker env pa cands [lo..<hi]) rs s = write_worker env pa cands (concat (map (\<lambda>(lo, hi). [lo..<hi]) rs)) s"
proof (induction rs arbitrary: s)
  case (Cons r rs)
  then have "each (\<lambda>(lo, hi). write_worker env pa cands [lo..<hi]) rs = write_worker env pa cands (concat (map (\<lambda>(lo, hi). [lo..<hi]) rs))"
    by (intro ext)
  then show ?case by (cases r) (simp add: write_worker_append)
qed simp

lemma blocks_concat_from:
  "concat (map (\<lambda>(lo, hi). [lo..<hi]) (block_ranges_from len cur is')) = [cur..<cur + sum_list (map len is')]"
proof (induction is' arbitrary: cur)
  case (Cons i is')
  then show ?case using upt_add_eq_append [of cur "cur + len i" "sum_list (map len is')"] by (simp add: add.assoc)
qed simp

lemma blocks_concat: "0 < n \<Longrightarrow> concat (map (\<lambda>(lo, hi). [lo..<hi]) (block_ranges tot n)) = [0..<tot]"
  using block_len_sum [of n tot] by (simp add: block_ranges_def blocks_concat_from interv_sum_list_conv_sum_set_nat atLeast0LessThan)

text \<open>The first request: an empty pool, or the one there is.\<close>

lemma write_colors_first:
  assumes "vcolor_ok s" "env_open env" "do_clear \<or> vcolor_enabled s"
  obtains s1 where "(if do_clear then if \<not> env_open env then Some (False, s)
        else do { (n, s) \<leftarrow> mod_write env ''clear\<newline>'' s; Some (n = 6, s) } else Some (True, s)) = Some (True, s1)"
    "vcolor_ok s1" "vcolor_enabled s1" "page_count s1 = page_count s"
    "\<forall>p. page_vcolor s p = VCOLOR_NONE \<longrightarrow> page_vcolor s1 p = VCOLOR_NONE"
proof (cases do_clear)
  case True
  have "vpool_ok (s\<lparr>writer_comm := ''vcolor''\<rparr>)" using assms(1) by (simp add: vcolor_ok_def)
  then obtain t where "vcolor_flush (env_prep env) (env_mem env) (s\<lparr>writer_comm := ''vcolor''\<rparr>) = Some t" "vpool_ok t"
      "same_order (s\<lparr>writer_comm := ''vcolor''\<rparr>) t" "\<forall>p. page_vcolor s p = VCOLOR_NONE \<longrightarrow> page_vcolor t p = VCOLOR_NONE"
      "page_count t = page_count s"
    using flush_ok by fastforce
  moreover from this have "order_ok t" using same_order_ok assms(1) by (simp add: vcolor_ok_def)
  ultimately show ?thesis
    using that [of "t\<lparr>vcolor_enabled := True\<rparr>"] True assms(2) by (simp add: mod_write_clear vcolor_ok_def)
qed (use that [of s] assms in simp)

text \<open>All pools lie in one buffer, of which this process holds the only reference to every frame.\<close>

definition buffer_ok :: "kernel_env \<Rightarrow> (addr \<Rightarrow> u64) \<Rightarrow> EvBuffer \<Rightarrow> EvCands option list \<Rightarrow> vcolor_state \<Rightarrow> bool" where
  "buffer_ok env pa e cands s \<longleftrightarrow> (\<forall>cand. Some cand \<in> set cands \<longrightarrow> evb cand = e) \<and> distinct (buffer_frames pa e)
     \<and> pool_frames pa cands \<subseteq> set (buffer_frames pa e)
     \<and> (\<forall>p \<in> set (buffer_frames pa e). page_count s p = 1 \<and> page_vcolor s p = VCOLOR_NONE \<and> env_prep env p \<and> env_mem env p)"

lemma free_pools_shared:
  assumes "\<forall>c \<in> set cands. c = None \<or> map_option evb c = Some e" "\<not> set cands \<subseteq> {None}"
  shows "free_pools env pa cands t = each (free_pages (env_prep env) (env_mem env)) (buffer_frames pa e) t"
  using assms
proof (induction cands)
  case (Cons c cands)
  then show ?case by (cases c) (simp_all add: evcands_free_def)
qed simp

lemma free_pools_eq:
  assumes "buffer_ok env pa e cands s" "Some cand \<in> set cands"
  shows "free_pools env pa cands t = each (free_pages (env_prep env) (env_mem env)) (buffer_frames pa e) t"
proof (rule free_pools_shared)
  have "evb x = e" if "Some x \<in> set cands" for x using assms(1) that by (simp add: buffer_ok_def)
  then show "\<forall>c \<in> set cands. c = None \<or> map_option evb c = Some e" by (metis not_None_eq option.simps(9))
qed (use assms(2) in auto)

text \<open>
  C3: when the threads can be started, \<open>write_colors\<close> moves the frames of the pools that it was
  given into the pools of the kernel: it ends with the module enabled and every frame of pool
  \<open>c\<close> in the list of colour \<open>c\<close>.
\<close>

theorem write_colors_fills_pools:
  assumes "\<And>p. env_valid env p \<and> env_mem env p" "env_open env" "0 < threads" "length cands \<le> VCOLOR_MAX_COLORS"
    and "pools_ok pa col cands" "vcolor_ok s" "do_clear \<or> vcolor_enabled s" "write_threads threads (length cands) \<le> started"
    and "buffer_ok env pa e cands s" "Some cand \<in> set cands"
  shows "\<exists>s'. write_colors env pa threads started cands (length cands) do_clear s = Some (True, s') \<and> vcolor_enabled s' \<and> vcolor_ok s'
    \<and> (\<forall>c < length cands. \<forall>a \<in> set (pool_addrs cands c). frame_of pa a \<in> set (colored_page_list s' ! c))"
proof -
  let ?n = "write_threads threads (length cands)"
  have n: "0 < ?n" using assms(3,10) by (auto simp: write_threads_def)
  note buffer = assms(9) [unfolded buffer_ok_def]
  obtain s1 where s1: "(if do_clear then if \<not> env_open env then Some (False, s)
        else do { (n, s) \<leftarrow> mod_write env ''clear\<newline>'' s; Some (n = 6, s) } else Some (True, s)) = Some (True, s1)"
      "vcolor_ok s1" "vcolor_enabled s1" "page_count s1 = page_count s"
      "\<forall>p. page_vcolor s p = VCOLOR_NONE \<longrightarrow> page_vcolor s1 p = VCOLOR_NONE"
    by (rule write_colors_first [OF assms(6,2,7)])
  have "tags_ok col (pool_frames pa cands) s1" using buffer s1(5) by (auto simp: tags_ok_def)
  then obtain s2 where s2: "write_worker env pa cands [0..<length cands] s1 = Some s2" "vcolor_ok s2" "kept s1 s2"
      "\<forall>c \<in> set [0..<length cands]. \<forall>a \<in> set (pool_addrs cands c). page_vcolor s2 (frame_of pa a) = of_nat c"
    using write_worker_tags [OF assms(1,4,5), of "[0..<length cands]" s1] s1(2) by (auto simp: subset_iff)
  have "\<forall>p \<in> set (buffer_frames pa e). page_count s2 p = 1 \<and> env_prep env p \<and> env_mem env p" "vcolor_enabled s2"
    using buffer s1(3,4) s2(3) by (simp_all add: kept_def)
  then obtain s3 where s3: "each (free_pages (env_prep env) (env_mem env)) (buffer_frames pa e) s2 = Some s3" "vpool_ok s3"
      "same_order s2 s3" "page_vcolor s3 = page_vcolor s2" "\<forall>p \<in> set (buffer_frames pa e). pooled p s3"
    using last_references [of s2 "buffer_frames pa e" "env_prep env" "env_mem env"] s2(2) buffer by (auto simp: vcolor_ok_def)
  let ?s = "s3\<lparr>writer_comm := ''vcolor'', vcolor_enabled := True\<rparr>"
  have "take started (block_ranges (length cands) ?n) = block_ranges (length cands) ?n" using assms(8) by simp
  then have run: "write_colors env pa threads started cands (length cands) do_clear s = Some (True, ?s)"
    using s1(1) s2(1) s3(1) n assms(2) free_pools_eq [OF assms(9,10)] unfolding write_colors_def
    by (simp add: each_worker blocks_concat mod_write_enable)
  have "frame_of pa a \<in> set (colored_page_list s3 ! c)" if c: "c < length cands" "a \<in> set (pool_addrs cands c)" for c a
  proof -
    have "frame_of pa a \<in> set (buffer_frames pa e)" using buffer c by (auto simp: pool_frames_def)
    moreover have "page_vcolor s3 (frame_of pa a) = of_nat c" using s2(4) s3(4) c by simp
    ultimately show ?thesis
      using s3(5) c(1) assms(4) color_not_none [of c] unat_color [of c] by (auto simp: pooled_def)
  qed
  moreover have "order_ok s3" using same_order_ok [OF s3(3)] s2(2) by (simp add: vcolor_ok_def)
  ultimately show ?thesis using run s3(2) by (simp add: vcolor_ok_def)
qed

text \<open>
  C38: an order of two or more colours that the tool sends is refused by the module, and the
  order in the kernel stays as it is.
\<close>

theorem write_order_refused:
  assumes "order_ok s" "env_open env" "\<forall>c \<in> set cs. c < VCOLOR_MAX_COLORS" "2 \<le> length cs" "length cs \<le> VCOLOR_MAX_COLORS"
  shows "write_order env cs s = Some (False, s\<lparr>writer_comm := ''vcolor''\<rparr>)"
  using order_refused assms by blast

text \<open>
  C32: the text of \<open>write_hot\<close> is read back by the module: the colour becomes the hottest and the
  first of the order, which stays a permutation; the tool sees its write accepted.
\<close>

theorem write_hot_roundtrip:
  assumes "vcolor_ok s" "env_open env" "c < VCOLOR_MAX_COLORS"
  shows "\<exists>s'. write_hot env c s = Some (True, s') \<and> vcolor_ok s' \<and> vcolor_hottest s' = of_nat c
    \<and> hd (vcolor_order s') = of_nat c \<and> colored_page_list s' = colored_page_list s \<and> vcolor_enabled s' = vcolor_enabled s"
  using hot_accepted assms by blast

subsection \<open>A run of the tool\<close>

definition demo_env :: kernel_env where
  "demo_env = \<lparr>env_prep = (\<lambda>_. True), env_mem = (\<lambda>_. True), env_valid = (\<lambda>_. True), env_open = True\<rparr>"

definition demo_kernel :: vcolor_state where
  "demo_kernel = vcolor_core_init (\<lambda>_. 0) (\<lambda>_. False)"

lemma demo_kernel_ok: "vcolor_ok demo_kernel"
  unfolding demo_kernel_def by (rule reachable_ok [OF rtranclp.rtrancl_refl]) simp

theorem write_order_refused_witness:
  "write_order demo_env [1, 0] demo_kernel = Some (False, demo_kernel\<lparr>writer_comm := ''vcolor''\<rparr>)"
  using demo_kernel_ok by (intro write_order_refused) (auto simp: demo_env_def vcolor_ok_def VCOLOR_MAX_COLORS_def)

theorem write_hot_roundtrip_witness:
  "\<exists>s'. write_hot demo_env 3 demo_kernel = Some (True, s') \<and> vcolor_hottest s' = 3 \<and> hd (vcolor_order s') = 3"
  using write_hot_roundtrip [OF demo_kernel_ok, of demo_env 3] by (auto simp: demo_env_def VCOLOR_MAX_COLORS_def)

text \<open>Two pools on different frames.\<close>

definition demo_pools :: "EvCands option list" where
  "demo_pools = (let e = \<lparr>buf = 0x1000, n_pages = 2, evb_ref_cnt = 1\<rparr>;
      pool = (\<lambda>a. Some \<lparr>cands_scale = 0, evb = e, cands_addrs = [a], cands_count = 1, cands_ref_cnt = 0, cands_cache = None\<rparr>)
     in [pool 0x1000, pool 0x2040])"

definition demo_used :: vcolor_state where
  "demo_used = vcolor_core_init (\<lambda>_. 1) (\<lambda>_. False)"

theorem write_colors_fills_pools_witness:
  "\<exists>s'. write_colors demo_env (\<lambda>a. a) 2 2 demo_pools 2 True demo_used = Some (True, s')
     \<and> 1 \<in> set (colored_page_list s' ! 0) \<and> 2 \<in> set (colored_page_list s' ! 1)"
proof -
  have len: "length demo_pools = 2" by (simp add: demo_pools_def Let_def)
  have addrs: "pool_addrs demo_pools 0 = [0x1000]" "pool_addrs demo_pools 1 = [0x2040]"
    by (simp_all add: pool_addrs_def demo_pools_def Let_def)
  have frames: "frame_of (\<lambda>a. a) 0x1000 = 1" "frame_of (\<lambda>a. a) 0x2040 = 2"
    by (simp_all add: frame_of_def drop_bit_eq_div unat_div)
  have two: "c = 0 \<or> c = 1" if "c < 2" for c :: nat using that by auto
  have ok: "pools_ok (\<lambda>a. a) (\<lambda>p. p - 1) demo_pools"
    unfolding pools_ok_def
  proof (intro conjI allI impI ballI)
    fix c assume "c < length demo_pools"
    then have c: "c = 0 \<or> c = 1" using two len by simp
    show "cands_count cand \<le> length (cands_addrs cand)" if "demo_pools ! c = Some cand" for cand
      using c that by (auto simp: demo_pools_def Let_def)
    show "frame_of (\<lambda>a. a) a - 1 = c" if "a \<in> set (pool_addrs demo_pools c)" for a
      using c that addrs frames by auto
  qed
  let ?e = "\<lparr>buf = 0x1000, n_pages = 2, evb_ref_cnt = 1\<rparr>"
  have e: "buffer_frames (\<lambda>a. a) ?e = [1, 2]" by (simp add: buffer_frames_def drop_bit_eq_div unat_div upt_rec)
  have sub: "pool_frames (\<lambda>a. a) demo_pools \<subseteq> {1, 2}"
    using addrs frames by (auto simp: pool_frames_def len lessThan_Suc numeral_2_eq_2)
  have b: "buffer_ok demo_env (\<lambda>a. a) ?e demo_pools demo_used"
    unfolding buffer_ok_def e using sub by (auto simp: demo_pools_def Let_def demo_used_def vcolor_core_init_def demo_env_def)
  have used: "vcolor_ok demo_used" unfolding demo_used_def by (rule reachable_ok [OF rtranclp.rtrancl_refl]) simp
  have env: "env_valid demo_env p \<and> env_mem demo_env p" "env_open demo_env" for p by (simp_all add: demo_env_def)
  have some: "Some \<lparr>cands_scale = 0, evb = ?e, cands_addrs = [0x1000], cands_count = 1, cands_ref_cnt = 0, cands_cache = None\<rparr> \<in> set demo_pools"
    by (simp add: demo_pools_def Let_def)
  obtain s' where s': "write_colors demo_env (\<lambda>a. a) 2 2 demo_pools 2 True demo_used = Some (True, s')"
      "\<forall>c < 2. \<forall>a \<in> set (pool_addrs demo_pools c). frame_of (\<lambda>a. a) a \<in> set (colored_page_list s' ! c)"
    using write_colors_fills_pools [OF env, of 2 demo_pools "\<lambda>a. a" "\<lambda>p. p - 1" demo_used True 2, OF _ _ ok used _ _ b some]
    by (auto simp: len write_threads_def VCOLOR_MAX_COLORS_def)
  moreover have "1 \<in> set (colored_page_list s' ! 0)" using s'(2) [THEN spec, of 0] by (simp only: addrs(1)) (simp add: frames)
  moreover have "2 \<in> set (colored_page_list s' ! 1)" using s'(2) [THEN spec, of 1] by (simp only: addrs(2)) (simp add: frames)
  ultimately show ?thesis by blast
qed

text \<open>An insertion sort by hotness.\<close>

fun hot_insert :: "color_hot \<Rightarrow> color_hot list \<Rightarrow> color_hot list" where
  "hot_insert x [] = [x]"
| "hot_insert x (y # ys) = (if cmp_hot x y \<le> 0 then x # y # ys else y # hot_insert x ys)"

definition hot_sort :: "color_hot list \<Rightarrow> color_hot list" where
  "hot_sort xs = foldr hot_insert xs []"

lemma hot_insert_mset: "mset (hot_insert x ys) = add_mset x (mset ys)"
  by (induction ys) auto

lemma cmp_hot_num: "snd a \<noteq> None \<Longrightarrow> snd b \<noteq> None \<Longrightarrow> cmp_hot a b \<le> 0 \<longleftrightarrow> the (snd b) \<le> the (snd a)"
  by (auto simp: cmp_hot_def f_less_def)

lemma hot_insert_sorted:
  assumes "snd x \<noteq> None" "\<forall>y \<in> set ys. snd y \<noteq> None" "sorted_wrt (\<lambda>a b. cmp_hot a b \<le> 0) ys"
  shows "sorted_wrt (\<lambda>a b. cmp_hot a b \<le> 0) (hot_insert x ys)"
  using assms(2,3)
proof (induction ys)
  case (Cons y ys)
  have set: "set (hot_insert x ys) = insert x (set ys)" by (induction ys) auto
  show ?case
    using Cons assms(1) set by (auto simp: cmp_hot_num)
qed simp

lemma hot_sort_ok: "qsort_ok hot_sort"
proof -
  have m: "mset (foldr hot_insert xs []) = mset xs" for xs by (induction xs) (auto simp: hot_insert_mset)
  moreover have "sorted_wrt (\<lambda>a b. cmp_hot a b \<le> 0) (foldr hot_insert xs [])" if "\<forall>x \<in> set xs. snd x \<noteq> None" for xs
    using that
  proof (induction xs)
    case (Cons x xs)
    then show ?case using mset_eq_setD [OF m [of xs]] by (simp add: hot_insert_sorted)
  qed simp
  ultimately show ?thesis by (simp add: qsort_ok_def hot_sort_def)
qed

definition demo_start :: "monitor \<times> vcolor_state" where
  "demo_start = the (monitor_start hot_sort demo_env [Some (1 / 4), Some (1 / 2)] demo_kernel)"

theorem monitor_steers_allocation_witness:
  "vcolor_hottest (snd demo_start) = of_nat (hottest (fst demo_start)) \<and> hottest (fst demo_start) < 2"
proof -
  have env: "env_open demo_env" "(2 :: nat) \<le> 2" "2 \<le> VCOLOR_MAX_COLORS" by (simp_all add: demo_env_def VCOLOR_MAX_COLORS_def)
  obtain mon s where m: "monitor_start hot_sort demo_env [Some (1 / 4), Some (1 / 2)] demo_kernel = Some (mon, s)"
    using start_in_step [OF hot_sort_ok env, of "[Some (1 / 4), Some (1 / 2)]" demo_kernel] demo_kernel_ok by auto
  have "monitored hot_sort demo_env (Some (1 / 2)) (Some (1 / 2)) 2 mon s"
    by (rule monitored.started [OF demo_kernel_ok _ m]) simp
  then show ?thesis
    using monitor_steers_allocation [OF _ hot_sort_ok env, of "Some (1 / 2)" "Some (1 / 2)" mon s "[None, None]"] m
    by (simp add: demo_start_def)
qed

text \<open>Three rounds in which colour 0 becomes hot and colour 1 cold.\<close>

definition demo_mon :: "f64 list \<Rightarrow> nat \<Rightarrow> int \<Rightarrow> monitor" where
  "demo_mon hots cand k = \<lparr>ewma = hots, hottest = 1, prev_cand = cand, change_cnt = k, last_order = [1, 0]\<rparr>"

lemma fl_small: "fl 0 = 0" "fl 1 = 1" "fl 100 = 100"
  using fl_int [of 0] fl_int [of 1] fl_int [of 100] by simp_all

lemmas round_simps = fl_small monitor_round_def demo_mon_def update_ewma_def ewma_step_def by_hotness_def hot_sort_def cmp_hot_def f_less_def
  f_mul_def f_add_def f_sub_def hotter_def decide_def hot_level_def build_sorted_order_def VCOLOR_MAX_COLORS_def arr_simps Let_def

lemma demo_rounds:
  "monitor_round hot_sort demo_env (Some 0) (Some 0) [Some 1, Some 0] (demo_mon [Some 0, Some 1] 1 0) s = Some (demo_mon [Some 1, Some 0] 0 1, s)"
  "monitor_round hot_sort demo_env (Some 0) (Some 0) [Some 1, Some 0] (demo_mon [Some 1, Some 0] 0 1) s = Some (demo_mon [Some 1, Some 0] 0 2, s)"
  by (simp_all add: round_simps)

theorem hottest_changes_slowly_witness:
  "\<exists>mon3 t3. monitor_round hot_sort demo_env (Some 0) (Some 0) [Some 1, Some 0] (demo_mon [Some 1, Some 0] 0 2) demo_kernel = Some (mon3, t3)
     \<and> hottest mon3 = 0 \<and> leads hot_sort mon3 0 1"
proof -
  obtain s1 where s1: "write_hot demo_env 0 (demo_kernel\<lparr>writer_comm := ''vcolor''\<rparr>) = Some (True, s1)"
    using hot_accepted [of "demo_kernel\<lparr>writer_comm := ''vcolor''\<rparr>" demo_env 0] demo_kernel_ok
    by (auto simp: demo_env_def VCOLOR_MAX_COLORS_def vcolor_ok_def)
  have "write_order demo_env [0, 1] demo_kernel = Some (False, demo_kernel\<lparr>writer_comm := ''vcolor''\<rparr>)"
    using demo_kernel_ok by (intro order_refused) (auto simp: demo_env_def vcolor_ok_def VCOLOR_MAX_COLORS_def)
  then obtain mon3 where m3: "monitor_round hot_sort demo_env (Some 0) (Some 0) [Some 1, Some 0] (demo_mon [Some 1, Some 0] 0 2) demo_kernel = Some (mon3, s1)"
      "hottest mon3 = 0"
    using s1
    by (simp add: round_simps)
  then show ?thesis
    using hottest_changes_slowly [OF demo_rounds m3(1)] by (auto simp: demo_mon_def)
qed

end
