(* ===== verification/Gpa_Hpa.thy ===== *)
theory Gpa_Hpa
  imports Kernel_Text Topo_Utils
begin

unbundle bit_operations_syntax

text \<open>
  Guest addresses on the host, for debugging (docs/4-gpa-hpa-debug.md): the hypercall that the
  patch kern_mods/gpa_hpa_km/hc.diff adds to KVM, the guest module kern_mods/gpa_hpa_km/gpa_hpa.c
  that makes it, the client vm_tools/gpa_hpa.c, and its hash \<open>l3_slice_skx_20\<close> of host addresses.

  The memory of the host enters as a record of what the functions that the hypercall uses
  return. \<open>ret0\<close> is the result register when the handler of the hypercall leaves it alone.
\<close>

subsection \<open>The hypercall\<close>

record host_page =
  host_pfn :: u64
  host_mapped :: bool
  host_huge :: bool
  host_order :: u64

record host =
  gfn_to_hva :: "u64 \<Rightarrow> u64"
  kvm_is_error_hva :: "u64 \<Rightarrow> bool"
  mm_alive :: bool
  user_page :: "u64 \<Rightarrow> host_page option"

definition page_flags :: "host_page \<Rightarrow> u64" where
  "page_flags pg =
     (let flags = (if host_mapped pg then push_bit 1 1 else 0)
      in if host_huge pg
         then (let flags = flags OR push_bit 0 1;
                   order = (if host_order pg > 31 then 31 else host_order pg)
               in flags OR push_bit 2 (order AND 0x1F))
         else flags)"

text \<open>The three result registers: host address, frame and flags.\<close>

type_synonym regs = "u64 \<times> u64 \<times> u64"

definition hypercall_60 :: "host \<Rightarrow> regs \<Rightarrow> u64 \<Rightarrow> regs" where
  "hypercall_60 host regs0 gpa =
     (let gfn = drop_bit 12 gpa; hva = gfn_to_hva host gfn
      in if kvm_is_error_hva host hva then regs0
         else if \<not> mm_alive host then regs0
         else case user_page host (hva AND NOT (mask 12)) of
                None \<Rightarrow> regs0
              | Some pg \<Rightarrow> (push_bit 12 (host_pfn pg), host_pfn pg, page_flags pg))"

subsection \<open>The module\<close>

text \<open>The data of an open file, the text of which is not set before the first request, and the position in it.\<close>

record proc_data =
  data_buffer :: "string option"
  data_updated :: bool
  file_pos :: nat

definition BUF_SIZE :: nat where "BUF_SIZE = 256"

definition gpa_open :: proc_data where
  "gpa_open = \<lparr>data_buffer = None, data_updated = False, file_pos = 0\<rparr>"

definition answer_text :: "regs \<Rightarrow> string" where
  "answer_text regs = (case regs of (hpa, pfn, flags) \<Rightarrow>
     ''HPA=0x'' @ text_of 16 (unat hpa) @ '' PFN=0x'' @ text_of 16 (unat pfn) @ '' FLAGS=0x'' @ text_of 16 (unat flags) @ [CHR 0x0A])"

definition gpa_write :: "host \<Rightarrow> regs \<Rightarrow> bool \<Rightarrow> string \<Rightarrow> proc_data \<Rightarrow> int \<times> proc_data" where
  "gpa_write host regs0 fault ubuf d =
     (if length ubuf \<ge> 64 then (- 22, d)
      else if fault then (- 14, d)
      else case kstrtoull (c_string ubuf) 16 of
             None \<Rightarrow> (- 14, d)
           | Some gpa \<Rightarrow>
               (int (length ubuf),
                d\<lparr>data_buffer := Some (take (BUF_SIZE - 1) (answer_text (hypercall_60 host regs0 (of_nat gpa)))), data_updated := True\<rparr>))"

definition gpa_read :: "bool \<Rightarrow> nat \<Rightarrow> proc_data \<Rightarrow> ((int \<times> string) \<times> proc_data) option" where
  "gpa_read fault cnt d = do {
     text \<leftarrow> data_buffer d;
     let d = (if data_updated d then d\<lparr>file_pos := 0, data_updated := False\<rparr> else d);
     Some (if file_pos d \<ge> length text then ((0, []), d)
           else (let n = (if cnt > length text - file_pos d then length text - file_pos d else cnt)
                 in if fault then ((- 14, []), d)
                    else ((int n, take n (drop (file_pos d) text)), d\<lparr>file_pos := file_pos d + n\<rparr>)))
   }"

subsection \<open>The client\<close>

text \<open>
  \<open>%lx\<close> of the C library: white space, a sign and a prefix 0x may come first, and a number that is
  too large becomes the largest one.
\<close>

definition scan_lx :: "string \<Rightarrow> u64 option" where
  "scan_lx s =
     (let s = skip_spaces s;
          neg = (s \<noteq> [] \<and> hd s = CHR ''-'');
          s = (if s \<noteq> [] \<and> (hd s = CHR ''-'' \<or> hd s = CHR ''+'') then tl s else s);
          s = (if has_0x s \<and> length s > 2 \<and> is_digit 16 (s ! 2) then drop 2 s else s);
          (n, rest) = parse_integer 16 s 0
      in if rest = s then None
         else Some (if int n \<ge> 2 ^ 64 then - 1 else if neg then - of_nat n else of_nat n))"

definition scan_hpa :: "string \<Rightarrow> u64 option" where
  "scan_hpa s = (if take 6 s = ''HPA=0x'' then scan_lx (drop 6 s) else None)"

text \<open>The host address of a guest address; \<open>None\<close> inside is the end of the program with an error.\<close>

definition va_to_hpa :: "host \<Rightarrow> regs \<Rightarrow> (u64 \<Rightarrow> u64 option) \<Rightarrow> addr \<Rightarrow> proc_data \<Rightarrow> (u64 option \<times> proc_data) option" where
  "va_to_hpa host regs0 pagemap va d =
     (let offset = va AND 0xFFF;
          pfn = va_to_pa 4096 pagemap va;
          (n, d) = gpa_write host regs0 False (text_of 16 (unat pfn)) d
      in if n < 0 then Some (None, d)
         else do {
           ((n, text), d) \<leftarrow> gpa_read False 255 d;
           if n < 0 then Some (None, d)
           else case scan_hpa (c_string text) of
                  None \<Rightarrow> Some (None, d)
                | Some hpa \<Rightarrow> Some (Some (hpa OR offset), d)
         })"

subsection \<open>Slices of the last-level cache\<close>

definition base_seq_table :: "int list" where
  "base_seq_table =
    [0, 11, 2, 9, 7, 12, 5, 14, 1, 10, 3, 8, 6, 13, 4, 15,
     1, 10, 3, 8, 6, 13, 4, 15, 0, 11, 18, 17, 7, 12, 17, 18,
     8, 3, 10, 1, 15, 4, 13, 6, 9, 2, 19, 16, 14, 5, 16, 19,
     9, 2, 11, 0, 14, 5, 12, 7, 8, 3, 18, 17, 15, 4, 17, 18,
     10, 1, 8, 3, 13, 6, 15, 4, 11, 0, 9, 2, 12, 7, 14, 5,
     11, 0, 9, 2, 12, 7, 14, 5, 18, 17, 8, 3, 17, 18, 15, 4,
     2, 9, 0, 11, 5, 14, 7, 12, 19, 16, 1, 10, 16, 19, 6, 13,
     3, 8, 1, 10, 4, 15, 6, 13, 18, 17, 0, 11, 17, 18, 7, 12,
     4, 15, 6, 13, 3, 8, 1, 10, 5, 14, 7, 12, 2, 9, 0, 11,
     5, 14, 7, 12, 2, 9, 0, 11, 16, 19, 6, 13, 19, 16, 1, 10,
     12, 7, 14, 5, 11, 0, 9, 2, 17, 18, 15, 4, 18, 17, 8, 3,
     13, 6, 15, 4, 10, 1, 8, 3, 16, 19, 14, 5, 19, 16, 9, 2,
     14, 5, 12, 7, 9, 2, 11, 0, 15, 4, 13, 6, 8, 3, 10, 1,
     15, 4, 13, 6, 8, 3, 10, 1, 14, 5, 16, 19, 9, 2, 19, 16,
     6, 13, 4, 15, 1, 10, 3, 8, 7, 12, 17, 18, 0, 11, 18, 17,
     7, 12, 5, 14, 0, 11, 2, 9, 6, 13, 16, 19, 1, 10, 19, 16]"

definition base_seq :: "u32 list" where
  "base_seq = map of_int base_seq_table"

definition perm_masks :: "u64 list" where
  "perm_masks = [0x3ecbad4000, 0x35cf7c000, 0x387242c000, 0xe2f28c000, 0x1c5e518000, 0x38bca30000, 0xfb2eb4000, 0x1f65d68000]"

text \<open>The loop that counts the bits; its shift is arithmetic, so that it would not end below zero.\<close>

partial_function (option) count_bits :: "int \<Rightarrow> u32 \<Rightarrow> u32 option" where
  "count_bits temp cnt = (if temp = 0 then Some cnt else count_bits (drop_bit 1 temp) (cnt + of_int (temp AND 1)))"

fun perm_bits :: "u64 \<Rightarrow> nat list \<Rightarrow> u32 \<Rightarrow> u32 option" where
  "perm_bits addr [] perm = Some perm"
| "perm_bits addr (i # is') perm = do {
     m \<leftarrow> arr_get perm_masks i;
     cnt \<leftarrow> count_bits (sint (addr AND m)) 0;
     perm_bits addr is' (if cnt AND 1 \<noteq> 0 then perm OR push_bit i 1 else perm)
   }"

definition l3_slice_skx_20 :: "u64 \<Rightarrow> u32 option" where
  "l3_slice_skx_20 addr = do {
     let index = ucast (drop_bit 6 addr) AND 0xFF;
     perm \<leftarrow> perm_bits addr [0..<8] 0;
     arr_get base_seq (unat (index XOR perm))
   }"

subsection \<open>Requests and answers\<close>

lemma kstrtoull_text: "n < 2 ^ 64 \<Longrightarrow> kstrtoull (text_of 16 n) 16 = Some n"
proof -
  assume "n < 2 ^ 64"
  moreover have "hd (text_of 16 n) \<noteq> CHR ''+''" using text_of_hd [of 16 n] by (auto simp: is_digit_def digit_val_def)
  ultimately show ?thesis
    using text_no_0x [of 16 "[]" n] parse_text_of [of 16 n] by (simp add: kstrtoull_def fixup_radix_def text_of_nonempty [symmetric])
qed

lemma scan_lx_text:
  assumes "n < 2 ^ 64" "rest = [] \<or> hd rest = CHR '' ''"
  shows "scan_lx (text_of 16 n @ rest) = Some (of_nat n)"
proof -
  have no: "\<not> is_digit 16 CHR '' ''" "\<not> is_digit 16 CHR ''-''" "\<not> is_digit 16 CHR ''+''"
    by (simp_all add: is_digit_def digit_val_def)
  then have "hd (text_of 16 n @ rest) \<noteq> CHR ''-''" "hd (text_of 16 n @ rest) \<noteq> CHR ''+''"
    using text_of_hd [of 16 n] by auto
  moreover have "\<not> has_0x (text_of 16 n @ rest)" using assms(2) no by (intro text_no_0x) auto
  moreover have "parse_integer 16 (text_of 16 n @ rest) 0 = (n, rest)"
    using assms(2) no by (intro parse_text_rest) auto
  ultimately show ?thesis using assms(1) by (simp add: scan_lx_def Let_def)
qed

lemma answer_text_plain: "length (answer_text regs) < 255" "c_string (answer_text regs) = answer_text regs"
proof -
  obtain h p f where r: "regs = (h, p, f)" by (cases regs)
  have "length (text_of 16 (unat x)) \<le> 16" for x :: u64
    using unsigned_less [of x, where ?'a = nat] by (intro text_of_length) simp_all
  from this [of h] this [of p] this [of f] show "length (answer_text regs) < 255"
    by (simp add: r answer_text_def)
  have "CHR 0x00 \<notin> set (text_of 16 n)" for n
    using text_of_set [of 16 "CHR 0x00" n] by (auto simp: is_digit_def digit_val_def)
  then show "c_string (answer_text regs) = answer_text regs"
    by (intro c_string_id) (simp add: r answer_text_def)
qed

lemma scan_answer: "scan_hpa (answer_text regs) = Some (fst regs)"
proof -
  obtain h p f where r: "regs = (h, p, f)" by (cases regs)
  have "scan_lx (text_of 16 (unat h) @ '' PFN=0x'' @ text_of 16 (unat p) @ '' FLAGS=0x'' @ text_of 16 (unat f) @ [CHR 0x0A]) = Some h"
    using unsigned_less [of h, where ?'a = nat] by (subst scan_lx_text) simp_all
  then show ?thesis by (simp add: r answer_text_def scan_hpa_def)
qed

text \<open>A request through the module is the hypercall, whatever the state of the file.\<close>

lemma va_to_hpa_eq:
  "\<exists>d'. va_to_hpa host regs0 pagemap va d =
     Some (Some (fst (hypercall_60 host regs0 (va_to_pa 4096 pagemap va)) OR take_bit 12 va), d')"
proof -
  let ?pa = "va_to_pa 4096 pagemap va"
  let ?t = "answer_text (hypercall_60 host regs0 ?pa)"
  have pa: "unat ?pa < 2 ^ 64" using unsigned_less [of ?pa, where ?'a = nat] by simp
  have "CHR 0x00 \<notin> set (text_of 16 (unat ?pa))"
    using text_of_set [of 16 "CHR 0x00" "unat ?pa"] by (auto simp: is_digit_def digit_val_def)
  moreover have "length (text_of 16 (unat ?pa)) \<le> 16" using pa by (intro text_of_length) simp_all
  ultimately have w: "gpa_write host regs0 False (text_of 16 (unat ?pa)) d =
      (int (length (text_of 16 (unat ?pa))), d\<lparr>data_buffer := Some ?t, data_updated := True\<rparr>)"
    using kstrtoull_text [OF pa] answer_text_plain(1) [of "hypercall_60 host regs0 ?pa"]
    by (simp add: gpa_write_def c_string_id BUF_SIZE_def)
  have "?t \<noteq> []" using scan_answer [of "hypercall_60 host regs0 ?pa"] by (auto simp: scan_hpa_def)
  then have "gpa_read False 255 (d\<lparr>data_buffer := Some ?t, data_updated := True\<rparr>) =
      Some ((int (length ?t), ?t), d\<lparr>data_buffer := Some ?t, data_updated := False, file_pos := length ?t\<rparr>)"
    using answer_text_plain(1) [of "hypercall_60 host regs0 ?pa"] by (simp add: gpa_read_def Let_def)
  moreover have "va AND 0xFFF = take_bit 12 va" by (simp add: take_bit_eq_mask mask_eq_exp_minus_1)
  ultimately show ?thesis
    using w answer_text_plain(2) scan_answer by (simp add: va_to_hpa_def Let_def)
qed

definition gfn_of :: "(u64 \<Rightarrow> u64 option) \<Rightarrow> addr \<Rightarrow> u64 option" where
  "gfn_of pagemap va = (case pagemap (va div 4096) of Some entry \<Rightarrow> if bit entry 63 then Some (take_bit 52 entry) else None | None \<Rightarrow> None)"

lemma va_to_pa_gfn: "gfn_of pagemap va = Some gfn \<Longrightarrow> drop_bit 12 (va_to_pa 4096 pagemap va) = gfn"
  using va_to_pa_frame [of pagemap va] by (auto simp: gfn_of_def split: option.splits if_splits)

text \<open>
  C23: for an address of a present page, the tool finds the frame of the host page that backs its
  guest frame and keeps the offset in the page, in any state of the open file.
\<close>

theorem va_to_hpa_translates:
  assumes "gfn_of pagemap va = Some gfn" "\<not> kvm_is_error_hva host (gfn_to_hva host gfn)" "mm_alive host"
    and "user_page host (gfn_to_hva host gfn AND NOT (mask 12)) = Some pg"
  shows "\<exists>hpa d'. va_to_hpa host regs0 pagemap va d = Some (Some hpa, d')
    \<and> drop_bit 12 hpa = take_bit 52 (host_pfn pg) \<and> take_bit 12 hpa = take_bit 12 va"
proof -
  have "hypercall_60 host regs0 (va_to_pa 4096 pagemap va) = (push_bit 12 (host_pfn pg), host_pfn pg, page_flags pg)"
    using assms va_to_pa_gfn [OF assms(1)] by (simp add: hypercall_60_def)
  then obtain d' where "va_to_hpa host regs0 pagemap va d = Some (Some (push_bit 12 (host_pfn pg) OR take_bit 12 va), d')"
    using va_to_hpa_eq [of host regs0 pagemap va d] by auto
  moreover have "drop_bit 12 (push_bit 12 (host_pfn pg) OR take_bit 12 va) = take_bit 52 (host_pfn pg)"
    "take_bit 12 (push_bit 12 (host_pfn pg) OR take_bit 12 va) = take_bit 12 va"
    by (rule bit_eqI; auto simp: bit_simps)+
  ultimately show ?thesis by blast
qed

text \<open>
  C39: when the host has no page for the guest frame, the tool does not report an error: it takes
  the result register that the hypercall left alone for an address.
\<close>

theorem va_to_hpa_hides_failure:
  assumes "gfn_of pagemap va = Some gfn"
    and "kvm_is_error_hva host (gfn_to_hva host gfn) \<or> \<not> mm_alive host
      \<or> user_page host (gfn_to_hva host gfn AND NOT (mask 12)) = None"
  shows "\<exists>d'. va_to_hpa host regs0 pagemap va d = Some (Some (fst regs0 OR take_bit 12 va), d')"
proof -
  have "hypercall_60 host regs0 (va_to_pa 4096 pagemap va) = regs0"
    using assms va_to_pa_gfn [OF assms(1)] by (auto simp: hypercall_60_def Let_def)
  then show ?thesis using va_to_hpa_eq [of host regs0 pagemap va d] by simp
qed

subsection \<open>Slices\<close>

definition one_bits :: "int \<Rightarrow> nat \<Rightarrow> nat" where
  "one_bits t n = length (filter (bit t) [0..<n])"

lemma one_bits_Suc: "one_bits t (Suc n) = of_bool (odd t) + one_bits (drop_bit 1 t) n"
proof -
  have "[0..<Suc n] = 0 # map Suc [0..<n]" by (simp add: upt_conv_Cons map_Suc_upt del: upt_Suc)
  then show ?thesis by (simp add: one_bits_def filter_map comp_def bit_Suc bit_0 drop_bit_Suc del: upt_Suc)
qed

lemma count_bits_returns: "0 \<le> t \<Longrightarrow> t < 2 ^ n \<Longrightarrow> count_bits t cnt = Some (cnt + of_nat (one_bits t n))"
proof (induction n arbitrary: t cnt)
  case 0
  then show ?case by (simp add: count_bits.simps one_bits_def)
next
  case (Suc n)
  have one: "t AND 1 = of_bool (odd t)" by (simp add: and_one_eq odd_iff_mod_2_eq_one)
  have "drop_bit 1 t < 2 ^ n" "0 \<le> drop_bit 1 t" using Suc.prems by (simp_all add: drop_bit_eq_div)
  then have IH: "count_bits (drop_bit 1 t) (cnt + of_int (t AND 1)) = Some (cnt + of_bool (odd t) + of_nat (one_bits (drop_bit 1 t) n))"
    using Suc.IH [of "drop_bit 1 t" "cnt + of_int (t AND 1)"] by (simp add: one)
  show ?case
  proof (cases "t = 0")
    case True
    then show ?thesis by (simp add: count_bits.simps one_bits_def)
  next
    case False
    then show ?thesis using IH by (subst count_bits.simps) (simp add: one_bits_Suc add.assoc)
  qed
qed

text \<open>The bits of the permutation depend on the number of the 16 KiB block only, and are 8 bits.\<close>

lemma masks_above: "m \<in> set perm_masks \<Longrightarrow> m = push_bit 14 (drop_bit 14 m) \<and> m < 2 ^ 38"
  by (auto simp: perm_masks_def)

lemma masked_block:
  assumes "m \<in> set perm_masks" "drop_bit 14 a = drop_bit 14 (b :: u64)"
  shows "a AND m = b AND m"
proof (rule bit_eqI)
  fix k
  have "bit m k \<Longrightarrow> 14 \<le> k" using masks_above [OF assms(1)] by (metis bit_push_bit_iff)
  moreover have "bit a k = bit b k" if "14 \<le> k"
    using that arg_cong [OF assms(2), of "\<lambda>x. bit x (k - 14)"] by (simp add: bit_drop_bit_eq)
  ultimately show "bit (a AND m) k = bit (b AND m) k" by (auto simp: bit_and_iff)
qed

lemma perm_bits_block: "drop_bit 14 a = drop_bit 14 b \<Longrightarrow> perm_bits a is' perm = perm_bits b is' perm"
proof (induction is' arbitrary: perm)
  case (Cons i is')
  have "a AND m = b AND m" if "arr_get perm_masks i = Some m" for m
    using that Cons.prems by (intro masked_block) (auto simp: arr_get_def split: if_splits)
  then show ?case using Cons by (auto intro!: Option.bind_cong)
qed simp

lemma masked_counted:
  assumes "m \<in> set perm_masks"
  shows "\<exists>cnt. count_bits (sint (addr AND m)) 0 = Some cnt"
proof -
  have "addr AND m < 2 ^ 38"
    using masks_above [OF assms] word_and_le1 [of m addr] by (metis and.commute order_le_less_trans word_and_le2)
  then have le: "uint (addr AND m) < 2 ^ 38" by (simp add: word_less_def)
  moreover have "- (2 ^ 63) \<le> uint (addr AND m)" by (rule order.trans [OF _ uint_ge_0]) simp
  ultimately have "signed_take_bit 63 (uint (addr AND m)) = uint (addr AND m)" by (intro signed_take_bit_int_eq_self) auto
  then have "sint (addr AND m) = uint (addr AND m)" by (simp add: sint_uint)
  then show ?thesis using count_bits_returns [OF uint_ge_0 le] by simp
qed

lemma perm_bits_small: "\<forall>i \<in> set is'. i < 8 \<Longrightarrow> take_bit 8 perm = perm \<Longrightarrow> \<exists>p. perm_bits addr is' perm = Some p \<and> take_bit 8 p = p"
proof (induction is' arbitrary: perm)
  case (Cons i is')
  then have i: "i < 8" by simp
  then have "i < length perm_masks" by (simp add: perm_masks_def)
  then have "perm_masks ! i \<in> set perm_masks" "arr_get perm_masks i = Some (perm_masks ! i)" by (simp_all add: arr_simps)
  moreover from this obtain cnt where "count_bits (sint (addr AND perm_masks ! i)) 0 = Some cnt" using masked_counted by blast
  moreover have "take_bit 8 (push_bit i 1 :: u32) = push_bit i 1" using i by (intro bit_eqI) (auto simp: bit_simps)
  then have "take_bit 8 (perm OR push_bit i 1) = perm OR push_bit i 1" using Cons.prems(2) by (simp add: take_bit_or)
  ultimately show ?case using Cons by simp
qed simp

text \<open>The address of line \<open>i\<close> of a block of 256 lines.\<close>

definition block_line :: "u64 \<Rightarrow> nat \<Rightarrow> u64" where
  "block_line b i = push_bit 14 b OR push_bit 6 (of_nat i)"

lemma byte_bits: "i < 256 \<Longrightarrow> bit (i :: nat) k \<Longrightarrow> k < 8"
  using take_bit_nat_eq_self [of i 8] bit_take_bit_iff [of 8 i k] by simp

lemma block_line_index:
  assumes "i < 256"
  shows "drop_bit 14 (block_line b i) = drop_bit 14 (push_bit 14 b)" "ucast (drop_bit 6 (block_line b i)) AND 0xFF = (of_nat i :: u32)"
proof -
  show "drop_bit 14 (block_line b i) = drop_bit 14 (push_bit 14 b)"
    using byte_bits [OF assms] by (intro bit_eqI) (fastforce simp: block_line_def bit_simps)
  have and8: "x AND 0xFF = take_bit 8 x" for x :: u32 by (simp add: take_bit_eq_mask mask_eq_exp_minus_1)
  show "ucast (drop_bit 6 (block_line b i)) AND 0xFF = (of_nat i :: u32)"
    unfolding and8 using byte_bits [OF assms] by (intro bit_eqI) (auto simp: block_line_def bit_simps)
qed

lemma xor_byte: "p < 256 \<Longrightarrow> i < 256 \<Longrightarrow> (i XOR p :: nat) < 256"
  using take_bit_nat_eq_self [of i 8] take_bit_nat_eq_self [of p 8] take_bit_nat_less_exp [of 8 "i XOR p"]
  by (simp add: take_bit_xor)

lemma xor_permutes: "p < 256 \<Longrightarrow> mset (map (\<lambda>i. i XOR p) [0..<256]) = mset [0..<256 :: nat]"
proof -
  assume p: "p < 256"
  have inj: "inj_on (\<lambda>i. i XOR p) {0..<256}" by (rule inj_onI) (metis xor.assoc xor_self_eq xor.right_neutral)
  have "(\<lambda>i. i XOR p) ` {0..<256} = {0..<256}"
    using inj xor_byte [OF p] by (intro endo_inj_surj) auto
  then show ?thesis
    using inj by (subst set_eq_iff_mset_eq_distinct [symmetric]) (simp_all add: distinct_map)
qed

lemma base_seq_length: "length base_seq = 256"
  by (simp add: base_seq_def base_seq_table_def)

lemma table_counts: "\<forall>s \<in> set [0..19]. length (filter (\<lambda>x. x = s) base_seq_table) = (if s < 16 then 13 else 12 :: nat)"
  by code_simp

lemma table_small: "list_all (\<lambda>x. 0 \<le> x \<and> x < 20) base_seq_table"
  by code_simp

lemma base_counts: "length (filter (\<lambda>x. x = s) base_seq) = (if s < 16 then 13 else if s < 20 then 12 else 0)"
proof -
  have "x = uint s" if "of_int x = s" "0 \<le> x" "x < 20" for x
    using that by (auto simp: uint_word_of_int_eq take_bit_int_eq_self)
  then have "filter (\<lambda>x. of_int x = s) base_seq_table = filter (\<lambda>x. x = uint s) base_seq_table"
    using table_small by (intro filter_cong) (auto simp: list_all_iff)
  then have eq: "length (filter (\<lambda>x. x = s) base_seq) = length (filter (\<lambda>x. x = uint s) base_seq_table)"
    by (simp add: base_seq_def filter_map comp_def)
  have ord: "s < 16 \<longleftrightarrow> uint s < 16" "s < 20 \<longleftrightarrow> uint s < 20" by (simp_all add: word_less_def)
  show ?thesis
  proof (cases "uint s < 20")
    case True
    then show ?thesis using table_counts eq ord by simp
  next
    case False
    then have "filter (\<lambda>x. x = uint s) base_seq_table = []" using table_small by (auto simp: filter_empty_conv list_all_iff)
    then show ?thesis using eq ord False by simp
  qed
qed

lemma block_slices: "\<exists>p < 256. \<forall>i < 256. l3_slice_skx_20 (block_line b i) = Some (base_seq ! (i XOR p))"
proof -
  obtain p where p: "perm_bits (push_bit 14 b) [0..<8] 0 = Some p" "take_bit 8 p = p"
    using perm_bits_small [of "[0..<8]" 0 "push_bit 14 b"] by auto
  have "unat p = take_bit 8 (unat p)" using arg_cong [OF p(2), of unat] by (simp add: unsigned_take_bit_eq)
  then have q: "unat p < 256" using take_bit_nat_less_exp [of 8 "unat p"] by simp
  have "l3_slice_skx_20 (block_line b i) = Some (base_seq ! (i XOR unat p))" if i: "i < 256" for i
  proof -
    have "unat (of_nat i XOR p) = i XOR unat p" using i by (simp add: unsigned_xor_eq unat_of_nat take_bit_nat_eq_self)
    then show ?thesis
      using p(1) perm_bits_block [OF block_line_index(1) [OF i]] block_line_index(2) [OF i] xor_byte [OF q i] base_seq_length
      by (simp add: l3_slice_skx_20_def Let_def arr_simps)
  qed
  then show ?thesis using q by blast
qed

text \<open>
  C22: every block of 16 KiB is spread evenly: of its 256 lines, 13 are in each of the slices 0 to
  15 and 12 in each of the slices 16 to 19.
\<close>

theorem slices_balanced:
  "length (filter (\<lambda>i. l3_slice_skx_20 (block_line b i) = Some s) [0..<256]) = (if s < 16 then 13 else if s < 20 then 12 else 0)"
proof -
  obtain p where p: "p < 256" "\<forall>i < 256. l3_slice_skx_20 (block_line b i) = Some (base_seq ! (i XOR p))"
    using block_slices by blast
  have "filter (\<lambda>i. l3_slice_skx_20 (block_line b i) = Some s) [0..<256] = filter (\<lambda>i. base_seq ! (i XOR p) = s) [0..<256]"
    using p(2) by (intro filter_cong) auto
  also have "length \<dots> = length (filter (\<lambda>i. base_seq ! i = s) (map (\<lambda>i. i XOR p) [0..<256]))"
    by (simp add: filter_map comp_def)
  also have "\<dots> = size (filter_mset (\<lambda>i. base_seq ! i = s) (mset (map (\<lambda>i. i XOR p) [0..<256])))"
    by (metis mset_filter size_mset)
  also have "\<dots> = length (filter (\<lambda>i. base_seq ! i = s) [0..<256])"
    unfolding xor_permutes [OF p(1)] by (metis mset_filter size_mset)
  also have "\<dots> = length (filter (\<lambda>x. x = s) (map (\<lambda>i. base_seq ! i) [0..<256]))"
    by (simp add: filter_map comp_def)
  also have "map (\<lambda>i. base_seq ! i) [0..<256] = base_seq"
    using map_nth [of base_seq] base_seq_length by simp
  finally show ?thesis by (simp add: base_counts)
qed

subsection \<open>A host\<close>

definition demo_host :: "bool \<Rightarrow> host" where
  "demo_host up = \<lparr>gfn_to_hva = (\<lambda>gfn. push_bit 12 gfn), kvm_is_error_hva = (\<lambda>_. False), mm_alive = up,
     user_page = (\<lambda>_. Some \<lparr>host_pfn = 0x1234, host_mapped = True, host_huge = False, host_order = 0\<rparr>)\<rparr>"

definition demo_pagemap :: "u64 \<Rightarrow> u64 option" where
  "demo_pagemap page = Some (push_bit 63 1 OR 0x77)"

lemma demo_gfn: "gfn_of demo_pagemap va = Some 0x77"
  by (simp add: gfn_of_def demo_pagemap_def)

theorem va_to_hpa_translates_witness:
  "\<exists>hpa d'. va_to_hpa (demo_host True) (0, 0, 0) demo_pagemap 0x7f0042 gpa_open = Some (Some hpa, d')
     \<and> drop_bit 12 hpa = 0x1234 \<and> take_bit 12 hpa = 0x42"
  using va_to_hpa_translates [OF demo_gfn [of "0x7f0042"], of "demo_host True" _ "(0, 0, 0)" gpa_open] by (simp add: demo_host_def)

theorem va_to_hpa_hides_failure_witness:
  "\<exists>d'. va_to_hpa (demo_host False) (- 1000, 0, 0) demo_pagemap 0x7f0042 gpa_open = Some (Some (- 1000 OR 0x42), d')"
  using va_to_hpa_hides_failure [OF demo_gfn [of "0x7f0042"], of "demo_host False" "(- 1000, 0, 0)" gpa_open] by (simp add: demo_host_def)

end
