(* ===== verification/Prime_Probe.thy ===== *)
theory Prime_Probe
  imports Lru_Machine Helper_Thread
begin

text \<open>
  The probes of src/vset_ops.c: an eviction set is primed, others use the cache for a while, and
  the lines that are slow afterwards are counted. On the machine of theory \<open>Lru_Machine\<close>, taken as
  the last-level cache, the count is exact.

  The helper thread of a worker is running while it works. What others do during a call of
  \<open>usleep\<close> is the parameter \<open>sleep\<close>. Where a worker waits by reading the time stamp counter, the
  machine decides when it has waited long enough. The optional arrays \<open>prime_times\<close> and
  \<open>probe_times\<close> of a worker are null, and its floating point totals, which hold whole numbers of
  lines, are natural numbers.
\<close>

subsection \<open>Priming (l3_evset_prime)\<close>

fun prime_rounds :: "'m hw \<Rightarrow> globals \<Rightarrow> EvBuildConf EvSet \<Rightarrow> u64 \<Rightarrow> nat \<Rightarrow> 'm \<Rightarrow> 'm option" where
  "prime_rounds h g ev threshold 0 m = Some m"
| "prime_rounds h g ev threshold (Suc k) m = do {
     m \<leftarrow> traverse_cands_mt h g (ev_addrs ev) (ev_size ev) (build_conf ev) m;
     let (start, m) = timer_start h m;
     xs \<leftarrow> access_array (ev_addrs ev) (ev_size ev);
     let m = access_seq h xs m;
     let (stop, m) = timer_stop h m;
     if stop - start < threshold then Some m else prime_rounds h g ev threshold k m
   }"

definition l3_evset_prime :: "'m hw \<Rightarrow> globals \<Rightarrow> EvBuildConf EvSet \<Rightarrow> u64 \<Rightarrow> 'm \<Rightarrow> 'm option" where
  "l3_evset_prime h g ev threshold m = do {
     l \<leftarrow> lower_ev (build_conf ev);
     us \<leftarrow> addrs_traverse (ev_addrs l) (ev_size l) (build_conf l);
     prime_rounds h g ev threshold 10 (access_seq h us m)
   }"

text \<open>The sets of a range, flushed and primed one after the other.\<close>

fun prime_sets :: "'m hw \<Rightarrow> globals \<Rightarrow> EvBuildConf EvSet list \<Rightarrow> 'm \<Rightarrow> 'm option" where
  "prime_sets h g [] m = Some m"
| "prime_sets h g (ev # evs) m = do {
     m \<leftarrow> flush_array h (ev_addrs ev) (ev_size ev) m;
     m \<leftarrow> l3_evset_prime h g ev (l3_thresh (g_lats g)) m;
     prime_sets h g evs m
   }"

subsection \<open>Probing\<close>

text \<open>
  The latency of a line, measured again, up to \<open>n\<close> times in all, when the thread changed its
  core meanwhile or the value is not plausible (\<open>ok\<close>); also whether the last try was valid.
\<close>

fun probe_line :: "'m hw \<Rightarrow> (u64 \<Rightarrow> bool) \<Rightarrow> nat \<Rightarrow> addr \<Rightarrow> bool \<times> u64 \<Rightarrow> 'm \<Rightarrow> (bool \<times> u64) \<times> 'm" where
  "probe_line h ok 0 a r m = (r, m)"
| "probe_line h ok (Suc n) a r m =
     (let (a1, m) = rdtscp_aux h m;
          (lat, m) = time_maccess h a m;
          (a2, m) = rdtscp_aux h m
      in if a1 = a2 \<and> ok lat then ((True, lat), m) else probe_line h ok n a (False, lat) m)"

text \<open>The slow lines of a list.\<close>

fun probe_lines :: "'m hw \<Rightarrow> (u64 \<Rightarrow> bool) \<Rightarrow> nat \<Rightarrow> u64 \<Rightarrow> addr list \<Rightarrow> 'm \<Rightarrow> nat \<times> 'm" where
  "probe_lines h ok n thresh [] m = (0, m)"
| "probe_lines h ok n thresh (a # as) m =
     (let ((_, lat), m) = probe_line h ok n a (False, 0) m;
          (k, m) = probe_lines h ok n thresh as m
      in ((if lat \<ge> thresh then k + 1 else k), m))"

text \<open>A set is probed from its last line to its first.\<close>

definition probe_set :: "'m hw \<Rightarrow> (u64 \<Rightarrow> bool) \<Rightarrow> nat \<Rightarrow> u64 \<Rightarrow> EvBuildConf EvSet \<Rightarrow> 'm \<Rightarrow> (nat \<times> 'm) option" where
  "probe_set h ok n thresh ev m = do {
     xs \<leftarrow> access_array_bwd (ev_addrs ev) (ev_size ev);
     Some (probe_lines h ok n thresh xs m)
   }"

fun probe_sets :: "'m hw \<Rightarrow> (u64 \<Rightarrow> bool) \<Rightarrow> nat \<Rightarrow> u64 \<Rightarrow> EvBuildConf EvSet list \<Rightarrow> 'm \<Rightarrow> (nat list \<times> 'm) option" where
  "probe_sets h ok n thresh [] m = Some ([], m)"
| "probe_sets h ok n thresh (ev # evs) m = do {
     (k, m) \<leftarrow> probe_set h ok n thresh ev m;
     (ks, m) \<leftarrow> probe_sets h ok n thresh evs m;
     Some (k # ks, m)
   }"

subsection \<open>Colours (l2c_occ_worker)\<close>

partial_function (option) spin_until :: "'m hw \<Rightarrow> u64 \<Rightarrow> 'm \<Rightarrow> 'm option" where
  "spin_until h end_tsc m = (let (t, m) = hw_tsc h m in if t < end_tsc then spin_until h end_tsc m else Some m)"

definition wait_rest :: "'m hw \<Rightarrow> u32 \<Rightarrow> u64 \<Rightarrow> u64 \<Rightarrow> 'm \<Rightarrow> 'm option" where
  "wait_rest h wait_us cycles_per_us prime_cycles m =
     (if wait_us = 0 then Some m
      else if cycles_per_us = 0 then None
      else (let prime_time_us = ucast (prime_cycles div cycles_per_us)
            in if wait_us > prime_time_us
               then (let remaining = ucast (wait_us - prime_time_us) * cycles_per_us; (now, m) = hw_tsc h m
                     in spin_until h (now + remaining) m)
               else Some m))"

text \<open>The wait ends as soon as some reading of the counter reaches the end.\<close>

lemma spin_until_returns:
  "end_tsc \<le> fst (hw_tsc h (((snd \<circ> hw_tsc h) ^^ k) m)) \<Longrightarrow> \<exists>m'. spin_until h end_tsc m = Some m'"
proof (induction k arbitrary: m)
  case 0
  then show ?case by (subst spin_until.simps) (auto simp: split_beta Let_def not_less)
next
  case (Suc k)
  then show ?case
    by (subst spin_until.simps) (auto simp: split_beta Let_def funpow_Suc_right simp del: funpow.simps)
qed

text \<open>The sets of a colour; a null pointer among them is dereferenced.\<close>

definition color_evsets :: "EvBuildConf EvSet option list list \<Rightarrow> nat list \<Rightarrow> nat \<Rightarrow> EvBuildConf EvSet list option" where
  "color_evsets color_sets color_counts c = do {
     set_cnt \<leftarrow> arr_get color_counts c;
     if set_cnt = 0 then Some []
     else do {
       row \<leftarrow> arr_get color_sets c;
       evs \<leftarrow> arr_range row 0 set_cnt;
       those evs
     }
   }"

fun prime_colors :: "'m hw \<Rightarrow> globals \<Rightarrow> EvBuildConf EvSet option list list \<Rightarrow> nat list \<Rightarrow> nat list \<Rightarrow> 'm \<Rightarrow> 'm option" where
  "prime_colors h g color_sets color_counts [] m = Some m"
| "prime_colors h g color_sets color_counts (c # cs) m = do {
     evs \<leftarrow> color_evsets color_sets color_counts c;
     m \<leftarrow> prime_sets h g evs m;
     prime_colors h g color_sets color_counts cs m
   }"

text \<open>The numbers of evicted lines go to column \<open>it\<close> of \<open>tot_avg\<close>; a colour without sets keeps its entry.\<close>

fun probe_colors ::
    "'m hw \<Rightarrow> globals \<Rightarrow> EvBuildConf EvSet option list list \<Rightarrow> nat list \<Rightarrow> nat \<Rightarrow> nat list \<Rightarrow> nat list list \<Rightarrow> 'm
       \<Rightarrow> (nat list list \<times> 'm) option" where
  "probe_colors h g color_sets color_counts it [] tot_avg m = Some (tot_avg, m)"
| "probe_colors h g color_sets color_counts it (c # cs) tot_avg m = do {
     evs \<leftarrow> color_evsets color_sets color_counts c;
     if evs = [] then probe_colors h g color_sets color_counts it cs tot_avg m
     else do {
       (ks, m) \<leftarrow> probe_sets h (\<lambda>lat. lat < interrupt_thresh (g_lats g)) 3 (l3_thresh (g_lats g)) evs (snd (hw_tsc h m));
       row \<leftarrow> arr_get tot_avg c;
       row \<leftarrow> arr_set row it (sum_list ks);
       probe_colors h g color_sets color_counts it cs (tot_avg[c := row]) (snd (hw_tsc h m))
     }
   }"

fun occ_iterations ::
    "'m hw \<Rightarrow> globals \<Rightarrow> (u32 \<Rightarrow> 'm \<Rightarrow> 'm) \<Rightarrow> u32 \<Rightarrow> u32 \<Rightarrow> u64 \<Rightarrow> EvBuildConf EvSet option list list \<Rightarrow> nat list \<Rightarrow> nat list
       \<Rightarrow> nat list \<Rightarrow> nat list list \<Rightarrow> 'm \<Rightarrow> (nat list list \<times> 'm) option" where
  "occ_iterations h g sleep scan_period_ms wait_us cycles_per_us color_sets color_counts colors [] tot_avg m = Some (tot_avg, m)"
| "occ_iterations h g sleep scan_period_ms wait_us cycles_per_us color_sets color_counts colors (it # its) tot_avg m = do {
     let (prime_begin_tsc, m) = hw_tsc h m;
     m \<leftarrow> prime_colors h g color_sets color_counts colors m;
     let (prime_end_tsc, m) = hw_tsc h m;
     m \<leftarrow> wait_rest h wait_us cycles_per_us (prime_end_tsc - prime_begin_tsc) m;
     (tot_avg, m) \<leftarrow> probe_colors h g color_sets color_counts it colors tot_avg m;
     let m = (if scan_period_ms \<noteq> 0 \<and> its \<noteq> [] then sleep (scan_period_ms * 1000) m else m);
     occ_iterations h g sleep scan_period_ms wait_us cycles_per_us color_sets color_counts colors its tot_avg m
   }"

record l2c_occ_worker_arg =
  w_wait_us :: u32
  w_cycles_per_us :: u64
  w_iterations :: nat
  w_start_color :: nat
  w_num_colors :: nat

definition l2c_occ_worker ::
    "'m hw \<Rightarrow> globals \<Rightarrow> (u32 \<Rightarrow> 'm \<Rightarrow> 'm) \<Rightarrow> u32 \<Rightarrow> l2c_occ_worker_arg \<Rightarrow> EvBuildConf EvSet option list list \<Rightarrow> nat list
       \<Rightarrow> nat list list \<Rightarrow> 'm \<Rightarrow> ((EvBuildConf EvSet option list list \<times> nat list list) \<times> 'm) option" where
  "l2c_occ_worker h g sleep scan_period_ms w color_sets color_counts tot_avg m = do {
     color_sets \<leftarrow> attach_helper_to_evsets color_sets color_counts (w_start_color w) (w_num_colors w) True;
     (tot_avg, m) \<leftarrow> occ_iterations h g sleep scan_period_ms (w_wait_us w) (w_cycles_per_us w) color_sets color_counts
       [w_start_color w..<w_start_color w + w_num_colors w] [0..<w_iterations w] tot_avg m;
     Some ((color_sets, tot_avg), m)
   }"

subsection \<open>Heat maps (heatmap_worker)\<close>

text \<open>How often each number of evicted lines was seen, and the sum.\<close>

fun heat_counts :: "nat \<Rightarrow> nat list \<Rightarrow> nat list \<Rightarrow> nat \<Rightarrow> (nat list \<times> nat) option" where
  "heat_counts ways [] counts tot = Some (counts, tot)"
| "heat_counts ways (k # ks) counts tot =
     (if k \<le> ways then do {
        n \<leftarrow> arr_get counts k;
        counts \<leftarrow> arr_set counts k (n + 1);
        heat_counts ways ks counts (tot + k)
      } else heat_counts ways ks counts tot)"

definition heatmap_worker ::
    "'m hw \<Rightarrow> globals \<Rightarrow> (u32 \<Rightarrow> 'm \<Rightarrow> 'm) \<Rightarrow> u32 \<Rightarrow> u64 \<Rightarrow> nat \<Rightarrow> nat \<Rightarrow> EvBuildConf EvSet option list \<Rightarrow> nat list \<Rightarrow> nat \<Rightarrow> 'm
       \<Rightarrow> ((nat list \<times> nat) \<times> 'm) option" where
  "heatmap_worker h g sleep wait_us cycles_per_us retries ways sets counts tot m = do {
     evs \<leftarrow> those (map (attach_set True) sets);
     let (prime_begin, m) = hw_tsc h m;
     m \<leftarrow> prime_sets h g evs m;
     let (prime_end, m) = hw_tsc h m;
     m \<leftarrow> (if wait_us = 0 then Some m
           else if cycles_per_us = 0 then None
           else (let prime_us = ucast ((prime_end - prime_begin) div cycles_per_us)
                 in Some (if wait_us > prime_us then sleep (wait_us - prime_us) m else m)));
     (ks, m) \<leftarrow> probe_sets h (\<lambda>_. True) retries (l3_thresh (g_lats g)) evs m;
     (counts, tot) \<leftarrow> heat_counts ways ks counts tot;
     Some ((counts, tot), m)
   }"

subsection \<open>One set of the cache\<close>

lemma fold_push_distinct_eq: "distinct ls \<Longrightarrow> fold push ls xs = rev ls @ filter (\<lambda>x. x \<notin> set ls) xs"
proof (induction ls arbitrary: xs)
  case (Cons l ls)
  then have "filter (\<lambda>x. x \<notin> set ls) (push l xs) = l # filter (\<lambda>x. x \<notin> set (l # ls)) xs"
    by (auto simp: push_def removeAll_filter_not_eq filter_filter intro: filter_cong)
  then show ?case using Cons by simp
qed simp

text \<open>Reading as many lines as there are ways replaces the whole set.\<close>

lemma fill_stack:
  assumes "distinct ls" "length ls = w" "0 < w" "distinct xs" "length xs \<le> w"
  shows "fold (lru_touch w) ls xs = rev ls"
  using fold_touch_take [OF assms(4,3), of ls] fold_push_distinct_eq [OF assms(1), of xs] assms by simp

text \<open>After \<open>k\<close> other lines the probe from the back misses exactly the first \<open>k\<close> lines.\<close>

lemma displaced_line:
  assumes "distinct ps" "length ps = w" "j < w" "set ls \<inter> set ps = {}"
  shows "ps ! j \<in> set (fold (lru_touch w) (rev (drop (Suc j) ps)) (fold (lru_touch w) ls (rev ps))) \<longleftrightarrow> card (set ls) \<le> j"
proof -
  let ?d = "drop (Suc j) ps" and ?t = "ps ! j" and ?r = "rev (take j ps)"
  have ps: "ps = take j ps @ ?t # ?d" using assms(2,3) id_take_nth_drop [of j ps] by simp
  have dist: "distinct (take j ps @ ?t # ?d)" using assms(1) ps by simp
  then have t: "distinct (?t # ?r)" "?t \<notin> set ?d" "distinct ?d" "set ?d \<inter> set ?r = {}" by auto
  have "filter (\<lambda>x. x \<notin> set ?d) (?t # ?r) = ?t # ?r" using t(2,4) by (auto intro!: filter_True)
  moreover have "rev ?d @ ?t # ?r = rev ps" by (subst (4) ps) simp
  ultimately have start: "rev ps = fold (lru_touch w) ?d (take w (?t # ?r))"
    using fold_touch_take [OF t(1), of w ?d] fold_push_distinct_eq [OF t(3), of "?t # ?r"] assms(2,3) by simp
  have no: "?t \<notin> set (?d @ ls @ rev ?d)" using t(2) assms(2-4) by auto
  have "card (set (?d @ ls @ rev ?d)) = (w - Suc j) + card (set ls)"
  proof -
    have "set (?d @ ls @ rev ?d) = set ?d \<union> set ls" by auto
    moreover have "set ?d \<inter> set ls = {}" using assms(4) set_drop_subset [of "Suc j" ps] by blast
    ultimately show ?thesis using t(3) assms(2) by (simp add: card_Un_disjoint distinct_card)
  qed
  then show ?thesis
    using lru_evicted [OF no _ t(1), of w] start assms(2,3) by (simp add: fold_append) linarith
qed

fun stack_misses :: "nat \<Rightarrow> nat list \<Rightarrow> nat list \<Rightarrow> nat" where
  "stack_misses w [] xs = 0"
| "stack_misses w (l # ls) xs = (if l \<in> set xs then 0 else 1) + stack_misses w ls (lru_touch w l xs)"

lemma stack_misses_rev:
  "stack_misses w (rev ps) xs =
     length (filter (\<lambda>j. ps ! j \<notin> set (fold (lru_touch w) (rev (drop (Suc j) ps)) xs)) [0..<length ps])"
proof (induction ps arbitrary: xs rule: rev_induct)
  case (snoc p ps)
  have "filter (\<lambda>j. (ps @ [p]) ! j \<notin> set (fold (lru_touch w) (rev (drop (Suc j) (ps @ [p]))) xs)) [0..<length ps]
      = filter (\<lambda>j. ps ! j \<notin> set (fold (lru_touch w) (rev (drop (Suc j) ps)) (lru_touch w p xs))) [0..<length ps]"
    by (intro filter_cong) (auto simp: nth_append)
  then show ?case using snoc [of "lru_touch w p xs"] by simp
qed simp

lemma filter_below: "length (filter (\<lambda>j. j < k) [0..<w]) = min w k"
  by (induction w) auto

lemma probe_stack:
  assumes "distinct ps" "length ps = w" "set ls \<inter> set ps = {}"
  shows "stack_misses w (rev ps) (fold (lru_touch w) ls (rev ps)) = min w (card (set ls))"
proof -
  have "filter (\<lambda>j. ps ! j \<notin> set (fold (lru_touch w) (rev (drop (Suc j) ps)) (fold (lru_touch w) ls (rev ps)))) [0..<w]
      = filter (\<lambda>j. j < card (set ls)) [0..<w]"
    using displaced_line [OF assms(1,2) _ assms(3)] by (intro filter_cong) (auto simp: not_le)
  then show ?thesis
    using stack_misses_rev [of w ps] assms(2) by (simp add: filter_below)
qed

subsection \<open>Priming on the machine\<close>

text \<open>\<open>m'\<close> comes from \<open>m\<close> by reading addresses of \<open>A\<close>, as far as the contents of the cache go.\<close>

definition reads :: "lru_cfg \<Rightarrow> addr set \<Rightarrow> lru_state \<Rightarrow> lru_state \<Rightarrow> bool" where
  "reads cfg A m m' \<longleftrightarrow> (\<exists>xs. set xs \<subseteq> A \<and> m' = fold (lru_read cfg) xs m)"

lemma reads_refl: "reads cfg A m m"
  unfolding reads_def by (rule exI [of _ "[]"]) simp

lemma reads_trans: "reads cfg A m m1 \<Longrightarrow> reads cfg A m1 m2 \<Longrightarrow> reads cfg A m m2"
  unfolding reads_def by (metis fold_append comp_apply set_append Un_least)

lemma reads_list: "set xs \<subseteq> A \<Longrightarrow> reads cfg A m (fold (lru_read cfg) xs m)"
  unfolding reads_def by blast

lemma reads_inv: "reads cfg A m m' \<Longrightarrow> lru_inv cfg m \<Longrightarrow> lru_inv cfg m'"
  unfolding reads_def using lru_reads_inv by blast

lemma reads_quiet: "reads cfg A m m' \<Longrightarrow> s \<notin> lru_set cfg ` A \<Longrightarrow> lru_sets m' s = lru_sets m s"
proof -
  assume "reads cfg A m m'" "s \<notin> lru_set cfg ` A"
  then obtain xs where xs: "set xs \<subseteq> A" "m' = fold (lru_read cfg) xs m" by (auto simp: reads_def)
  then have "filter (\<lambda>a. lru_set cfg a = s) xs = []"
    using \<open>s \<notin> lru_set cfg ` A\<close> by (auto simp: filter_empty_conv)
  then show ?thesis using xs(2) by (simp add: lru_read_sets)
qed

text \<open>The lines of a set and of the set of the level below.\<close>

definition ev_lines :: "EvBuildConf EvSet \<Rightarrow> addr list" where
  "ev_lines ev = take (ev_size ev) (ev_addrs ev)"

definition lower_lines :: "EvBuildConf EvSet \<Rightarrow> addr list" where
  "lower_lines ev = (case lower_ev (build_conf ev) of None \<Rightarrow> [] | Some l \<Rightarrow> take (ev_size l) (ev_addrs l))"

text \<open>A full eviction set of set \<open>s\<close> of the cache, with a helper and a set of the level below.\<close>

definition watched :: "lru_cfg \<Rightarrow> nat \<Rightarrow> EvBuildConf EvSet \<Rightarrow> bool" where
  "watched cfg s ev \<longleftrightarrow> ev_size ev = lru_ways cfg \<and> ev_size ev \<le> length (ev_addrs ev)
     \<and> (\<forall>a \<in> set (ev_lines ev). lru_set cfg a = s) \<and> distinct (map (lru_line cfg) (ev_lines ev))
     \<and> hctrl (build_conf ev) \<and> 0 < stride (build_conf ev)
     \<and> (\<exists>l. lower_ev (build_conf ev) = Some l \<and> ev_size l \<le> length (ev_addrs l))"

lemma traverse_reads:
  assumes "watched cfg s ev"
  shows "\<exists>m'. traverse_cands_mt (lru_hw cfg) g (ev_addrs ev) (ev_size ev) (build_conf ev) m = Some m'
    \<and> reads cfg (set (ev_lines ev) \<union> set (lower_lines ev)) m m'"
proof -
  obtain l where l: "lower_ev (build_conf ev) = Some l" "ev_size l \<le> length (ev_addrs l)" using assms by (auto simp: watched_def)
  obtain xs where xs: "prime_cands_daniel (ev_addrs ev) (ev_size ev) (ev_repeat (build_conf ev)) (stride (build_conf ev)) (block (build_conf ev)) = Some xs"
      "set xs \<subseteq> set (ev_lines ev)"
    using prime_cands_daniel_returns [of "ev_size ev" "ev_addrs ev" "stride (build_conf ev)" "ev_repeat (build_conf ev)" "block (build_conf ev)"] assms
    by (auto simp: watched_def ev_lines_def)
  define ys where "ys = (if ev_size ev < unat (n_ways (l2_info g))
      then concat (replicate (ev_repeat (build_conf l)) (rev (take (ev_size l) (ev_addrs l)))) @ rev (ev_lines ev) else [])"
  have "traverse_cands_mt (lru_hw cfg) g (ev_addrs ev) (ev_size ev) (build_conf ev) m = Some (fold (lru_read cfg) (xs @ ys) m)"
    using xs(1) l assms by (auto simp: traverse_cands_mt_def watched_def lru_hw_def ys_def ev_lines_def arr_simps)
  moreover have "set (xs @ ys) \<subseteq> set (ev_lines ev) \<union> set (lower_lines ev)"
    using xs(2) l(1) by (auto simp: ys_def lower_lines_def split: if_splits)
  ultimately show ?thesis using reads_list by blast
qed

lemma lines_fill:
  assumes "watched cfg s ev" "lru_inv cfg m" "0 < lru_ways cfg"
  shows "lru_sets (fold (lru_read cfg) (ev_lines ev) m) s = rev (map (lru_line cfg) (ev_lines ev))"
proof -
  have "filter (\<lambda>a. lru_set cfg a = s) (ev_lines ev) = ev_lines ev" using assms(1) by (simp add: watched_def)
  moreover have "length (ev_lines ev) = lru_ways cfg" using assms(1) by (simp add: watched_def ev_lines_def)
  ultimately show ?thesis
    using assms by (simp add: lru_read_sets fill_stack watched_def lru_inv_def)
qed

lemma prime_round:
  assumes "watched cfg s ev" "lru_inv cfg m" "0 < lru_ways cfg"
  shows "\<exists>m'. prime_rounds (lru_hw cfg) g ev thr (Suc k) m \<in> {Some m', prime_rounds (lru_hw cfg) g ev thr k m'}
    \<and> reads cfg (set (ev_lines ev) \<union> set (lower_lines ev)) m m' \<and> lru_sets m' s = rev (map (lru_line cfg) (ev_lines ev))"
proof -
  obtain m1 where m1: "traverse_cands_mt (lru_hw cfg) g (ev_addrs ev) (ev_size ev) (build_conf ev) m = Some m1"
      "reads cfg (set (ev_lines ev) \<union> set (lower_lines ev)) m m1"
    using traverse_reads [OF assms(1)] by blast
  let ?m = "fold (lru_read cfg) (ev_lines ev) m1"
  have "prime_rounds (lru_hw cfg) g ev thr (Suc k) m =
      (if lru_clock ?m - lru_clock m1 < thr then Some ?m else prime_rounds (lru_hw cfg) g ev thr k ?m)"
    using m1(1) assms(1)
    by (simp add: watched_def ev_lines_def arr_simps access_seq_lru timer_start_def timer_stop_def) (simp add: lru_hw_def)
  moreover have "reads cfg (set (ev_lines ev) \<union> set (lower_lines ev)) m ?m"
    by (rule reads_trans [OF m1(2)]) (auto intro: reads_list)
  moreover have "lru_sets ?m s = rev (map (lru_line cfg) (ev_lines ev))"
    by (rule lines_fill [OF assms(1) reads_inv [OF m1(2) assms(2)] assms(3)])
  ultimately show ?thesis by (intro exI [of _ ?m]) simp
qed

lemma prime_rounds_reads:
  assumes "watched cfg s ev" "lru_inv cfg m" "0 < lru_ways cfg"
  shows "\<exists>m'. prime_rounds (lru_hw cfg) g ev thr (Suc k) m = Some m' \<and> reads cfg (set (ev_lines ev) \<union> set (lower_lines ev)) m m'
    \<and> lru_sets m' s = rev (map (lru_line cfg) (ev_lines ev))"
  using assms(2)
proof (induction k arbitrary: m)
  case 0
  then show ?case using prime_round [OF assms(1) _ assms(3), of m g thr 0] by auto
next
  case (Suc k)
  obtain m1 where m1: "prime_rounds (lru_hw cfg) g ev thr (Suc (Suc k)) m \<in> {Some m1, prime_rounds (lru_hw cfg) g ev thr (Suc k) m1}"
      "reads cfg (set (ev_lines ev) \<union> set (lower_lines ev)) m m1" "lru_sets m1 s = rev (map (lru_line cfg) (ev_lines ev))"
    using prime_round [OF assms(1) Suc.prems assms(3), of g thr "Suc k"] by blast
  obtain m2 where "prime_rounds (lru_hw cfg) g ev thr (Suc k) m1 = Some m2" "reads cfg (set (ev_lines ev) \<union> set (lower_lines ev)) m1 m2"
      "lru_sets m2 s = rev (map (lru_line cfg) (ev_lines ev))"
    using Suc.IH [OF reads_inv [OF m1(2) Suc.prems]] by blast
  then show ?case using m1 reads_trans [OF m1(2)] by fastforce
qed

lemma evset_prime_reads:
  assumes "watched cfg s ev" "lru_inv cfg m" "0 < lru_ways cfg"
  shows "\<exists>m'. l3_evset_prime (lru_hw cfg) g ev thr m = Some m' \<and> reads cfg (set (ev_lines ev) \<union> set (lower_lines ev)) m m'
    \<and> lru_sets m' s = rev (map (lru_line cfg) (ev_lines ev))"
proof -
  obtain l where l: "lower_ev (build_conf ev) = Some l" "ev_size l \<le> length (ev_addrs l)" using assms(1) by (auto simp: watched_def)
  let ?us = "concat (replicate (ev_repeat (build_conf l)) (rev (take (ev_size l) (ev_addrs l))))"
  have r: "reads cfg (set (ev_lines ev) \<union> set (lower_lines ev)) m (fold (lru_read cfg) ?us m)"
    using l(1) by (intro reads_list) (auto simp: lower_lines_def)
  obtain m' where "prime_rounds (lru_hw cfg) g ev thr (Suc 9) (fold (lru_read cfg) ?us m) = Some m'"
      "reads cfg (set (ev_lines ev) \<union> set (lower_lines ev)) (fold (lru_read cfg) ?us m) m'" "lru_sets m' s = rev (map (lru_line cfg) (ev_lines ev))"
    using prime_rounds_reads [OF assms(1) reads_inv [OF r assms(2)] assms(3)] by blast
  then show ?thesis
    using l reads_trans [OF r] by (auto simp: l3_evset_prime_def arr_simps access_seq_lru)
qed

text \<open>Sets of a list that do not disturb each other.\<close>

definition apart :: "lru_cfg \<Rightarrow> (nat \<times> EvBuildConf EvSet) list \<Rightarrow> bool" where
  "apart cfg ws \<longleftrightarrow> distinct (map fst ws) \<and> (\<forall>(s, ev) \<in> set ws. watched cfg s ev \<and> fst ` set ws \<inter> lru_set cfg ` set (lower_lines ev) = {})"

lemma flush_quiet: "lru_set cfg a \<noteq> s \<Longrightarrow> lru_sets (lru_flush cfg a m) s = lru_sets m s"
  by (simp add: lru_flush_def)

lemma flushes:
  "lru_inv cfg m \<Longrightarrow> lru_inv cfg (fold (lru_flush cfg) xs m)"
  "s \<notin> lru_set cfg ` set xs \<Longrightarrow> lru_sets (fold (lru_flush cfg) xs m) s = lru_sets m s"
  by (induction xs arbitrary: m) (auto simp: lru_flush_inv flush_quiet)

text \<open>What priming one set after the other does to the sets of a list and to all others.\<close>

lemma prime_sets_fill:
  assumes "\<forall>(s, ev) \<in> set ws. watched cfg s ev \<and> T \<inter> lru_set cfg ` set (lower_lines ev) = {}" "distinct (map fst ws)" "fst ` set ws \<subseteq> T"
    "lru_inv cfg m" "0 < lru_ways cfg"
  shows "\<exists>m'. prime_sets (lru_hw cfg) g (map snd ws) m = Some m' \<and> lru_inv cfg m'
    \<and> (\<forall>(s, ev) \<in> set ws. lru_sets m' s = rev (map (lru_line cfg) (ev_lines ev)))
    \<and> (\<forall>s \<in> T - fst ` set ws. lru_sets m' s = lru_sets m s)"
  using assms(1-4)
proof (induction ws arbitrary: m)
  case (Cons w ws)
  obtain s ev where w: "w = (s, ev)" by (cases w)
  have ev: "watched cfg s ev" "T \<inter> lru_set cfg ` set (lower_lines ev) = {}" "s \<notin> fst ` set ws" "s \<in> T" using Cons.prems w by auto
  have lines: "lru_set cfg ` set (ev_lines ev) \<subseteq> {s}" using ev(1) by (auto simp: watched_def)
  let ?m = "fold (lru_flush cfg) (ev_lines ev) m"
  have fl: "flush_array (lru_hw cfg) (ev_addrs ev) (ev_size ev) m = Some ?m"
    using ev(1) by (simp add: flush_array_def watched_def ev_lines_def arr_simps lru_hw_ops(2))
  obtain m1 where m1: "l3_evset_prime (lru_hw cfg) g ev (l3_thresh (g_lats g)) ?m = Some m1"
      "reads cfg (set (ev_lines ev) \<union> set (lower_lines ev)) ?m m1" "lru_sets m1 s = rev (map (lru_line cfg) (ev_lines ev))"
    using evset_prime_reads [OF ev(1) flushes(1) [OF Cons.prems(4)] assms(5)] by blast
  have quiet: "lru_sets m1 s' = lru_sets m s'" if "s' \<in> T" "s' \<noteq> s" for s'
  proof -
    have "s' \<notin> lru_set cfg ` set (ev_lines ev)" "s' \<notin> lru_set cfg ` set (lower_lines ev)" using that ev(2) lines by blast+
    then show ?thesis using reads_quiet [OF m1(2), of s'] flushes(2) [of s' cfg "ev_lines ev" m] by (simp add: image_Un)
  qed
  obtain m' where m': "prime_sets (lru_hw cfg) g (map snd ws) m1 = Some m'" "lru_inv cfg m'"
      "\<forall>(s, ev) \<in> set ws. lru_sets m' s = rev (map (lru_line cfg) (ev_lines ev))"
      "\<forall>s \<in> T - fst ` set ws. lru_sets m' s = lru_sets m1 s"
    using Cons.IH [of m1] Cons.prems(1-3) reads_inv [OF m1(2) flushes(1) [OF Cons.prems(4)]] by auto
  show ?case
    using fl m1(1,3) m' quiet w ev(3,4) by auto
qed simp

subsection \<open>Probing on the machine\<close>

text \<open>Latencies that the threshold tells apart and that a probe accepts.\<close>

definition told_apart :: "lru_cfg \<Rightarrow> (u64 \<Rightarrow> bool) \<Rightarrow> u64 \<Rightarrow> bool" where
  "told_apart cfg ok thresh \<longleftrightarrow> lru_hit cfg < thresh \<and> thresh \<le> lru_miss cfg \<and> ok (lru_hit cfg) \<and> ok (lru_miss cfg)"

lemma probe_lines_lru:
  assumes "told_apart cfg ok thresh" "0 < n" "\<forall>a \<in> set as. lru_set cfg a = s"
  shows "probe_lines (lru_hw cfg) ok n thresh as m =
    (stack_misses (lru_ways cfg) (map (lru_line cfg) as) (lru_sets m s), fold (lru_read cfg) as m)"
  using assms(3)
proof (induction as arbitrary: m)
  case (Cons a as)
  let ?lat = "if lru_line cfg a \<in> set (lru_sets m s) then lru_hit cfg else lru_miss cfg"
  have "probe_line (lru_hw cfg) ok n a (False, 0) m = ((True, ?lat), lru_read cfg a m)"
    using assms(1,2) Cons.prems by (cases n) (auto simp: lru_hw_ops time_maccess_lru told_apart_def)
  moreover have "lru_sets (lru_read cfg a m) s = lru_touch (lru_ways cfg) (lru_line cfg a) (lru_sets m s)"
    using Cons.prems by (simp add: lru_read_def Let_def)
  moreover have "thresh \<le> ?lat \<longleftrightarrow> lru_line cfg a \<notin> set (lru_sets m s)"
    using assms(1) by (auto simp: told_apart_def not_le)
  ultimately show ?case using Cons by simp
qed simp

definition displaced :: "lru_cfg \<Rightarrow> addr list \<Rightarrow> nat \<Rightarrow> nat" where
  "displaced cfg traffic s = min (lru_ways cfg) (card (lru_line cfg ` {a \<in> set traffic. lru_set cfg a = s}))"

lemma probe_set_lru:
  assumes "told_apart cfg ok thresh" "0 < n" "watched cfg s ev"
    and "lru_sets m s = fold (lru_touch (lru_ways cfg)) (map (lru_line cfg) (filter (\<lambda>a. lru_set cfg a = s) traffic)) (rev (map (lru_line cfg) (ev_lines ev)))"
    and "lru_line cfg ` set traffic \<inter> lru_line cfg ` set (ev_lines ev) = {}"
  shows "probe_set (lru_hw cfg) ok n thresh ev m = Some (displaced cfg traffic s, fold (lru_read cfg) (rev (ev_lines ev)) m)"
proof -
  let ?ls = "map (lru_line cfg) (filter (\<lambda>a. lru_set cfg a = s) traffic)" and ?ps = "map (lru_line cfg) (ev_lines ev)"
  have ev: "access_array_bwd (ev_addrs ev) (ev_size ev) = Some (rev (ev_lines ev))" "\<forall>a \<in> set (rev (ev_lines ev)). lru_set cfg a = s"
      "distinct ?ps" "length ?ps = lru_ways cfg"
    using assms(3) by (auto simp: watched_def ev_lines_def arr_simps)
  have "set ?ls \<inter> set ?ps = {}" using assms(5) by auto
  then have "stack_misses (lru_ways cfg) (rev ?ps) (lru_sets m s) = min (lru_ways cfg) (card (set ?ls))"
    using probe_stack [OF ev(3,4)] assms(4) by simp
  moreover have "set ?ls = lru_line cfg ` {a \<in> set traffic. lru_set cfg a = s}" by auto
  ultimately show ?thesis
    using ev(1) probe_lines_lru [OF assms(1,2) ev(2), of m] by (simp add: probe_set_def displaced_def rev_map)
qed

lemma probe_sets_lru:
  assumes "told_apart cfg ok thresh" "0 < n" "\<forall>(s, ev) \<in> set ws. watched cfg s ev" "distinct (map fst ws)"
    and "\<forall>(s, ev) \<in> set ws. lru_sets m s = fold (lru_touch (lru_ways cfg)) (map (lru_line cfg) (filter (\<lambda>a. lru_set cfg a = s) traffic)) (rev (map (lru_line cfg) (ev_lines ev)))"
    and "\<forall>(s, ev) \<in> set ws. lru_line cfg ` set traffic \<inter> lru_line cfg ` set (ev_lines ev) = {}"
  shows "\<exists>m'. probe_sets (lru_hw cfg) ok n thresh (map snd ws) m = Some (map (\<lambda>(s, _). displaced cfg traffic s) ws, m')
    \<and> (\<forall>s. s \<notin> fst ` set ws \<longrightarrow> lru_sets m' s = lru_sets m s)"
  using assms(3-6)
proof (induction ws arbitrary: m)
  case (Cons w ws)
  obtain s ev where w: "w = (s, ev)" by (cases w)
  let ?m = "fold (lru_read cfg) (rev (ev_lines ev)) m"
  have "probe_set (lru_hw cfg) ok n thresh ev m = Some (displaced cfg traffic s, ?m)"
    using Cons.prems w by (intro probe_set_lru [OF assms(1,2)]) auto
  moreover have "lru_sets ?m s' = lru_sets m s'" if "s' \<in> fst ` set ws" for s'
  proof (rule reads_quiet [OF reads_list [OF subset_refl]])
    show "s' \<notin> lru_set cfg ` set (rev (ev_lines ev))" using that Cons.prems w by (auto simp: watched_def)
  qed
  then have same: "lru_sets ?m (fst x) = lru_sets m (fst x)" if "x \<in> set ws" for x using that by simp
  have "\<forall>(s, ev) \<in> set ws. lru_sets ?m s =
      fold (lru_touch (lru_ways cfg)) (map (lru_line cfg) (filter (\<lambda>a. lru_set cfg a = s) traffic)) (rev (map (lru_line cfg) (ev_lines ev)))"
  proof (rule ballI)
    fix x assume x: "x \<in> set ws"
    obtain t e where te: "x = (t, e)" by (cases x)
    show "case x of (s, ev) \<Rightarrow> lru_sets ?m s =
      fold (lru_touch (lru_ways cfg)) (map (lru_line cfg) (filter (\<lambda>a. lru_set cfg a = s) traffic)) (rev (map (lru_line cfg) (ev_lines ev)))"
      using same [OF x] bspec [OF Cons.prems(3), of x] x by (simp add: te)
  qed
  then obtain m' where m': "probe_sets (lru_hw cfg) ok n thresh (map snd ws) ?m = Some (map (\<lambda>(s, _). displaced cfg traffic s) ws, m')"
      "\<forall>s. s \<notin> fst ` set ws \<longrightarrow> lru_sets m' s = lru_sets ?m s"
    using Cons.IH [of ?m] Cons.prems(1,2,4) by auto
  moreover have "lru_sets ?m s' = lru_sets m s'" if "s' \<noteq> s" for s'
  proof (rule reads_quiet [OF reads_list [OF subset_refl]])
    show "s' \<notin> lru_set cfg ` set (rev (ev_lines ev))" using that Cons.prems(1) w by (auto simp: watched_def)
  qed
  ultimately show ?case using w by simp
qed simp

lemma heat_counts_sum:
  assumes "\<forall>k \<in> set ks. k \<le> ways" "length counts = ways + 1"
  shows "heat_counts ways ks counts tot = Some (map (\<lambda>k. counts ! k + count_list ks k) [0..<ways + 1], tot + sum_list ks)"
  using assms
proof (induction ks arbitrary: counts tot)
  case Nil
  then have "map ((!) counts) [0..<ways + 1] = counts" using map_nth [of counts] by simp
  then show ?case by simp
next
  case (Cons k ks)
  have "map (\<lambda>j. counts[k := counts ! k + 1] ! j + count_list ks j) [0..<ways + 1] = map (\<lambda>j. counts ! j + count_list (k # ks) j) [0..<ways + 1]"
    using Cons.prems by (intro map_cong) (auto simp: nth_list_update)
  then show ?case using Cons.IH [of "counts[k := counts ! k + 1]" "tot + k"] Cons.prems by (simp add: arr_simps)
qed

subsection \<open>The monitors are exact\<close>

definition attached :: "EvBuildConf EvSet \<Rightarrow> EvBuildConf EvSet" where
  "attached ev = the (attach_set True (Some ev))"

lemma attached_lines: "ev_lines (attached ev) = ev_lines ev"
  by (simp add: attached_def attach_set_def ev_lines_def)

lemma those_attached: "those (map (attach_set True) (map Some evs)) = Some (map attached evs)"
  by (induction evs) (auto simp: attached_def attach_set_def)

lemma traffic_fills:
  "lru_sets m s = rev ps \<Longrightarrow>
     lru_sets (fold (lru_read cfg) traffic m) s = fold (lru_touch (lru_ways cfg)) (map (lru_line cfg) (filter (\<lambda>a. lru_set cfg a = s) traffic)) (rev ps)"
  by (simp add: lru_read_sets)

text \<open>
  C15: a worker of the heat map counts, for every set that it watches, exactly the lines that the
  traffic of others during its wait has displaced: one for each different line of the traffic
  in that set, up to the number of ways.
\<close>

theorem heatmap_worker_exact:
  assumes "told_apart cfg (\<lambda>_. True) (l3_thresh (g_lats g))" "0 < lru_ways cfg" "0 < retries" "lru_inv cfg m"
    and "apart cfg (map (\<lambda>(s, ev). (s, attached ev)) ws)" "length counts = lru_ways cfg + 1" "cycles_per_us \<noteq> 0"
    and "prime_sets (lru_hw cfg) g (map (attached \<circ> snd) ws) m = Some m1"
      "ucast ((lru_clock m1 - lru_clock m) div cycles_per_us) < wait_us"
    and "\<forall>(s, ev) \<in> set ws. lru_line cfg ` set traffic \<inter> lru_line cfg ` set (ev_lines ev) = {}"
  shows "\<exists>m'. heatmap_worker (lru_hw cfg) g (\<lambda>_. fold (lru_read cfg) traffic) wait_us cycles_per_us retries (lru_ways cfg)
      (map (Some \<circ> snd) ws) counts tot m =
    Some ((map (\<lambda>k. counts ! k + count_list (map (displaced cfg traffic \<circ> fst) ws) k) [0..<lru_ways cfg + 1],
      tot + sum_list (map (displaced cfg traffic \<circ> fst) ws)), m')"
proof -
  let ?ws = "map (\<lambda>(s, ev). (s, attached ev)) ws" and ?ds = "map (displaced cfg traffic \<circ> fst) ws"
  have evs: "map snd ?ws = map (attached \<circ> snd) ws" "map fst ?ws = map fst ws" "map (\<lambda>(s, _). displaced cfg traffic s) ?ws = ?ds"
    by (auto simp: comp_def split_beta)
  have ap: "\<forall>(s, ev) \<in> set ?ws. watched cfg s ev \<and> fst ` set ?ws \<inter> lru_set cfg ` set (lower_lines ev) = {}" "distinct (map fst ?ws)"
    using conjunct2 [OF assms(5) [unfolded apart_def]] conjunct1 [OF assms(5) [unfolded apart_def]] .
  have full: "\<forall>(s, ev) \<in> set ?ws. lru_sets m1 s = rev (map (lru_line cfg) (ev_lines ev))"
    using prime_sets_fill [OF ap subset_refl assms(4,2), of g] assms(8) unfolding evs(1) by auto
  let ?m = "fold (lru_read cfg) traffic m1"
  have "\<forall>(s, ev) \<in> set ?ws. lru_sets ?m s =
      fold (lru_touch (lru_ways cfg)) (map (lru_line cfg) (filter (\<lambda>a. lru_set cfg a = s) traffic)) (rev (map (lru_line cfg) (ev_lines ev)))"
    using full by (auto simp: traffic_fills)
  moreover have "\<forall>(s, ev) \<in> set ?ws. lru_line cfg ` set traffic \<inter> lru_line cfg ` set (ev_lines ev) = {}"
    using assms(10) by (simp add: attached_lines split_beta)
  moreover have "\<forall>(s, ev) \<in> set ?ws. watched cfg s ev" using ap(1) by blast
  ultimately obtain m' where p: "probe_sets (lru_hw cfg) (\<lambda>_. True) retries (l3_thresh (g_lats g)) (map (attached \<circ> snd) ws) ?m = Some (?ds, m')"
    using probe_sets_lru [OF assms(1,3) _ ap(2), of ?m traffic] unfolding evs by blast
  have "heat_counts (lru_ways cfg) ?ds counts tot =
      Some (map (\<lambda>k. counts ! k + count_list ?ds k) [0..<lru_ways cfg + 1], tot + sum_list ?ds)"
    using assms(6) by (intro heat_counts_sum) (auto simp: displaced_def)
  moreover have "those (map (attach_set True) (map (Some \<circ> snd) ws)) = Some (map (attached \<circ> snd) ws)"
    using those_attached [of "map snd ws"] by simp
  moreover have "hw_tsc (lru_hw cfg) x = (lru_clock x, x)" for x by (simp add: lru_hw_def)
  moreover have "wait_us \<noteq> 0" using assms(9) by auto
  ultimately show ?thesis
    using assms(7-9) p by (simp add: heatmap_worker_def)
qed

text \<open>The sets of several colours are those of one list.\<close>

lemma prime_sets_append: "prime_sets h g (xs @ ys) m = Option.bind (prime_sets h g xs m) (prime_sets h g ys)"
  by (induction xs arbitrary: m) (auto split: Option.bind_splits)

lemma prime_colors_concat:
  assumes "\<forall>c \<in> set cs. color_evsets color_sets color_counts c = Some (map snd (W c))"
  shows "prime_colors h g color_sets color_counts cs m = prime_sets h g (map snd (concat (map W cs))) m"
  using assms
proof (induction cs arbitrary: m)
  case (Cons c cs)
  then have "prime_colors h g color_sets color_counts cs = prime_sets h g (map snd (concat (map W cs)))" by (intro ext) simp
  then show ?case using Cons.prems by (simp add: prime_sets_append)
qed simp

definition color_total :: "lru_cfg \<Rightarrow> addr list \<Rightarrow> (nat \<times> EvBuildConf EvSet) list \<Rightarrow> nat" where
  "color_total cfg traffic ws = sum_list (map (\<lambda>(s, _). displaced cfg traffic s) ws)"

lemma probe_colors_exact:
  assumes "told_apart cfg (\<lambda>lat. lat < interrupt_thresh (g_lats g)) (l3_thresh (g_lats g))" "distinct cs"
    and "\<forall>c \<in> set cs. color_evsets color_sets color_counts c = Some (map snd (W c)) \<and> c < length tot_avg \<and> it < length (tot_avg ! c)"
    and "distinct (map fst (concat (map W cs)))" "\<forall>(s, ev) \<in> set (concat (map W cs)). watched cfg s ev"
    and "\<forall>(s, ev) \<in> set (concat (map W cs)). lru_sets m s = fold (lru_touch (lru_ways cfg)) (map (lru_line cfg) (filter (\<lambda>a. lru_set cfg a = s) traffic)) (rev (map (lru_line cfg) (ev_lines ev)))"
    and "\<forall>(s, ev) \<in> set (concat (map W cs)). lru_line cfg ` set traffic \<inter> lru_line cfg ` set (ev_lines ev) = {}"
  shows "\<exists>m'. probe_colors (lru_hw cfg) g color_sets color_counts it cs tot_avg m =
    Some (map (\<lambda>c. if c \<in> set cs \<and> W c \<noteq> [] then (tot_avg ! c)[it := color_total cfg traffic (W c)] else tot_avg ! c) [0..<length tot_avg], m')"
  using assms(2-7)
proof (induction cs arbitrary: tot_avg m)
  case Nil
  then show ?case using map_nth [of tot_avg] by simp
next
  case (Cons c cs)
  have c: "color_evsets color_sets color_counts c = Some (map snd (W c))" "c < length tot_avg" "it < length (tot_avg ! c)" "c \<notin> set cs"
    using Cons.prems(1,2) by auto
  have tsc: "hw_tsc (lru_hw cfg) x = (lru_clock x, x)" for x by (simp add: lru_hw_def)
  show ?case
  proof (cases "W c = []")
    case True
    have "map (\<lambda>d. if d \<in> set cs \<and> W d \<noteq> [] then (tot_avg ! d)[it := color_total cfg traffic (W d)] else tot_avg ! d) [0..<length tot_avg]
        = map (\<lambda>d. if d \<in> set (c # cs) \<and> W d \<noteq> [] then (tot_avg ! d)[it := color_total cfg traffic (W d)] else tot_avg ! d) [0..<length tot_avg]"
      using True by (intro map_cong) auto
    moreover have "probe_colors (lru_hw cfg) g color_sets color_counts it (c # cs) tot_avg m = probe_colors (lru_hw cfg) g color_sets color_counts it cs tot_avg m"
      using c(1) True by simp
    moreover have "\<exists>m'. probe_colors (lru_hw cfg) g color_sets color_counts it cs tot_avg m =
        Some (map (\<lambda>d. if d \<in> set cs \<and> W d \<noteq> [] then (tot_avg ! d)[it := color_total cfg traffic (W d)] else tot_avg ! d) [0..<length tot_avg], m')"
      using Cons.prems True by (intro Cons.IH) simp_all
    ultimately show ?thesis by (simp only:)
  next
    case False
    obtain m1 where m1: "probe_sets (lru_hw cfg) (\<lambda>lat. lat < interrupt_thresh (g_lats g)) 3 (l3_thresh (g_lats g)) (map snd (W c)) m =
        Some (map (\<lambda>(s, _). displaced cfg traffic s) (W c), m1)" "\<forall>s. s \<notin> fst ` set (W c) \<longrightarrow> lru_sets m1 s = lru_sets m s"
      using probe_sets_lru [OF assms(1), of 3 "W c" m traffic] Cons.prems(3-6) by (simp add: comp_def) blast
    let ?row = "(tot_avg ! c)[it := color_total cfg traffic (W c)]"
    have other: "fst x \<notin> fst ` set (W c)" if "x \<in> set (concat (map W cs))" for x using that Cons.prems(3) by auto
    have same: "\<forall>(s, ev) \<in> set (concat (map W cs)). lru_sets m1 s =
        fold (lru_touch (lru_ways cfg)) (map (lru_line cfg) (filter (\<lambda>a. lru_set cfg a = s) traffic)) (rev (map (lru_line cfg) (ev_lines ev)))"
    proof (rule ballI)
      fix x assume x: "x \<in> set (concat (map W cs))"
      obtain t e where te: "x = (t, e)" by (cases x)
      show "case x of (s, ev) \<Rightarrow> lru_sets m1 s =
        fold (lru_touch (lru_ways cfg)) (map (lru_line cfg) (filter (\<lambda>a. lru_set cfg a = s) traffic)) (rev (map (lru_line cfg) (ev_lines ev)))"
        using other [OF x] m1(2) bspec [OF Cons.prems(5), of x] x by (simp add: te)
    qed
    have prem: "\<forall>d \<in> set cs. color_evsets color_sets color_counts d = Some (map snd (W d)) \<and> d < length (tot_avg[c := ?row]) \<and> it < length (tot_avg[c := ?row] ! d)"
      using Cons.prems(2) c(4) by (auto simp: nth_list_update)
    have rest: "distinct cs" "distinct (map fst (concat (map W cs)))" "\<forall>(s, ev) \<in> set (concat (map W cs)). watched cfg s ev"
      "\<forall>(s, ev) \<in> set (concat (map W cs)). lru_line cfg ` set traffic \<inter> lru_line cfg ` set (ev_lines ev) = {}"
      using Cons.prems(1,3,4,6) by simp_all
    obtain m' where m': "probe_colors (lru_hw cfg) g color_sets color_counts it cs (tot_avg[c := ?row]) m1 =
        Some (map (\<lambda>d. if d \<in> set cs \<and> W d \<noteq> [] then (tot_avg[c := ?row] ! d)[it := color_total cfg traffic (W d)] else tot_avg[c := ?row] ! d) [0..<length tot_avg], m')"
      using Cons.IH [OF rest(1) prem rest(2,3) same rest(4)] unfolding length_list_update by blast
    have "map (\<lambda>d. if d \<in> set cs \<and> W d \<noteq> [] then (tot_avg[c := ?row] ! d)[it := color_total cfg traffic (W d)] else tot_avg[c := ?row] ! d) [0..<length tot_avg]
        = map (\<lambda>d. if d \<in> set (c # cs) \<and> W d \<noteq> [] then (tot_avg ! d)[it := color_total cfg traffic (W d)] else tot_avg ! d) [0..<length tot_avg]"
      using False c(2,4) by (intro map_cong) (auto simp: nth_list_update)
    then show ?thesis
      using m1(1) m' c(1-3) False by (simp add: tsc arr_simps color_total_def)
  qed
qed

text \<open>
  C13: a scan of the colours is exact: all colours are primed, others use the cache, all colours are
  probed, and the entry of a colour is then the number of lines that the others have displaced in
  the sets of that colour; colours outside the scan keep their entries.
\<close>

theorem color_scan_exact:
  assumes "told_apart cfg (\<lambda>lat. lat < interrupt_thresh (g_lats g)) (l3_thresh (g_lats g))" "0 < lru_ways cfg" "lru_inv cfg m"
    and "distinct cs" "\<forall>c \<in> set cs. color_evsets color_sets color_counts c = Some (map snd (W c)) \<and> c < length tot_avg \<and> it < length (tot_avg ! c)"
    and "apart cfg (concat (map W cs))"
    and "\<forall>(s, ev) \<in> set (concat (map W cs)). lru_line cfg ` set traffic \<inter> lru_line cfg ` set (ev_lines ev) = {}"
  shows "\<exists>m1 m'. prime_colors (lru_hw cfg) g color_sets color_counts cs m = Some m1
    \<and> probe_colors (lru_hw cfg) g color_sets color_counts it cs tot_avg (fold (lru_read cfg) traffic m1) =
      Some (map (\<lambda>c. if c \<in> set cs \<and> W c \<noteq> [] then (tot_avg ! c)[it := color_total cfg traffic (W c)] else tot_avg ! c) [0..<length tot_avg], m')"
proof -
  let ?ws = "concat (map W cs)"
  have ap: "\<forall>(s, ev) \<in> set ?ws. watched cfg s ev \<and> fst ` set ?ws \<inter> lru_set cfg ` set (lower_lines ev) = {}" "distinct (map fst ?ws)"
    using conjunct2 [OF assms(6) [unfolded apart_def]] conjunct1 [OF assms(6) [unfolded apart_def]] .
  obtain m1 where m1: "prime_sets (lru_hw cfg) g (map snd ?ws) m = Some m1"
      "\<forall>(s, ev) \<in> set ?ws. lru_sets m1 s = rev (map (lru_line cfg) (ev_lines ev))"
    using prime_sets_fill [OF ap subset_refl assms(3,2), of g] by blast
  have "prime_colors (lru_hw cfg) g color_sets color_counts cs m = Some m1"
    using assms(5) m1(1) by (subst prime_colors_concat [where W = W]) auto
  moreover have "\<forall>(s, ev) \<in> set ?ws. lru_sets (fold (lru_read cfg) traffic m1) s =
      fold (lru_touch (lru_ways cfg)) (map (lru_line cfg) (filter (\<lambda>a. lru_set cfg a = s) traffic)) (rev (map (lru_line cfg) (ev_lines ev)))"
    using m1(2) traffic_fills by (auto simp: split_beta)
  moreover have "\<forall>(s, ev) \<in> set ?ws. watched cfg s ev" using ap(1) by blast
  ultimately show ?thesis using probe_colors_exact [OF assms(1,4,5) ap(2) _ _ assms(7)] by blast
qed

subsection \<open>Witnesses\<close>

definition watch_globals :: globals where
  "watch_globals = flat_globals\<lparr>g_lats := (g_lats flat_globals)\<lparr>l3_thresh := 50\<rparr>\<rparr>"

definition watch_evset :: "addr list \<Rightarrow> EvBuildConf EvSet" where
  "watch_evset xs = \<lparr>ev_addrs = xs, ev_size = length xs, ev_cap = length xs, target_addr = 0, ev_cands = demo_cands [],
     build_conf = conf_zero\<lparr>hctrl := True, stride := 1, block := 1, ev_repeat := 1,
       lower_ev := Some \<lparr>ev_addrs = [0x10080, 0x20080], ev_size = 2, ev_cap = 2, target_addr = 0, ev_cands = demo_cands [],
         build_conf = (EvTestConf.truncate conf_zero)\<lparr>hctrl := True\<rparr>, target_cache = skx_l2\<rparr>\<rparr>, target_cache = lru_cache tiny_cfg\<rparr>"

lemma tiny_set: "lru_set tiny_cfg a = unat (a XOR 0x1000) div 64 mod 1024"
  by (simp add: lru_set_def tiny_line) (simp add: tiny_cfg_def skx_l2_def)

lemma displaced_code [code]:
  "displaced cfg traffic s = min (lru_ways cfg) (length (remdups (map (lru_line cfg) (filter (\<lambda>a. lru_set cfg a = s) traffic))))"
  using List.card_set [of "map (lru_line cfg) (filter (\<lambda>a. lru_set cfg a = s) traffic)"] by (simp add: displaced_def)

lemma watch_facts:
  "told_apart tiny_cfg (\<lambda>_. True) (l3_thresh (g_lats watch_globals))"
  "told_apart tiny_cfg (\<lambda>lat. lat < interrupt_thresh (g_lats watch_globals)) (l3_thresh (g_lats watch_globals))"
  "lru_ways tiny_cfg = 2"
  "apart tiny_cfg [(0x40, watch_evset [0x10000, 0x20000]), (0x41, watch_evset [0x10040, 0x20040])]"
  "displaced tiny_cfg [0x30000, 0x30080, 0x30000] 0x40 = 1" "displaced tiny_cfg [0x30000, 0x30080, 0x30000] 0x41 = 0"
  subgoal by (simp add: told_apart_def watch_globals_def flat_globals_def tiny_cfg_def skx_cfg_def)
  subgoal by (simp add: told_apart_def watch_globals_def flat_globals_def tiny_cfg_def skx_cfg_def)
  subgoal w by (simp add: tiny_cfg_def)
  subgoal by (simp add: apart_def watched_def watch_evset_def ev_lines_def lower_lines_def tiny_set tiny_line w) auto
  subgoal by (simp add: displaced_code tiny_set tiny_line w)
  subgoal by (simp add: displaced_code tiny_set tiny_line w)
  done

text \<open>
  One set is disturbed by one line, read twice, the other by none. Priming cannot last two
  microseconds when the counter needs \<open>2\<^sup>63\<close> steps for one of them.
\<close>

lemma slow_counter: "(ucast ((x :: u64) div 0x8000000000000000) :: u32) < 2"
proof -
  have "unat x div 0x8000000000000000 < 2"
    using unsigned_less [of x] by (intro less_mult_imp_div_less) simp
  then have "unat (x div 0x8000000000000000) mod 2 ^ 32 < 2"
    by (simp add: unat_div_distrib)
  then show ?thesis by (simp add: word_less_nat_alt unsigned_ucast_eq take_bit_eq_mod unat_div_distrib)
qed

theorem heatmap_worker_exact_witness:
  "\<exists>m'. heatmap_worker (lru_hw tiny_cfg) watch_globals (\<lambda>_. fold (lru_read tiny_cfg) [0x30000, 0x30080, 0x30000]) 2 0x8000000000000000 3 2
      [Some (watch_evset [0x10000, 0x20000]), Some (watch_evset [0x10040, 0x20040])] [0, 0, 0] 0 lru_empty = Some (([1, 1, 0], 1), m')"
proof -
  let ?ws = "[(0x40 :: nat, watch_evset [0x10000, 0x20000]), (0x41, watch_evset [0x10040, 0x20040])]"
  have at: "attached (watch_evset xs) = watch_evset xs" if "xs \<noteq> []" for xs
    using that by (simp add: attached_def attach_set_def watch_evset_def EvTestConf.truncate_def conf_zero_def)
  have ap: "apart tiny_cfg (map (\<lambda>(s, ev). (s, attached ev)) ?ws)" using watch_facts(4) by (simp add: at)
  obtain m1 where m1: "prime_sets (lru_hw tiny_cfg) watch_globals (map (attached \<circ> snd) ?ws) lru_empty = Some m1"
    using prime_sets_fill [of ?ws tiny_cfg "{0x40, 0x41}" lru_empty watch_globals] watch_facts(4) lru_empty_inv watch_facts(3)
    by (auto simp: apart_def at)
  have "\<forall>(s, ev) \<in> set ?ws. lru_line tiny_cfg ` set [0x30000, 0x30080, 0x30000] \<inter> lru_line tiny_cfg ` set (ev_lines ev) = {}"
    by (simp add: watch_evset_def ev_lines_def tiny_line)
  note heatmap_worker_exact [OF watch_facts(1) _ _ lru_empty_inv ap _ _ m1 slow_counter this, where retries = 3 and counts = "[0, 0, 0]" and tot = 0]
  then show ?thesis by (simp add: watch_facts upt_rec)
qed

theorem color_scan_exact_witness:
  "\<exists>m1 m'. prime_colors (lru_hw tiny_cfg) watch_globals [[], [Some (watch_evset [0x10000, 0x20000]), Some (watch_evset [0x10040, 0x20040])]] [0, 2] [0, 1] lru_empty = Some m1
    \<and> probe_colors (lru_hw tiny_cfg) watch_globals [[], [Some (watch_evset [0x10000, 0x20000]), Some (watch_evset [0x10040, 0x20040])]] [0, 2] 0 [0, 1] [[9], [9]]
        (fold (lru_read tiny_cfg) [0x30000, 0x30080, 0x30000] m1) = Some ([[9], [1]], m')"
proof -
  let ?ws = "[(0x40 :: nat, watch_evset [0x10000, 0x20000]), (0x41, watch_evset [0x10040, 0x20040])]"
  let ?W = "\<lambda>c. if c = 1 then ?ws else []"
  have ap: "apart tiny_cfg (concat (map ?W [0 :: nat, 1]))" using watch_facts(4) by simp
  have q: "\<forall>(s, ev) \<in> set (concat (map ?W [0 :: nat, 1])). lru_line tiny_cfg ` set [0x30000, 0x30080, 0x30000] \<inter> lru_line tiny_cfg ` set (ev_lines ev) = {}"
    by (simp add: watch_evset_def ev_lines_def tiny_line)
  note color_scan_exact [OF watch_facts(2) _ lru_empty_inv _ _ ap q,
    where color_sets = "[[], [Some (watch_evset [0x10000, 0x20000]), Some (watch_evset [0x10040, 0x20040])]]"
      and color_counts = "[0, 2]" and tot_avg = "[[9], [9]]" and it = 0]
  then show ?thesis by (simp add: watch_facts color_evsets_def arr_simps color_total_def upt_rec)
qed

end
