(* ===== verification/Rusty.thy ===== *)
theory Rusty
  imports Ev_Prelude
begin

text \<open>
  The scheduler under scx/scheds/rust/scx_rusty, as far as the monitor of the last-level caches
  steers it: the map \<open>lcas_dom_order\<close>, the choice of a domain for a task (src/bpf/main.bpf.c) and
  the redirection of active tasks when the order changes (src/main.rs). The domains, the memory
  policies and the tasks are the state around it.
\<close>

unbundle bit_operations_syntax

subsection \<open>Domains and tasks\<close>

definition MAX_DOMS :: nat where "MAX_DOMS = 64"
definition RUSTY_MAX_CPUS :: nat where "RUSTY_MAX_CPUS = 512"
definition NO_DOM_FOUND :: u32 where "NO_DOM_FOUND = 65"
definition MAX_DOM_ACTIVE_TPTRS :: nat where "MAX_DOM_ACTIVE_TPTRS = 1024"

record task_ctx =
  dom_mask :: u64
  preferred_dom_mask :: u64
  target_dom :: u32

record mempolicy =
  mp_mode :: u16
  home_node :: int
  nodes_bits :: "u32 option"

text \<open>
  What the scheduler knows of the system: the number of domains, the cpus of a domain (\<open>None\<close>
  when it has no \<open>lb_domain\<close> or no mask yet), the NUMA node of each domain.
\<close>

record rusty =
  nr_doms :: u32
  lb_domains :: "u32 \<Rightarrow> nat list option"
  dom_numa_id_map :: "u32 list"
  nr_nodes :: nat
  mempolicy_affinity :: bool

definition cpumask_intersects_domain :: "rusty \<Rightarrow> nat list \<Rightarrow> u32 \<Rightarrow> bool" where
  "cpumask_intersects_domain r cpumask dom_id =
     (case lb_domains r dom_id of None \<Rightarrow> False | Some dmask \<Rightarrow> list_ex (\<lambda>c. c \<in> set dmask) cpumask)"

abbreviation dom_bit :: "u32 \<Rightarrow> u64" where
  "dom_bit d \<equiv> push_bit (unat d) 1"

subsection \<open>Memory policies\<close>

text \<open>An unknown domain is reported and treated as one of node 0.\<close>

definition dom_node_id :: "rusty \<Rightarrow> nat \<Rightarrow> u32" where
  "dom_node_id r dom_id = (case arr_get (dom_numa_id_map r) dom_id of None \<Rightarrow> 0 | Some n \<Rightarrow> n)"

definition node_dom_mask :: "rusty \<Rightarrow> u32 \<Rightarrow> u64" where
  "node_dom_mask r node_id =
     fold (\<lambda>d mask. if dom_node_id r d = node_id then mask OR push_bit d 1 else mask) [0..<unat (nr_doms r)] 0"

definition MPOL_ANY :: u16 where "MPOL_ANY = 2 OR 1 OR 5"

text \<open>At most 32 nodes; \<open>has_mask\<close> tells whether the mask of the task was found.\<close>

definition task_set_preferred_mempolicy_dom_mask :: "rusty \<Rightarrow> mempolicy option \<Rightarrow> bool \<Rightarrow> task_ctx \<Rightarrow> task_ctx" where
  "task_set_preferred_mempolicy_dom_mask r policy has_mask taskc =
     (let taskc = taskc\<lparr>preferred_dom_mask := 0\<rparr>
      in case policy of None \<Rightarrow> taskc
         | Some policy \<Rightarrow>
             if \<not> mempolicy_affinity r \<or> \<not> has_mask then taskc
             else if mp_mode policy AND MPOL_ANY = 0 then taskc
             else if home_node policy \<ge> 0 then taskc\<lparr>preferred_dom_mask := node_dom_mask r (of_int (home_node policy))\<rparr>
             else (case nodes_bits policy of None \<Rightarrow> taskc
                   | Some val \<Rightarrow> taskc\<lparr>preferred_dom_mask :=
                       fold (\<lambda>n mask. if bit val n then mask OR node_dom_mask r (of_nat n) else mask) [0..<nr_nodes r] 0\<rparr>))"

subsection \<open>The choice of a domain (task_pick_domain)\<close>

text \<open>
  The loop over the domains from the one after \<open>d\<close>: the first that the task may use, the first
  of these that is preferred (\<open>pm\<close>), and the mask of all.
\<close>

fun pick_doms :: "rusty \<Rightarrow> nat list \<Rightarrow> u32 option \<Rightarrow> u64 \<Rightarrow> nat \<Rightarrow> u32 \<Rightarrow> u32 \<times> u32 \<times> u64 \<Rightarrow> u32 \<times> u32 \<times> u64" where
  "pick_doms r cpumask pref pm 0 d found = found"
| "pick_doms r cpumask pref pm (Suc k) d (first_dom, preferred_dom, dm) =
     (let d = (d + 1) mod nr_doms r
      in if pref = Some d \<or> \<not> cpumask_intersects_domain r cpumask d
         then pick_doms r cpumask pref pm k d (first_dom, preferred_dom, dm)
         else pick_doms r cpumask pref pm k d
           (if first_dom = NO_DOM_FOUND then d else first_dom,
            if pm \<noteq> 0 \<and> dom_bit d AND pm \<noteq> 0 \<and> preferred_dom = NO_DOM_FOUND then d else preferred_dom,
            dm OR dom_bit d))"

text \<open>
  \<open>cpu\<close> is the processor that the call runs on, \<open>rr\<close> its \<open>dom_rr_cur\<close>, \<open>pref\<close> the first entry of
  \<open>lcas_dom_order\<close>, which is \<open>None\<close> when the lookup fails.
\<close>

definition task_pick_domain ::
    "rusty \<Rightarrow> u32 option \<Rightarrow> nat \<Rightarrow> mempolicy option \<Rightarrow> bool \<Rightarrow> nat list \<Rightarrow> u32 \<Rightarrow> task_ctx \<Rightarrow> u32 \<times> u32 \<times> task_ctx" where
  "task_pick_domain r pref cpu policy has_mask cpumask rr taskc =
     (if cpu \<ge> RUSTY_MAX_CPUS then (NO_DOM_FOUND, rr, taskc)
      else (let taskc = task_set_preferred_mempolicy_dom_mask r policy has_mask (taskc\<lparr>dom_mask := 0\<rparr>);
                valid = (case pref of None \<Rightarrow> False | Some d \<Rightarrow> d < nr_doms r \<and> cpumask_intersects_domain r cpumask d);
                taskc = (if valid then taskc\<lparr>dom_mask := dom_mask taskc OR dom_bit (the pref),
                                           preferred_dom_mask := preferred_dom_mask taskc OR dom_bit (the pref)\<rparr> else taskc);
                first_dom = (if valid then the pref else NO_DOM_FOUND);
                (first_dom, preferred_dom, dm) =
                  pick_doms r cpumask pref (preferred_dom_mask taskc) (unat (nr_doms r)) rr (first_dom, NO_DOM_FOUND, dom_mask taskc);
                taskc = taskc\<lparr>dom_mask := dm\<rparr>
            in (if valid \<and> (preferred_dom_mask taskc = 0 \<or> dom_bit (the pref) AND preferred_dom_mask taskc \<noteq> 0) then the pref
                else if preferred_dom \<noteq> NO_DOM_FOUND then preferred_dom else first_dom, rr + 1, taskc)))"

subsection \<open>The map, and the scheduler that reads it\<close>

text \<open>An array of \<open>MAX_DOMS\<close> entries, which the scheduler sets up without a preference.\<close>

definition lcas_map_init :: "nat \<Rightarrow> u32 list" where
  "lcas_map_init nr = (replicate MAX_DOMS 0)[0 := of_nat nr]"

definition lcas_lookup :: "u32 list \<Rightarrow> nat \<Rightarrow> u32 option" where
  "lcas_lookup mp idx = arr_get mp idx"

text \<open>The active tasks of a domain: a ring of pointers to tasks; a task is a key of the table \<open>ts\<close>.\<close>

record dom_ctx =
  read_idx :: nat
  write_idx :: nat
  tptrs :: "nat option list"

definition active_tasks :: "dom_ctx \<Rightarrow> nat option list" where
  "active_tasks domc =
     (let ridx = (if write_idx domc - read_idx domc > MAX_DOM_ACTIVE_TPTRS then write_idx domc - MAX_DOM_ACTIVE_TPTRS else read_idx domc)
      in map (\<lambda>idx. tptrs domc ! (idx mod MAX_DOM_ACTIVE_TPTRS)) [ridx..<write_idx domc])"

definition retarget :: "nat \<Rightarrow> nat option \<Rightarrow> (nat \<Rightarrow> task_ctx) \<Rightarrow> nat \<Rightarrow> task_ctx" where
  "retarget dst p ts =
     (case p of None \<Rightarrow> ts
      | Some t \<Rightarrow> if dom_mask (ts t) AND push_bit dst 1 \<noteq> 0 then ts(t := (ts t)\<lparr>target_dom := of_nat dst\<rparr>) else ts)"

definition migrate_tasks_to_domain :: "dom_ctx option list \<Rightarrow> nat \<Rightarrow> (nat \<Rightarrow> task_ctx) \<Rightarrow> nat \<Rightarrow> task_ctx" where
  "migrate_tasks_to_domain doms dst ts =
     (if dst \<ge> length doms then ts
      else fold (\<lambda>(i, d) ts. if i = dst then ts else case d of None \<Rightarrow> ts | Some domc \<Rightarrow> fold (retarget dst) (active_tasks domc) ts)
        (enumerate 0 doms) ts)"

definition display_order :: "nat \<Rightarrow> u32 list \<Rightarrow> u32 list" where
  "display_order nr mp =
     (let order = List.map_filter (lcas_lookup mp) [0..<nr]
      in if order \<noteq> [] \<and> unat (hd order) < nr then order else [])"

definition check_lcas_order ::
    "dom_ctx option list \<Rightarrow> u32 list \<Rightarrow> u32 list \<Rightarrow> (nat \<Rightarrow> task_ctx) \<Rightarrow> u32 list \<times> (nat \<Rightarrow> task_ctx)" where
  "check_lcas_order doms mp prev ts =
     (let order = display_order (length doms) mp
      in if order = prev then (prev, ts)
         else (order, case order of [] \<Rightarrow> ts | d # _ \<Rightarrow> migrate_tasks_to_domain doms (unat d) ts))"

subsection \<open>All domains are visited\<close>

fun visited :: "u32 \<Rightarrow> nat \<Rightarrow> u32 \<Rightarrow> u32 list" where
  "visited n 0 d = []"
| "visited n (Suc k) d = (let d = (d + 1) mod n in d # visited n k d)"

lemma visited_nth:
  assumes "0 < n"
  shows "visited n k d = map (\<lambda>i. of_nat ((unat ((d + 1) mod n) + i) mod unat n)) [0..<k]"
proof (induction k arbitrary: d)
  case (Suc k)
  define e where "e = (d + 1) mod n"
  have lt: "unat e < unat n" using assms unfolding e_def unat_mod_distrib by (intro mod_less_divisor) (simp add: unat_gt_0 word_greater_zero_iff)
  moreover have "unat n < 2 ^ 32" using unsigned_less [where ?'a = nat, of n] by simp
  ultimately have "unat (e + 1) = unat e + 1" using unat_add_small [of e 1] by simp
  then have next_e: "unat ((e + 1) mod n) = (unat e + 1) mod unat n" by (simp add: unat_mod_distrib)
  have "visited n k e = map (\<lambda>i. of_nat ((unat e + Suc i) mod unat n)) [0..<k]"
    unfolding Suc.IH next_e by (intro map_cong refl) (metis add_Suc_right add_Suc_shift mod_add_left_eq Suc_eq_plus1)
  moreover have "of_nat (unat e mod unat n) = e" unfolding mod_less [OF lt] by simp
  moreover have "map (\<lambda>i. of_nat ((unat e + i) mod unat n) :: u32) [0..<Suc k] =
      of_nat (unat e mod unat n) # map (\<lambda>i. of_nat ((unat e + Suc i) mod unat n)) [0..<k]"
    unfolding upt_conv_Cons [OF zero_less_Suc] map_Suc_upt [symmetric] by (simp del: upt_Suc)
  ultimately show ?case unfolding visited.simps Let_def e_def [symmetric] by (simp only:)
qed simp

lemma visited_all:
  assumes "0 < n"
  shows "set (visited n (unat n) d) = {x. x < n}"
proof -
  let ?a = "unat ((d + 1) mod n)"
  have N: "0 < unat n" using assms by (simp add: unat_gt_0 word_greater_zero_iff)
  have lt: "of_nat (i mod unat n) < n" for i
  proof -
    have "i mod unat n < unat n" "unat n < 2 ^ 32" using N unsigned_less [where ?'a = nat, of n] by simp_all
    then show ?thesis by (simp only: word_less_nat_alt unat_of_nat) (simp add: take_bit_nat_eq_self)
  qed
  have "x \<in> set (visited n (unat n) d)" if "x < n" for x
  proof -
    have a: "?a < unat n" using N unfolding unat_mod_distrib by (rule mod_less_divisor)
    have x: "unat x < unat n" using that by (simp add: word_less_nat_alt)
    define i where "i = (unat x + (unat n - ?a)) mod unat n"
    have "(?a + i) mod unat n = (?a + (unat x + (unat n - ?a))) mod unat n" by (simp add: i_def mod_add_right_eq)
    also have "\<dots> = (unat x + unat n) mod unat n" using a by (intro arg_cong [of _ _ "\<lambda>z. z mod unat n"]) linarith
    also have "\<dots> = unat x" using x by simp
    finally have "of_nat ((?a + i) mod unat n) = x" by simp
    moreover have "i < unat n" using N by (simp add: i_def)
    ultimately show ?thesis unfolding visited_nth [OF assms] by force
  qed
  then show ?thesis using lt by (auto simp: visited_nth [OF assms])
qed

text \<open>The loop as a search of the domains that it visits.\<close>

definition candidates :: "rusty \<Rightarrow> nat list \<Rightarrow> u32 option \<Rightarrow> u32 list \<Rightarrow> u32 list" where
  "candidates r cpumask pref ds = filter (\<lambda>d. pref \<noteq> Some d \<and> cpumask_intersects_domain r cpumask d) ds"

definition first_of :: "u32 list \<Rightarrow> u32" where
  "first_of ds = (case ds of [] \<Rightarrow> NO_DOM_FOUND | d # _ \<Rightarrow> d)"

definition with_doms :: "u32 list \<Rightarrow> u64 \<Rightarrow> u64" where
  "with_doms ds dm = fold (\<lambda>d dm. dm OR dom_bit d) ds dm"

lemma pick_doms_search:
  assumes "NO_DOM_FOUND \<notin> set (visited (nr_doms r) k d)"
  shows "pick_doms r cpumask pref pm k d (f, p, dm) =
    (let cs = candidates r cpumask pref (visited (nr_doms r) k d)
     in (if f = NO_DOM_FOUND then first_of cs else f,
         if p = NO_DOM_FOUND then first_of (filter (\<lambda>d. dom_bit d AND pm \<noteq> 0) cs) else p, with_doms cs dm))"
  using assms
proof (induction k arbitrary: d f p dm)
  case (Suc k)
  define e where "e = (d + 1) mod nr_doms r"
  have e: "e \<noteq> NO_DOM_FOUND" "NO_DOM_FOUND \<notin> set (visited (nr_doms r) k e)" "visited (nr_doms r) (Suc k) d = e # visited (nr_doms r) k e"
    using Suc.prems by (auto simp: Let_def e_def)
  have step: "pick_doms r cpumask pref pm (Suc k) d (f, p, dm) = (if pref = Some e \<or> \<not> cpumask_intersects_domain r cpumask e
      then pick_doms r cpumask pref pm k e (f, p, dm)
      else pick_doms r cpumask pref pm k e (if f = NO_DOM_FOUND then e else f,
        if dom_bit e AND pm \<noteq> 0 \<and> p = NO_DOM_FOUND then e else p, dm OR dom_bit e))"
    by (cases "pm = 0") (simp_all add: Let_def e_def)
  show ?case
    unfolding step e(3) using e(1) Suc.IH [OF e(2)] by (simp add: Let_def candidates_def first_of_def with_doms_def)
qed (simp add: candidates_def first_of_def with_doms_def)

lemma bit_dom_bit: "bit (dom_bit d) j \<longleftrightarrow> j = unat d \<and> j < 64"
  unfolding push_bit_of_1 bit_exp_iff by auto

lemma bit_with_doms: "bit (with_doms ds dm) j \<longleftrightarrow> bit dm j \<or> j < 64 \<and> j \<in> unat ` set ds"
proof (induction ds arbitrary: dm)
  case (Cons d ds)
  have "with_doms (d # ds) dm = with_doms ds (dm OR dom_bit d)" by (simp add: with_doms_def)
  then show ?case using Cons.IH [of "dm OR dom_bit d"] unfolding bit_or_iff bit_dom_bit by auto
qed (simp add: with_doms_def)

lemma first_of_in: "first_of ds = NO_DOM_FOUND \<or> first_of ds \<in> set ds"
  by (cases ds) (simp_all add: first_of_def)

lemma no_dom_not_visited: "0 < nr_doms r \<Longrightarrow> unat (nr_doms r) \<le> MAX_DOMS \<Longrightarrow> NO_DOM_FOUND \<notin> set (visited (nr_doms r) (unat (nr_doms r)) d)"
  by (simp add: visited_all MAX_DOMS_def NO_DOM_FOUND_def word_less_nat_alt)

subsection \<open>What is chosen\<close>

definition hinted :: "rusty \<Rightarrow> u32 option \<Rightarrow> nat list \<Rightarrow> bool" where
  "hinted r pref cpumask = (case pref of None \<Rightarrow> False | Some d \<Rightarrow> d < nr_doms r \<and> cpumask_intersects_domain r cpumask d)"

lemma hint_bit: "unat d < 64 \<Longrightarrow> dom_bit d AND (m OR dom_bit d) \<noteq> 0"
proof
  assume "unat d < 64" "dom_bit d AND (m OR dom_bit d) = 0"
  moreover have "bit (dom_bit d AND (m OR dom_bit d)) (unat d) \<longleftrightarrow> unat d < 64" by (simp only: bit_and_iff bit_or_iff bit_dom_bit) blast
  ultimately show False by simp
qed

lemma hinted_small: "hinted r pref cpumask \<Longrightarrow> unat (nr_doms r) \<le> MAX_DOMS \<Longrightarrow> unat (the pref) < 64"
  by (auto simp: hinted_def MAX_DOMS_def word_less_nat_alt split: option.splits)

lemma policy_dom_mask [simp]: "dom_mask (task_set_preferred_mempolicy_dom_mask r policy has_mask t) = dom_mask t"
  by (simp add: task_set_preferred_mempolicy_dom_mask_def Let_def split: option.split)

lemma pick_cases:
  assumes "0 < nr_doms r" "unat (nr_doms r) \<le> MAX_DOMS" "cpu < RUSTY_MAX_CPUS"
    and cs: "cs = candidates r cpumask pref (visited (nr_doms r) (unat (nr_doms r)) rr)"
  shows "\<exists>pd t'. task_pick_domain r pref cpu policy has_mask cpumask rr t =
      (if hinted r pref cpumask then the pref else if pd \<noteq> NO_DOM_FOUND then pd else first_of cs, rr + 1, t')
    \<and> (pd = NO_DOM_FOUND \<or> pd \<in> set cs) \<and> dom_mask t' = with_doms cs (if hinted r pref cpumask then dom_bit (the pref) else 0)"
proof -
  define t0 where "t0 = task_set_preferred_mempolicy_dom_mask r policy has_mask (t\<lparr>dom_mask := 0\<rparr>)"
  define pm where "pm = preferred_dom_mask t0 OR (if hinted r pref cpumask then dom_bit (the pref) else 0)"
  define pd where "pd = first_of (filter (\<lambda>d. dom_bit d AND pm \<noteq> 0) cs)"
  have ok: "hinted r pref cpumask \<Longrightarrow> dom_bit (the pref) AND pm \<noteq> 0"
    using hint_bit [OF hinted_small [OF _ assms(2)], of pref cpumask "preferred_dom_mask t0"] by (simp add: pm_def)
  note search = pick_doms_search [OF no_dom_not_visited [OF assms(1,2), of rr], of cpumask pref, folded cs]
  have "task_pick_domain r pref cpu policy has_mask cpumask rr t =
      (if hinted r pref cpumask then the pref else if pd \<noteq> NO_DOM_FOUND then pd else first_of cs, rr + 1,
       t0\<lparr>preferred_dom_mask := pm, dom_mask := with_doms cs (if hinted r pref cpumask then dom_bit (the pref) else 0)\<rparr>)"
    using assms(3) ok unfolding task_pick_domain_def t0_def [symmetric] hinted_def [symmetric] search Let_def
    by (auto simp: pm_def pd_def t0_def)
  moreover have "pd = NO_DOM_FOUND \<or> pd \<in> set cs" using first_of_in [of "filter (\<lambda>d. dom_bit d AND pm \<noteq> 0) cs"] by (auto simp: pd_def)
  ultimately show ?thesis by force
qed

lemma pick_hint: 
  assumes "p < nr_doms r" "unat (nr_doms r) \<le> MAX_DOMS" "cpu < RUSTY_MAX_CPUS" "cpumask_intersects_domain r cpumask p"
  shows "fst (task_pick_domain r (Some p) cpu policy has_mask cpumask rr t) = p"
proof -
  have "0 < nr_doms r" using assms(1) by (auto simp: word_gt_0)
  then show ?thesis using pick_cases [OF _ assms(2,3) refl, where pref = "Some p" and cpumask = cpumask and rr = rr and policy = policy and has_mask = has_mask and t = t] assms(1,4)
    by (auto simp: hinted_def)
qed

lemma pick_doms_hint_off:
  assumes "\<forall>x \<in> set (visited (nr_doms r) k d). pref \<noteq> Some x"
  shows "pick_doms r cpumask pref pm k d found = pick_doms r cpumask None pm k d found"
  using assms
proof (induction k arbitrary: d found)
  case (Suc k)
  obtain f p dm where "found = (f, p, dm)" by (cases found)
  then show ?case using Suc by (simp add: Let_def)
qed simp

text \<open>An entry of the map that names no domain is no hint.\<close>

lemma pick_no_hint:
  assumes "nr_doms r \<le> p"
  shows "task_pick_domain r (Some p) cpu policy has_mask cpumask rr t = task_pick_domain r None cpu policy has_mask cpumask rr t"
proof (cases "nr_doms r = 0")
  case True
  then show ?thesis using assms by (simp add: task_pick_domain_def Let_def)
next
  case False
  then have pos: "0 < nr_doms r" by (simp add: word_gt_0)
  have "\<forall>x \<in> set (visited (nr_doms r) (unat (nr_doms r)) rr). Some p \<noteq> Some x"
    unfolding visited_all [OF pos] using leD [OF assms] by blast
  note off = pick_doms_hint_off [OF this]
  have "\<not> p < nr_doms r" using assms by simp
  then show ?thesis unfolding task_pick_domain_def off by simp
qed

text \<open>
  C19: with or without a hint, a task gets a domain that its processors allow whenever there is
  one, and its mask has exactly the domains that it may use.
\<close>

theorem task_pick_domain_allowed:
  assumes "0 < nr_doms r" "unat (nr_doms r) \<le> MAX_DOMS" "cpu < RUSTY_MAX_CPUS"
    and "task_pick_domain r pref cpu policy has_mask cpumask rr t = (d, rr', t')"
  shows "(if \<exists>x < nr_doms r. cpumask_intersects_domain r cpumask x then d < nr_doms r \<and> cpumask_intersects_domain r cpumask d else d = NO_DOM_FOUND)
    \<and> (\<forall>x < nr_doms r. bit (dom_mask t') (unat x) = cpumask_intersects_domain r cpumask x)"
proof -
  let ?may = "cpumask_intersects_domain r cpumask" and ?hint = "hinted r pref cpumask"
  define cs where "cs = candidates r cpumask pref (visited (nr_doms r) (unat (nr_doms r)) rr)"
  have cs: "x \<in> set cs \<longleftrightarrow> x < nr_doms r \<and> ?may x \<and> pref \<noteq> Some x" for x
    unfolding cs_def candidates_def using visited_all [OF assms(1), of rr] by auto
  obtain pd where pd: "d = (if ?hint then the pref else if pd \<noteq> NO_DOM_FOUND then pd else first_of cs)" "pd = NO_DOM_FOUND \<or> pd \<in> set cs"
      "dom_mask t' = with_doms cs (if ?hint then dom_bit (the pref) else 0)"
    using pick_cases [OF assms(1-3) cs_def, of policy has_mask t] assms(4) by auto
  have hint: "?hint \<longleftrightarrow> (\<exists>x < nr_doms r. ?may x \<and> pref = Some x)" "?hint \<Longrightarrow> the pref < nr_doms r \<and> ?may (the pref)"
    by (auto simp: hinted_def split: option.splits)
  have cover: "?may x \<and> x < nr_doms r \<longleftrightarrow> x \<in> set cs \<or> ?hint \<and> x = the pref" for x
    using cs [of x] hint by auto
  have none: "first_of cs = NO_DOM_FOUND \<longleftrightarrow> cs = []"
    using no_dom_not_visited [OF assms(1,2), of rr] by (cases cs) (auto simp: first_of_def cs_def candidates_def dest!: filter_eq_ConsD)
  have "if \<exists>x < nr_doms r. ?may x then d < nr_doms r \<and> ?may d else d = NO_DOM_FOUND"
    using pd(1,2) cover hint(2) none first_of_in [of cs] by (cases "cs = []") (auto split: if_splits)
  moreover have "bit (dom_mask t') (unat x) = ?may x" if "x < nr_doms r" for x
  proof -
    have "unat x < 64" using that assms(2) by (simp add: MAX_DOMS_def word_less_nat_alt)
    moreover have "unat x \<in> unat ` set cs \<longleftrightarrow> x \<in> set cs" by (auto simp flip: word_unat_eq_iff)
    moreover have "bit (if ?hint then dom_bit (the pref) else 0) (unat x) \<longleftrightarrow> ?hint \<and> x = the pref"
      using calculation(1) by (cases ?hint) (simp_all only: if_True if_False bit_dom_bit word_unat_eq_iff bit_0_eq bot_apply bot_bool_def simp_thms)
    ultimately show ?thesis
      unfolding pd(3) bit_with_doms using cover [of x] that by blast
  qed
  ultimately show ?thesis by blast
qed

text \<open>Two domains of two processors each; the task may use processor 3 only.\<close>

definition two_doms :: rusty where
  "two_doms = \<lparr>nr_doms = 2, lb_domains = (\<lambda>d. if d < 2 then Some [2 * unat d, 2 * unat d + 1] else None),
     dom_numa_id_map = [0, 1], nr_nodes = 2, mempolicy_affinity = True\<rparr>"

theorem task_pick_domain_allowed_witness:
  "\<exists>t'. task_pick_domain two_doms (Some 0) 1 None True [3] 7 \<lparr>dom_mask = 0, preferred_dom_mask = 0, target_dom = 0\<rparr> = (1, 8, t')
     \<and> bit (dom_mask t') 1 \<and> \<not> bit (dom_mask t') 0"
proof -
  let ?t = "\<lparr>dom_mask = 0, preferred_dom_mask = 0, target_dom = 0\<rparr>"
  obtain d rr' t' where t': "task_pick_domain two_doms (Some 0) 1 None True [3] 7 ?t = (d, rr', t')" by (cases "task_pick_domain two_doms (Some 0) 1 None True [3] 7 ?t")
  have may: "cpumask_intersects_domain two_doms [3] x \<longleftrightarrow> x = 1" for x
    by (auto simp: cpumask_intersects_domain_def two_doms_def word_less_nat_alt word_unat_eq_iff)
  have "0 < nr_doms two_doms" "unat (nr_doms two_doms) \<le> MAX_DOMS" "1 < RUSTY_MAX_CPUS" "nr_doms two_doms = 2"
    by (simp_all add: two_doms_def MAX_DOMS_def RUSTY_MAX_CPUS_def)
  note facts = task_pick_domain_allowed [OF this(1-3) t', unfolded may this(4)]
  have "d = 1" using facts by (auto split: if_splits)
  moreover have "bit (dom_mask t') 1" using facts [THEN conjunct2, rule_format, of 1] by simp
  moreover have "\<not> bit (dom_mask t') 0" using facts [THEN conjunct2, rule_format, of 0] by simp
  moreover have "rr' = 8" using t' by (simp add: task_pick_domain_def RUSTY_MAX_CPUS_def Let_def split: prod.splits)
  ultimately show ?thesis using t' by blast
qed

subsection \<open>Redirected tasks\<close>

lemma retarget_all:
  assumes "dst < 64"
  shows "fold (retarget dst) ps ts =
    (\<lambda>t. if Some t \<in> set ps \<and> bit (dom_mask (ts t)) dst then (ts t)\<lparr>target_dom := of_nat dst\<rparr> else ts t)"
proof (induction ps arbitrary: ts)
  case (Cons p ps)
  have "retarget dst p ts = (\<lambda>t. if p = Some t \<and> bit (dom_mask (ts t)) dst then (ts t)\<lparr>target_dom := of_nat dst\<rparr> else ts t)"
    using assms by (auto simp: retarget_def push_bit_of_1 and_exp_eq_0_iff_not_bit split: option.split)
  then show ?case unfolding fold_simps Cons.IH by (auto simp: fun_eq_iff)
qed simp

lemma migrate_flat:
  "dst < length doms \<Longrightarrow> migrate_tasks_to_domain doms dst ts = fold (retarget dst)
     (concat (map (\<lambda>(i, d). if i = dst then [] else case d of None \<Rightarrow> [] | Some domc \<Rightarrow> active_tasks domc) (enumerate 0 doms))) ts"
proof -
  have "fold (\<lambda>(i, d) ts. if i = dst then ts else case d of None \<Rightarrow> ts | Some domc \<Rightarrow> fold (retarget dst) (active_tasks domc) ts) xs ts =
      fold (retarget dst) (concat (map (\<lambda>(i, d). if i = dst then [] else case d of None \<Rightarrow> [] | Some domc \<Rightarrow> active_tasks domc) xs)) ts" for xs
    by (induction xs arbitrary: ts) (auto split: option.split)
  then show "dst < length doms \<Longrightarrow> ?thesis" by (simp add: migrate_tasks_to_domain_def)
qed

text \<open>The active tasks of the domains other than \<open>dst\<close>.\<close>

definition elsewhere :: "dom_ctx option list \<Rightarrow> nat \<Rightarrow> nat \<Rightarrow> bool" where
  "elsewhere doms dst t \<longleftrightarrow> (\<exists>i < length doms. i \<noteq> dst \<and> (\<exists>domc. doms ! i = Some domc \<and> Some t \<in> set (active_tasks domc)))"

lemma migrate_targets:
  assumes "dst < length doms" "dst < 64"
  shows "migrate_tasks_to_domain doms dst ts t =
    (if elsewhere doms dst t \<and> bit (dom_mask (ts t)) dst then (ts t)\<lparr>target_dom := of_nat dst\<rparr> else ts t)"
proof -
  have "Some t \<in> set (concat (map (\<lambda>(i, d). if i = dst then [] else case d of None \<Rightarrow> [] | Some domc \<Rightarrow> active_tasks domc) (enumerate 0 doms)))
      \<longleftrightarrow> elsewhere doms dst t"
    by (force simp: elsewhere_def in_set_enumerate_eq split: option.splits if_splits)
  then show ?thesis unfolding migrate_flat [OF assms(1)] retarget_all [OF assms(2)] by (simp only:)
qed

end
