(* ===== verification/Lcas.thy ===== *)
theory Lcas
  imports Prime_Probe F64 Evset_Para Vtop Rusty
begin

text \<open>
  The monitor of the last-level caches of all sockets, \<open>vset --lcas\<close> (src/vset_ops.c): eviction sets
  are divided among the sockets, pairs of vCPUs of each socket watch them, and the sockets in the
  order of their load are written to a map that the scheduler of theory \<open>Rusty\<close> reads.

  The doubles are rational numbers rounded after every operation; sums of whole numbers of lines
  are exact. Workers of a socket touch different colours and run one after the other. Threads
  can be created, and the high priority group of processes is there.
\<close>

subsection \<open>Pairs of vCPUs\<close>

fun first_partner :: "cpu_topology \<Rightarrow> nat \<Rightarrow> nat list \<Rightarrow> nat option option" where
  "first_partner topo v1 [] = Some None"
| "first_partner topo v1 (v2 # vs) = do {
     rel \<leftarrow> relation topo v1 v2;
     if rel = CPU_RELATION_SMT then first_partner topo v1 vs else Some (Some v2)
   }"

fun first_pair :: "cpu_topology \<Rightarrow> nat list \<Rightarrow> (int \<times> int) option" where
  "first_pair topo [] = Some (- 1, - 1)"
| "first_pair topo (v1 # vs) = do {
     p \<leftarrow> first_partner topo v1 vs;
     case p of None \<Rightarrow> first_pair topo vs | Some v2 \<Rightarrow> Some (int v1, int v2)
   }"

definition select_vcpu_pair :: "socket_info \<Rightarrow> cpu_topology \<Rightarrow> (int \<times> int) option" where
  "select_vcpu_pair si topo = first_pair topo (socket_vcpus si)"

text \<open>The pairs of a socket: each vCPU that is still free with the first free one after it on another core.\<close>

fun free_partner :: "cpu_topology \<Rightarrow> nat list \<Rightarrow> bool list \<Rightarrow> nat \<Rightarrow> nat list \<Rightarrow> nat option option" where
  "free_partner topo vcpus used i [] = Some None"
| "free_partner topo vcpus used i (j # js) = do {
     u \<leftarrow> arr_get used j;
     if u then free_partner topo vcpus used i js
     else do {
       v1 \<leftarrow> arr_get vcpus i;
       v2 \<leftarrow> arr_get vcpus j;
       rel \<leftarrow> relation topo v1 v2;
       if rel = CPU_RELATION_SMT then free_partner topo vcpus used i js else Some (Some j)
     }
   }"

fun pair_loop :: "cpu_topology \<Rightarrow> nat list \<Rightarrow> nat \<Rightarrow> nat list \<Rightarrow> bool list \<Rightarrow> (nat \<times> nat) list \<Rightarrow> (nat \<times> nat) list option" where
  "pair_loop topo vcpus max_pairs [] used pairs = Some pairs"
| "pair_loop topo vcpus max_pairs (i # is') used pairs =
     (if length pairs \<ge> max_pairs then Some pairs
      else do {
        u \<leftarrow> arr_get used i;
        if u then pair_loop topo vcpus max_pairs is' used pairs
        else do {
          p \<leftarrow> free_partner topo vcpus used i [i + 1..<length vcpus];
          case p of None \<Rightarrow> pair_loop topo vcpus max_pairs is' used pairs
          | Some j \<Rightarrow> pair_loop topo vcpus max_pairs is' (used[i := True, j := True]) (pairs @ [(vcpus ! i, vcpus ! j)])
        }
      })"

definition lcas_pairs :: "cpu_topology \<Rightarrow> nat list \<Rightarrow> (nat \<times> nat) list option" where
  "lcas_pairs topo vcpus = pair_loop topo vcpus (length vcpus div 2) [0..<length vcpus] (replicate MAX_CPUS False) []"

subsection \<open>Arguments\<close>

record lcas_conf =
  num_offsets :: nat
  num_l2_sets :: nat
  evsets_per_l2 :: nat

text \<open>The defaults of the monitor; \<open>None\<close> inside when more sets per L2 set are asked for than there are.\<close>

definition lcas_defaults :: "globals \<Rightarrow> nat \<Rightarrow> lcas_conf \<Rightarrow> lcas_conf" where
  "lcas_defaults g n_sockets cf =
     (let cf = (if num_offsets cf = 1 then cf\<lparr>num_offsets := 64\<rparr> else cf);
          cf = (if num_l2_sets cf = 0 then cf\<lparr>num_l2_sets := unat (g_n_uncertain_l2_sets g)\<rparr> else cf);
          cf = (if evsets_per_l2 cf = 1 then cf\<lparr>evsets_per_l2 := 2 * n_sockets\<rparr> else cf)
      in if evsets_per_l2 cf < n_sockets then cf\<lparr>evsets_per_l2 := n_sockets\<rparr> else cf)"

definition lcas_config :: "globals \<Rightarrow> nat \<Rightarrow> lcas_conf \<Rightarrow> lcas_conf option option" where
  "lcas_config g n_sockets cf =
     (let cf = lcas_defaults g n_sockets cf
      in if cache_uncertainty (l2_info g) = 0 then None
         else (let max_f = cache_uncertainty (l3_info g) div cache_uncertainty (l2_info g)
               in Some (if max_f = 0 \<or> evsets_per_l2 cf > unat max_f then None else Some cf)))"

subsection \<open>Sets of the sockets\<close>

record lcas_socket =
  color_sets :: "EvBuildConf EvSet option list list"
  color_counts :: "nat list"
  tot_avg :: "nat list list"
  wargs :: "l2c_occ_worker_arg list"

definition lcas_socket_new :: "nat \<Rightarrow> nat \<Rightarrow> lcas_socket" where
  "lcas_socket_new n_l2 max_sets =
     \<lparr>color_sets = replicate n_l2 (replicate max_sets None), color_counts = replicate n_l2 0, tot_avg = replicate n_l2 [0], wargs = []\<rparr>"

text \<open>One set: \<open>idx = color_counts[c]++; color_sets[c][idx] = ev\<close>\<close>

definition add_set :: "nat \<Rightarrow> EvBuildConf EvSet \<Rightarrow> lcas_socket \<Rightarrow> lcas_socket option" where
  "add_set c ev s = do {
     idx \<leftarrow> arr_get (color_counts s) c;
     row \<leftarrow> arr_get (color_sets s) c;
     row \<leftarrow> arr_set row idx (Some ev);
     Some (s\<lparr>color_counts := (color_counts s)[c := idx + 1], color_sets := (color_sets s)[c := row]\<rparr>)
   }"

fun distribute_sets ::
    "l3_entry list list \<Rightarrow> (nat \<times> nat \<times> nat) list \<Rightarrow> nat \<times> lcas_socket list \<Rightarrow> (nat \<times> lcas_socket list) option" where
  "distribute_sets complex [] st = Some st"
| "distribute_sets complex ((off, c, e) # cells) (ways, socks) = do {
     row \<leftarrow> arr_get complex off;
     entry \<leftarrow> arr_get row c;
     sets \<leftarrow> entry;
     ev \<leftarrow> arr_get sets e;
     case ev of None \<Rightarrow> distribute_sets complex cells (ways, socks)
     | Some (ev, _) \<Rightarrow>
         if ev_size ev = 0 then distribute_sets complex cells (ways, socks)
         else do {
           let sock = e mod length socks;
           s \<leftarrow> arr_get socks sock;
           s \<leftarrow> add_set c ev s;
           distribute_sets complex cells (if ways = 0 then ev_size ev else ways, socks[sock := s])
         }
   }"

definition all_cells :: "lcas_conf \<Rightarrow> (nat \<times> nat \<times> nat) list" where
  "all_cells cf = [(off, c, e). off \<leftarrow> [0..<num_offsets cf], c \<leftarrow> [0..<num_l2_sets cf], e \<leftarrow> [0..<evsets_per_l2 cf]]"

definition max_sets :: "lcas_conf \<Rightarrow> nat \<Rightarrow> nat" where
  "max_sets cf n_sockets = num_offsets cf * ((evsets_per_l2 cf + n_sockets - 1) div n_sockets)"

text \<open>The colours of a socket are shared out among its pairs in blocks.\<close>

definition worker_args :: "u64 \<Rightarrow> u64 \<Rightarrow> nat \<Rightarrow> nat \<Rightarrow> l2c_occ_worker_arg list" where
  "worker_args wait cycles_per_us n_colors n_pairs =
     map (\<lambda>(lo, hi). \<lparr>w_wait_us = ucast wait, w_cycles_per_us = cycles_per_us, w_iterations = 1, w_start_color = lo, w_num_colors = hi - lo\<rparr>)
       (block_ranges n_colors n_pairs)"

fun calloc_all :: "'m hw \<Rightarrow> nat list \<Rightarrow> 'm \<Rightarrow> bool \<times> 'm" where
  "calloc_all h [] m = (True, m)"
| "calloc_all h (sz # szs) m = (let (p, m) = os_calloc h sz m; (ok, m) = calloc_all h szs m in (p \<noteq> None \<and> ok, m))"

fun calloc_steps :: "'m hw \<Rightarrow> nat list list \<Rightarrow> 'm \<Rightarrow> bool \<times> 'm" where
  "calloc_steps h [] m = (True, m)"
| "calloc_steps h (b # bs) m = (let (ok, m) = calloc_all h b m in if ok then calloc_steps h bs m else (False, m))"

fun socket_workers ::
    "'m hw \<Rightarrow> cpu_topology \<Rightarrow> u64 \<Rightarrow> u64 \<Rightarrow> nat \<Rightarrow> (socket_info \<times> lcas_socket) list \<Rightarrow> 'm \<Rightarrow> (lcas_socket list option \<times> 'm) option" where
  "socket_workers h topo wait cycles_per_us n_colors [] m = Some (Some [], m)"
| "socket_workers h topo wait cycles_per_us n_colors ((si, s) # ss) m =
     (let (p, m) = os_calloc h (length (socket_vcpus si) div 2 * 8) m
      in do {
        pairs \<leftarrow> lcas_pairs topo (socket_vcpus si);
        let n_pairs = min (length pairs) n_colors;
        let (ok, m) = (if pairs = [] then (True, m) else calloc_all h [n_pairs * 8, n_pairs * 80] m);
        if p = None \<and> pairs \<noteq> [] then None
        else if \<not> ok then Some (None, m)
        else if pairs \<noteq> [] \<and> n_pairs = 0 then None
        else do {
          (rest, m) \<leftarrow> socket_workers h topo wait cycles_per_us n_colors ss m;
          Some (map_option (Cons (s\<lparr>wargs := if pairs = [] then [] else worker_args wait cycles_per_us n_colors n_pairs\<rparr>)) rest, m)
        }
      })"

text \<open>Everything before the loop, with the sets that the parallel builder returned.\<close>

definition lcas_setup ::
    "'m hw \<Rightarrow> cpu_topology \<Rightarrow> socket_info list \<Rightarrow> lcas_conf \<Rightarrow> l3_entry list list \<Rightarrow> u64 \<Rightarrow> u64 \<Rightarrow> 'm
       \<Rightarrow> ((nat \<times> lcas_socket list) option \<times> 'm) option" where
  "lcas_setup h topo sinfo cf complex wait freq m =
     (let n = length sinfo; n_l2 = num_l2_sets cf; (ok, m) = calloc_all h [n * 72, n * 8] m
      in if \<not> ok then Some (None, m)
         else if n = 0 then None
         else (let (ok, m) = calloc_steps h (concat (replicate n ([n_l2 * 8, n_l2 * 4, n_l2 * 8] # replicate n_l2 [max_sets cf n * 8, 8]))) m
               in if \<not> ok then Some (None, m)
                  else do {
                    (ways, socks) \<leftarrow> distribute_sets complex (all_cells cf) (0, replicate n (lcas_socket_new n_l2 (max_sets cf n)));
                    (socks, m) \<leftarrow> socket_workers h topo wait (if freq \<noteq> 0 then freq div 1000000 else 2000) n_l2 (zip sinfo socks) m;
                    Some (map_option (Pair ways) socks, m)
                  }))"

subsection \<open>Load of the sockets\<close>

fun run_workers ::
    "'m hw \<Rightarrow> globals \<Rightarrow> (u32 \<Rightarrow> 'm \<Rightarrow> 'm) \<Rightarrow> u32 \<Rightarrow> u64 \<Rightarrow> l2c_occ_worker_arg list \<Rightarrow> lcas_socket \<Rightarrow> 'm \<Rightarrow> (lcas_socket \<times> 'm) option" where
  "run_workers h g sleep scan_period_ms wait [] s m = Some (s, m)"
| "run_workers h g sleep scan_period_ms wait (w # ws) s m = do {
     ((sets, tot), m) \<leftarrow> l2c_occ_worker h g sleep scan_period_ms (w\<lparr>w_wait_us := ucast wait\<rparr>) (color_sets s) (color_counts s) (tot_avg s) m;
     run_workers h g sleep scan_period_ms wait ws (s\<lparr>color_sets := sets, tot_avg := tot\<rparr>) m
   }"

definition socket_load :: "nat \<Rightarrow> lcas_socket \<Rightarrow> rat option" where
  "socket_load ways s = do {
     es \<leftarrow> those (map (\<lambda>row. arr_get row 0) (tot_avg s));
     let total_e = sum_list es;
     let total_l = sum_list (map (\<lambda>n. ways * n) (color_counts s));
     let hot = (if total_l \<noteq> 0 then fl (of_nat total_e / of_nat total_l) else 0);
     Some (if hot < 0 then 0 else if hot > 1 then 1 else hot)
   }"

definition lcas_ewma :: "bool \<Rightarrow> rat \<Rightarrow> rat \<Rightarrow> rat \<Rightarrow> rat \<Rightarrow> rat" where
  "lcas_ewma first alpha_rise alpha_fall old hot =
     (if first then hot
      else (let alpha = (if hot > old then alpha_rise else alpha_fall) in fl (fl (alpha * old) + fl (fl (1 - alpha) * hot))))"

text \<open>The literal \<open>0.95\<close>\<close>

definition dbl_0_95 :: rat where "dbl_0_95 = 0x1E666666666666 / 2 ^ 53"

text \<open>A socket without a pair is not measured and keeps its value; otherwise also whether the load is high.\<close>

definition scan_socket ::
    "'m hw \<Rightarrow> globals \<Rightarrow> (u32 \<Rightarrow> 'm \<Rightarrow> 'm) \<Rightarrow> u32 \<Rightarrow> u64 \<Rightarrow> nat \<Rightarrow> bool \<Rightarrow> rat \<Rightarrow> rat \<Rightarrow> lcas_socket \<Rightarrow> rat \<Rightarrow> 'm
       \<Rightarrow> ((lcas_socket \<times> rat \<times> bool) \<times> 'm) option" where
  "scan_socket h g sleep scan_period_ms wait ways first alpha_rise alpha_fall s old m =
     (if wargs s = [] then Some ((s, old, False), m)
      else do {
        rows \<leftarrow> those (map (\<lambda>row. arr_set row 0 0) (tot_avg s));
        (s, m) \<leftarrow> run_workers h g sleep scan_period_ms wait (wargs s) (s\<lparr>tot_avg := rows\<rparr>) m;
        hot \<leftarrow> socket_load ways s;
        let v = lcas_ewma first alpha_rise alpha_fall old hot;
        Some ((s, v, v \<ge> dbl_0_95), m)
      })"

fun scan_sockets ::
    "'m hw \<Rightarrow> globals \<Rightarrow> (u32 \<Rightarrow> 'm \<Rightarrow> 'm) \<Rightarrow> u32 \<Rightarrow> u64 \<Rightarrow> nat \<Rightarrow> bool \<Rightarrow> rat \<Rightarrow> rat \<Rightarrow> (lcas_socket \<times> rat) list \<Rightarrow> 'm
       \<Rightarrow> ((lcas_socket \<times> rat \<times> bool) list \<times> 'm) option" where
  "scan_sockets h g sleep scan_period_ms wait ways first alpha_rise alpha_fall [] m = Some ([], m)"
| "scan_sockets h g sleep scan_period_ms wait ways first alpha_rise alpha_fall ((s, old) # ss) m = do {
     (x, m) \<leftarrow> scan_socket h g sleep scan_period_ms wait ways first alpha_rise alpha_fall s old m;
     (xs, m) \<leftarrow> scan_sockets h g sleep scan_period_ms wait ways first alpha_rise alpha_fall ss m;
     Some (x # xs, m)
   }"

subsection \<open>The order of the sockets\<close>

definition LCAS_MAX_SOCKETS :: nat where "LCAS_MAX_SOCKETS = 16"

definition lcas_level :: "rat \<Rightarrow> int" where
  "lcas_level h = (let pct = fl (h * 100) in if pct < 40 then 0 else if pct < 65 then 1 else if pct < 85 then 2 else 3)"

type_synonym socket_hot = "u32 \<times> rat"

definition cmp_cool :: "socket_hot \<Rightarrow> socket_hot \<Rightarrow> int" where
  "cmp_cool a b = (if snd a > snd b then 1 else if snd a < snd b then - 1 else 0)"

text \<open>Writing outside of the map fails, which is not looked at; without the map nothing is written.\<close>

definition update_lcas_map :: "u32 list \<Rightarrow> bool \<Rightarrow> u32 list option \<Rightarrow> u32 list option" where
  "update_lcas_map order no_pref =
     map_option (\<lambda>mp. if no_pref then mp[0 := of_nat (length order)] else fold (\<lambda>(i, v) mp. mp[i := v]) (enumerate 0 order) mp)"

record lcas_state =
  lc_ewma :: "rat list"
  lc_first :: bool
  lc_shrink :: nat
  lc_wait :: u64
  lc_last_order :: "u32 list"
  lc_change :: int
  lc_coldest :: u32

definition lcas_start :: "nat \<Rightarrow> u64 \<Rightarrow> lcas_state" where
  "lcas_start n wait = \<lparr>lc_ewma = replicate n 0, lc_first = True, lc_shrink = 0, lc_wait = wait,
     lc_last_order = replicate LCAS_MAX_SOCKETS 0, lc_change = 0, lc_coldest = of_nat LCAS_MAX_SOCKETS\<rparr>"

definition shrink_wait :: "bool \<Rightarrow> bool \<Rightarrow> lcas_state \<Rightarrow> lcas_state" where
  "shrink_wait fix_wait all_high st =
     (if \<not> fix_wait \<and> lc_wait st > 1000
      then (let k = (if all_high then lc_shrink st + 1 else 0)
            in if k \<ge> 2 then st\<lparr>lc_wait := lc_wait st - 1000, lc_shrink := 0\<rparr> else st\<lparr>lc_shrink := k\<rparr>)
      else st)"

definition set_last_order :: "u32 list \<Rightarrow> lcas_state \<Rightarrow> lcas_state" where
  "set_last_order order st = st\<lparr>lc_last_order := order @ drop (length order) (lc_last_order st)\<rparr>"

definition all_same_level :: "socket_hot list \<Rightarrow> bool" where
  "all_same_level tmp = list_all (\<lambda>x. lcas_level (snd x) = lcas_level (snd (hd tmp))) tmp"

definition lcas_publish ::
    "(socket_hot list \<Rightarrow> socket_hot list) \<Rightarrow> int list \<Rightarrow> lcas_state \<Rightarrow> u32 list option \<Rightarrow> (lcas_state \<times> u32 list option) option" where
  "lcas_publish qsort ids st mp =
     (if ids = [] \<or> length ids > LCAS_MAX_SOCKETS then None
      else do {
        let tmp = qsort (zip (map of_int ids) (lc_ewma st));
        let order = map fst tmp;
        let no_pref = all_same_level tmp;
        let mp = update_lcas_map order no_pref mp;
        let none = of_nat LCAS_MAX_SOCKETS;
        if lc_first st then Some (set_last_order order (st\<lparr>lc_coldest := if no_pref then none else hd order\<rparr>), mp)
        else if no_pref then Some (st\<lparr>lc_change := 0, lc_coldest := none\<rparr>, mp)
        else do {
          cold_lvl \<leftarrow> (if lc_coldest st = none then Some 4 else map_option lcas_level (arr_get (lc_ewma st) (unat (lc_coldest st))));
          let change = (if hd order \<noteq> lc_coldest st \<and> lcas_level (snd (hd tmp)) < cold_lvl then lc_change st + 1 else 0);
          if lc_coldest st = none \<or> change \<ge> 3
          then Some (set_last_order order (st\<lparr>lc_coldest := hd order, lc_change := 0\<rparr>), update_lcas_map order False mp)
          else if order \<noteq> take (length order) (lc_last_order st)
          then Some (set_last_order order (st\<lparr>lc_change := change\<rparr>), update_lcas_map order False mp)
          else Some (st\<lparr>lc_change := change\<rparr>, mp)
        }
      })"

text \<open>One turn of the loop of \<open>monitor_l3_occupancy_lcas\<close>.\<close>

record lcas_env =
  le_qsort :: "socket_hot list \<Rightarrow> socket_hot list"
  le_scan_period_ms :: u32
  le_lcas_period_ms :: u32
  le_alpha_rise :: rat
  le_alpha_fall :: rat
  le_fix_wait :: bool

definition lcas_round ::
    "'m hw \<Rightarrow> globals \<Rightarrow> lcas_env \<Rightarrow> (u32 \<Rightarrow> 'm \<Rightarrow> 'm) \<Rightarrow> int list \<Rightarrow> nat \<Rightarrow> lcas_socket list \<Rightarrow> lcas_state \<Rightarrow> u32 list option \<Rightarrow> 'm
       \<Rightarrow> ((lcas_socket list \<times> lcas_state \<times> u32 list option) \<times> 'm) option" where
  "lcas_round h g env sleep ids ways socks st mp m = do {
     (xs, m) \<leftarrow> scan_sockets h g sleep (le_scan_period_ms env) (lc_wait st) ways (lc_first st) (le_alpha_rise env) (le_alpha_fall env)
       (zip socks (lc_ewma st)) m;
     let st = shrink_wait (le_fix_wait env) (length (filter (snd \<circ> snd) xs) = length ids) (st\<lparr>lc_ewma := map (fst \<circ> snd) xs\<rparr>);
     (st, mp) \<leftarrow> lcas_publish (le_qsort env) ids st mp;
     Some ((map fst xs, st\<lparr>lc_first := False\<rparr>, mp), sleep (le_lcas_period_ms env * 1000) m)
   }"

text \<open>The monitor with the first \<open>k\<close> turns of its endless loop.\<close>

fun lcas_rounds ::
    "'m hw \<Rightarrow> globals \<Rightarrow> lcas_env \<Rightarrow> (u32 \<Rightarrow> 'm \<Rightarrow> 'm) \<Rightarrow> int list \<Rightarrow> nat \<Rightarrow> nat \<Rightarrow> lcas_socket list \<Rightarrow> lcas_state \<Rightarrow> u32 list option \<Rightarrow> 'm
       \<Rightarrow> ((lcas_socket list \<times> lcas_state \<times> u32 list option) \<times> 'm) option" where
  "lcas_rounds h g env sleep ids ways 0 socks st mp m = Some ((socks, st, mp), m)"
| "lcas_rounds h g env sleep ids ways (Suc k) socks st mp m = do {
     ((socks, st, mp), m) \<leftarrow> lcas_round h g env sleep ids ways socks st mp m;
     lcas_rounds h g env sleep ids ways k socks st mp m
   }"

definition monitor_l3_occupancy_lcas ::
    "'m hw \<Rightarrow> globals \<Rightarrow> EvBuildConf \<Rightarrow> EvBuildConf \<Rightarrow> bool \<Rightarrow> ('m \<Rightarrow> cpu_topology option \<times> 'm) \<Rightarrow> lcas_env \<Rightarrow> (u32 \<Rightarrow> 'm \<Rightarrow> 'm)
       \<Rightarrow> lcas_conf \<Rightarrow> u64 \<Rightarrow> u64 \<Rightarrow> nat \<Rightarrow> u32 list option \<Rightarrow> 'm
       \<Rightarrow> ((lcas_socket list \<times> lcas_state \<times> u32 list option) option \<times> 'm) option" where
  "monitor_l3_occupancy_lcas h g l2conf l3conf vtop detect env sleep cf wait freq k mp m =
     (if \<not> vtop then Some (None, m)
      else (let (topo, m) = get_vcpu_topo detect m
            in case topo of None \<Rightarrow> Some (None, m)
               | Some topo \<Rightarrow> do {
                   sinfo \<leftarrow> get_socket_info (Some topo);
                   cf \<leftarrow> lcas_config g (length sinfo) cf;
                   case cf of None \<Rightarrow> Some (None, m)
                   | Some cf \<Rightarrow> do {
                       (built, m) \<leftarrow> build_l3_evsets_para_gran h g l2conf l3conf (evsets_per_l2 cf) (Some detect) (num_l2_sets cf) (num_offsets cf) None m;
                       case built of None \<Rightarrow> Some (None, m)
                       | Some (_, sh) \<Rightarrow> do {
                           (st, m) \<leftarrow> lcas_setup h topo sinfo cf (ps_results sh) wait freq m;
                           case st of None \<Rightarrow> Some (None, m)
                           | Some (ways, socks) \<Rightarrow> do {
                               (r, m) \<leftarrow> lcas_rounds h g env sleep (map socket_id sinfo) ways k socks (lcas_start (length sinfo) wait) mp m;
                               Some (Some r, m)
                             }
                         }
                     }
                 }))"

subsection \<open>Pairs\<close>

text \<open>The vCPUs of a socket that are in use are those of its pairs.\<close>

definition pairs_use :: "cpu_topology \<Rightarrow> nat list \<Rightarrow> bool list \<Rightarrow> (nat \<times> nat) list \<Rightarrow> bool" where
  "pairs_use topo vcpus used pairs \<longleftrightarrow> distinct (concat (map (\<lambda>(a, b). [a, b]) pairs))
     \<and> set (concat (map (\<lambda>(a, b). [a, b]) pairs)) = {vcpus ! i | i. i < length vcpus \<and> used ! i}
     \<and> (\<forall>(a, b) \<in> set pairs. relation topo a b \<noteq> Some CPU_RELATION_SMT)"

lemma free_partner_found:
  assumes "i < length vcpus" "\<forall>v \<in> set vcpus. \<forall>w \<in> set vcpus. relation topo v w \<noteq> None" "length vcpus \<le> length used"
  shows "set js \<subseteq> {..<length vcpus} \<Longrightarrow> \<exists>p. free_partner topo vcpus used i js = Some p
    \<and> (\<forall>j. p = Some j \<longrightarrow> j \<in> set js \<and> \<not> used ! j \<and> relation topo (vcpus ! i) (vcpus ! j) \<noteq> Some CPU_RELATION_SMT)"
proof (induction js)
  case (Cons j js)
  then obtain rel where rel: "relation topo (vcpus ! i) (vcpus ! j) = Some rel" using assms(1,2) by fastforce
  have "arr_get used j = Some (used ! j)" "arr_get vcpus i = Some (vcpus ! i)" "arr_get vcpus j = Some (vcpus ! j)"
    using Cons.prems assms(1,3) by (auto simp: arr_simps)
  then show ?case using Cons rel by auto
qed simp

lemma pairs_use_add:
  assumes "pairs_use topo vcpus used pairs" "distinct vcpus" "i < length vcpus" "j < length vcpus" "i \<noteq> j" "\<not> used ! i" "\<not> used ! j"
    and "length vcpus \<le> length used" "relation topo (vcpus ! i) (vcpus ! j) \<noteq> Some CPU_RELATION_SMT"
  shows "pairs_use topo vcpus (used[i := True, j := True]) (pairs @ [(vcpus ! i, vcpus ! j)])"
proof -
  have b: "i < length used" "j < length used" using assms(3,4,8) by simp_all
  have "{vcpus ! k | k. k < length vcpus \<and> used[i := True, j := True] ! k} = {vcpus ! k | k. k < length vcpus \<and> used ! k} \<union> {vcpus ! i, vcpus ! j}"
    using assms(3,4) b by (auto simp: nth_list_update)
  moreover have "vcpus ! k \<notin> {vcpus ! l | l. l < length vcpus \<and> used ! l}" if "k < length vcpus" "\<not> used ! k" for k
    using that assms(2) by (auto simp: nth_eq_iff_index_eq)
  ultimately show ?thesis
    using assms(1,2,3,4,5,6,7,9) unfolding pairs_use_def by (simp add: nth_eq_iff_index_eq)
qed

lemma pair_loop_sound:
  assumes "distinct vcpus" "\<forall>v \<in> set vcpus. \<forall>w \<in> set vcpus. relation topo v w \<noteq> None"
  shows "set is' \<subseteq> {..<length vcpus} \<Longrightarrow> length vcpus \<le> length used \<Longrightarrow> pairs_use topo vcpus used pairs \<Longrightarrow>
    \<exists>used' pairs'. pair_loop topo vcpus k is' used pairs = Some pairs' \<and> pairs_use topo vcpus used' pairs'"
proof (induction is' arbitrary: used pairs)
  case (Cons i is')
  have i: "i < length vcpus" "arr_get used i = Some (used ! i)" using Cons.prems(1,2) by (auto simp: arr_simps)
  have js: "set [i + 1..<length vcpus] \<subseteq> {..<length vcpus}" by auto
  obtain p where p: "free_partner topo vcpus used i [i + 1..<length vcpus] = Some p"
      "\<forall>j. p = Some j \<longrightarrow> j \<in> set [i + 1..<length vcpus] \<and> \<not> used ! j \<and> relation topo (vcpus ! i) (vcpus ! j) \<noteq> Some CPU_RELATION_SMT"
    using free_partner_found [OF i(1) assms(2) Cons.prems(2) js] by blast
  have rest: "set is' \<subseteq> {..<length vcpus}" using Cons.prems(1) by simp
  show ?case
  proof (cases "k \<le> length pairs \<or> used ! i \<or> p = None")
    case True
    then show ?thesis using Cons.IH [OF rest Cons.prems(2,3)] Cons.prems(3) i(2) p(1) by auto
  next
    case False
    then obtain j where j: "p = Some j" by blast
    have "pairs_use topo vcpus (used[i := True, j := True]) (pairs @ [(vcpus ! i, vcpus ! j)])"
      using False p(2) j by (intro pairs_use_add [OF Cons.prems(3) assms(1) i(1) _ _ _ _ Cons.prems(2)]) auto
    then show ?thesis using Cons.IH [OF rest, of "used[i := True, j := True]"] Cons.prems(2) False i(2) p(1) j by simp
  qed
qed auto

text \<open>No vCPU is in two pairs, all are of the socket, and no pair shares a core.\<close>

lemma lcas_pairs_sound:
  assumes "distinct vcpus" "length vcpus \<le> MAX_CPUS" "\<forall>v \<in> set vcpus. \<forall>w \<in> set vcpus. relation topo v w \<noteq> None"
  shows "\<exists>pairs. lcas_pairs topo vcpus = Some pairs \<and> distinct (concat (map (\<lambda>(a, b). [a, b]) pairs))
    \<and> set (concat (map (\<lambda>(a, b). [a, b]) pairs)) \<subseteq> set vcpus \<and> (\<forall>(a, b) \<in> set pairs. relation topo a b \<noteq> Some CPU_RELATION_SMT)"
proof -
  have "pairs_use topo vcpus (replicate MAX_CPUS False) []" using assms(2) by (auto simp: pairs_use_def)
  then obtain used' pairs where "lcas_pairs topo vcpus = Some pairs" "pairs_use topo vcpus used' pairs"
    using pair_loop_sound [OF assms(1,3), of "[0..<length vcpus]" "replicate MAX_CPUS False" "[]" "length vcpus div 2"] assms(2)
    by (auto simp: lcas_pairs_def atLeast0LessThan)
  then show ?thesis by (auto simp: pairs_use_def)
qed

subsection \<open>The map after a round\<close>

lemma write_entries: "fold (\<lambda>(i, v) mp. mp[i := v]) (enumerate k vs) mp = take k mp @ take (length mp - k) vs @ drop (k + length vs) mp"
proof (induction vs arbitrary: k mp)
  case (Cons v vs)
  show ?case
  proof (cases "k < length mp")
    case True
    then have "take (Suc k) (mp[k := v]) = take k mp @ [v]" by (simp add: take_Suc_conv_app_nth)
    moreover have "length mp - k = Suc (length mp - Suc k)" using True by simp
    ultimately show ?thesis using Cons.IH [of "Suc k" "mp[k := v]"] by simp
  next
    case False
    then show ?thesis using Cons.IH [of "Suc k" mp] by (simp add: list_update_beyond)
  qed
qed simp

lemma update_order: "update_lcas_map order False mp = map_option (\<lambda>mp. take (length mp) order @ drop (length order) mp) mp"
  by (simp add: update_lcas_map_def write_entries [of 0, simplified])

lemma update_twice: "update_lcas_map order False (update_lcas_map order False mp) = update_lcas_map order False mp"
proof (cases mp)
  case (Some a)
  then show ?thesis by (cases "length order \<le> length a") (simp_all add: update_order)
qed (simp add: update_order)

text \<open>What is written depends on the loads alone, and not on the decisions of earlier rounds.\<close>

lemma publish_map:
  assumes "lcas_publish qsort ids st mp = Some (st', mp')"
  defines "tmp \<equiv> qsort (zip (map of_int ids) (lc_ewma st))"
  shows "mp' = update_lcas_map (map fst tmp) (all_same_level tmp) mp" "lc_ewma st' = lc_ewma st" "ids \<noteq> []"
  using assms(1) update_twice [of "map fst tmp" mp]
  by (auto simp: lcas_publish_def tmp_def [symmetric] Let_def set_last_order_def split: if_splits Option.bind_splits)

lemma scan_length:
  "scan_sockets h g sleep sp wait ways first rise fall ss m = Some (xs, m') \<Longrightarrow> length xs = length ss"
  by (induction ss arbitrary: xs m m') (auto split: Option.bind_splits)

lemma round_map:
  assumes "lcas_round h g env sleep ids ways socks st mp m = Some ((socks', st', mp'), m')"
    and "length socks = length ids" "length (lc_ewma st) = length ids"
  defines "tmp \<equiv> le_qsort env (zip (map of_int ids) (lc_ewma st'))"
  shows "mp' = update_lcas_map (map fst tmp) (all_same_level tmp) mp" "length (lc_ewma st') = length ids" "ids \<noteq> []"
proof -
  obtain xs m1 st1 where xs: "scan_sockets h g sleep (le_scan_period_ms env) (lc_wait st) ways (lc_first st) (le_alpha_rise env) (le_alpha_fall env)
        (zip socks (lc_ewma st)) m = Some (xs, m1)"
      "lcas_publish (le_qsort env) ids (shrink_wait (le_fix_wait env) (length (filter (snd \<circ> snd) xs) = length ids) (st\<lparr>lc_ewma := map (fst \<circ> snd) xs\<rparr>)) mp = Some (st1, mp')"
      "st' = st1\<lparr>lc_first := False\<rparr>"
    using assms(1) by (auto simp: lcas_round_def split: Option.bind_splits)
  have e: "lc_ewma (shrink_wait b c s) = lc_ewma s" for b c s by (simp add: shrink_wait_def Let_def)
  have "lc_ewma st' = map (fst \<circ> snd) xs" using publish_map(2) [OF xs(2)] xs(3) by (simp add: e)
  then show "mp' = update_lcas_map (map fst tmp) (all_same_level tmp) mp" "length (lc_ewma st') = length ids" "ids \<noteq> []"
    using publish_map(1,3) [OF xs(2)] scan_length [OF xs(1)] assms(2,3) by (simp_all add: e tmp_def)
qed

text \<open>The sorting function of the C library.\<close>

definition cool_sort_ok :: "(socket_hot list \<Rightarrow> socket_hot list) \<Rightarrow> bool" where
  "cool_sort_ok qsort \<longleftrightarrow> (\<forall>xs. mset (qsort xs) = mset xs \<and> sorted_wrt (\<lambda>a b. cmp_cool a b \<le> 0) (qsort xs))"

lemma coldest_first:
  assumes "cool_sort_ok qsort" "length ids = length hots" "ids \<noteq> []"
  shows "\<exists>k < length ids. hd (qsort (zip (map of_int ids) hots)) = (of_int (ids ! k), hots ! k) \<and> (\<forall>x \<in> set hots. hots ! k \<le> x)"
    "all_same_level (qsort (zip (map of_int ids) hots)) \<longleftrightarrow> (\<forall>x \<in> set hots. \<forall>y \<in> set hots. lcas_level x = lcas_level y)"
    "length (qsort (zip (map of_int ids) hots)) = length ids"
proof -
  let ?xs = "zip (map of_int ids) hots"
  have ms: "mset (qsort ?xs) = mset ?xs" and so: "sorted_wrt (\<lambda>a b. cmp_cool a b \<le> 0) (qsort ?xs)" using assms(1) by (auto simp: cool_sort_ok_def)
  show len: "length (qsort ?xs) = length ids" using mset_eq_length [OF ms] assms(2) by simp
  obtain t ts where t: "qsort ?xs = t # ts" using len assms(3) by (cases "qsort ?xs") auto
  have st: "set (qsort ?xs) = set ?xs" using mset_eq_setD [OF ms] .
  have hs: "set hots = snd ` set (qsort ?xs)" unfolding st using assms(2) by (metis map_snd_zip length_map set_map)
  have "t \<in> set ?xs" using st t by auto
  then obtain k where k: "k < length ids" "t = (of_int (ids ! k), hots ! k)" using assms(2) by (auto simp: in_set_zip)
  have "\<forall>x \<in> set (qsort ?xs). snd t \<le> snd x" using so t by (auto simp: cmp_cool_def split: if_splits)
  then show "\<exists>k < length ids. hd (qsort ?xs) = (of_int (ids ! k), hots ! k) \<and> (\<forall>x \<in> set hots. hots ! k \<le> x)"
    using k t hs by auto
  show "all_same_level (qsort ?xs) \<longleftrightarrow> (\<forall>x \<in> set hots. \<forall>y \<in> set hots. lcas_level x = lcas_level y)"
    unfolding hs ball_simps using t by (auto simp: all_same_level_def list_all_iff) (metis snd_conv)+
qed

subsection \<open>The scheduler follows the monitor\<close>

lemma lookups_take: "n \<le> length mp \<Longrightarrow> List.map_filter (lcas_lookup mp) [0..<n] = take n mp"
proof (induction n)
  case (Suc n)
  then show ?case by (simp add: List.map_filter_def lcas_lookup_def arr_simps take_Suc_conv_app_nth)
qed (simp add: List.map_filter_def)

text \<open>A hint that names a domain redirects the active tasks of the others, when the order is new.\<close>

lemma check_redirects:
  assumes "length mp = MAX_DOMS" "0 < length doms" "length doms \<le> MAX_DOMS" "unat (mp ! 0) < length doms"
    and "fst (check_lcas_order doms mp prev ts) \<noteq> prev" "elsewhere doms (unat (mp ! 0)) u" "bit (dom_mask (ts u)) (unat (mp ! 0))"
  shows "target_dom (snd (check_lcas_order doms mp prev ts) u) = mp ! 0"
proof -
  obtain v vs where v: "take (length doms) mp = v # vs" "v = mp ! 0"
    using assms(1,2,3) by (cases mp; cases doms) (auto simp: MAX_DOMS_def)
  have "display_order (length doms) mp = v # vs"
    using assms(1,3,4) v by (simp add: display_order_def lookups_take Let_def)
  then have "snd (check_lcas_order doms mp prev ts) = migrate_tasks_to_domain doms (unat (mp ! 0)) ts"
    using assms(5) v by (auto simp: check_lcas_order_def Let_def split: if_splits)
  then show ?thesis using migrate_targets [OF assms(4), of ts u] assms(3,4,6,7) by (simp add: MAX_DOMS_def)
qed

lemma domain_id: "0 \<le> i \<Longrightarrow> i < int (unat (n :: u32)) \<Longrightarrow> unat (of_int i :: u32) = nat i \<and> (of_int i :: u32) < n"
proof -
  assume i: "0 \<le> i" "i < int (unat n)"
  have "unat n < 2 ^ 32" using unsigned_less [where ?'a = nat, of n] by simp
  then have "nat i < 2 ^ 32" using i by linarith
  then have "unat (of_nat (nat i) :: u32) = nat i" by (simp only: unat_of_nat) (simp add: take_bit_nat_eq_self)
  then have "unat (of_int i :: u32) = nat i" using i(1) by simp
  moreover have "nat i < unat n" using i by linarith
  ultimately show ?thesis unfolding word_less_nat_alt by simp
qed


text \<open>
  C40: after a round in which all loads are on one level the monitor writes the number of its sockets
  as a mark for "no preference". The scheduler takes it as that only if it has no more domains than
  there are sockets; otherwise it prefers the domain of that number.
\<close>

theorem lcas_no_preference:
  assumes "cool_sort_ok (le_qsort env)" "length socks = length ids" "length (lc_ewma st) = length ids"
    and "lcas_round h g env sleep ids ways socks st (Some mp) m = Some ((socks', st', Some mp'), m')"
    and "\<forall>x \<in> set (lc_ewma st'). \<forall>y \<in> set (lc_ewma st'). lcas_level x = lcas_level y"
    and "length mp = MAX_DOMS" "unat (nr_doms r) \<le> MAX_DOMS" "cpu < RUSTY_MAX_CPUS" "length ids < 2 ^ 32"
  shows "if unat (nr_doms r) \<le> length ids
    then task_pick_domain r (lcas_lookup mp' 0) cpu policy has_mask cpumask rr t = task_pick_domain r None cpu policy has_mask cpumask rr t
    else cpumask_intersects_domain r cpumask (of_nat (length ids)) \<longrightarrow>
      fst (task_pick_domain r (lcas_lookup mp' 0) cpu policy has_mask cpumask rr t) = of_nat (length ids)"
proof -
  note rm = round_map [OF assms(4,2,3)]
  note cf = coldest_first [OF assms(1) rm(2) [symmetric] rm(3)]
  have "all_same_level (le_qsort env (zip (map of_int ids) (lc_ewma st')))" unfolding cf(2) by (rule assms(5))
  then have mp': "mp' = mp[0 := of_nat (length ids)]" using rm(1) cf(3) by (simp add: update_lcas_map_def)
  have look: "lcas_lookup mp' 0 = Some (of_nat (length ids))" using assms(6) by (simp add: mp' lcas_lookup_def arr_simps MAX_DOMS_def)
  have n: "unat (of_nat (length ids) :: u32) = length ids" using assms(9) by (simp only: unat_of_nat) (simp add: take_bit_nat_eq_self)
  show ?thesis
  proof (cases "unat (nr_doms r) \<le> length ids")
    case True
    then have "nr_doms r \<le> of_nat (length ids)" unfolding word_le_nat_alt n .
    then show ?thesis unfolding look using True pick_no_hint by (simp only: if_True)
  next
    case False
    then have "of_nat (length ids) < nr_doms r" unfolding word_less_nat_alt n by simp
    then show ?thesis unfolding look using False pick_hint [OF _ assms(7,8)] by simp
  qed
qed

text \<open>A socket without a pair of vCPUs keeps the load that it started with.\<close>

lemma scan_unmeasured:
  assumes "scan_sockets h g sleep sp wait ways first rise fall ss m = Some (xs, m')" "k < length ss" "wargs (fst (ss ! k)) = []"
  shows "fst (snd (xs ! k)) = snd (ss ! k)"
  using assms
proof (induction ss arbitrary: k xs m)
  case (Cons a ss)
  obtain s old where a: "a = (s, old)" by (cases a)
  obtain x m1 xs' where x: "scan_socket h g sleep sp wait ways first rise fall s old m = Some (x, m1)"
      "scan_sockets h g sleep sp wait ways first rise fall ss m1 = Some (xs', m')" "xs = x # xs'"
    using Cons.prems(1) by (auto simp: a split: Option.bind_splits)
  show ?case
  proof (cases k)
    case 0
    then show ?thesis using x(1,3) Cons.prems(3) by (auto simp: scan_socket_def a)
  next
    case (Suc j)
    then show ?thesis using Cons.IH [OF x(2), of j] Cons.prems(2,3) x(3) by simp
  qed
qed simp

subsection \<open>The sets of the sockets\<close>

definition cell_set :: "l3_entry list list \<Rightarrow> nat \<times> nat \<times> nat \<Rightarrow> EvBuildConf EvSet option" where
  "cell_set complex = (\<lambda>(off, c, e). case (the (complex ! off ! c)) ! e of None \<Rightarrow> None | Some (ev, _) \<Rightarrow> if ev_size ev = 0 then None else Some ev)"

text \<open>The sets of colour \<open>c\<close> that belong to socket \<open>s\<close> of \<open>n\<close>, in the order of the cells.\<close>

definition share :: "l3_entry list list \<Rightarrow> nat \<Rightarrow> nat \<Rightarrow> nat \<Rightarrow> (nat \<times> nat \<times> nat) list \<Rightarrow> EvBuildConf EvSet list" where
  "share complex n s c cells = List.map_filter (cell_set complex) (filter (\<lambda>(_, c', e). c' = c \<and> e mod n = s) cells)"

definition shares_held :: "l3_entry list list \<Rightarrow> nat \<Rightarrow> nat \<Rightarrow> (nat \<times> nat \<times> nat) list \<Rightarrow> nat \<Rightarrow> lcas_socket list \<Rightarrow> bool" where
  "shares_held complex n_l2 room cells n socks \<longleftrightarrow> length socks = n
     \<and> (\<forall>s < n. length (color_counts (socks ! s)) = n_l2 \<and> length (color_sets (socks ! s)) = n_l2
        \<and> (\<forall>c < n_l2. color_counts (socks ! s) ! c = length (share complex n s c cells)
           \<and> color_sets (socks ! s) ! c = map Some (share complex n s c cells) @ replicate (room - length (share complex n s c cells)) None))"

lemma share_append: "share complex n s c (xs @ ys) = share complex n s c xs @ share complex n s c ys"
  by (simp add: share_def List.map_filter_def)

lemma share_one:
  "share complex n s c [(off, c', e)] = (if c' = c \<and> e mod n = s then case cell_set complex (off, c', e) of None \<Rightarrow> [] | Some ev \<Rightarrow> [ev] else [])"
  by (simp add: share_def List.map_filter_def split: option.split)

definition cell_ok :: "l3_entry list list \<Rightarrow> nat \<Rightarrow> nat \<times> nat \<times> nat \<Rightarrow> bool" where
  "cell_ok complex n_l2 = (\<lambda>(off, c, e). off < length complex \<and> c < length (complex ! off) \<and> c < n_l2
     \<and> (\<exists>sets. complex ! off ! c = Some sets \<and> e < length sets))"

lemma add_set_share:
  assumes "shares_held complex n_l2 room cells n socks" "c < n_l2" "e mod n < n" "cell_set complex (off, c, e) = Some ev"
    and "length (share complex n (e mod n) c (cells @ [(off, c, e)])) \<le> room"
  shows "\<exists>s'. add_set c ev (socks ! (e mod n)) = Some s' \<and> shares_held complex n_l2 room (cells @ [(off, c, e)]) n (socks[e mod n := s'])"
proof -
  let ?s = "e mod n" and ?old = "share complex n (e mod n) c cells"
  have sh: "share complex n s' c' (cells @ [(off, c, e)]) = share complex n s' c' cells @ (if c' = c \<and> s' = ?s then [ev] else [])" for s' c'
    using assms(4) by (auto simp: share_append share_one)
  have room: "length ?old < room" using assms(5) by (simp add: sh)
  have held: "length (color_counts (socks ! ?s)) = n_l2" "length (color_sets (socks ! ?s)) = n_l2" "color_counts (socks ! ?s) ! c = length ?old"
      "color_sets (socks ! ?s) ! c = map Some ?old @ replicate (room - length ?old) None"
    using assms(1-3) by (simp_all add: shares_held_def)
  have row: "(map Some ?old @ replicate (room - length ?old) None)[length ?old := Some ev] = map Some (?old @ [ev]) @ replicate (room - Suc (length ?old)) None"
    using room by (cases "room - length ?old") (simp_all add: list_update_append Suc_diff_Suc)
  define s' where "s' = (socks ! ?s)\<lparr>color_counts := (color_counts (socks ! ?s))[c := length ?old + 1],
     color_sets := (color_sets (socks ! ?s))[c := map Some (?old @ [ev]) @ replicate (room - Suc (length ?old)) None]\<rparr>"
  have "add_set c ev (socks ! ?s) = Some s'"
    using held assms(2) room row by (simp add: add_set_def arr_simps s'_def)
  moreover have "shares_held complex n_l2 room (cells @ [(off, c, e)]) n (socks[?s := s'])"
    unfolding shares_held_def sh using assms(1-3) held(1,2)
    by (auto simp: shares_held_def nth_list_update s'_def)
  ultimately show ?thesis by blast
qed

lemma distribute_shares:
  assumes "\<forall>x \<in> set cells. cell_ok complex n_l2 x" "0 < n" "shares_held complex n_l2 room seen n socks"
    and "\<forall>s < n. \<forall>c < n_l2. length (share complex n s c (seen @ cells)) \<le> room"
  shows "\<exists>ways' socks'. distribute_sets complex cells (ways, socks) = Some (ways', socks') \<and> shares_held complex n_l2 room (seen @ cells) n socks'"
  using assms(1,3,4)
proof (induction cells arbitrary: seen ways socks)
  case (Cons x cells)
  obtain off c e where x: "x = (off, c, e)" by (cases x)
  obtain sets where sets: "off < length complex" "c < length (complex ! off)" "c < n_l2" "complex ! off ! c = Some sets" "e < length sets"
    using Cons.prems(1) x by (auto simp: cell_ok_def)
  have n: "length socks = n" "e mod n < n" using Cons.prems(2) assms(2) by (simp_all add: shares_held_def)
  have acc: "arr_get complex off = Some (complex ! off)" "arr_get (complex ! off) c = Some (Some sets)" "arr_get sets e = Some (sets ! e)"
    using sets by (simp_all add: arr_simps)
  have all: "\<forall>s < n. \<forall>c < n_l2. length (share complex n s c ((seen @ [x]) @ cells)) \<le> room" using Cons.prems(3) by simp
  have ok: "\<forall>x \<in> set cells. cell_ok complex n_l2 x" using Cons.prems(1) by simp
  show ?case
  proof (cases "cell_set complex x")
    case None
    have "shares_held complex n_l2 room (seen @ [x]) n socks"
      using Cons.prems(2) None by (simp add: shares_held_def share_append share_one x)
    then show ?thesis
      using Cons.IH [OF ok _ all, of socks ways] None sets(4) acc by (auto simp: x cell_set_def split: option.splits if_splits)
  next
    case (Some ev)
    have "length (share complex n (e mod n) c (seen @ [x])) + length (share complex n (e mod n) c cells) \<le> room"
      using all [rule_format, OF n(2) sets(3)] by (simp only: share_append [of complex n "e mod n" c "seen @ [x]" cells] length_append)
    then have "length (share complex n (e mod n) c (seen @ [(off, c, e)])) \<le> room" unfolding x by linarith
    then obtain s' where s': "add_set c ev (socks ! (e mod n)) = Some s'" "shares_held complex n_l2 room (seen @ [x]) n (socks[e mod n := s'])"
      using add_set_share [OF Cons.prems(2) sets(3) n(2), of off ev] Some x by blast
    obtain b where b: "sets ! e = Some (ev, b)" "ev_size ev \<noteq> 0" using Some sets(4) by (auto simp: x cell_set_def split: option.splits if_splits)
    show ?thesis
      using Cons.IH [OF ok s'(2) all, of "if ways = 0 then ev_size ev else ways"] s'(1) b acc n by (simp add: x arr_simps)
  qed
qed simp

text \<open>A socket gets at most \<open>sets_per_color_socket\<close> sets of every cell, so that its rows are long enough.\<close>

lemma residues: "0 < n \<Longrightarrow> length (filter (\<lambda>e. e mod n = s) [0..<k]) \<le> (k + n - 1) div n"
proof -
  assume n: "0 < n"
  have "card {e. e < k \<and> e mod n = s} \<le> card {..<(k + n - 1) div n}"
  proof (rule card_inj_on_le)
    show "inj_on (\<lambda>e. e div n) {e. e < k \<and> e mod n = s}"
      by (rule inj_onI) (metis (mono_tags, lifting) div_mult_mod_eq mem_Collect_eq)
    have "e div n < (k + n - 1) div n" if "e < k" for e
    proof -
      have "(e div n + 1) * n \<le> e + n" using div_times_less_eq_dividend [of e n] by simp
      also have "\<dots> \<le> k + n - 1" using that by simp
      finally show ?thesis using n by (simp add: less_eq_div_iff_mult_less_eq Suc_le_eq [symmetric])
    qed
    then show "(\<lambda>e. e div n) ` {e. e < k \<and> e mod n = s} \<subseteq> {..<(k + n - 1) div n}" by auto
  qed simp
  moreover have "length (filter (\<lambda>e. e mod n = s) [0..<k]) = card {e. e < k \<and> e mod n = s}"
    by (subst distinct_card [symmetric]) (auto intro!: arg_cong [of _ _ card])
  ultimately show ?thesis by simp
qed

lemma count_upt: "count_list [0..<k] c = (if c < k then 1 else 0)"
  by (induction k) auto

lemma share_bound:
  assumes "0 < n"
  shows "length (share complex n s c (all_cells cf)) \<le> max_sets cf n"
proof -
  let ?P = "\<lambda>(_, c', e). c' = c \<and> e mod n = s"
  have one: "length (filter ?P (concat (map (\<lambda>c'. map (\<lambda>e. (off, c', e)) [0..<k]) cs))) \<le> count_list cs c * ((k + n - 1) div n)" for off k cs
  proof (induction cs)
    case (Cons c' cs)
    have "length (filter ?P (map (\<lambda>e. (off, c', e)) [0..<k])) = (if c' = c then length (filter (\<lambda>e. e mod n = s) [0..<k]) else 0)"
      by (simp add: filter_map comp_def)
    then show ?case using Cons residues [OF assms, of s k] by auto
  qed simp
  have "count_list [0..<num_l2_sets cf] c \<le> 1" by (simp add: count_upt)
  then have row: "length (filter ?P (concat (map (\<lambda>c'. map (\<lambda>e. (off, c', e)) [0..<k]) [0..<num_l2_sets cf]))) \<le> (k + n - 1) div n" for off k
    using one [of off k "[0..<num_l2_sets cf]"] mult_le_mono1 [of _ 1 "(k + n - 1) div n"] by (fastforce intro: order_trans)
  have "length (filter ?P (concat (map (\<lambda>off. concat (map (\<lambda>c'. map (\<lambda>e. (off, c', e)) [0..<k]) [0..<num_l2_sets cf])) offs))) \<le> length offs * ((k + n - 1) div n)" for offs k
  proof (induction offs)
    case (Cons off offs)
    then show ?case using row [of off k] by simp
  qed simp
  from this [of "evsets_per_l2 cf" "[0..<num_offsets cf]"] have "length (filter ?P (all_cells cf)) \<le> max_sets cf n"
    by (simp add: all_cells_def max_sets_def)
  moreover have "length (List.map_filter f xs) \<le> length xs" for f and xs :: "(nat \<times> nat \<times> nat) list" by (simp add: List.map_filter_def)
  ultimately show ?thesis unfolding share_def by (rule order_trans [rotated])
qed

text \<open>
  C20: the eviction sets are divided among the sockets without leaving an array, whatever sets are
  missing: for every colour, socket \<open>s\<close> of \<open>n\<close> has exactly the sets with a number \<open>e\<close> such that
  \<open>e mod n = s\<close>, of all page offsets, in their order.
\<close>

theorem lcas_sets_divided:
  assumes "0 < n" "\<forall>x \<in> set (all_cells cf). cell_ok complex (num_l2_sets cf) x"
  shows "\<exists>ways socks. distribute_sets complex (all_cells cf) (0, replicate n (lcas_socket_new (num_l2_sets cf) (max_sets cf n))) = Some (ways, socks)
    \<and> length socks = n \<and> (\<forall>s < n. \<forall>c < num_l2_sets cf.
        take (color_counts (socks ! s) ! c) (color_sets (socks ! s) ! c) = map Some (share complex n s c (all_cells cf)))"
proof -
  have "shares_held complex (num_l2_sets cf) (max_sets cf n) [] n (replicate n (lcas_socket_new (num_l2_sets cf) (max_sets cf n)))"
    by (simp add: shares_held_def lcas_socket_new_def share_def List.map_filter_def)
  then obtain ways socks where "distribute_sets complex (all_cells cf) (0, replicate n (lcas_socket_new (num_l2_sets cf) (max_sets cf n))) = Some (ways, socks)"
      "shares_held complex (num_l2_sets cf) (max_sets cf n) (all_cells cf) n socks"
    using distribute_shares [OF assms(2,1), where seen = "[]" and ways = 0] share_bound [OF assms(1)] unfolding append_Nil by blast
  then show ?thesis by (auto simp: shares_held_def)
qed

subsection \<open>Witnesses\<close>

definition lcas_demo_set :: "addr \<Rightarrow> (EvBuildConf EvSet \<times> bool) option" where
  "lcas_demo_set a = Some (watch_evset [a], True)"

theorem lcas_sets_divided_witness:
  "\<exists>ways socks. distribute_sets [[Some [lcas_demo_set 1, None, lcas_demo_set 3]]]
      (all_cells \<lparr>num_offsets = 1, num_l2_sets = 1, evsets_per_l2 = 3\<rparr>) (0, replicate 2 (lcas_socket_new 1 2)) = Some (ways, socks)
    \<and> take (color_counts (socks ! 0) ! 0) (color_sets (socks ! 0) ! 0) = [Some (watch_evset [1]), Some (watch_evset [3])]
    \<and> take (color_counts (socks ! 1) ! 0) (color_sets (socks ! 1) ! 0) = []"
proof -
  let ?cf = "\<lparr>num_offsets = 1, num_l2_sets = 1, evsets_per_l2 = 3\<rparr>" and ?cx = "[[Some [lcas_demo_set 1, None, lcas_demo_set 3]]]"
  have cells: "all_cells ?cf = [(0, 0, 0), (0, 0, 1), (0, 0, 2)]" by (simp add: all_cells_def upt_rec)
  have "\<forall>x \<in> set (all_cells ?cf). cell_ok ?cx (num_l2_sets ?cf) x" unfolding cells by (simp add: cell_ok_def)
  from lcas_sets_divided [OF _ this, of 2]
  obtain ways socks where w: "distribute_sets ?cx (all_cells ?cf) (0, replicate 2 (lcas_socket_new 1 2)) = Some (ways, socks)"
      "\<forall>s < 2. take (color_counts (socks ! s) ! 0) (color_sets (socks ! s) ! 0) = map Some (share ?cx 2 s 0 (all_cells ?cf))"
    by (auto simp: max_sets_def)
  have "share ?cx 2 0 0 (all_cells ?cf) = [watch_evset [1], watch_evset [3]]" "share ?cx 2 1 0 (all_cells ?cf) = []"
    unfolding cells by (simp_all add: share_def List.map_filter_def cell_set_def lcas_demo_set_def watch_evset_def)
  then have "take (color_counts (socks ! 0) ! 0) (color_sets (socks ! 0) ! 0) = [Some (watch_evset [1]), Some (watch_evset [3])]"
      "take (color_counts (socks ! 1) ! 0) (color_sets (socks ! 1) ! 0) = []"
    using w(2) [rule_format, of 0] w(2) [rule_format, of 1] by (simp_all only: list.map rel_simps)
  then show ?thesis using w(1) by blast
qed

definition demo_lcas_env :: lcas_env where
  "demo_lcas_env = \<lparr>le_qsort = sort_key snd, le_scan_period_ms = 1000, le_lcas_period_ms = 1000,
     le_alpha_rise = 1 / 2, le_alpha_fall = 1 / 2, le_fix_wait = False\<rparr>"

lemma demo_sort_ok: "cool_sort_ok (le_qsort demo_lcas_env)"
proof -
  have "cmp_cool a b \<le> 0 \<longleftrightarrow> snd a \<le> snd b" for a b by (auto simp: cmp_cool_def)
  then show ?thesis using sorted_sort_key [of "snd :: socket_hot \<Rightarrow> rat"] by (simp add: cool_sort_ok_def demo_lcas_env_def sorted_map)
qed

definition demo_lcas_state :: "rat list \<Rightarrow> lcas_state" where
  "demo_lcas_state loads = (lcas_start (length loads) 7000)\<lparr>lc_ewma := loads, lc_first := False\<rparr>"

lemma fl_whole: "fl 0 = 0" "fl 50 = 50"
  using fl_int [of 0] fl_int [of 50] by simp_all

definition demo_map :: "u32 list" where
  "demo_map = lcas_map_init 2"

lemma demo_round:
  "\<exists>socks' st' m'. lcas_round (lru_hw tiny_cfg) watch_globals demo_lcas_env (\<lambda>_ m. m) [0, 1] 2 (replicate 2 (lcas_socket_new 1 1))
      (demo_lcas_state [1 / 2, 0]) (Some demo_map) lru_empty = Some ((socks', st', Some (demo_map[0 := 1, 1 := 0])), m')
    \<and> lc_ewma st' = [1 / 2, 0]"
  "\<exists>socks' st' m'. lcas_round (lru_hw tiny_cfg) watch_globals demo_lcas_env (\<lambda>_ m. m) [0] 2 (replicate 1 (lcas_socket_new 1 1))
      (demo_lcas_state [0]) (Some demo_map) lru_empty = Some ((socks', st', Some (demo_map[0 := 1])), m') \<and> lc_ewma st' = [0]"
proof -
  note defs = lcas_round_def scan_socket_def lcas_socket_new_def demo_lcas_state_def lcas_start_def shrink_wait_def lcas_publish_def
    all_same_level_def lcas_level_def demo_lcas_env_def update_lcas_map_def set_last_order_def LCAS_MAX_SOCKETS_def fl_whole Let_def
  show "\<exists>socks' st' m'. lcas_round (lru_hw tiny_cfg) watch_globals demo_lcas_env (\<lambda>_ m. m) [0, 1] 2 (replicate 2 (lcas_socket_new 1 1))
      (demo_lcas_state [1 / 2, 0]) (Some demo_map) lru_empty = Some ((socks', st', Some (demo_map[0 := 1, 1 := 0])), m')
    \<and> lc_ewma st' = [1 / 2, 0]"
    by (simp add: defs numeral_2_eq_2 list_update_swap [of 0 "Suc 0"])
  show "\<exists>socks' st' m'. lcas_round (lru_hw tiny_cfg) watch_globals demo_lcas_env (\<lambda>_ m. m) [0] 2 (replicate 1 (lcas_socket_new 1 1))
      (demo_lcas_state [0]) (Some demo_map) lru_empty = Some ((socks', st', Some (demo_map[0 := 1])), m') \<and> lc_ewma st' = [0]"
    by (simp add: defs)
qed

definition demo_doms :: "dom_ctx option list" where
  "demo_doms = [Some \<lparr>read_idx = 0, write_idx = 1, tptrs = replicate MAX_DOM_ACTIVE_TPTRS (Some 7)\<rparr>, None]"

lemma two_doms_facts:
  "nr_doms two_doms = 2" "unat (nr_doms two_doms) \<le> MAX_DOMS" "length demo_doms = unat (nr_doms two_doms)" "length demo_map = MAX_DOMS"
  "elsewhere demo_doms 1 7" "cpumask_intersects_domain two_doms [0, 3] 1" "0 < RUSTY_MAX_CPUS"
  by (simp_all add: two_doms_def MAX_DOMS_def demo_doms_def demo_map_def lcas_map_init_def RUSTY_MAX_CPUS_def cpumask_intersects_domain_def
      elsewhere_def active_tasks_def MAX_DOM_ACTIVE_TPTRS_def exI [of _ 0])


text \<open>One socket and two domains: without a preference of the monitor, the task is put into domain 1.\<close>

theorem lcas_no_preference_witness:
  "\<exists>socks' st' mp' m'. lcas_round (lru_hw tiny_cfg) watch_globals demo_lcas_env (\<lambda>_ m. m) [0] 2 (replicate 1 (lcas_socket_new 1 1))
      (demo_lcas_state [0]) (Some demo_map) lru_empty = Some ((socks', st', Some mp'), m')
    \<and> fst (task_pick_domain two_doms (lcas_lookup mp' 0) 0 None True [0, 3] 0 \<lparr>dom_mask = 0, preferred_dom_mask = 0, target_dom = 0\<rparr>) = 1"
proof -
  obtain socks' st' m' where r: "lcas_round (lru_hw tiny_cfg) watch_globals demo_lcas_env (\<lambda>_ m. m) [0] 2 (replicate 1 (lcas_socket_new 1 1))
      (demo_lcas_state [0]) (Some demo_map) lru_empty = Some ((socks', st', Some (demo_map[0 := 1])), m')" "lc_ewma st' = [0]"
    using demo_round(2) by blast
  have l: "\<forall>x \<in> set (lc_ewma st'). \<forall>y \<in> set (lc_ewma st'). lcas_level x = lcas_level y" unfolding r(2) by simp
  note lcas_no_preference [OF demo_sort_ok _ _ r(1) l two_doms_facts(4,2,7), of None True "[0, 3]" 0 "\<lparr>dom_mask = 0, preferred_dom_mask = 0, target_dom = 0\<rparr>"]
  then have "fst (task_pick_domain two_doms (lcas_lookup (demo_map[0 := 1]) 0) 0 None True [0, 3] 0 \<lparr>dom_mask = 0, preferred_dom_mask = 0, target_dom = 0\<rparr>) = 1"
    using two_doms_facts(6) by (simp add: demo_lcas_state_def two_doms_facts(1))
  then show ?thesis using r(1) by blast
qed

end
