(* ===== verification/Spec2Isabelle.thy ===== *)
theory Spec2Isabelle
  imports Filter_Exact Lru_L2 Para_Claims Latency_Thresh Helper_Thread Vtop_Sockets Vcolor Gpa_Hpa
    Lcas
begin

text \<open>
  EvCache finds out, inside a virtual machine, how the caches of the host are laid out and how
  busy they are. It builds eviction sets (minimal groups of addresses that fill one set of a cache),
  watches them, and uses what it learns: \<open>vcolor\<close> steers the page cache of the guest to the part of
  the last-level cache that is already busy, and \<open>vset --lcas\<close> steers tasks to the socket whose cache
  is least busy. This development models the program and proves what its
  parts promise.

  \<^bold>\<open>Parts and theories.\<close>

  \<^item> \<^bold>\<open>Vocabulary.\<close> \<open>Ev_Prelude\<close>: the integer types of include/common.h, C arrays as lists with
    option-valued access (\<open>arr_get\<close>, \<open>arr_set\<close>, \<open>arr_swap\<close>, \<open>arr_copy\<close>), the division of work into
    blocks that every threaded function uses (\<open>block_ranges\<close>). \<open>Kernel_Text\<close>: the text functions of
    the kernel and of snprintf/sscanf. \<open>F64\<close>: doubles.
  \<^item> \<^bold>\<open>Cache description\<close> (include/bitwise.h, include/cache_info.h, src/cache_info.c).
    \<open>Cache_Geometry\<close>: \<open>CacheInfo\<close>, the decoding of cpuid (\<open>init_l1_info\<close>, \<open>init_l2_info\<close>,
    \<open>init_l3_info\<close>), set index and colour of an address. Lemmas: bit ranges read back what was
    written; the index is colour and offset; the uncertainty counts colours and slices.
  \<^item> \<^bold>\<open>Machine\<close> (include/asm.h, include/cache_ops.h, src/cache_ops.c). \<open>Hardware\<close>: the processor and the
    operating system as a record \<open>hw\<close> of operations on an abstract state; the access sequences are
    definitions over it. \<open>Lru_Machine\<close> is a concrete machine with one level of least recently used
    replacement on which the exactness results are stated.
  \<^item> \<^bold>\<open>Eviction sets\<close> (src/evset.c). \<open>Evset_Data\<close>: structures, configurations, buffers and pools;
    \<open>Evset_Test\<close>: \<open>test_eviction\<close>, filtering, pruning, population; \<open>Evset_Zhao\<close>: the binary search
    \<open>build_evset_zhao\<close>; \<open>Evset_L2\<close>: \<open>build_l2_evset\<close>; \<open>Evset_L3\<close>: \<open>build_evsets_at\<close>,
    \<open>build_single_l3_evset\<close>, the pools of all sets. Lemmas in three layers: on every machine the
    functions return, stay in their arrays and only permute the pool (\<open>Evset_Zhao\<close>, \<open>Evset_Returns\<close>,
    \<open>L2_Safe\<close>, \<open>L3_Safe\<close>); with a truthful test the search finds exactly the congruent lines
    (\<open>Evset_Exact\<close>, \<open>L2_Exact\<close>); the test of the source is truthful on the machine with least recently
    used replacement (\<open>Lru_Machine\<close>, \<open>Filter_Exact\<close>, \<open>Lru_L2\<close>). The locales \<open>safe_tester\<close>,
    \<open>l2_machine\<close>, \<open>l2_exact\<close>, \<open>l3_machine\<close> are the interfaces between the layers.
  \<^item> \<^bold>\<open>Parallel construction\<close> (src/evset_para.c). \<open>Evset_Para\<close>: pairs of threads, shares, workers,
    \<open>build_l3_evsets_para_gran\<close>; \<open>Para_Safe\<close>: the granular builder is sound; \<open>Para_Claims\<close>: the
    workers that draw offsets from a shared counter, as a step relation: every offset is drawn
    once, the threads end, and a helper that cannot be started blocks the main thread.
  \<^item> \<^bold>\<open>Helper thread\<close> (include/helper_thread.h, src/helper_thread.c). \<open>Helper_Thread\<close>: the two threads
    and their control block as a step relation; calls are atomic and return.
  \<^item> \<^bold>\<open>Latencies\<close> (src/lats.c, include/lats.h). \<open>Latency\<close>: medians, the least frequent cluster, the four
    measurements, the thresholds with IEEE rounding; \<open>Latency_Thresh\<close>: the thresholds separate
    the levels.
  \<^item> \<^bold>\<open>Topology\<close> (src/utils.c, vm_tools/vtop.c). \<open>Topo_Utils\<close>: sockets, pairs, physical cores, address
    translation; \<open>Vtop\<close>: the detection of sockets from latencies; \<open>Vtop_Props\<close>: the propagation of
    latency classes is a minimax closure; \<open>Vtop_Sockets\<close>: the detection is right about sockets and
    not about hardware threads.
  \<^item> \<^bold>\<open>Watching\<close> (src/vset_ops.c). \<open>Prime_Probe\<close>: priming and probing of eviction sets, and the workers
    of the occupancy and of the heat map monitors. On the machine with least recently used
    replacement their counts are exactly the lines that others have displaced. \<open>Lcas\<close>: the monitor
    of all sockets, which divides the sets among them and publishes the order of their loads.
  \<^item> \<^bold>\<open>Scheduler\<close> (scx/scheds/rust/scx_rusty). \<open>Rusty\<close>: the choice of a domain for a task and the
    redirection of active tasks, as far as the map of preferred domains steers them. The
    properties of \<open>Lcas\<close> are about the composition of monitor and scheduler.
  \<^item> \<^bold>\<open>Coloured pages\<close> (kern_mods/vcolor_km, src/vcolor.c). \<open>Vcolor_Pool\<close>: the pools that the kernel
    patch adds to the page allocator, with their invariant \<open>vpool_ok\<close>; \<open>Vcolor_Km\<close>: the module that
    takes requests as text, and the kernel with it as a step relation; \<open>Vcolor\<close>: the tool. Its
    requests are parsed by the model of the module, so the properties there are about the
    composition of the two.
  \<^item> \<^bold>\<open>Host addresses\<close> (vm_tools/gpa_hpa.c, kern_mods/gpa_hpa_km). \<open>Gpa_Hpa\<close>: the hypercall, the guest
    module, the client, and the hash that gives the slice of an address.

  \<^bold>\<open>Conventions.\<close> Fixed-width integers are words where they can wrap, and natural numbers where they
  are counts that the source bounds; signed 32-bit values of the statistics are integers whose
  overflow is \<open>None\<close>. A result \<open>None\<close> of an executable function is undefined behaviour, a failed
  assertion, or a loop that does not end; a null pointer is an option inside the result. Loops
  are structural recursion, \<open>function\<close> with a measure, or \<open>partial_function (option)\<close>
  (\<open>measure_loop\<close>, \<open>count_bits\<close>, \<open>spin_until\<close>); when the latter end is a lemma beside them. Retry loops carry their own bound from the source, so no fuel is invented.
  Threads are step relations where their interleaving matters (\<open>Helper_Thread\<close>, \<open>Para_Claims\<close>,
  \<open>Vcolor_Km\<close>) and run one after the other where they work on disjoint data.

  \<^bold>\<open>Parameters.\<close> The machine (\<open>hw\<close>), the pagemap, sysfs, \<open>qsort\<close> (\<open>qsort_ok\<close>), the random choices of
  \<open>shuffle_index\<close>, the ping-pong of two pinned threads in vtop.c, the parts of the kernel around the
  patches, and the memory of the host are parameters; what is assumed of them is a hypothesis of
  the properties that need it, and every such property has a witness with a concrete instance.

  \<^bold>\<open>Not modelled.\<close> The monitors of src/vset_ops.c other than that of all sockets (they print and
  write graph files) and the programs src/vset.c, src/vevict.c,
  src/vpoisoner.c, src/polluter.c and src/vtest.c (option parsing, printing, graph files and loops
  that generate traffic); \<open>free\<close> of ordinary memory, messages and statistics of time; the read
  handler of vcolor_km.c; locks of the kernel patch, whose operations are single steps; the
  rest of the schedulers under scx, which do not use the caches, and the scripts.
\<close>

end
